(* ===== verification/LddPrelude.thy ===== *)
theory LddPrelude
  imports Main "HOL-Library.Word" "HOL-Library.Monad_Syntax"
begin

unbundle bit_operations_syntax

section \<open>Prelude: machine types, C memory, user memory and kernel return codes\<close>

text \<open>
  Shared vocabulary of the driver models.

  \<^item> C integers are words: \<open>byte\<close> (char, \<open>u8\<close>), \<open>cint\<close> (int), \<open>size_t\<close>
    and \<open>loff_t\<close> (64 bit, LP64). Signed reads go through \<open>sint\<close>, unsigned ones
    through \<open>unat\<close> or \<open>uint\<close>.
  \<^item> A handler that may run into undefined behaviour (an access outside an array, a self
    deadlock, an unlock of a mutex that is not held) returns an \<open>option\<close>: \<open>None\<close> is the
    undefined behaviour, \<open>Some\<close> the defined outcome.
  \<^item> Return codes are \<open>errno + size_t\<close>: \<open>Inl e\<close> is the negative errno, \<open>Inr n\<close> a
    count or zero.
  \<^item> \<open>copy_from_user\<close> and \<open>copy_to_user\<close> are not code of this repository. A call gets
    them as the argument \<open>uenv\<close>; what the drivers rely on is the predicate \<open>uaccess_ok\<close>.
\<close>

named_theorems mem_simps \<open>rewriting of bounds-checked accesses inside their bounds\<close>
named_theorems inv_intros \<open>preservation of component invariants\<close>

type_synonym byte = "8 word"
type_synonym cint = "32 word"
type_synonym size_t = "64 word"
type_synonym loff_t = "64 word"

subsection \<open>Errors\<close>

datatype errno =
    EPERM | ENOENT | EIO | EAGAIN | ENOMEM | EFAULT | EINVAL | ENOSPC | ENOTTY
  | ERESTARTSYS | ETIMEDOUT
  | KErr int \<comment> \<open>a code that a kernel call returned and the driver passes on\<close>

type_synonym ret = "errno + size_t"

subsection \<open>C arrays: reads and writes that check their bounds\<close>

definition mem_read :: "'a list \<Rightarrow> int \<Rightarrow> nat \<Rightarrow> 'a list option" where
  "mem_read a off n =
     (if 0 \<le> off \<and> nat off + n \<le> length a then Some (take n (drop (nat off) a)) else None)"

definition overlay :: "nat \<Rightarrow> 'a list \<Rightarrow> 'a list \<Rightarrow> 'a list" where
  "overlay off bs a = take off a @ bs @ drop (off + length bs) a"

definition mem_write :: "'a list \<Rightarrow> int \<Rightarrow> 'a list \<Rightarrow> 'a list option" where
  "mem_write a off bs =
     (if 0 \<le> off \<and> nat off + length bs \<le> length a then Some (overlay (nat off) bs a) else None)"

definition arr_get :: "'a list \<Rightarrow> int \<Rightarrow> 'a option" where
  "arr_get a i = (if 0 \<le> i \<and> nat i < length a then Some (a ! nat i) else None)"

definition arr_set :: "'a list \<Rightarrow> int \<Rightarrow> 'a \<Rightarrow> 'a list option" where
  "arr_set a i x = (if 0 \<le> i \<and> nat i < length a then Some (a[nat i := x]) else None)"

lemma mem_read_in [mem_simps]:
  "0 \<le> off \<Longrightarrow> nat off + n \<le> length a \<Longrightarrow> mem_read a off n = Some (take n (drop (nat off) a))"
  by (simp add: mem_read_def)

lemma mem_write_in [mem_simps]:
  "0 \<le> off \<Longrightarrow> nat off + length bs \<le> length a \<Longrightarrow>
     mem_write a off bs = Some (overlay (nat off) bs a)"
  by (simp add: mem_write_def)

lemma arr_get_in [mem_simps]: "0 \<le> i \<Longrightarrow> nat i < length a \<Longrightarrow> arr_get a i = Some (a ! nat i)"
  by (simp add: arr_get_def)

lemma arr_set_in [mem_simps]: "0 \<le> i \<Longrightarrow> nat i < length a \<Longrightarrow> arr_set a i x = Some (a[nat i := x])"
  by (simp add: arr_set_def)

lemma arr_set_nat [mem_simps]: "i < length a \<Longrightarrow> arr_set a (int i) x = Some (a[i := x])"
  by (simp add: arr_set_def)

lemma mem_read_SomeD:
  "mem_read a off n = Some bs \<Longrightarrow>
     0 \<le> off \<and> nat off + n \<le> length a \<and> bs = take n (drop (nat off) a) \<and> length bs = n"
  by (auto simp: mem_read_def split: if_splits)

lemma mem_write_SomeD:
  "mem_write a off bs = Some a' \<Longrightarrow>
     0 \<le> off \<and> nat off + length bs \<le> length a \<and> a' = overlay (nat off) bs a"
  by (auto simp: mem_write_def split: if_splits)

lemma length_overlay [simp]: "off + length bs \<le> length a \<Longrightarrow> length (overlay off bs a) = length a"
  by (simp add: overlay_def)

lemma overlay_Nil [simp]: "off \<le> length a \<Longrightarrow> overlay off [] a = a"
  by (simp add: overlay_def)

lemma take_drop_overlay [simp]:
  "off + length bs \<le> length a \<Longrightarrow> take (length bs) (drop off (overlay off bs a)) = bs"
  by (simp add: overlay_def)

lemma nth_overlay:
  "off + length bs \<le> length a \<Longrightarrow> i < length a \<Longrightarrow>
     overlay off bs a ! i = (if off \<le> i \<and> i < off + length bs then bs ! (i - off) else a ! i)"
  by (auto simp: overlay_def nth_append min_def)

lemma nth_overlay_outside:
  "off + length bs \<le> length a \<Longrightarrow> i < length a \<Longrightarrow> i < off \<or> off + length bs \<le> i \<Longrightarrow>
     overlay off bs a ! i = a ! i"
  by (auto simp: nth_overlay)

lemma take_overlay [simp]: "off + length bs \<le> length a \<Longrightarrow> n \<le> off \<Longrightarrow> take n (overlay off bs a) = take n a"
  by (simp add: overlay_def min_def)

lemma drop_overlay [simp]:
  "off + length bs \<le> length a \<Longrightarrow> off + length bs \<le> n \<Longrightarrow> drop n (overlay off bs a) = drop n a"
  by (simp add: overlay_def)

text \<open>A slice of an array is untouched by a overlay beside it.\<close>

lemma slice_overlay_disjoint:
  assumes "off + length bs \<le> length a" and "i + n \<le> length a"
    and "i + n \<le> off \<or> off + length bs \<le> i"
  shows "take n (drop i (overlay off bs a)) = take n (drop i a)"
proof (rule nth_equalityI)
  show "length (take n (drop i (overlay off bs a))) = length (take n (drop i a))"
    using assms(1) by simp
next
  fix j assume "j < length (take n (drop i (overlay off bs a)))"
  then have "j < n" and "i + j < length a" using assms by auto
  then show "take n (drop i (overlay off bs a)) ! j = take n (drop i a) ! j"
    using assms by (auto simp: nth_overlay_outside)
qed

text \<open>A copy byte by byte: one step of it, and its end.\<close>

lemma drop_step: "k < length bs \<Longrightarrow> drop k bs = bs ! k # drop (Suc k) bs"
  by (simp add: Cons_nth_drop_Suc)

lemma mem_write_Cons:
  assumes "mem_write a off (b # bs) = Some a'"
  shows "arr_set a off b = Some (a[nat off := b]) \<and> mem_write (a[nat off := b]) (off + 1) bs = Some a'"
proof -
  have a: "0 \<le> off" "nat off + length (b # bs) \<le> length a" "a' = overlay (nat off) (b # bs) a"
    using mem_write_SomeD [OF assms] by blast+
  have n: "nat (off + 1) = Suc (nat off)" using a(1) by simp
  have "overlay (Suc (nat off)) bs (a[nat off := b]) = a'"
    using a(2) by (simp add: a(3) overlay_def take_Suc_conv_app_nth)
  then show ?thesis using a(1,2) by (simp add: mem_write_def arr_set_def n)
qed

lemma write_step:
  assumes "mem_write a (off + int k) (drop k bs) = Some a'" and "k < length bs"
  shows "\<exists>c. arr_set a (off + int k) (bs ! k) = Some c \<and> mem_write c (off + int (Suc k)) (drop (Suc k) bs) = Some a'"
proof -
  have "mem_write a (off + int k) (bs ! k # drop (Suc k) bs) = Some a'" using assms by (simp add: drop_step)
  from mem_write_Cons [OF this] show ?thesis by (simp add: algebra_simps)
qed

lemma mem_write_end: "mem_write a off [] = Some a' \<Longrightarrow> a' = a"
  by (auto simp: mem_write_def overlay_def split: if_splits)

lemma read_step:
  assumes "mem_read a off n = Some src" and "k < n"
  shows "arr_get a (off + int k) = Some (src ! k)"
  using assms by (auto simp: mem_read_def arr_get_def nat_add_distrib split: if_splits)

lemma mem_read_length: "mem_read a off n = Some src \<Longrightarrow> length src = n"
  by (auto dest: mem_read_SomeD)

text \<open>A string argument is an array that is read up to its NUL, which must exist inside it.\<close>

definition c_string :: "byte list \<Rightarrow> byte list option" where
  "c_string a = (if 0 \<in> set a then Some (takeWhile (\<lambda>b. b \<noteq> 0) a) else None)"

subsection \<open>Mutexes\<close>

text \<open>
  A mutex is the flag whether it is held. A handler is modelled from call to return, so a
  \<open>mutex_lock\<close> of a held mutex is a self deadlock and an unlock of a free one a bug of the
  caller: both are \<open>None\<close>.
\<close>

definition mutex_lock :: "bool \<Rightarrow> bool option" where
  "mutex_lock m = (if m then None else Some True)"

definition mutex_unlock :: "bool \<Rightarrow> bool option" where
  "mutex_unlock m = (if m then Some False else None)"

lemma mutex_simps [simp]:
  "mutex_lock False = Some True" "mutex_lock True = None"
  "mutex_unlock True = Some False" "mutex_unlock False = None"
  by (simp_all add: mutex_lock_def mutex_unlock_def)

subsection \<open>User memory and signals during a system call\<close>

text \<open>
  \<open>ucfu u n\<close> is what \<open>copy_from_user(dst, ptr, n)\<close> does: the number of bytes it could not
  copy (its return value) and the \<open>n\<close> bytes it leaves at \<open>dst\<close>. \<open>uctu u n\<close> is the return
  value of \<open>copy_to_user(ptr, src, n)\<close>, which delivers the other \<open>n - uctu u n\<close> bytes.
  \<open>intr u\<close> tells whether a signal interrupts \<open>mutex_lock_interruptible\<close>.
\<close>

record uenv =
  ucfu :: "nat \<Rightarrow> nat \<times> byte list"
  uctu :: "nat \<Rightarrow> nat"
  intr :: bool

definition uaccess_ok :: "uenv \<Rightarrow> bool" where
  "uaccess_ok u \<longleftrightarrow>
     (\<forall>n. length (snd (ucfu u n)) = n \<and> fst (ucfu u n) \<le> n \<and> uctu u n \<le> n)"

lemma uaccess_ok_length [simp]: "uaccess_ok u \<Longrightarrow> length (snd (ucfu u n)) = n"
  by (simp add: uaccess_ok_def)

text \<open>A user address from which exactly the bytes \<open>d\<close> are readable and all is writable.\<close>

definition user_mem :: "byte list \<Rightarrow> uenv" where
  "user_mem d =
     \<lparr>ucfu = (\<lambda>n. (n - length d, take n d @ replicate (n - length d) 0)),
      uctu = (\<lambda>n. 0), intr = False\<rparr>"

lemma user_mem_ok [simp]: "uaccess_ok (user_mem d)"
  by (auto simp: uaccess_ok_def user_mem_def)

lemma user_mem_simps [simp]:
  "uctu (user_mem d) n = 0" "intr (user_mem d) = False"
  "n \<le> length d \<Longrightarrow> ucfu (user_mem d) n = (0, take n d)"
  by (simp_all add: user_mem_def)

text \<open>
  What the VFS checks before it calls a driver's read or write
  (\<open>rw_verify_area\<close>, \<open>MAX_RW_COUNT\<close>): the position is not negative and the count is at most
  \<open>0x7ffff000\<close>.
\<close>

definition vfs_ok :: "size_t \<Rightarrow> loff_t \<Rightarrow> bool" where
  "vfs_ok len off \<longleftrightarrow> 0 \<le> sint off \<and> unat len \<le> 2147479552"

subsection \<open>Signed and unsigned readings\<close>

lemma sint_nonneg_unat:
  assumes "0 \<le> sint (w :: 'a::len word)"
  shows "sint w = int (unat w)"
proof -
  have "sint w < 2 ^ (LENGTH('a) - 1)" by (rule sint_lt)
  also have "(2::int) ^ (LENGTH('a) - 1) \<le> 2 ^ LENGTH('a)" by (rule power_increasing) auto
  finally have "take_bit LENGTH('a) (sint w) = sint w"
    using assms by (simp add: take_bit_int_eq_self)
  then show ?thesis by (simp add: uint_sint)
qed

lemma unat_less_iff_uint: "unat (w :: 'a::len word) < n \<longleftrightarrow> uint w < int n"
  by (metis of_nat_less_iff uint_nat)

lemma sint_of_small:
  assumes "unat (w :: 'a::len word) < 2 ^ (LENGTH('a) - 1)"
  shows "sint w = int (unat w)"
proof -
  have "signed_take_bit (LENGTH('a) - 1) (uint w) = uint w"
    using assms by (intro signed_take_bit_int_eq_self)
      (auto simp: unat_less_iff_uint intro: order_trans [of _ 0])
  then show ?thesis by (simp add: sint_uint)
qed

lemma sint_nat_of_small:
  "unat (w :: 'a::len word) < 2 ^ (LENGTH('a) - 1) \<Longrightarrow> 0 \<le> sint w \<and> nat (sint w) = unat w"
  by (simp add: sint_of_small)

lemma sint64_nonneg_iff: "0 \<le> sint (w :: 64 word) \<longleftrightarrow> unat w < 2 ^ 63"
  using sint_nonneg_unat [of w] sint_of_small [of w] sint_lt [of w]
  by (auto simp: unat_less_iff_uint)

lemma vfs_ok_sint: "vfs_ok len off \<Longrightarrow> sint off = int (unat off)"
  by (simp add: vfs_ok_def sint_nonneg_unat)

lemma vfs_ok_simps [simp]:
  assumes "vfs_ok len off"
  shows "0 \<le> sint off" "nat (sint off) = unat off"
    "numeral k \<le> sint off \<longleftrightarrow> numeral k \<le> unat off"
proof -
  have s: "sint off = int (unat off)" by (rule vfs_ok_sint [OF assms])
  show "0 \<le> sint off" and "nat (sint off) = unat off" by (simp_all only: s nat_int of_nat_0_le_iff)
  have "numeral k \<le> int (unat off) \<longleftrightarrow> numeral k \<le> unat off"
    by (metis of_nat_le_iff of_nat_numeral)
  then show "numeral k \<le> sint off \<longleftrightarrow> numeral k \<le> unat off" by (simp only: s)
qed

lemma unat_of_nat_small: "n < 2 ^ LENGTH('a) \<Longrightarrow> unat (word_of_nat n :: 'a::len word) = n"
  by (simp add: unat_of_nat take_bit_nat_eq_self)

lemma word_of_unat: "unat (w :: 'a::len word) = n \<Longrightarrow> w = word_of_nat n"
  by auto

lemma vfs_ok_bounds: "vfs_ok len off \<Longrightarrow> unat off < 2 ^ 63 \<and> unat len \<le> 2147479552"
  by (simp add: vfs_ok_def sint64_nonneg_iff)

lemma vfs_ok_no_wrap: "vfs_ok len off \<Longrightarrow> unat (off + len) = unat off + unat len"
  using vfs_ok_bounds [of len off] by (intro unat_add_lem [THEN iffD1]) auto

subsection \<open>Integers in user memory: four bytes, least significant first\<close>

definition int_of_bytes :: "byte list \<Rightarrow> cint" where
  "int_of_bytes bs =
     ucast (bs ! 0) OR push_bit 8 (ucast (bs ! 1)) OR push_bit 16 (ucast (bs ! 2))
       OR push_bit 24 (ucast (bs ! 3))"

definition bytes_of_int :: "cint \<Rightarrow> byte list" where
  "bytes_of_int w = [ucast w, ucast (drop_bit 8 w), ucast (drop_bit 16 w), ucast (drop_bit 24 w)]"

lemma length_bytes_of_int [simp]: "length (bytes_of_int w) = 4"
  by (simp add: bytes_of_int_def)

lemma int_of_bytes_of_int [simp]: "int_of_bytes (bytes_of_int w) = w"
proof (rule bit_word_eqI)
  fix n assume "n < LENGTH(32)"
  then show "bit (int_of_bytes (bytes_of_int w)) n = bit w n"
    by (cases "n < 8"; cases "n < 16"; cases "n < 24")
      (auto simp: int_of_bytes_def bytes_of_int_def bit_simps)
qed

end
