(* ===== verification/StorageMirror.thy ===== *)
theory StorageMirror
  imports LddPrelude
begin

section \<open>The mirror module: storage\_mirror\_kernel.c\<close>

text \<open>
  \<open>003_char_block_storage_device/storage_mirror_kernel.c\<close>: a second 4 KB buffer, the exported
  routine that copies one sector into it and the one that writes the whole buffer to a file.
  The file system (\<open>filp_open\<close>, \<open>kernel_write\<close>) is not code of this repository: it is the
  argument \<open>fsenv\<close>, and what the loop relies on is \<open>fs_ok\<close>.
\<close>

record mirror_dev =
  mirror_buffer :: "byte list"
  mirror_mutex :: bool
  mirror_read_sem :: nat

record fsenv =
  filp_open :: "byte list \<Rightarrow> errno + byte list"
    \<comment> \<open>path without its NUL to an error or the contents of the file just opened\<close>
  kernel_write :: "byte list \<Rightarrow> byte list \<Rightarrow> int \<Rightarrow> int \<times> int \<times> byte list"
    \<comment> \<open>file, bytes, \<open>*pos\<close> to the return value, the new \<open>*pos\<close> and the file\<close>

text \<open>
  What the loop relies on: opening with \<open>O_TRUNC\<close> gives an empty file, and a call that
  returns a positive number wrote that many of the bytes at \<open>*pos\<close>, advanced \<open>*pos\<close> by it and
  wrote no more than it was given.
\<close>

definition fs_ok :: "fsenv \<Rightarrow> bool" where
  "fs_ok fs \<longleftrightarrow>
     (\<forall>p f. filp_open fs p = Inr f \<longrightarrow> f = []) \<and>
     (\<forall>f bs pos rc pos' f'. kernel_write fs f bs pos = (rc, pos', f') \<longrightarrow> 0 < rc \<longrightarrow>
        rc \<le> int (length bs) \<and> pos' = pos + rc \<and>
        (pos = int (length f) \<longrightarrow> f' = f @ take (nat rc) bs))"

text \<open>A file system that takes at most \<open>k\<close> bytes per call.\<close>

definition chunk_fs :: "nat \<Rightarrow> fsenv" where
  "chunk_fs k =
     \<lparr>filp_open = (\<lambda>p. Inr []),
      kernel_write = (\<lambda>f bs pos. (int (min k (length bs)), pos + int (min k (length bs)),
                                  f @ take (min k (length bs)) bs))\<rparr>"

lemma chunk_fs_ok: "fs_ok (chunk_fs k)"
  by (auto simp: fs_ok_def chunk_fs_def)

subsection \<open>mirror\_init and mirror\_sector\<close>

definition mirror_init :: "mirror_dev \<Rightarrow> mirror_dev \<times> ret" where
  "mirror_init m = (m\<lparr>mirror_buffer := replicate 4096 0, mirror_read_sem := 1\<rparr>, Inr 0)"

text \<open>
  The argument \<open>data\<close> is what lies in memory from the pointer on; \<open>memcpy\<close> reads 512 bytes
  of it. The routine returns nothing: an out of range sector and an interrupted lock are
  dropped silently.
\<close>

definition mirror_sector :: "bool \<Rightarrow> int \<Rightarrow> byte list \<Rightarrow> mirror_dev \<Rightarrow> mirror_dev option" where
  "mirror_sector interrupted sector data m =
     (if sector < 0 \<or> 8 \<le> sector then Some m
      else if interrupted then Some m
      else do {
        mx \<leftarrow> mutex_lock (mirror_mutex m);
        src \<leftarrow> mem_read data 0 512;
        buf \<leftarrow> mem_write (mirror_buffer m) (sector * 512) src;
        mx' \<leftarrow> mutex_unlock mx;
        Some (m\<lparr>mirror_buffer := buf, mirror_mutex := mx'\<rparr>)
      })"

subsection \<open>vblock\_backup\_to\_file\<close>

text \<open>
  The write loop. Its state is \<open>pos\<close>, \<open>written\<close> and the file; the result adds \<open>ret\<close>
  (\<open>None\<close> for 0). A file system that never advances \<open>*pos\<close> keeps it running forever:
  the recursion is partial, and \<open>None\<close> is also \<open>does not return\<close>.
\<close>

partial_function (option) backup_loop ::
  "fsenv \<Rightarrow> byte list \<Rightarrow> int \<Rightarrow> int \<Rightarrow> byte list \<Rightarrow> (errno option \<times> int \<times> byte list) option" where
  "backup_loop fs buf pos written file =
     (if pos < 4096 then
        do {
          src \<leftarrow> mem_read buf pos (min 4096 (nat (4096 - pos)));
          (case kernel_write fs file src pos of
             (rc, pos', file') \<Rightarrow>
               if rc < 0 then Some (Some (KErr rc), written, file')
               else if rc = 0 then Some (Some EIO, written, file')
               else backup_loop fs buf pos' (written + rc) file')
        }
      else Some (None, written, file))"

text \<open>
  The path handed over is a pointer, none for \<open>NULL\<close>, to an array; \<open>filp_open\<close> reads it up to its
  NUL.
\<close>

definition vblock_backup_to_file ::
  "bool \<Rightarrow> fsenv \<Rightarrow> byte list option \<Rightarrow> mirror_dev \<Rightarrow> (mirror_dev \<times> byte list option \<times> ret) option" where
  "vblock_backup_to_file interrupted fs path m =
     (case path of
        None \<Rightarrow> Some (m, None, Inl EINVAL)
      | Some path \<Rightarrow> do {
          c0 \<leftarrow> arr_get path 0;
          if c0 = 0 then Some (m, None, Inl EINVAL)
          else do {
            p \<leftarrow> c_string path;
            case filp_open fs p of
              Inl e \<Rightarrow> Some (m, None, Inl e)
            | Inr f \<Rightarrow>
                if interrupted then Some (m, Some f, Inl ERESTARTSYS)
                else do {
                  mx \<leftarrow> mutex_lock (mirror_mutex m);
                  (rt, written, f') \<leftarrow> backup_loop fs (mirror_buffer m) 0 0 f;
                  mx' \<leftarrow> mutex_unlock mx;
                  Some (m\<lparr>mirror_mutex := mx'\<rparr>, Some f',
                        case rt of Some e \<Rightarrow> Inl e
                        | None \<Rightarrow> if written = 4096 then Inr 0 else Inl EIO)
                }
          }
        })"

subsection \<open>Invariant and the mirror as an array of sectors\<close>

definition mirror_inv :: "mirror_dev \<Rightarrow> bool" where
  "mirror_inv m \<longleftrightarrow> length (mirror_buffer m) = 4096 \<and> \<not> mirror_mutex m"

definition mirror_slice :: "mirror_dev \<Rightarrow> nat \<Rightarrow> byte list" where
  "mirror_slice m i = take 512 (drop (i * 512) (mirror_buffer m))"

lemma mirror_init_inv [inv_intros]:
  "\<not> mirror_mutex m \<Longrightarrow> mirror_inv (fst (mirror_init m))"
  by (simp add: mirror_inv_def mirror_init_def)

lemma mirror_sector_run:
  assumes "mirror_inv m" and "512 \<le> length data"
  shows "mirror_sector sig sector data m =
     Some (if sector < 0 \<or> 8 \<le> sector \<or> sig then m
           else m\<lparr>mirror_buffer := overlay (nat sector * 512) (take 512 data) (mirror_buffer m)\<rparr>)"
proof (cases "sector < 0 \<or> 8 \<le> sector \<or> sig")
  case True
  then show ?thesis by (auto simp: mirror_sector_def)
next
  case False
  then have "nat (sector * 512) = nat sector * 512" and "nat sector \<le> 7" by auto
  then show ?thesis using False assms
    by (simp add: mirror_sector_def mirror_inv_def mem_simps)
qed

lemma mirror_sector_inv [inv_intros]:
  "mirror_inv m \<Longrightarrow> 512 \<le> length data \<Longrightarrow> mirror_sector sig sector data m = Some m' \<Longrightarrow> mirror_inv m'"
  by (auto simp: mirror_sector_run mirror_inv_def split: if_splits)

text \<open>Mirroring a sector replaces that slice of the mirror and no other.\<close>

lemma mirror_sector_slice:
  assumes "mirror_inv m" and "512 \<le> length data" and "i < 8" and "j < 8"
    and "mirror_sector False (int i) data m = Some m'"
  shows "mirror_slice m' j = (if j = i then take 512 data else mirror_slice m j)"
proof -
  have len: "i * 512 + length (take 512 data) \<le> length (mirror_buffer m)"
    using assms(1-3) by (simp add: mirror_inv_def)
  have buf: "mirror_buffer m' = overlay (i * 512) (take 512 data) (mirror_buffer m)"
    using assms by (auto simp: mirror_sector_run split: if_splits)
  show ?thesis
  proof (cases "j = i")
    case True
    then show ?thesis using take_drop_overlay [OF len] assms(2) buf by (simp add: mirror_slice_def)
  next
    case False
    then have "j * 512 + 512 \<le> i * 512 \<or> i * 512 + length (take 512 data) \<le> j * 512"
      using assms(2) by auto
    then show ?thesis using slice_overlay_disjoint [OF len, of "j * 512" 512] assms(1,4) False buf
      by (simp add: mirror_slice_def mirror_inv_def)
  qed
qed

subsection \<open>The backup loop\<close>

text \<open>
  Under the contract the loop returns, from every position reached by copying a prefix: with no
  error it has written everything and the file equals the buffer.
\<close>

lemma backup_loop_total:
  assumes "fs_ok fs" and "length buf = 4096" and "0 \<le> pos" and "pos \<le> 4096"
  shows "\<exists>e w f. backup_loop fs buf pos pos (take (nat pos) buf) = Some (e, w, f) \<and>
                 (e = None \<longrightarrow> w = 4096 \<and> f = buf)"
  using assms(3,4)
proof (induction "nat (4096 - pos)" arbitrary: pos rule: less_induct)
  case less
  show ?case
  proof (cases "pos < 4096")
    case False
    with less.prems have "pos = 4096" by simp
    then show ?thesis using assms(2) by (simp add: backup_loop.simps)
  next
    case True
    let ?src = "take (min 4096 (nat (4096 - pos))) (drop (nat pos) buf)"
    have rd: "mem_read buf pos (min 4096 (nat (4096 - pos))) = Some ?src"
      using True less.prems assms(2) by (intro mem_read_in) auto
    obtain rc pos' f' where kw: "kernel_write fs (take (nat pos) buf) ?src pos = (rc, pos', f')"
      using prod_cases3 by blast
    show ?thesis
    proof (cases "0 < rc")
      case False
      then show ?thesis using True rd kw by (subst backup_loop.simps) (cases "rc = 0", auto)
    next
      case rc: True
      have "int (length (take (nat pos) buf)) = pos" using less.prems assms(2) by simp
      then have c: "rc \<le> int (length ?src)" "pos' = pos + rc"
        "f' = take (nat pos) buf @ take (nat rc) ?src"
        using assms(1) kw rc unfolding fs_ok_def by metis+
      then have le: "pos + rc \<le> 4096" using less.prems assms(2) by auto
      have "f' = take (nat (pos + rc)) buf"
        using c le rc less.prems by (simp add: nat_add_distrib take_add min_absorb1 nat_le_eq_zle)
      moreover have "\<exists>e w f. backup_loop fs buf (pos + rc) (pos + rc) (take (nat (pos + rc)) buf)
          = Some (e, w, f) \<and> (e = None \<longrightarrow> w = 4096 \<and> f = buf)"
        using rc le less.prems True by (intro less.hyps) auto
      ultimately show ?thesis using True rd kw rc c(2) by (subst backup_loop.simps) simp
    qed
  qed
qed

text \<open>A file system that also makes progress on every call finishes the loop without error.\<close>

definition fs_progress :: "fsenv \<Rightarrow> bool" where
  "fs_progress fs \<longleftrightarrow> (\<forall>f bs pos. bs \<noteq> [] \<longrightarrow> 0 < fst (kernel_write fs f bs pos))"

lemma backup_loop_success:
  assumes "fs_ok fs" and "fs_progress fs" and "length buf = 4096" and "0 \<le> pos" and "pos \<le> 4096"
    and "backup_loop fs buf pos w0 fl = Some (e, w, f)" and "fl = take (nat pos) buf"
  shows "e = None"
  using assms(4-)
proof (induction "nat (4096 - pos)" arbitrary: pos w0 fl rule: less_induct)
  case less
  show ?case
  proof (cases "pos < 4096")
    case False
    then show ?thesis using less.prems by (simp add: backup_loop.simps)
  next
    case True
    let ?src = "take (min 4096 (nat (4096 - pos))) (drop (nat pos) buf)"
    have rd: "mem_read buf pos (min 4096 (nat (4096 - pos))) = Some ?src"
      using True less.prems assms(3) by (intro mem_read_in) auto
    obtain rc pos' f' where kw: "kernel_write fs fl ?src pos = (rc, pos', f')"
      using prod_cases3 by blast
    have "?src \<noteq> []" using True less.prems assms(3) by simp
    then have rc: "0 < rc" using assms(2) kw unfolding fs_progress_def by (metis fst_conv)
    have "int (length fl) = pos" using less.prems assms(3) by simp
    then have c: "rc \<le> int (length ?src)" "pos' = pos + rc" "f' = fl @ take (nat rc) ?src"
      using assms(1) kw rc unfolding fs_ok_def by metis+
    then have le: "pos + rc \<le> 4096" using less.prems assms(3) by auto
    have "f' = take (nat (pos + rc)) buf"
      using c le rc less.prems by (simp add: nat_add_distrib take_add min_absorb1 nat_le_eq_zle)
    moreover have "backup_loop fs buf (pos + rc) (w0 + rc) f' = Some (e, w, f)"
      using less.prems(3) True rd kw rc c(2) by (subst (asm) backup_loop.simps) simp
    ultimately show ?thesis using rc le less.prems(1) True by (intro less.hyps [of "pos + rc"]) auto
  qed
qed

lemma vblock_backup_total:
  assumes "fs_ok fs" and "mirror_inv m" and "0 \<in> set path"
  shows "\<exists>f r. vblock_backup_to_file sig fs (Some path) m = Some (m, f, r) \<and>
               (r = Inr 0 \<longrightarrow> f = Some (mirror_buffer m))"
proof -
  have p0: "arr_get path 0 = Some (path ! 0)" using assms(3) by (cases path) (auto simp: arr_get_def)
  have ps: "c_string path = Some (takeWhile (\<lambda>b. b \<noteq> 0) path)"
    using assms(3) by (simp add: c_string_def)
  have mx: "\<not> mirror_mutex m" and len: "length (mirror_buffer m) = 4096"
    using assms(2) by (auto simp: mirror_inv_def)
  have same: "m\<lparr>mirror_mutex := False\<rparr> = m" using mx by simp
  show ?thesis
  proof (cases "path ! 0 = 0 \<or> sig")
    case True
    then show ?thesis using p0 ps
      by (auto simp: vblock_backup_to_file_def split: sum.splits)
  next
    case False
    show ?thesis
    proof (cases "filp_open fs (takeWhile (\<lambda>b. b \<noteq> 0) path)")
      case (Inl e)
      then show ?thesis using p0 ps False by (simp add: vblock_backup_to_file_def)
    next
      case (Inr f)
      then have "f = []" using assms(1) by (auto simp: fs_ok_def)
      obtain e w g where run: "backup_loop fs (mirror_buffer m) 0 0 [] = Some (e, w, g)"
        "e = None \<longrightarrow> w = 4096 \<and> g = mirror_buffer m"
        using backup_loop_total [OF assms(1) len, of 0] by auto
      then show ?thesis using p0 ps False Inr \<open>f = []\<close> mx same
        by (auto simp: vblock_backup_to_file_def split: option.splits)
    qed
  qed
qed

lemma vblock_backup_succeeds:
  assumes "fs_ok fs" and "fs_progress fs" and "mirror_inv m" and "0 \<in> set path" and "path ! 0 \<noteq> 0"
    and "filp_open fs (takeWhile (\<lambda>b. b \<noteq> 0) path) = Inr []"
  shows "vblock_backup_to_file False fs (Some path) m = Some (m, Some (mirror_buffer m), Inr 0)"
proof -
  have p0: "arr_get path 0 = Some (path ! 0)" using assms(4) by (cases path) (auto simp: arr_get_def)
  have mx: "\<not> mirror_mutex m" and len: "length (mirror_buffer m) = 4096"
    using assms(3) by (auto simp: mirror_inv_def)
  obtain e w g where run: "backup_loop fs (mirror_buffer m) 0 0 [] = Some (e, w, g)"
    "e = None \<longrightarrow> w = 4096 \<and> g = mirror_buffer m"
    using backup_loop_total [OF assms(1) len, of 0] by auto
  have "e = None" using backup_loop_success [OF assms(1,2) len, of 0] run by simp
  then show ?thesis using run p0 assms(4-6) mx
    by (simp add: vblock_backup_to_file_def c_string_def)
qed

subsection \<open>Properties\<close>

text \<open>C19: The backup routine always returns, however the file system splits or refuses the
  writes. It reports success only when the file holds exactly the 4096 bytes of the mirror, and
  it does report success when the file opens, no signal arrives and every write makes progress.\<close>

theorem backup_exact:
  assumes "fs_ok fs" and "mirror_inv m" and "0 \<in> set path"
  shows "\<exists>f r. vblock_backup_to_file sig fs (Some path) m = Some (m, f, r) \<and>
     (r = Inr 0 \<longrightarrow> f = Some (mirror_buffer m)) \<and>
     (fs_progress fs \<and> \<not> sig \<and> path ! 0 \<noteq> 0 \<and> filp_open fs (takeWhile (\<lambda>b. b \<noteq> 0) path) = Inr [] \<longrightarrow> r = Inr 0)"
  using vblock_backup_total [OF assms, of sig] vblock_backup_succeeds [OF assms(1) _ assms(2,3)] by fastforce

theorem backup_exact_witness:
  "vblock_backup_to_file False (chunk_fs 100) (Some [46, 47, 97, 0])
      \<lparr>mirror_buffer = replicate 4096 7, mirror_mutex = False, mirror_read_sem = 1\<rparr>
    = Some (\<lparr>mirror_buffer = replicate 4096 7, mirror_mutex = False, mirror_read_sem = 1\<rparr>,
            Some (replicate 4096 7), Inr 0)"
proof -
  let ?m = "\<lparr>mirror_buffer = replicate 4096 7, mirror_mutex = False, mirror_read_sem = 1\<rparr> :: mirror_dev"
  have inv: "mirror_inv ?m" by (simp add: mirror_inv_def)
  have prog: "fs_progress (chunk_fs 100)" by (auto simp: fs_progress_def chunk_fs_def)
  have path: "filp_open (chunk_fs 100) (takeWhile (\<lambda>b. b \<noteq> 0) [46, 47, 97, 0]) = Inr []"
    by (simp add: chunk_fs_def)
  show ?thesis using backup_exact [of "chunk_fs 100" ?m "[46, 47, 97, 0]" False, OF chunk_fs_ok inv] prog path by auto
qed

end
