(* ===== verification/KernelResources.thy ===== *)
theory KernelResources
  imports LddPrelude
begin

section \<open>Kernel objects a module registers, and the contract of init and exit\<close>

text \<open>
  A module's init routine registers kernel objects one after the other (a device number region, a
  cdev, a class, devices, attribute files, private memory) and its exit routine gives them
  back. The registration calls are not code of this repository: \<open>kapi\<close> is the argument
  that says whether the call acquiring an object succeeds (\<open>None\<close>) or with which error it
  fails. The kernel's bookkeeping is the list of the objects currently held, the latest first;
  releasing an object that is not held is a use of a dead object, \<open>None\<close>.
\<close>

datatype kobj =
    Region
  | Cdev nat
  | Class
  | Device nat
  | AttrFile nat string
  | SysfsGroup
  | Kobject
  | DevMem
  | IrqLine
  | GpioDesc

type_synonym kapi = "kobj \<Rightarrow> errno option"
type_synonym held = "kobj list"

definition release :: "kobj \<Rightarrow> held \<Rightarrow> held option" where
  "release r h = (if r \<in> set h then Some (remove1 r h) else None)"

fun release_list :: "kobj list \<Rightarrow> held \<Rightarrow> held option" where
  "release_list [] h = Some h"
| "release_list (r # rs) h = do { h' \<leftarrow> release r h; release_list rs h' }"

lemma release_top [simp]: "release r (r # h) = Some h"
  by (simp add: release_def)

lemma release_list_prefix [simp]: "release_list rs (rs @ h) = Some h"
  by (induction rs arbitrary: h) simp_all

lemma release_list_append: "release_list (rs @ qs) h = release_list rs h \<bind> release_list qs"
  by (induction rs arbitrary: h) (simp_all split: bind_splits)

text \<open>A call that never fails, and one that fails exactly at one object.\<close>

definition api_ok :: kapi where
  "api_ok r = None"

definition api_fails_at :: "kobj \<Rightarrow> errno \<Rightarrow> kapi" where
  "api_fails_at r e = (\<lambda>q. if q = r then Some e else None)"

text \<open>A registration whose result the code does not look at.\<close>

definition acquire :: "kapi \<Rightarrow> kobj \<Rightarrow> held \<Rightarrow> held" where
  "acquire api r h = (if api r = None then r # h else h)"

subsection \<open>The module contract\<close>

type_synonym module_init = "kapi \<Rightarrow> held \<Rightarrow> (errno option \<times> held) option"
  \<comment> \<open>the returned code, \<open>None\<close> for zero, and what is held afterwards\<close>
type_synonym module_exit = "held \<Rightarrow> held option"

text \<open>Loading and unloading, in the order an administrator issues them.\<close>

datatype modev = Insmod kapi | Rmmod

text \<open>
  The loader calls init only when the module is not loaded, keeps it loaded only when
  init returned zero, and calls exit only when it is loaded.
\<close>

fun module_event :: "module_init \<Rightarrow> module_exit \<Rightarrow> modev \<Rightarrow> bool \<times> held \<Rightarrow> (bool \<times> held) option" where
  "module_event ini ex (Insmod api) (loaded, h) =
     (if loaded then Some (True, h)
      else do { (r, h') \<leftarrow> ini api h; Some (case r of Some e \<Rightarrow> (False, h') | None \<Rightarrow> (True, h')) })"
| "module_event ini ex Rmmod (loaded, h) =
     (if loaded then do { h' \<leftarrow> ex h; Some (False, h') } else Some (False, h))"

fun module_session ::
  "module_init \<Rightarrow> module_exit \<Rightarrow> modev list \<Rightarrow> bool \<times> held \<Rightarrow> (bool \<times> held) option" where
  "module_session ini ex [] st = Some st"
| "module_session ini ex (e # es) st = do { st' \<leftarrow> module_event ini ex e st; module_session ini ex es st' }"

locale clean_module =
  fixes ini :: module_init and ex :: module_exit and owned :: "kobj list"
  assumes ini_total: "\<exists>r h'. ini api h = Some (r, h')"
    and ini_ok: "ini api h = Some (None, h') \<Longrightarrow> h' = owned @ h"
    and ini_rollback: "ini api h = Some (Some e, h') \<Longrightarrow> h' = h"
    and ini_success: "(\<And>r. r \<in> set owned \<Longrightarrow> api r = None) \<Longrightarrow> ini api h = Some (None, owned @ h)"
    and ex_ok: "ex (owned @ h) = Some h"
begin

text \<open>One event keeps the objects held in step with whether the module is loaded.\<close>

lemma event_balanced:
  "module_event ini ex e (loaded, if loaded then owned @ h else h) = Some (l', h') \<Longrightarrow>
     h' = (if l' then owned @ h else h)"
  by (cases e) (auto simp: ex_ok bind_eq_Some_conv split: option.splits if_splits
      dest: ini_ok ini_rollback)

lemma event_total: "\<exists>st. module_event ini ex e (loaded, if loaded then owned @ h else h) = Some st"
proof (cases e)
  case (Insmod api)
  obtain r h' where "ini api h = Some (r, h')" using ini_total by blast
  then show ?thesis using Insmod by (cases loaded) auto
next
  case Rmmod
  then show ?thesis by (cases loaded) (auto simp: ex_ok)
qed

text \<open>
  Any sequence of loads (with any failures) and unloads is defined and leaks nothing: the
  kernel holds the module's objects exactly while it is loaded.
\<close>

lemma session_balanced:
  "\<exists>l. module_session ini ex es (loaded, if loaded then owned @ h else h)
         = Some (l, if l then owned @ h else h)"
proof (induction es arbitrary: loaded)
  case Nil
  show ?case by simp
next
  case (Cons e es)
  obtain l' h' where st: "module_event ini ex e (loaded, if loaded then owned @ h else h) = Some (l', h')"
    using event_total [of e loaded h] by (metis surj_pair)
  then have "h' = (if l' then owned @ h else h)" by (rule event_balanced)
  with st Cons.IH [of l'] show ?case by simp
qed

end

end
