(* ===== verification/SeekDevice.thy ===== *)
theory SeekDevice
  imports LddPrelude
begin

section \<open>The contract of a device that is read and written at a file position\<close>

text \<open>
  Three drivers of the repository (the storage device, the two-device driver and the skeleton
  driver) serve \<open>read\<close> and \<open>write\<close> from a buffer of fixed capacity at \<open>*ppos\<close>. This theory
  states what a user program may rely on, once: \<open>contents\<close> is what the device can be read to
  hold, \<open>cap\<close> how far a write may reach. Each driver's theory interprets the locale with
  its own handlers.
\<close>

type_synonym 's rd_op = "uenv \<Rightarrow> size_t \<Rightarrow> loff_t \<Rightarrow> 's \<Rightarrow> ('s \<times> loff_t \<times> byte list \<times> ret) option"
type_synonym 's wr_op = "uenv \<Rightarrow> size_t \<Rightarrow> loff_t \<Rightarrow> 's \<Rightarrow> ('s \<times> loff_t \<times> ret) option"

text \<open>A caller whose buffer is writable and who is not interrupted.\<close>

definition ready :: "uenv \<Rightarrow> bool" where
  "ready u \<longleftrightarrow> uaccess_ok u \<and> \<not> intr u \<and> (\<forall>n. uctu u n = 0)"

lemma ready_user_mem [simp]: "ready (user_mem d)"
  by (simp add: ready_def)

text \<open>
  \<open>simple_read_from_buffer\<close> is kernel code: it is the argument \<open>srfb\<close>, from the count, the
  position, the source and the number of available bytes to the new position, the delivered
  bytes and the return value.
\<close>

type_synonym srfb = "uenv \<Rightarrow> size_t \<Rightarrow> loff_t \<Rightarrow> byte list \<Rightarrow> size_t \<Rightarrow> loff_t \<times> byte list \<times> ret"

definition srfb_ok :: "srfb \<Rightarrow> bool" where
  "srfb_ok srfb \<longleftrightarrow>
     (\<forall>u count pos src avail. ready u \<longrightarrow> 0 \<le> sint pos \<longrightarrow> unat avail \<le> length src \<longrightarrow>
        srfb u count pos src avail =
          (let out = take (unat count) (drop (unat pos) (take (unat avail) src)) in
           (pos + word_of_nat (length out), out, Inr (word_of_nat (length out)))))"

definition simple_read :: srfb where
  "simple_read u count pos src avail =
     (if sint pos < 0 then (pos, [], Inl EINVAL)
      else
        let out = take (unat count) (drop (unat pos) (take (unat avail) src)); n = length out in
        if 0 < n \<and> uctu u n = n then (pos, [], Inl EFAULT)
        else (pos + word_of_nat (n - uctu u n), take (n - uctu u n) out, Inr (word_of_nat (n - uctu u n))))"

lemma simple_read_ok: "srfb_ok simple_read"
  by (auto simp: srfb_ok_def simple_read_def ready_def Let_def)

text \<open>
  A program that reads until end of file, in pieces of \<open>chunk\<close> bytes; \<open>fuel\<close> bounds the
  number of calls.
\<close>

fun read_all :: "'s rd_op \<Rightarrow> uenv \<Rightarrow> size_t \<Rightarrow> nat \<Rightarrow> loff_t \<Rightarrow> 's \<Rightarrow> byte list option" where
  "read_all rd u chunk 0 off s = None"
| "read_all rd u chunk (Suc fuel) off s =
     (case rd u chunk off s of
        Some (s', off', out, Inr n) \<Rightarrow>
          if n = 0 then Some [] else map_option (\<lambda>rest. out @ rest) (read_all rd u chunk fuel off' s')
      | _ \<Rightarrow> None)"

lemma unat_add_small:
  "unat off + k < 2 ^ 63 \<Longrightarrow> unat ((off :: loff_t) + word_of_nat k) = unat off + k"
  by (subst unat_add_lem [THEN iffD1]) (simp_all add: unat_of_nat_small)

lemma vfs_ok_small: "unat off < 2 ^ 63 \<Longrightarrow> unat len \<le> 2147479552 \<Longrightarrow> vfs_ok len off"
  by (simp add: vfs_ok_def sint64_nonneg_iff)

text \<open>A count cut to the room that is left, as a word and as a number.\<close>

lemma cut_word:
  assumes "unat (p :: 64 word) \<le> unat lim"
  shows "(if lim - p < count then lim - p else count) = word_of_nat (min (unat count) (unat lim - unat p))"
    and "unat (word_of_nat (min (unat count) (unat lim - unat p)) :: 64 word) = min (unat count) (unat lim - unat p)"
proof -
  have "unat (lim - p) = unat lim - unat p" using assms by (simp add: unat_sub word_le_nat_alt)
  then have u: "unat (if lim - p < count then lim - p else count) = min (unat count) (unat lim - unat p)"
    by (simp add: word_less_nat_alt min_def)
  show w: "(if lim - p < count then lim - p else count) = word_of_nat (min (unat count) (unat lim - unat p))"
    by (rule word_of_unat [OF u])
  show "unat (word_of_nat (min (unat count) (unat lim - unat p)) :: 64 word) = min (unat count) (unat lim - unat p)"
    using u unfolding w .
qed

locale seek_device =
  fixes rd :: "'s rd_op" and wr :: "'s wr_op" and cap :: nat
    and contents :: "'s \<Rightarrow> byte list" and invar :: "'s \<Rightarrow> bool"
  assumes cap_small: "cap < 2 ^ 31"
    and contents_cap: "invar s \<Longrightarrow> length (contents s) \<le> cap"
    and rd_ok: "invar s \<Longrightarrow> ready u \<Longrightarrow> vfs_ok len off \<Longrightarrow>
      rd u len off s = (let out = take (unat len) (drop (unat off) (contents s)) in
        Some (s, off + word_of_nat (length out), out, Inr (word_of_nat (length out))))"
    and wr_ok: "invar s \<Longrightarrow> uaccess_ok u \<Longrightarrow> vfs_ok len off \<Longrightarrow> wr u len off s = Some (s', off', Inr n) \<Longrightarrow>
      unat off < cap \<and> unat n = min (unat len) (cap - unat off) \<and> off' = off + n \<and> invar s' \<and>
      take (unat n) (drop (unat off) (contents s')) = snd (ucfu u (unat n))"
begin

text \<open>What a write accepted is what a read of as many bytes at that position returns.\<close>

lemma write_read_back:
  assumes "invar s" and "uaccess_ok u" and "vfs_ok len off"
    and "wr u len off s = Some (s', off', Inr n)" and "ready v"
  shows "rd v n off s' = Some (s', off', snd (ucfu u (unat n)), Inr n)"
proof -
  have w: "unat n = min (unat len) (cap - unat off)" "off' = off + n" "invar s'"
    "take (unat n) (drop (unat off) (contents s')) = snd (ucfu u (unat n))"
    using wr_ok [OF assms(1-4)] by blast+
  have "vfs_ok n off" using assms(3) w(1) by (auto simp: vfs_ok_def)
  moreover have "length (snd (ucfu u (unat n))) = unat n" using assms(2) by simp
  ultimately show ?thesis using rd_ok [OF w(3) assms(5), of n off] w(2,4)
    by (simp add: Let_def)
qed

text \<open>Reading until end of file returns the rest of the contents, whatever the piece size.\<close>

lemma read_all_contents:
  assumes "invar s" and "ready u" and "0 < unat chunk" and "unat chunk \<le> 2147479552"
    and "unat off \<le> cap" and "length (contents s) - unat off < fuel"
  shows "read_all rd u chunk fuel off s = Some (drop (unat off) (contents s))"
  using assms(5,6)
proof (induction fuel arbitrary: off)
  case 0
  then show ?case by simp
next
  case (Suc fuel)
  let ?out = "take (unat chunk) (drop (unat off) (contents s))"
  have len: "length ?out = min (unat chunk) (length (contents s) - unat off)" by simp
  have "unat off < 2 ^ 63" using Suc.prems(1) cap_small by simp
  then have "vfs_ok chunk off" using assms(4) by (rule vfs_ok_small)
  then have call: "rd u chunk off s = Some (s, off + word_of_nat (length ?out), ?out, Inr (word_of_nat (length ?out)))"
    using rd_ok [OF assms(1,2)] by (simp add: Let_def)
  have small: "length ?out < 2 ^ 64" using len assms(4) by simp
  show ?case
  proof (cases "?out = []")
    case True
    then have "length (contents s) \<le> unat off" using assms(3) by auto
    then show ?thesis using True call by simp
  next
    case False
    then have "unat (word_of_nat (length ?out) :: size_t) \<noteq> 0"
      using small by (simp add: unat_of_nat_small del: take_eq_Nil length_take length_drop)
    then have n0: "(word_of_nat (length ?out) :: size_t) \<noteq> 0" by auto
    have pos: "unat off + length ?out \<le> cap"
      using len contents_cap [OF assms(1)] Suc.prems(1) by simp
    then have off': "unat (off + word_of_nat (length ?out)) = unat off + length ?out"
      using cap_small by (intro unat_add_small) simp
    have "0 < length ?out" and "length ?out \<le> length (contents s) - unat off"
      using False len by simp_all
    then have "length (contents s) - unat (off + word_of_nat (length ?out)) < fuel"
      using off' Suc.prems(2) by arith
    then have "read_all rd u chunk fuel (off + word_of_nat (length ?out)) s
        = Some (drop (unat off + length ?out) (contents s))"
      using Suc.IH [of "off + word_of_nat (length ?out)"] off' pos by simp
    moreover have "?out @ drop (unat off + length ?out) (contents s) = drop (unat off) (contents s)"
    proof (cases "unat chunk \<le> length (contents s) - unat off")
      case True
      then have "length ?out = unat chunk" using len by simp
      then show ?thesis by (metis append_take_drop_id drop_drop add.commute)
    next
      case False
      then show ?thesis by simp
    qed
    ultimately show ?thesis using call n0 by simp
  qed
qed

end

end
