(* ===== verification/StorageDevice.thy ===== *)
theory StorageDevice
  imports StorageMirror KernelResources SeekDevice
begin

section \<open>The sector storage device: storage\_kernel.c\<close>

text \<open>
  \<open>003_char_block_storage_device/storage_kernel.c\<close>: a 4096-byte buffer of eight 512-byte
  sectors, a lock flag per sector, read and write at a file position, and six ioctls. A handler
  takes the system call's environment (\<open>uenv\<close>), its arguments and the device, and returns
  the device, the position, what was delivered to the user and the return code; \<open>None\<close> is
  undefined behaviour. The locked region of the code is bracketed by \<open>mutex_lock\<close> and
  \<open>mutex_unlock\<close> on the flag \<open>storage_mutex\<close>, on every path as in the code.
\<close>

record storage_dev =
  user_keys :: "byte list option list"
    \<comment> \<open>\<open>char *user_keys[8]\<close>: a null pointer or a string (without its NUL)\<close>
  key_count :: int
  storage_buffer :: "byte list"
  sector_lock_state :: "bool list"
  storage_mutex :: bool

subsection \<open>storage\_read\<close>

definition storage_read ::
  "uenv \<Rightarrow> size_t \<Rightarrow> loff_t \<Rightarrow> storage_dev \<Rightarrow> (storage_dev \<times> loff_t \<times> byte list \<times> ret) option" where
  "storage_read u len off s =
     (if 4096 \<le> sint off then Some (s, off, [], Inr 0)
      else
        let len = (if 4096 < off + len then 4096 - off else len) in
        if intr u then Some (s, off, [], Inl ERESTARTSYS)
        else do {
          mx \<leftarrow> mutex_lock (storage_mutex s);
          src \<leftarrow> mem_read (storage_buffer s) (sint off) (unat len);
          mx' \<leftarrow> mutex_unlock mx;
          if uctu u (unat len) \<noteq> 0
          then Some (s\<lparr>storage_mutex := mx'\<rparr>, off, take (unat len - uctu u (unat len)) src, Inl EFAULT)
          else Some (s\<lparr>storage_mutex := mx'\<rparr>, off + len, src, Inr len)
        })"

subsection \<open>storage\_write\<close>

text \<open>The loop \<open>for (s = sector_start; s <= sector_end; s++)\<close> looking for a locked sector.\<close>

function locked_in_range :: "bool list \<Rightarrow> int \<Rightarrow> int \<Rightarrow> bool option" where
  "locked_in_range lk s e =
     (if s \<le> e then do { l \<leftarrow> arr_get lk s; if l then Some True else locked_in_range lk (s + 1) e }
      else Some False)"
  by pat_completeness auto
termination
  by (relation "measure (\<lambda>(lk, s, e). nat (e + 1 - s))") auto

declare locked_in_range.simps [simp del]

text \<open>
  The sector bounds are computed in \<open>size_t\<close> and truncated to \<open>int\<close>; with an empty write at
  position 0 the subtraction wraps and \<open>sector_end\<close> is \<open>-1\<close>.
\<close>

definition sector_of :: "size_t \<Rightarrow> int" where
  "sector_of p = sint (ucast (p div 512) :: cint)"

definition storage_write ::
  "uenv \<Rightarrow> size_t \<Rightarrow> loff_t \<Rightarrow> storage_dev \<Rightarrow> (storage_dev \<times> loff_t \<times> ret) option" where
  "storage_write u len off s =
     (if 4096 \<le> sint off then Some (s, off, Inl ENOSPC)
      else
        let len = (if 4096 < off + len then 4096 - off else len);
            start = off;
            endp = start + len;
            sector_start = sector_of start;
            sector_end = sector_of (endp - 1)
        in
        if intr u then Some (s, off, Inl ERESTARTSYS)
        else do {
          mx \<leftarrow> mutex_lock (storage_mutex s);
          locked \<leftarrow> locked_in_range (sector_lock_state s) sector_start sector_end;
          if locked then do {
            mx' \<leftarrow> mutex_unlock mx;
            Some (s\<lparr>storage_mutex := mx'\<rparr>, off, Inl EPERM)
          }
          else do {
            buf \<leftarrow> mem_write (storage_buffer s) (sint off) (snd (ucfu u (unat len)));
            mx' \<leftarrow> mutex_unlock mx;
            if fst (ucfu u (unat len)) \<noteq> 0
            then Some (s\<lparr>storage_buffer := buf, storage_mutex := mx'\<rparr>, off, Inl EFAULT)
            else Some (s\<lparr>storage_buffer := buf, storage_mutex := mx'\<rparr>, off + len, Inr len)
          }
        })"

definition storage_open :: "storage_dev \<Rightarrow> storage_dev \<times> ret" where
  "storage_open s = (s, Inr 0)"

definition storage_release :: "storage_dev \<Rightarrow> storage_dev \<times> ret" where
  "storage_release s = (s, Inr 0)"

subsection \<open>The ioctls\<close>

datatype storage_cmd =
    IOCTL_LOCK_SECTOR
  | IOCTL_UNLOCK_SECTOR
  | IOCTL_GET_LOCK_INFO
  | IOCTL_ERASE_SECTOR
  | IOCTL_MIRROR_SECTOR
  | IOCTL_BACKUP_TO_FILE
  | OTHER_CMD "32 word"

text \<open>The \<open>int\<close> argument that \<open>copy_from_user(&sector_index, arg, sizeof(int))\<close> fetches.\<close>

definition user_int :: "uenv \<Rightarrow> int option" where
  "user_int u =
     (if fst (ucfu u 4) \<noteq> 0 then None else Some (sint (int_of_bytes (snd (ucfu u 4)))))"

definition ioctl_lock_sector :: "uenv \<Rightarrow> storage_dev \<Rightarrow> (storage_dev \<times> ret) option" where
  "ioctl_lock_sector u s =
     (case user_int u of
        None \<Rightarrow> Some (s, Inl EFAULT)
      | Some idx \<Rightarrow>
          if idx < 0 \<or> 8 \<le> idx then Some (s, Inl EINVAL)
          else do {
            mx \<leftarrow> mutex_lock (storage_mutex s);
            lk \<leftarrow> arr_set (sector_lock_state s) idx True;
            mx' \<leftarrow> mutex_unlock mx;
            Some (s\<lparr>sector_lock_state := lk, storage_mutex := mx'\<rparr>, Inr 0)
          })"

text \<open>
  The request structure of the unlock ioctl is \<open>{ int sector : 3; char key; }\<close>. In the ABIs the
  repository builds for (little endian, bit-fields from the least significant bit, plain \<open>int\<close>
  bit-fields signed) it takes four bytes: the low three bits of byte 0 are the sector, a signed
  number, and byte 1 is the key.
\<close>

definition unlock_req_sector :: "byte list \<Rightarrow> int" where
  "unlock_req_sector bs = signed_take_bit 2 (uint (bs ! 0))"

definition unlock_req_key :: "byte list \<Rightarrow> byte" where
  "unlock_req_key bs = bs ! 1"

text \<open>
  The key check: the first character of each of the first \<open>key_count\<close> keys is compared (the
  character of an empty string is its NUL).
\<close>

definition first_char :: "byte list \<Rightarrow> byte" where
  "first_char str = (case str of [] \<Rightarrow> 0 | c # cs \<Rightarrow> c)"

function key_valid :: "byte list option list \<Rightarrow> int \<Rightarrow> byte \<Rightarrow> int \<Rightarrow> bool option" where
  "key_valid keys cnt key i =
     (if i < cnt then do {
        k \<leftarrow> arr_get keys i;
        (case k of
           Some str \<Rightarrow>
             if key = first_char str then Some True
             else key_valid keys cnt key (i + 1)
         | None \<Rightarrow> key_valid keys cnt key (i + 1))
      }
      else Some False)"
  by pat_completeness auto
termination
  by (relation "measure (\<lambda>(keys, cnt, key, i). nat (cnt - i))") auto

declare key_valid.simps [simp del]

definition ioctl_unlock_sector :: "uenv \<Rightarrow> storage_dev \<Rightarrow> (storage_dev \<times> ret) option" where
  "ioctl_unlock_sector u s =
     (if fst (ucfu u 4) \<noteq> 0 then Some (s, Inl EFAULT)
      else
        let req = snd (ucfu u 4); sector = unlock_req_sector req in
        if sector < 0 \<or> 8 \<le> sector then Some (s, Inl EINVAL)
        else do {
          valid \<leftarrow> key_valid (user_keys s) (key_count s) (unlock_req_key req) 0;
          if \<not> valid then Some (s, Inl EPERM)
          else if intr u then Some (s, Inl ERESTARTSYS)
          else do {
            mx \<leftarrow> mutex_lock (storage_mutex s);
            lk \<leftarrow> arr_set (sector_lock_state s) sector False;
            mx' \<leftarrow> mutex_unlock mx;
            Some (s\<lparr>sector_lock_state := lk, storage_mutex := mx'\<rparr>, Inr 0)
          }
        })"

definition ioctl_get_lock_info :: "uenv \<Rightarrow> storage_dev \<Rightarrow> (storage_dev \<times> byte list \<times> ret) option" where
  "ioctl_get_lock_info u s =
     do {
       mx \<leftarrow> mutex_lock (storage_mutex s);
       lock_info \<leftarrow> mem_read (sector_lock_state s) 0 8;
       mx' \<leftarrow> mutex_unlock mx;
       (let out = map of_bool lock_info; r = uctu u 8 in
        Some (s\<lparr>storage_mutex := mx'\<rparr>, take (8 - r) out, if r \<noteq> 0 then Inl EFAULT else Inr 0))
     }"

definition ioctl_erase_sector :: "uenv \<Rightarrow> storage_dev \<Rightarrow> (storage_dev \<times> ret) option" where
  "ioctl_erase_sector u s =
     (case user_int u of
        None \<Rightarrow> Some (s, Inl EFAULT)
      | Some idx \<Rightarrow>
          if idx < 0 \<or> 8 \<le> idx then Some (s, Inl EINVAL)
          else do {
            mx \<leftarrow> mutex_lock (storage_mutex s);
            l \<leftarrow> arr_get (sector_lock_state s) idx;
            if l then do {
              mx' \<leftarrow> mutex_unlock mx;
              Some (s\<lparr>storage_mutex := mx'\<rparr>, Inl EPERM)
            }
            else do {
              buf \<leftarrow> mem_write (storage_buffer s) (idx * 512) (replicate 512 0);
              mx' \<leftarrow> mutex_unlock mx;
              Some (s\<lparr>storage_buffer := buf, storage_mutex := mx'\<rparr>, Inr 0)
            }
          })"

definition ioctl_mirror_sector ::
  "uenv \<Rightarrow> storage_dev \<Rightarrow> mirror_dev \<Rightarrow> (mirror_dev \<times> ret) option" where
  "ioctl_mirror_sector u s m =
     (case user_int u of
        None \<Rightarrow> Some (m, Inl EFAULT)
      | Some idx \<Rightarrow>
          if idx < 0 \<or> 8 \<le> idx then Some (m, Inl EINVAL)
          else do {
            m' \<leftarrow> mirror_sector (intr u) idx (drop (nat (idx * 512)) (storage_buffer s)) m;
            Some (m', Inr 0)
          })"

definition ioctl_backup_to_file ::
  "uenv \<Rightarrow> fsenv \<Rightarrow> mirror_dev \<Rightarrow> (mirror_dev \<times> byte list option \<times> ret) option" where
  "ioctl_backup_to_file u fs m =
     (if fst (ucfu u 256) \<noteq> 0 then Some (m, None, Inl EFAULT)
      else vblock_backup_to_file (intr u) fs (Some (snd (ucfu u 256))) m)"

text \<open>
  The dispatcher. Its result holds both devices, what was delivered to the user, and the file a
  backup wrote, if it opened one.
\<close>

definition storage_ioctl ::
  "uenv \<Rightarrow> fsenv \<Rightarrow> storage_cmd \<Rightarrow> storage_dev \<times> mirror_dev \<Rightarrow>
     ((storage_dev \<times> mirror_dev) \<times> byte list \<times> byte list option \<times> ret) option" where
  "storage_ioctl u fs cmd st =
     (case st of (s, m) \<Rightarrow>
        (case cmd of
           IOCTL_LOCK_SECTOR \<Rightarrow>
             do { (s', r) \<leftarrow> ioctl_lock_sector u s; Some ((s', m), [], None, r) }
         | IOCTL_UNLOCK_SECTOR \<Rightarrow>
             do { (s', r) \<leftarrow> ioctl_unlock_sector u s; Some ((s', m), [], None, r) }
         | IOCTL_GET_LOCK_INFO \<Rightarrow>
             do { (s', out, r) \<leftarrow> ioctl_get_lock_info u s; Some ((s', m), out, None, r) }
         | IOCTL_ERASE_SECTOR \<Rightarrow>
             do { (s', r) \<leftarrow> ioctl_erase_sector u s; Some ((s', m), [], None, r) }
         | IOCTL_MIRROR_SECTOR \<Rightarrow>
             do { (m', r) \<leftarrow> ioctl_mirror_sector u s m; Some ((s, m'), [], None, r) }
         | IOCTL_BACKUP_TO_FILE \<Rightarrow>
             do { (m', f, r) \<leftarrow> ioctl_backup_to_file u fs m; Some ((s, m'), [], f, r) }
         | OTHER_CMD n \<Rightarrow> Some (st, [], None, Inl ENOTTY)))"

subsection \<open>Loading and unloading\<close>

text \<open>
  The first part of \<open>storage_driver_init\<close>: without module parameters the keys are the
  eight strings \<open>A\<close> to \<open>H\<close>; buffer and lock table are cleared. The second part registers the
  device and, when a step fails, gives back what it has, in reverse order.
\<close>

definition default_keys :: "byte list option list" where
  "default_keys = [Some [65], Some [66], Some [67], Some [68], Some [69], Some [70], Some [71], Some [72]]"

definition storage_init_data :: "storage_dev \<Rightarrow> storage_dev" where
  "storage_init_data s =
     (let s = (if key_count s = 0 then s\<lparr>user_keys := default_keys, key_count := 8\<rparr> else s) in
      s\<lparr>storage_buffer := replicate 4096 0, sector_lock_state := replicate 8 False\<rparr>)"

definition storage_register :: module_init where
  "storage_register api h =
     (case api Region of
        Some e \<Rightarrow> Some (Some e, h)
      | None \<Rightarrow> let h = Region # h in
     (case api (Cdev 0) of
        Some e \<Rightarrow> do { h \<leftarrow> release Region h; Some (Some e, h) }
      | None \<Rightarrow> let h = Cdev 0 # h in
     (case api Class of
        Some e \<Rightarrow> do { h \<leftarrow> release (Cdev 0) h; h \<leftarrow> release Region h; Some (Some e, h) }
      | None \<Rightarrow> let h = Class # h in
     (case api (Device 0) of
        Some e \<Rightarrow> do { h \<leftarrow> release Class h; h \<leftarrow> release (Cdev 0) h; h \<leftarrow> release Region h;
                       Some (Some e, h) }
      | None \<Rightarrow> Some (None, Device 0 # h)))))"

definition storage_driver_init ::
  "kapi \<Rightarrow> held \<Rightarrow> storage_dev \<Rightarrow> (errno option \<times> held \<times> storage_dev) option" where
  "storage_driver_init api h s =
     do { (r, h') \<leftarrow> storage_register api h; Some (r, h', storage_init_data s) }"

definition storage_driver_exit :: module_exit where
  "storage_driver_exit h =
     do { h \<leftarrow> release (Device 0) h; h \<leftarrow> release Class h; h \<leftarrow> release (Cdev 0) h; release Region h }"

interpretation storage_module:
  clean_module storage_register storage_driver_exit "[Device 0, Class, Cdev 0, Region]"
  by unfold_locales
    (auto simp: storage_register_def storage_driver_exit_def Let_def split: option.splits)

subsection \<open>Invariant\<close>

definition storage_inv :: "storage_dev \<Rightarrow> bool" where
  "storage_inv s \<longleftrightarrow>
     length (storage_buffer s) = 4096 \<and> length (sector_lock_state s) = 8 \<and> \<not> storage_mutex s \<and>
     length (user_keys s) = 8 \<and> 0 \<le> key_count s \<and> key_count s \<le> 8"

lemma storage_invD:
  "storage_inv s \<Longrightarrow> length (storage_buffer s) = 4096"
  "storage_inv s \<Longrightarrow> length (sector_lock_state s) = 8"
  "storage_inv s \<Longrightarrow> \<not> storage_mutex s"
  "storage_inv s \<Longrightarrow> length (user_keys s) = 8"
  "storage_inv s \<Longrightarrow> 0 \<le> key_count s" "storage_inv s \<Longrightarrow> key_count s \<le> 8"
  by (simp_all add: storage_inv_def)

lemma storage_mutex_same [simp]: "\<not> storage_mutex s \<Longrightarrow> s\<lparr>storage_mutex := False\<rparr> = s"
  by simp

lemma storage_init_data_inv [inv_intros]:
  "\<not> storage_mutex s \<Longrightarrow> length (user_keys s) = 8 \<Longrightarrow> 0 \<le> key_count s \<Longrightarrow> key_count s \<le> 8 \<Longrightarrow>
     storage_inv (storage_init_data s)"
  by (simp add: storage_inv_def storage_init_data_def default_keys_def Let_def)

subsection \<open>Running the handlers from a state of the invariant\<close>

text \<open>What is left of a count at a position of the 4096-byte device.\<close>

definition clamp :: "size_t \<Rightarrow> loff_t \<Rightarrow> nat" where
  "clamp len off = min (unat len) (4096 - unat off)"

lemma clamp_word:
  assumes "vfs_ok len off" and "unat off < 4096"
  shows "(if 4096 < off + len then 4096 - off else len) = word_of_nat (clamp len off)"
proof -
  have "(4096 < off + len) = (4096 < unat off + unat len)"
    using vfs_ok_no_wrap [OF assms(1)] by (simp add: word_less_nat_alt)
  moreover have "unat (4096 - off) = 4096 - unat off"
    using assms(2) by (subst unat_sub) (simp_all add: word_le_nat_alt)
  then have "4096 - off = word_of_nat (4096 - unat off)" by (metis of_nat_unat ucast_id)
  ultimately show ?thesis by (auto simp: clamp_def min_def)
qed

lemma unat_clamp [simp]: "unat (word_of_nat (clamp len off) :: size_t) = clamp len off"
  by (rule unat_of_nat_small) (simp add: clamp_def)

lemma clamp_eof [simp]: "4096 \<le> unat off \<Longrightarrow> clamp len off = 0"
  by (simp add: clamp_def)

lemma clamp_le: "unat off < 4096 \<Longrightarrow> unat off + clamp len off \<le> 4096"
  by (simp add: clamp_def)

lemma storage_read_run:
  assumes "storage_inv s" and "vfs_ok len off"
  shows "storage_read u len off s = Some (
     if 4096 \<le> unat off then (s, off, [], Inr 0)
     else if intr u then (s, off, [], Inl ERESTARTSYS)
     else
       let n = clamp len off; src = take n (drop (unat off) (storage_buffer s)) in
       if uctu u n \<noteq> 0 then (s, off, take (n - uctu u n) src, Inl EFAULT)
       else (s, off + word_of_nat n, src, Inr (word_of_nat n)))"
proof (cases "4096 \<le> unat off")
  case True
  then show ?thesis using assms(2) by (simp add: storage_read_def)
next
  case False
  have le: "unat off + clamp len off \<le> 4096" using False by (intro clamp_le) simp
  show ?thesis
    using False assms le clamp_word [OF assms(2)]
    by (simp add: storage_read_def Let_def mem_simps storage_invD)
qed

text \<open>The sector arithmetic of the write path.\<close>

lemma sector_of_small:
  assumes "unat p \<le> 4096"
  shows "sector_of p = int (unat p div 512)"
proof -
  have d: "unat (p div 512) = unat p div 512" by (simp add: unat_div)
  then have "unat (p div 512) < 2 ^ 31" using assms by simp
  then have u: "unat (ucast (p div 512) :: cint) = unat p div 512"
    using d assms by (simp add: unsigned_ucast_eq take_bit_nat_eq_self)
  then have "sint (ucast (p div 512) :: cint) = int (unat (ucast (p div 512) :: cint))"
    using assms by (intro sint_of_small) simp
  then show ?thesis by (simp only: sector_of_def u)
qed

lemma sector_of_wrapped: "sector_of (- 1) = - 1"
  by (simp add: sector_of_def)

definition sectors_touched :: "nat \<Rightarrow> nat \<Rightarrow> nat set" where
  "sectors_touched off n = (if off + n = 0 then {} else {off div 512 .. (off + n - 1) div 512})"

lemma locked_in_range_eq:
  assumes "0 \<le> s" and "e < int (length lk)"
  shows "locked_in_range lk s e = Some (\<exists>i. s \<le> int i \<and> int i \<le> e \<and> lk ! i)"
  using assms
proof (induction lk s e rule: locked_in_range.induct)
  case (1 lk s e)
  show ?case
  proof (cases "s \<le> e")
    case False
    then show ?thesis by (subst locked_in_range.simps) auto
  next
    case True
    then have get: "arr_get lk s = Some (lk ! nat s)" using "1.prems" by (intro arr_get_in) auto
    have step: "(\<exists>i. s \<le> int i \<and> int i \<le> e \<and> lk ! i) \<longleftrightarrow>
        lk ! nat s \<or> (\<exists>i. s + 1 \<le> int i \<and> int i \<le> e \<and> lk ! i)"
    proof -
      have "\<And>i. s \<le> int i \<longleftrightarrow> i = nat s \<or> s + 1 \<le> int i" using "1.prems" by auto
      then show ?thesis using True "1.prems"(1) by (metis nat_0_le)
    qed
    show ?thesis
    proof (cases "lk ! nat s")
      case True
      then show ?thesis using \<open>s \<le> e\<close> get step by (subst locked_in_range.simps) simp
    next
      case False
      then show ?thesis using \<open>s \<le> e\<close> get step "1.IH" [of "lk ! nat s"] "1.prems"
        by (subst locked_in_range.simps) simp
    qed
  qed
qed

text \<open>The scan of the write path finds a locked sector among those the write touches.\<close>

lemma write_scan:
  assumes "vfs_ok len off" and "unat off < 4096" and "length lk = 8"
  shows "locked_in_range lk (sector_of off) (sector_of (off + word_of_nat (clamp len off) - 1))
           = Some (\<exists>i \<in> sectors_touched (unat off) (clamp len off). lk ! i)"
proof -
  let ?n = "clamp len off"
  have le: "unat off + ?n \<le> 4096" using assms(2) by (rule clamp_le)
  have s: "sector_of off = int (unat off div 512)" using assms(2) by (intro sector_of_small) simp
  have sum: "unat (off + word_of_nat ?n) = unat off + ?n"
    using le by (subst unat_add_lem [THEN iffD1]) (simp_all add: unat_clamp)
  show ?thesis
  proof (cases "unat off + ?n = 0")
    case True
    then have "off + word_of_nat ?n = 0" using sum by (metis unat_eq_zero)
    then show ?thesis using True s
      by (simp add: sectors_touched_def sector_of_wrapped locked_in_range.simps)
  next
    case False
    have "unat (off + word_of_nat ?n - 1) = unat off + ?n - 1"
      using False sum by (subst unat_sub) (auto simp: word_le_nat_alt)
    then have e: "sector_of (off + word_of_nat ?n - 1) = int ((unat off + ?n - 1) div 512)"
      using le by (simp add: sector_of_small)
    have "(unat off + ?n - 1) div 512 < 8" using le False by (simp add: div_less_iff_less_mult)
    then have "locked_in_range lk (int (unat off div 512)) (int ((unat off + ?n - 1) div 512))
        = Some (\<exists>i. int (unat off div 512) \<le> int i \<and> int i \<le> int ((unat off + ?n - 1) div 512) \<and> lk ! i)"
      using assms(3) by (intro locked_in_range_eq) simp_all
    then show ?thesis using False s e
      by (auto simp: sectors_touched_def Bex_def conj_assoc simp del: of_nat_div)
  qed
qed

lemma storage_write_run:
  assumes "storage_inv s" and "vfs_ok len off" and "uaccess_ok u"
  shows "storage_write u len off s = Some (
     if 4096 \<le> unat off then (s, off, Inl ENOSPC)
     else if intr u then (s, off, Inl ERESTARTSYS)
     else
       let n = clamp len off in
       if \<exists>i \<in> sectors_touched (unat off) n. sector_lock_state s ! i then (s, off, Inl EPERM)
       else
         let s' = s\<lparr>storage_buffer := overlay (unat off) (snd (ucfu u n)) (storage_buffer s)\<rparr> in
         if fst (ucfu u n) \<noteq> 0 then (s', off, Inl EFAULT)
         else (s', off + word_of_nat n, Inr (word_of_nat n)))"
proof (cases "4096 \<le> unat off")
  case True
  then show ?thesis using assms(2) by (simp add: storage_write_def)
next
  case False
  have le: "unat off + clamp len off \<le> 4096" using False by (intro clamp_le) simp
  show ?thesis
    using False assms le clamp_word [OF assms(2)] write_scan [OF assms(2)]
    by (simp add: storage_write_def Let_def mem_simps storage_invD)
qed

text \<open>The key check accepts exactly the first characters of the keys in use.\<close>

definition key_matches :: "storage_dev \<Rightarrow> byte \<Rightarrow> bool" where
  "key_matches s k \<longleftrightarrow> (\<exists>j < nat (key_count s). \<exists>str. user_keys s ! j = Some str \<and> k = first_char str)"

lemma key_valid_eq:
  assumes "0 \<le> i" and "cnt \<le> int (length keys)"
  shows "key_valid keys cnt key i =
    Some (\<exists>j. i \<le> int j \<and> int j < cnt \<and> (\<exists>str. keys ! j = Some str \<and> key = first_char str))"
  using assms
proof (induction keys cnt key i rule: key_valid.induct)
  case (1 keys cnt key i)
  let ?hit = "\<lambda>j. \<exists>str. keys ! j = Some str \<and> key = first_char str"
  show ?case
  proof (cases "i < cnt")
    case False
    then show ?thesis by (subst key_valid.simps) auto
  next
    case True
    then have get: "arr_get keys i = Some (keys ! nat i)" using "1.prems" by (intro arr_get_in) auto
    have "\<And>j. i \<le> int j \<longleftrightarrow> j = nat i \<or> i + 1 \<le> int j" using "1.prems" by auto
    then have step: "(\<exists>j. i \<le> int j \<and> int j < cnt \<and> ?hit j) \<longleftrightarrow>
        ?hit (nat i) \<or> (\<exists>j. i + 1 \<le> int j \<and> int j < cnt \<and> ?hit j)"
      using True "1.prems"(1) by (metis nat_0_le)
    show ?thesis
    proof (cases "?hit (nat i)")
      case True
      then show ?thesis using \<open>i < cnt\<close> get step by (subst key_valid.simps) auto
    next
      case False
      have "key_valid keys cnt key (i + 1) = Some (\<exists>j. i + 1 \<le> int j \<and> int j < cnt \<and> ?hit j)"
        using False "1.IH" [of "keys ! nat i"] "1.prems" \<open>i < cnt\<close> get by (cases "keys ! nat i") auto
      then show ?thesis using \<open>i < cnt\<close> get step False
        by (subst key_valid.simps) (auto split: option.splits)
    qed
  qed
qed

lemma key_valid_matches:
  assumes "storage_inv s"
  shows "key_valid (user_keys s) (key_count s) k 0 = Some (key_matches s k)"
proof -
  have "key_valid (user_keys s) (key_count s) k 0 = Some (\<exists>j. 0 \<le> int j \<and> int j < key_count s \<and>
      (\<exists>str. user_keys s ! j = Some str \<and> k = first_char str))"
    using assms by (intro key_valid_eq) (auto simp: storage_invD)
  moreover have "\<And>j. int j < key_count s \<longleftrightarrow> j < nat (key_count s)" by auto
  ultimately show ?thesis by (simp add: key_matches_def)
qed

text \<open>A three-bit signed field holds \<open>-4\<close> to \<open>3\<close>: no request names an upper sector.\<close>

lemma unlock_req_sector_bounds: "- 4 \<le> unlock_req_sector bs \<and> unlock_req_sector bs < 4"
  using signed_take_bit_int_greater_eq_minus_exp [of 2 "uint (bs ! 0)"]
    signed_take_bit_int_less_exp [of 2 "uint (bs ! 0)"]
  by (simp add: unlock_req_sector_def)

text \<open>The lock-related ioctls, run from a state of the invariant.\<close>

lemma ioctl_lock_sector_run:
  assumes "storage_inv s"
  shows "ioctl_lock_sector u s = Some (
    case user_int u of
      None \<Rightarrow> (s, Inl EFAULT)
    | Some idx \<Rightarrow> if idx < 0 \<or> 8 \<le> idx then (s, Inl EINVAL)
                 else (s\<lparr>sector_lock_state := (sector_lock_state s)[nat idx := True]\<rparr>, Inr 0))"
  using assms by (auto simp: ioctl_lock_sector_def mem_simps storage_invD split: option.splits)

lemma ioctl_unlock_sector_run:
  assumes "storage_inv s"
  shows "ioctl_unlock_sector u s = Some (
    if fst (ucfu u 4) \<noteq> 0 then (s, Inl EFAULT)
    else if unlock_req_sector (snd (ucfu u 4)) < 0 then (s, Inl EINVAL)
    else if \<not> key_matches s (unlock_req_key (snd (ucfu u 4))) then (s, Inl EPERM)
    else if intr u then (s, Inl ERESTARTSYS)
    else (s\<lparr>sector_lock_state :=
              (sector_lock_state s)[nat (unlock_req_sector (snd (ucfu u 4))) := False]\<rparr>, Inr 0))"
proof -
  have b: "unlock_req_sector (snd (ucfu u 4)) < 4" using unlock_req_sector_bounds by blast
  then have n: "nat (unlock_req_sector (snd (ucfu u 4))) < length (sector_lock_state s)"
    using assms by (simp add: storage_invD)
  show ?thesis using assms b n
    by (auto simp: ioctl_unlock_sector_def Let_def mem_simps storage_invD key_valid_matches)
qed

lemma ioctl_get_lock_info_run:
  assumes "storage_inv s"
  shows "ioctl_get_lock_info u s = Some (s, take (8 - uctu u 8) (map of_bool (sector_lock_state s)),
           if uctu u 8 \<noteq> 0 then Inl EFAULT else Inr 0)"
  using assms by (simp add: ioctl_get_lock_info_def mem_simps storage_invD Let_def)

lemma ioctl_erase_sector_run:
  assumes "storage_inv s"
  shows "ioctl_erase_sector u s = Some (
    case user_int u of
      None \<Rightarrow> (s, Inl EFAULT)
    | Some idx \<Rightarrow>
        if idx < 0 \<or> 8 \<le> idx then (s, Inl EINVAL)
        else if sector_lock_state s ! nat idx then (s, Inl EPERM)
        else (s\<lparr>storage_buffer := overlay (nat idx * 512) (replicate 512 0) (storage_buffer s)\<rparr>, Inr 0))"
proof (cases "user_int u")
  case None
  then show ?thesis by (simp add: ioctl_erase_sector_def)
next
  case (Some idx)
  show ?thesis
  proof (cases "idx < 0 \<or> 8 \<le> idx")
    case True
    then show ?thesis using Some by (simp add: ioctl_erase_sector_def)
  next
    case False
    then have "nat (idx * 512) = nat idx * 512" and "nat idx \<le> 7" by auto
    then show ?thesis using False Some assms
      by (simp add: ioctl_erase_sector_def mem_simps storage_invD)
  qed
qed

lemma ioctl_mirror_sector_run:
  assumes "storage_inv s" and "mirror_inv m"
  shows "ioctl_mirror_sector u s m = Some (
    case user_int u of
      None \<Rightarrow> (m, Inl EFAULT)
    | Some idx \<Rightarrow>
        if idx < 0 \<or> 8 \<le> idx then (m, Inl EINVAL)
        else (if intr u then m
              else m\<lparr>mirror_buffer := overlay (nat idx * 512)
                       (take 512 (drop (nat idx * 512) (storage_buffer s))) (mirror_buffer m)\<rparr>, Inr 0))"
proof (cases "user_int u")
  case None
  then show ?thesis by (simp add: ioctl_mirror_sector_def)
next
  case (Some idx)
  show ?thesis
  proof (cases "idx < 0 \<or> 8 \<le> idx")
    case True
    then show ?thesis using Some by (simp add: ioctl_mirror_sector_def)
  next
    case False
    then have "nat (idx * 512) = nat idx * 512" and "nat idx \<le> 7" by auto
    then show ?thesis using False Some assms
      by (auto simp: ioctl_mirror_sector_def mirror_sector_run storage_invD)
  qed
qed

lemma ioctl_backup_run:
  assumes "fs_ok fs" and "mirror_inv m" and "fst (ucfu u 256) = 0 \<Longrightarrow> 0 \<in> set (snd (ucfu u 256))"
  shows "\<exists>f r. ioctl_backup_to_file u fs m = Some (m, f, r)"
  using vblock_backup_total [OF assms(1,2), of "snd (ucfu u 256)" "intr u"] assms(3)
  by (auto simp: ioctl_backup_to_file_def)

subsection \<open>Sequences of system calls\<close>

datatype storage_op =
    OpRead uenv size_t loff_t
  | OpWrite uenv size_t loff_t
  | OpIoctl uenv fsenv storage_cmd

fun storage_step :: "storage_op \<Rightarrow> storage_dev \<times> mirror_dev \<Rightarrow> (storage_dev \<times> mirror_dev) option" where
  "storage_step (OpRead u len off) (s, m) =
     do { (s', off', out, r) \<leftarrow> storage_read u len off s; Some (s', m) }"
| "storage_step (OpWrite u len off) (s, m) =
     do { (s', off', r) \<leftarrow> storage_write u len off s; Some (s', m) }"
| "storage_step (OpIoctl u fs cmd) st =
     do { (st', out, f, r) \<leftarrow> storage_ioctl u fs cmd st; Some st' }"

fun storage_run :: "storage_op list \<Rightarrow> storage_dev \<times> mirror_dev \<Rightarrow> (storage_dev \<times> mirror_dev) option" where
  "storage_run [] st = Some st"
| "storage_run (op # ops) st = do { st' \<leftarrow> storage_step op st; storage_run ops st' }"

text \<open>What the kernel around the driver guarantees for one call.\<close>

fun op_ok :: "storage_op \<Rightarrow> bool" where
  "op_ok (OpRead u len off) \<longleftrightarrow> uaccess_ok u \<and> vfs_ok len off"
| "op_ok (OpWrite u len off) \<longleftrightarrow> uaccess_ok u \<and> vfs_ok len off"
| "op_ok (OpIoctl u fs cmd) \<longleftrightarrow> uaccess_ok u \<and> fs_ok fs \<and>
     (cmd = IOCTL_BACKUP_TO_FILE \<longrightarrow> fst (ucfu u 256) = 0 \<longrightarrow> 0 \<in> set (snd (ucfu u 256)))"

definition sys_inv :: "storage_dev \<times> mirror_dev \<Rightarrow> bool" where
  "sys_inv st \<longleftrightarrow> storage_inv (fst st) \<and> mirror_inv (snd st)"

lemma storage_inv_buffer [inv_intros]:
  "storage_inv s \<Longrightarrow> off + length bs \<le> 4096 \<Longrightarrow>
     storage_inv (s\<lparr>storage_buffer := overlay off bs (storage_buffer s)\<rparr>)"
  by (simp add: storage_inv_def)

lemma storage_inv_locks [inv_intros]:
  "storage_inv s \<Longrightarrow> storage_inv (s\<lparr>sector_lock_state := (sector_lock_state s)[i := b]\<rparr>)"
  by (simp add: storage_inv_def)

lemma mirror_inv_buffer [inv_intros]:
  "mirror_inv m \<Longrightarrow> off + length bs \<le> 4096 \<Longrightarrow>
     mirror_inv (m\<lparr>mirror_buffer := overlay off bs (mirror_buffer m)\<rparr>)"
  by (simp add: mirror_inv_def)

lemma read_keeps_state:
  assumes "storage_inv s" and "vfs_ok len off" and "storage_read u len off s = Some (s', off', out, r)"
  shows "s' = s"
  using assms by (auto simp: storage_read_run Let_def split: if_splits)

lemma write_inv:
  assumes "storage_inv s" and "vfs_ok len off" and "uaccess_ok u"
    and "storage_write u len off s = Some (s', off', r)"
  shows "storage_inv s'"
proof -
  have "unat off < 4096 \<Longrightarrow> unat off + clamp len off \<le> 4096" by (rule clamp_le)
  then show ?thesis using assms
    by (auto simp: storage_write_run Let_def not_le intro!: inv_intros split: if_splits)
qed

lemma ioctl_inv:
  assumes "sys_inv (s, m)" and "op_ok (OpIoctl u fs cmd)"
  shows "\<exists>s' m' out f r. storage_ioctl u fs cmd (s, m) = Some ((s', m'), out, f, r) \<and> sys_inv (s', m')"
proof -
  have si: "storage_inv s" and mi: "mirror_inv m" using assms(1) by (auto simp: sys_inv_def)
  have le: "\<And>idx. \<not> idx < 0 \<Longrightarrow> \<not> 8 \<le> idx \<Longrightarrow> nat idx * 512 + 512 \<le> 4096" by simp
  show ?thesis
  proof (cases cmd)
    case IOCTL_BACKUP_TO_FILE
    then obtain f r where "ioctl_backup_to_file u fs m = Some (m, f, r)"
      using assms(2) ioctl_backup_run [OF _ mi, of fs u] by auto
    then show ?thesis using IOCTL_BACKUP_TO_FILE si mi by (simp add: storage_ioctl_def sys_inv_def)
  next
    case IOCTL_LOCK_SECTOR
    then show ?thesis using si mi
      by (auto simp: storage_ioctl_def sys_inv_def ioctl_lock_sector_run intro: inv_intros split: option.splits)
  next
    case IOCTL_UNLOCK_SECTOR
    then show ?thesis using si mi
      by (auto simp: storage_ioctl_def sys_inv_def ioctl_unlock_sector_run intro: inv_intros)
  next
    case IOCTL_ERASE_SECTOR
    then show ?thesis using si mi le
      by (auto simp: storage_ioctl_def sys_inv_def ioctl_erase_sector_run intro!: inv_intros
          split: option.splits)
  next
    case IOCTL_MIRROR_SECTOR
    then show ?thesis using si mi le
      by (auto simp: storage_ioctl_def sys_inv_def ioctl_mirror_sector_run storage_invD
          intro!: inv_intros split: option.splits)
  qed (use si mi in \<open>auto simp: storage_ioctl_def sys_inv_def ioctl_get_lock_info_run\<close>)
qed

lemma storage_step_total:
  assumes "sys_inv st" and "op_ok op"
  shows "\<exists>st'. storage_step op st = Some st' \<and> sys_inv st'"
proof -
  obtain s m where st: "st = (s, m)" by (cases st)
  have si: "storage_inv s" and mi: "mirror_inv m" using assms(1) st by (auto simp: sys_inv_def)
  show ?thesis
  proof (cases op)
    case (OpRead u len off)
    then have "storage_read u len off s \<noteq> None" using si assms(2) by (simp add: storage_read_run)
    then obtain s' off' out r where "storage_read u len off s = Some (s', off', out, r)" by auto
    moreover from this have "s' = s" using OpRead assms(2) by (intro read_keeps_state [OF si]) simp_all
    ultimately show ?thesis using OpRead st assms(1) by simp
  next
    case (OpWrite u len off)
    then have "storage_write u len off s \<noteq> None" using si assms(2) by (simp add: storage_write_run)
    then obtain s' off' r where w: "storage_write u len off s = Some (s', off', r)" by auto
    then have "storage_inv s'" using OpWrite assms(2) by (intro write_inv [OF si _ _ w]) simp_all
    with w show ?thesis using OpWrite st mi by (simp add: sys_inv_def)
  next
    case (OpIoctl u fs cmd)
    then show ?thesis using ioctl_inv [of s m u fs cmd] assms st by auto
  qed
qed

lemma storage_run_total:
  assumes "sys_inv st" and "\<forall>op \<in> set ops. op_ok op"
  shows "\<exists>st'. storage_run ops st = Some st' \<and> sys_inv st'"
  using assms
proof (induction ops arbitrary: st)
  case Nil
  then show ?case by simp
next
  case (Cons op ops)
  obtain st' where "storage_step op st = Some st'" and "sys_inv st'"
    using storage_step_total [of st op] Cons.prems by auto
  then show ?case using Cons.IH [of st'] Cons.prems(2) by simp
qed

subsection \<open>Locked sectors\<close>

definition sector_slice :: "storage_dev \<Rightarrow> nat \<Rightarrow> byte list" where
  "sector_slice s i = take 512 (drop (i * 512) (storage_buffer s))"

text \<open>The request an operation makes is an unlock of sector \<open>i\<close> with a key that fits.\<close>

fun op_unlocks :: "storage_op \<Rightarrow> storage_dev \<Rightarrow> nat \<Rightarrow> bool" where
  "op_unlocks (OpIoctl u fs IOCTL_UNLOCK_SECTOR) s i \<longleftrightarrow>
     fst (ucfu u 4) = 0 \<and> unlock_req_sector (snd (ucfu u 4)) = int i \<and>
     key_matches s (unlock_req_key (snd (ucfu u 4)))"
| "op_unlocks op s i \<longleftrightarrow> False"

lemma untouched_slice:
  assumes "length buf = 4096" and "off + length bs \<le> 4096" and "i < 8"
    and "i \<notin> sectors_touched off (length bs)"
  shows "take 512 (drop (i * 512) (overlay off bs buf)) = take 512 (drop (i * 512) buf)"
proof (cases "bs = []")
  case True
  then show ?thesis using assms by simp
next
  case False
  then have "i < off div 512 \<or> (off + length bs - 1) div 512 < i"
    using assms(4) by (auto simp: sectors_touched_def split: if_splits)
  then have "i * 512 + 512 \<le> off \<or> off + length bs \<le> i * 512"
  proof
    assume "i < off div 512"
    then have "Suc i * 512 \<le> off" by (simp add: less_eq_div_iff_mult_less_eq flip: Suc_le_eq)
    then show ?thesis by simp
  next
    assume "(off + length bs - 1) div 512 < i"
    then have "off + length bs - 1 < i * 512" by (simp add: div_less_iff_less_mult)
    then show ?thesis using False by (cases bs) auto
  qed
  then show ?thesis using assms by (intro slice_overlay_disjoint) auto
qed

lemma key_matches_cong: "user_keys s' = user_keys s \<Longrightarrow> key_count s' = key_count s \<Longrightarrow>
    key_matches s' k = key_matches s k"
  by (simp add: key_matches_def)

lemma op_unlocks_cong: "user_keys s' = user_keys s \<Longrightarrow> key_count s' = key_count s \<Longrightarrow>
    op_unlocks op s' i = op_unlocks op s i"
  by (cases "(op, s, i)" rule: op_unlocks.cases) (auto simp: key_matches_def)

definition locked_same :: "nat \<Rightarrow> storage_dev \<Rightarrow> storage_dev \<Rightarrow> bool" where
  "locked_same i s s' \<longleftrightarrow> sector_lock_state s' ! i \<and> sector_slice s' i = sector_slice s i \<and>
     user_keys s' = user_keys s \<and> key_count s' = key_count s"

lemma write_keeps_locked:
  assumes "storage_inv s" and "vfs_ok len off" and "uaccess_ok u" and "i < 8"
    and "sector_lock_state s ! i" and "storage_write u len off s = Some (s', off', r)"
  shows "locked_same i s s'"
proof (cases "unat off < 4096 \<and> (\<forall>j \<in> sectors_touched (unat off) (clamp len off). \<not> sector_lock_state s ! j)")
  case False
  then show ?thesis using assms
    by (auto simp: storage_write_run Let_def locked_same_def split: if_splits)
next
  case True
  let ?bs = "snd (ucfu u (clamp len off))"
  have len: "length ?bs = clamp len off" using assms(3) by simp
  have "unat off + clamp len off \<le> 4096" using True by (intro clamp_le) simp
  then have "take 512 (drop (i * 512) (overlay (unat off) ?bs (storage_buffer s)))
      = take 512 (drop (i * 512) (storage_buffer s))"
    using assms True by (intro untouched_slice) (auto simp: storage_invD)
  then show ?thesis using assms True
    by (auto simp: storage_write_run Let_def locked_same_def sector_slice_def split: if_splits)
qed

lemma erase_keeps_locked:
  assumes "storage_inv s" and "i < 8" and "sector_lock_state s ! i"
    and "ioctl_erase_sector u s = Some (s', r)"
  shows "locked_same i s s'"
proof (cases "\<exists>idx. user_int u = Some idx \<and> 0 \<le> idx \<and> idx < 8 \<and> \<not> sector_lock_state s ! nat idx")
  case False
  then show ?thesis using assms
    by (auto simp: ioctl_erase_sector_run locked_same_def split: option.splits if_splits)
next
  case True
  then obtain idx where idx: "user_int u = Some idx" "0 \<le> idx" "idx < 8" "\<not> sector_lock_state s ! nat idx"
    by blast
  let ?off = "nat idx * 512"
  have "nat idx \<noteq> i" using idx(4) assms(3) by auto
  then have "i * 512 + 512 \<le> ?off \<or> ?off + length (replicate 512 (0 :: byte)) \<le> i * 512" by auto
  then have "take 512 (drop (i * 512) (overlay ?off (replicate 512 0) (storage_buffer s)))
      = take 512 (drop (i * 512) (storage_buffer s))"
    using assms(1,2) idx by (intro slice_overlay_disjoint) (auto simp: storage_invD)
  then show ?thesis using assms idx
    by (auto simp: ioctl_erase_sector_run locked_same_def sector_slice_def)
qed

lemma ioctl_keeps_locked:
  assumes "storage_inv s" and "mirror_inv m" and "op_ok (OpIoctl u fs cmd)" and "i < 8"
    and "sector_lock_state s ! i" and "\<not> op_unlocks (OpIoctl u fs cmd) s i"
    and "storage_ioctl u fs cmd (s, m) = Some ((s', m'), out, f, r)"
  shows "locked_same i s s'"
proof (cases cmd)
  case IOCTL_LOCK_SECTOR
  then show ?thesis using assms
    by (auto simp: storage_ioctl_def ioctl_lock_sector_run locked_same_def sector_slice_def
        nth_list_update storage_invD split: option.splits if_splits)
next
  case IOCTL_UNLOCK_SECTOR
  then show ?thesis using assms
    by (auto simp: storage_ioctl_def ioctl_unlock_sector_run locked_same_def sector_slice_def
        nth_list_update storage_invD split: if_splits)
next
  case IOCTL_ERASE_SECTOR
  then show ?thesis using assms erase_keeps_locked [of s i u s']
    by (auto simp: storage_ioctl_def bind_eq_Some_conv)
next
  case IOCTL_GET_LOCK_INFO
  then show ?thesis using assms by (auto simp: storage_ioctl_def ioctl_get_lock_info_run locked_same_def)
qed (use assms in \<open>auto simp: storage_ioctl_def bind_eq_Some_conv locked_same_def\<close>)

lemma step_keeps_locked:
  assumes "sys_inv (s, m)" and "op_ok op" and "i < 8" and "sector_lock_state s ! i"
    and "\<not> op_unlocks op s i" and "storage_step op (s, m) = Some (s', m')"
  shows "locked_same i s s'"
proof -
  have si: "storage_inv s" and mi: "mirror_inv m" using assms(1) by (auto simp: sys_inv_def)
  show ?thesis
  proof (cases op)
    case (OpRead u len off)
    then show ?thesis using assms si
      by (auto simp: bind_eq_Some_conv locked_same_def dest: read_keeps_state)
  next
    case (OpWrite u len off)
    then show ?thesis using assms si by (auto simp: bind_eq_Some_conv intro: write_keeps_locked)
  next
    case (OpIoctl u fs cmd)
    then show ?thesis using assms si mi
      by (auto simp: bind_eq_Some_conv simp del: op_unlocks.simps op_ok.simps intro: ioctl_keeps_locked)
  qed
qed

lemma run_keeps_locked:
  assumes "sys_inv (s, m)" and "\<forall>op \<in> set ops. op_ok op" and "i < 8" and "sector_lock_state s ! i"
    and "\<forall>op \<in> set ops. \<not> op_unlocks op s i" and "storage_run ops (s, m) = Some (s', m')"
  shows "locked_same i s s'"
  using assms
proof (induction ops arbitrary: s m)
  case Nil
  then show ?case by (simp add: locked_same_def)
next
  case (Cons op ops)
  obtain s1 m1 where st: "storage_step op (s, m) = Some (s1, m1)" and rest: "storage_run ops (s1, m1) = Some (s', m')"
    using Cons.prems(6) by (auto simp: bind_eq_Some_conv)
  have inv: "sys_inv (s1, m1)" using storage_step_total [of "(s, m)" op] Cons.prems(1,2) st by auto
  have one: "locked_same i s s1"
    by (rule step_keeps_locked [OF Cons.prems(1) _ Cons.prems(3,4) _ st]) (use Cons.prems in simp_all)
  then have "\<forall>op \<in> set ops. \<not> op_unlocks op s1 i"
    using Cons.prems(5) op_unlocks_cong [of s1 s] by (simp add: locked_same_def)
  then have "locked_same i s1 s'"
    using Cons.IH inv rest one Cons.prems(2,3) by (simp add: locked_same_def)
  then show ?case using one by (simp add: locked_same_def)
qed

subsection \<open>The device as a buffer behind read and write\<close>

interpretation storage_rw: seek_device storage_read storage_write 4096 storage_buffer storage_inv
proof
  show "(4096 :: nat) < 2 ^ 31" by simp
next
  fix s assume "storage_inv s"
  then show "length (storage_buffer s) \<le> 4096" by (simp add: storage_invD)
next
  fix s u and len :: size_t and off :: loff_t
  assume a: "storage_inv s" "ready u" "vfs_ok len off"
  have out: "take (clamp len off) (drop (unat off) (storage_buffer s))
      = take (unat len) (drop (unat off) (storage_buffer s))"
    using a(1) by (simp add: clamp_def storage_invD min_def)
  have len: "length (take (unat len) (drop (unat off) (storage_buffer s))) = clamp len off"
    using a(1) by (simp add: clamp_def storage_invD min.commute)
  show "storage_read u len off s =
      (let out = take (unat len) (drop (unat off) (storage_buffer s))
       in Some (s, off + word_of_nat (length out), out, Inr (word_of_nat (length out))))"
    using a out len storage_read_run [OF a(1,3), of u]
    by (simp add: Let_def ready_def storage_invD del: length_take length_drop)
next
  fix s u s' n and len :: size_t and off off' :: loff_t
  assume a: "storage_inv s" "uaccess_ok u" "vfs_ok len off"
    and w: "storage_write u len off s = Some (s', off', Inr n)"
  have off: "unat off < 4096"
    using w storage_write_run [OF a(1,3,2)] by (auto simp: not_le Let_def split: if_splits)
  have len: "length (snd (ucfu u (clamp len off))) = clamp len off" using a(2) by simp
  have le: "unat off + clamp len off \<le> 4096" using off by (rule clamp_le)
  have s': "s' = s\<lparr>storage_buffer := overlay (unat off) (snd (ucfu u (clamp len off))) (storage_buffer s)\<rparr>"
    and n: "n = word_of_nat (clamp len off)" and off': "off' = off + n"
    using w storage_write_run [OF a(1,3,2)] by (auto simp: Let_def split: if_splits)
  have "storage_inv s'" by (rule write_inv [OF a(1,3,2) w])
  moreover have "take (clamp len off) (drop (unat off) (storage_buffer s')) = snd (ucfu u (clamp len off))"
    using take_drop_overlay [of "unat off" "snd (ucfu u (clamp len off))" "storage_buffer s"] len le a(1) s'
    by (simp add: storage_invD)
  ultimately show "unat off < 4096 \<and> unat n = min (unat len) (4096 - unat off) \<and> off' = off + n \<and>
      storage_inv s' \<and> take (unat n) (drop (unat off) (storage_buffer s')) = snd (ucfu u (unat n))"
    using off n off' by (simp add: clamp_def [symmetric])
qed

subsection \<open>Properties\<close>

text \<open>The devices as loading the two modules without parameters leaves them.\<close>

definition storage_boot :: storage_dev where
  "storage_boot = storage_init_data
     \<lparr>user_keys = replicate 8 None, key_count = 0, storage_buffer = [], sector_lock_state = [],
      storage_mutex = False\<rparr>"

definition mirror_boot :: mirror_dev where
  "mirror_boot = fst (mirror_init \<lparr>mirror_buffer = [], mirror_mutex = False, mirror_read_sem = 0\<rparr>)"

lemma boot_inv: "storage_inv storage_boot" "mirror_inv mirror_boot" "sys_inv (storage_boot, mirror_boot)"
  by (simp_all add: storage_boot_def mirror_boot_def sys_inv_def inv_intros)

lemma vfs_ok_example [simp]: "vfs_ok 3 510" "vfs_ok 3 0" "vfs_ok 6 510"
  by (simp_all add: vfs_ok_def)

text \<open>Every sequence of reads, writes and ioctls is defined: no access leaves a buffer or a
  table, no mutex is locked twice or left locked, every call returns, and the invariant of the
  storage device and its mirror holds at the end.\<close>

theorem storage_run_safe:
  assumes "sys_inv st" and "\<forall>op \<in> set ops. op_ok op"
  shows "\<exists>st'. storage_run ops st = Some st' \<and> sys_inv st'"
  by (rule storage_run_total [OF assms])

theorem storage_run_safe_witness:
  "\<exists>st'. storage_run [OpWrite (user_mem [1, 2, 3]) 3 510,
      OpIoctl (user_mem (bytes_of_int 0)) (chunk_fs 100) IOCTL_LOCK_SECTOR, OpRead (user_mem []) 3 510]
      (storage_boot, mirror_boot) = Some st' \<and> sys_inv st'"
  by (rule storage_run_safe) (simp_all add: boot_inv chunk_fs_ok)

text \<open>C3: A locked sector is immutable: whatever calls are made, as long as none of them is an
  unlock request for it with a fitting key, it keeps its 512 bytes and stays locked.\<close>

theorem locked_sector_immutable:
  assumes "sys_inv (s, m)" and "\<forall>op \<in> set ops. op_ok op" and "i < 8" and "sector_lock_state s ! i"
    and "\<forall>op \<in> set ops. \<not> op_unlocks op s i" and "storage_run ops (s, m) = Some (s', m')"
  shows "sector_slice s' i = sector_slice s i \<and> sector_lock_state s' ! i"
  using run_keeps_locked [OF assms] by (simp add: locked_same_def)

theorem locked_sector_immutable_witness:
  "\<exists>s' m'. storage_run [OpWrite (user_mem [1, 2, 3]) 3 510]
       (storage_boot\<lparr>sector_lock_state := replicate 8 True\<rparr>, mirror_boot) = Some (s', m') \<and>
     sector_slice s' 1 = sector_slice storage_boot 1 \<and> sector_lock_state s' ! 1"
proof -
  let ?s = "storage_boot\<lparr>sector_lock_state := replicate 8 True\<rparr>"
  let ?ops = "[OpWrite (user_mem [1, 2, 3]) 3 510]"
  have inv: "sys_inv (?s, mirror_boot)" using boot_inv by (simp add: sys_inv_def storage_inv_def)
  have ok: "\<forall>op \<in> set ?ops. op_ok op" by simp
  obtain s' m' where run: "storage_run ?ops (?s, mirror_boot) = Some (s', m')"
    using storage_run_total [OF inv ok] by auto
  have "sector_slice s' 1 = sector_slice ?s 1 \<and> sector_lock_state s' ! 1"
    by (rule locked_sector_immutable [OF inv ok _ _ _ run]) (simp_all add: nth_Cons')
  then show ?thesis using run by (auto simp: sector_slice_def)
qed

text \<open>C6: What a write reports as written is what a read of as many bytes at the same position
  returns, at any position and length, across sector borders and up to the end of the device.\<close>

theorem storage_write_read:
  assumes "storage_inv s" and "uaccess_ok u" and "vfs_ok len off"
    and "storage_write u len off s = Some (s', off', Inr n)" and "ready v"
  shows "storage_read v n off s' = Some (s', off', snd (ucfu u (unat n)), Inr n)"
  by (rule storage_rw.write_read_back [OF assms])

theorem storage_write_read_witness:
  "\<exists>s' off'. storage_write (user_mem [1, 2, 3]) 3 510 storage_boot = Some (s', off', Inr 3) \<and>
     storage_read (user_mem []) 3 510 s' = Some (s', off', [1, 2, 3], Inr 3)"
proof -
  have c: "clamp 3 510 = 3" by (simp add: clamp_def)
  have "\<not> (\<exists>i \<in> sectors_touched 510 3. sector_lock_state storage_boot ! i)"
    by (auto simp: sectors_touched_def storage_boot_def storage_init_data_def Let_def)
  then obtain s' off' where w: "storage_write (user_mem [1, 2, 3]) 3 510 storage_boot = Some (s', off', Inr 3)"
    using storage_write_run [OF boot_inv(1) vfs_ok_example(1) user_mem_ok, of "[1, 2, 3]"] c by simp
  show ?thesis using w
    storage_write_read [OF boot_inv(1) user_mem_ok vfs_ok_example(1) w ready_user_mem, of "[]"] by simp
qed

text \<open>What a write does, on every path. It fails with \<open>ENOSPC\<close> behind the end, and with
  \<open>EPERM\<close> exactly when a sector it would touch is locked; then nothing changes. Otherwise it
  changes no byte of any sector outside the range, and reports the bytes that fit.\<close>

theorem storage_write_outcome:
  assumes "storage_inv s" and "vfs_ok len off" and "ready u"
    and "storage_write u len off s = Some (s', off', r)"
  defines "n \<equiv> min (unat len) (4096 - unat off)"
  shows "(r = Inl ENOSPC \<longleftrightarrow> 4096 \<le> unat off) \<and>
     (r = Inl EPERM \<longleftrightarrow> unat off < 4096 \<and> (\<exists>i \<in> sectors_touched (unat off) n. sector_lock_state s ! i)) \<and>
     (r = Inl ENOSPC \<or> r = Inl EPERM \<longrightarrow> s' = s \<and> off' = off) \<and>
     (\<forall>i < 8. i \<notin> sectors_touched (unat off) n \<longrightarrow> sector_slice s' i = sector_slice s i) \<and>
     (\<forall>k. r = Inr k \<longrightarrow> unat k = n \<and> off' = off + k)"
proof -
  have n: "clamp len off = n" by (simp add: clamp_def n_def)
  have u: "uaccess_ok u" "\<not> intr u" using assms(3) by (simp_all add: ready_def)
  note run = storage_write_run [OF assms(1,2) u(1), unfolded n assms(4)]
  have un: "unat (word_of_nat n :: size_t) = n" using unat_clamp [of len off] by (simp only: n)
  have "unat off < 4096 \<Longrightarrow> unat off + length (snd (ucfu u n)) \<le> 4096"
    using u(1) by (simp add: n_def)
  then have "\<forall>i < 8. i \<notin> sectors_touched (unat off) n \<longrightarrow> sector_slice s' i = sector_slice s i"
    using run u assms(1) untouched_slice [of "storage_buffer s" "unat off" "snd (ucfu u n)"]
    by (auto simp: Let_def sector_slice_def storage_invD split: if_splits)
  moreover have "\<forall>k. r = Inr k \<longrightarrow> unat k = n \<and> off' = off + k"
    using run u(2) un by (auto simp: Let_def split: if_splits)
  moreover have "(r = Inl ENOSPC \<longleftrightarrow> 4096 \<le> unat off) \<and>
     (r = Inl EPERM \<longleftrightarrow> unat off < 4096 \<and> (\<exists>i \<in> sectors_touched (unat off) n. sector_lock_state s ! i)) \<and>
     (r = Inl ENOSPC \<or> r = Inl EPERM \<longrightarrow> s' = s \<and> off' = off)"
    using run u(2) by (auto simp: Let_def not_le split: if_splits)
  ultimately show ?thesis by blast
qed

theorem storage_write_outcome_witness:
  "\<exists>s' off' r. storage_write (user_mem [1, 2, 3]) 3 510
      (storage_boot\<lparr>sector_lock_state := replicate 8 True\<rparr>) = Some (s', off', r) \<and> r = Inl EPERM \<and>
      s' = storage_boot\<lparr>sector_lock_state := replicate 8 True\<rparr>"
proof -
  let ?s = "storage_boot\<lparr>sector_lock_state := replicate 8 True\<rparr>"
  have inv: "storage_inv ?s" using boot_inv(1) by (simp add: storage_inv_def)
  have "storage_write (user_mem [1, 2, 3]) 3 510 ?s \<noteq> None"
    using storage_write_run [OF inv vfs_ok_example(1) user_mem_ok, of "[1, 2, 3]"] by simp
  then obtain s' off' r where w: "storage_write (user_mem [1, 2, 3]) 3 510 ?s = Some (s', off', r)" by auto
  have "\<exists>i \<in> sectors_touched 510 3. sector_lock_state ?s ! i"
    by (auto simp: sectors_touched_def intro!: bexI [of _ 0])
  then show ?thesis using storage_write_outcome [OF inv vfs_ok_example(1) ready_user_mem w] w by simp
qed

text \<open>C9: The sectors 4 to 7 can be locked but never unlocked: once locked, such a sector keeps
  its contents and stays locked whatever calls are made, unlock requests with the right key
  included. The sector of a request is a three-bit signed field, which is at most 3.\<close>

theorem upper_sector_locked_forever:
  assumes "sys_inv (s, m)" and "\<forall>op \<in> set ops. op_ok op" and "4 \<le> i" and "i < 8" and "sector_lock_state s ! i"
    and "storage_run ops (s, m) = Some (s', m')"
  shows "sector_lock_state s' ! i \<and> sector_slice s' i = sector_slice s i"
proof -
  have "\<not> op_unlocks op s i" for op
  proof
    assume "op_unlocks op s i"
    then obtain bs where "unlock_req_sector bs = int i"
      by (cases "(op, s, i)" rule: op_unlocks.cases) auto
    then show False using unlock_req_sector_bounds [of bs] assms(3) by simp
  qed
  then show ?thesis using run_keeps_locked [OF assms(1,2,4,5) _ assms(6)] by (simp add: locked_same_def)
qed

text \<open>A request for sector 5 with the fitting key \<open>A\<close>: the low bits of the first byte are 101.\<close>

theorem upper_sector_locked_forever_witness:
  "\<exists>s' m'. storage_run [OpIoctl (user_mem [5, 65, 0, 0]) (chunk_fs 100) IOCTL_UNLOCK_SECTOR]
       (storage_boot\<lparr>sector_lock_state := replicate 8 True\<rparr>, mirror_boot) = Some (s', m') \<and>
     sector_lock_state s' ! 5"
proof -
  let ?s = "storage_boot\<lparr>sector_lock_state := replicate 8 True\<rparr>"
  let ?ops = "[OpIoctl (user_mem [5, 65, 0, 0]) (chunk_fs 100) IOCTL_UNLOCK_SECTOR]"
  have inv: "sys_inv (?s, mirror_boot)" using boot_inv by (simp add: sys_inv_def storage_inv_def)
  have ok: "\<forall>op \<in> set ?ops. op_ok op" by (simp add: chunk_fs_ok)
  obtain s' m' where run: "storage_run ?ops (?s, mirror_boot) = Some (s', m')"
    using storage_run_total [OF inv ok] by auto
  have "sector_lock_state s' ! 5 \<and> sector_slice s' 5 = sector_slice ?s 5"
    by (rule upper_sector_locked_forever [OF inv ok _ _ _ run]) simp_all
  then show ?thesis using run by blast
qed

text \<open>A sector below 4 is unlocked by a request that names it with the first character of one
  of the keys in use: the lock is taken off and nothing else changes. With any other key the
  request fails with \<open>EPERM\<close> and changes nothing.\<close>

theorem unlock_lower_sector:
  assumes "storage_inv s" and "i < 4" and "ready u" and "ucfu u 4 = (0, [word_of_nat i, k, p, q])"
  shows "ioctl_unlock_sector u s = Some (
     if \<exists>j < nat (key_count s). \<exists>str. user_keys s ! j = Some str \<and> k = first_char str
     then (s\<lparr>sector_lock_state := (sector_lock_state s)[i := False]\<rparr>, Inr 0) else (s, Inl EPERM))"
proof -
  have "unlock_req_sector [word_of_nat i, k, p, q] = int i"
  proof -
    have "i = 0 \<or> i = 1 \<or> i = 2 \<or> i = 3" using assms(2) by arith
    then show ?thesis by (auto simp: unlock_req_sector_def)
  qed
  then show ?thesis
    using assms ioctl_unlock_sector_run [OF assms(1), of u]
    by (simp add: ready_def unlock_req_key_def key_matches_def)
qed

theorem unlock_lower_sector_witness:
  "ioctl_unlock_sector (user_mem [2, 66, 0, 0]) (storage_boot\<lparr>sector_lock_state := replicate 8 True\<rparr>)
     = Some (storage_boot\<lparr>sector_lock_state := (replicate 8 True)[2 := False]\<rparr>, Inr 0)"
proof -
  let ?s = "storage_boot\<lparr>sector_lock_state := replicate 8 True\<rparr>"
  have inv: "storage_inv ?s" using boot_inv(1) by (simp add: storage_inv_def)
  have key: "\<exists>j < nat (key_count ?s). \<exists>str. user_keys ?s ! j = Some str \<and> 66 = first_char str"
    by (rule exI [of _ 1])
      (simp add: storage_boot_def storage_init_data_def default_keys_def first_char_def Let_def)
  show ?thesis
    using unlock_lower_sector [OF inv, of 2 "user_mem [2, 66, 0, 0]" 66 0 0] key by simp
qed

text \<open>Reading the device from any position to the end of file, in pieces of any size, returns
  the rest of the 4096 bytes, in order and once.\<close>

theorem storage_read_all:
  assumes "storage_inv s" and "ready u" and "0 < unat chunk" and "unat chunk \<le> 2147479552"
    and "unat off \<le> 4096" and "4096 < fuel"
  shows "read_all storage_read u chunk fuel off s = Some (drop (unat off) (storage_buffer s))"
  using assms by (intro storage_rw.read_all_contents) (simp_all add: storage_invD)

theorem storage_read_all_witness:
  "read_all storage_read (user_mem []) 1000 5000 96 storage_boot = Some (replicate 4000 0)"
  using storage_read_all [OF boot_inv(1) ready_user_mem, of 1000 96 5000 "[]"]
  by (simp add: storage_boot_def storage_init_data_def Let_def)

text \<open>An erase ioctl on an unlocked sector zeroes exactly its 512 bytes; on a locked one, on a
  bad index and on a bad pointer it changes nothing and says so.\<close>

theorem erase_exact:
  assumes "storage_inv s" and "ioctl_erase_sector u s = Some (s', r)" and "i < 8"
  shows "sector_lock_state s' = sector_lock_state s \<and>
    (case user_int u of
       None \<Rightarrow> r = Inl EFAULT \<and> s' = s
     | Some idx \<Rightarrow>
         if idx < 0 \<or> 8 \<le> idx then r = Inl EINVAL \<and> s' = s
         else if sector_lock_state s ! nat idx then r = Inl EPERM \<and> s' = s
         else r = Inr 0 \<and> sector_slice s' i = (if int i = idx then replicate 512 0 else sector_slice s i))"
proof (cases "\<exists>idx. user_int u = Some idx \<and> 0 \<le> idx \<and> idx < 8 \<and> \<not> sector_lock_state s ! nat idx")
  case False
  then show ?thesis using assms(2) ioctl_erase_sector_run [OF assms(1), of u]
    by (auto simp: not_less not_le split: option.splits if_splits)
next
  case True
  then obtain k where k: "user_int u = Some (int k)" "k < 8" "\<not> sector_lock_state s ! k"
    by (metis nat_eq_iff2 nat_less_iff numeral_One of_nat_numeral zless_nat_eq_int_zless)
  have len: "k * 512 + length (replicate 512 (0 :: byte)) \<le> length (storage_buffer s)"
    using k(2) assms(1) by (simp add: storage_invD)
  have s': "s' = s\<lparr>storage_buffer := overlay (k * 512) (replicate 512 0) (storage_buffer s)\<rparr>" and r: "r = Inr 0"
    using assms(2) k ioctl_erase_sector_run [OF assms(1), of u] by simp_all
  have "sector_slice s' i = (if i = k then replicate 512 0 else sector_slice s i)"
  proof (cases "i = k")
    case True
    then show ?thesis using take_drop_overlay [OF len] by (simp add: sector_slice_def s')
  next
    case False
    then have "i * 512 + 512 \<le> k * 512 \<or> k * 512 + length (replicate 512 (0 :: byte)) \<le> i * 512" by auto
    then show ?thesis using slice_overlay_disjoint [OF len, of "i * 512" 512] assms(1,3) False
      by (simp add: sector_slice_def s' storage_invD)
  qed
  then show ?thesis using k r s' by simp
qed

theorem erase_exact_witness:
  "\<exists>s' r. ioctl_erase_sector (user_mem (bytes_of_int 9)) storage_boot = Some (s', r) \<and> r = Inl EINVAL \<and> s' = storage_boot"
proof -
  have u: "user_int (user_mem (bytes_of_int 9)) = Some 9" by (simp add: user_int_def)
  obtain s' r where e: "ioctl_erase_sector (user_mem (bytes_of_int 9)) storage_boot = Some (s', r)"
    using ioctl_erase_sector_run [OF boot_inv(1), of "user_mem (bytes_of_int 9)"] u by auto
  show ?thesis using erase_exact [OF boot_inv(1) e, of 0] e u by simp
qed

text \<open>Loading and unloading the storage module, in any order and with any of the four
  registrations failing at any load, is defined and leaks nothing: what the kernel holds is the
  module's four objects while it is loaded, and nothing of it otherwise.\<close>

theorem storage_module_balanced:
  "\<exists>l. module_session storage_register storage_driver_exit es (False, h)
     = Some (l, if l then [Device 0, Class, Cdev 0, Region] @ h else h)"
  using storage_module.session_balanced [of es False h] by simp

text \<open>C27: Reads are typed as the VFS expects them, whatever the user's memory is like and whatever
  signals come: the device does not change, never more bytes than asked for are delivered, none
  from behind the device; a count returned is the number of bytes delivered and what the
  position advances by, and an error leaves the position.\<close>

theorem storage_read_typed:
  assumes "storage_inv s" and "vfs_ok len off" and "uaccess_ok u"
    and "storage_read u len off s = Some (s', off', out, r)"
  shows "s' = s \<and> length out \<le> min (unat len) (4096 - unat off) \<and>
     (case r of Inr n \<Rightarrow> unat n = length out \<and> unat off' = unat off + length out | Inl e \<Rightarrow> off' = off)"
proof -
  define n where "n = clamp len off"
  define src where "src = take n (drop (unat off) (storage_buffer s))"
  have run: "Some (s', off', out, r) = Some (
     if 4096 \<le> unat off then (s, off, [], Inr 0)
     else if intr u then (s, off, [], Inl ERESTARTSYS)
     else if uctu u n \<noteq> 0 then (s, off, take (n - uctu u n) src, Inl EFAULT)
     else (s, off + word_of_nat n, src, Inr (word_of_nat n)))"
    using storage_read_run [OF assms(1,2), of u] assms(4) unfolding n_def src_def Let_def by simp
  have n: "n = min (unat len) (4096 - unat off)" by (simp add: n_def clamp_def)
  have "length (storage_buffer s) = 4096" using assms(1) by (simp add: storage_invD)
  then have "length src = min n (4096 - unat off)" by (simp only: src_def length_take length_drop min.commute)
  moreover have "n \<le> 4096 - unat off" unfolding n by (rule min.cobounded2)
  ultimately have l: "length src = n" by (simp only: min.absorb1)
  have u: "unat (word_of_nat n :: size_t) = n" unfolding n_def by (rule unat_clamp)
  consider "4096 \<le> unat off" | "\<not> 4096 \<le> unat off" "intr u"
    | "\<not> 4096 \<le> unat off" "\<not> intr u" "uctu u n \<noteq> 0" | "\<not> 4096 \<le> unat off" "\<not> intr u" "uctu u n = 0" by blast
  then show ?thesis
  proof cases
    case 1
    then have "s' = s" "off' = off" "out = []" "r = Inr 0" using run by simp_all
    then show ?thesis by simp
  next
    case 2
    then have "s' = s" "off' = off" "out = []" "r = Inl ERESTARTSYS" using run by simp_all
    then show ?thesis by simp
  next
    case 3
    then have "s' = s" "off' = off" "out = take (n - uctu u n) src" "r = Inl EFAULT" using run by simp_all
    moreover have "length (take (n - uctu u n) src) \<le> n" using l by simp
    ultimately show ?thesis using n by simp
  next
    case 4
    then have e: "s' = s" "off' = off + word_of_nat n" "out = src" "r = Inr (word_of_nat n)" using run by simp_all
    have "unat off + n < 2 ^ 63" using 4(1) n by simp
    then have "unat off' = unat off + n" unfolding e(2) by (rule unat_add_small)
    then show ?thesis using u l n by (simp only: e sum.case) simp
  qed
qed

theorem storage_read_typed_witness:
  "\<exists>off' out n. storage_read (user_mem []) 100 4090 storage_boot = Some (storage_boot, off', out, Inr n) \<and>
     unat n = length out \<and> length out \<le> 6"
proof -
  have v: "vfs_ok 100 4090" by (simp add: vfs_ok_def)
  have "storage_read (user_mem []) 100 4090 storage_boot \<noteq> None"
    using storage_read_run [OF boot_inv(1) v, of "user_mem []"] by simp
  then obtain s' off' out r where rd: "storage_read (user_mem []) 100 4090 storage_boot = Some (s', off', out, r)" by auto
  moreover obtain n where "r = Inr n"
    using rd storage_read_run [OF boot_inv(1) v, of "user_mem []"] by (auto simp: Let_def)
  ultimately show ?thesis using storage_read_typed [OF boot_inv(1) v user_mem_ok rd] by auto
qed

end
