(* ===== verification/StorageUser.thy ===== *)
theory StorageUser
  imports StorageDevice
begin

section \<open>The test program of the storage device: storage\_user.c\<close>

text \<open>
  \<open>003_char_block_storage_device/storage_user.c\<close>, run against the driver's model. Its system
  calls go to the handlers; \<open>mem d\<close> is the environment of a call whose pointer shows the
  bytes \<open>d\<close>. What the program prints is the record \<open>user_log\<close>.
\<close>

record user_log =
  log_rbuf :: "byte list"
  log_unlock :: "ret option"
  log_lockinfo :: "byte list"
  log_backup :: "byte list option"

definition log0 :: user_log where
  "log0 = \<lparr>log_rbuf = [], log_unlock = None, log_lockinfo = [], log_backup = None\<rparr>"

type_synonym sys = "storage_dev \<times> mirror_dev"

text \<open>\<open>pwrite\<close> and \<open>pread\<close> of one sector, and the check of the returned count.\<close>

definition write_sector :: "(byte list \<Rightarrow> uenv) \<Rightarrow> int \<Rightarrow> byte list \<Rightarrow> sys \<Rightarrow> (int \<times> sys) option" where
  "write_sector mem sector buf st =
     (case st of (s, m) \<Rightarrow> do {
        (s', off', r) \<leftarrow> storage_write (mem buf) 512 (word_of_int (sector * 512)) s;
        Some (if r \<noteq> Inr 512 then -1 else 0, (s', m))
      })"

definition read_sector :: "(byte list \<Rightarrow> uenv) \<Rightarrow> int \<Rightarrow> sys \<Rightarrow> (int \<times> byte list \<times> sys) option" where
  "read_sector mem sector st =
     (case st of (s, m) \<Rightarrow> do {
        (s', off', out, r) \<leftarrow> storage_read (mem []) 512 (word_of_int (sector * 512)) s;
        Some (if r \<noteq> Inr 512 then -1 else 0, out, (s', m))
      })"

definition wBuf :: "byte list" where
  "wBuf = map (\<lambda>i. word_of_nat i AND 255) [0..<512]"

text \<open>
  \<open>struct unlock_request { int sector; char key; }\<close> takes eight bytes: the sector, the key
  and three bytes of padding (\<open>pad\<close>).
\<close>

definition unlock_request :: "cint \<Rightarrow> byte \<Rightarrow> byte list \<Rightarrow> byte list" where
  "unlock_request sector key pad = bytes_of_int sector @ [key] @ pad"

text \<open>The characters of \<open>./storage_backup.bin\<close> and the NUL that \<open>strcpy\<close> writes.\<close>

definition backup_path :: "byte list" where
  "backup_path = [46, 47, 115, 116, 111, 114, 97, 103, 101, 95, 98, 97, 99, 107, 117, 112,
                  46, 98, 105, 110, 0]"

definition failed :: "ret \<Rightarrow> bool" where
  "failed r = (case r of Inl e \<Rightarrow> True | Inr n \<Rightarrow> False)"

text \<open>
  \<open>main\<close>: the result is its exit code, what it printed and the devices. \<open>fd_ok\<close> tells whether
  \<open>open\<close> succeeds; \<open>pad\<close> and \<open>stack\<close> are the indeterminate bytes behind the key and behind
  the path.
\<close>

definition storage_user_main ::
  "(byte list \<Rightarrow> uenv) \<Rightarrow> fsenv \<Rightarrow> byte list \<Rightarrow> byte list \<Rightarrow> bool \<Rightarrow> sys \<Rightarrow> (int \<times> user_log \<times> sys) option" where
  "storage_user_main mem fs pad stack fd_ok st =
     (if \<not> fd_ok then Some (1, log0, st)
      else do {
        (w, st) \<leftarrow> write_sector mem 0 wBuf st;
        if w < 0 then Some (1, log0, st) else do {
        (rd, rBuf, st) \<leftarrow> read_sector mem 0 st;
        if rd < 0 then Some (1, log0, st) else do {
        let l1 = log0\<lparr>log_rbuf := rBuf\<rparr>;
        (st, o1, f1, r1) \<leftarrow> storage_ioctl (mem (bytes_of_int 2)) fs IOCTL_LOCK_SECTOR st;
        if failed r1 then Some (1, l1, st) else do {
        (st, o2, f2, r2) \<leftarrow> storage_ioctl (mem (unlock_request 2 66 pad)) fs IOCTL_UNLOCK_SECTOR st;
        let l2 = l1\<lparr>log_unlock := Some r2\<rparr>;
        (st, lockInfo, f3, r3) \<leftarrow> storage_ioctl (mem []) fs IOCTL_GET_LOCK_INFO st;
        if failed r3 then Some (1, l2, st) else do {
        let l3 = l2\<lparr>log_lockinfo := lockInfo\<rparr>;
        (st, o4, f4, r4) \<leftarrow> storage_ioctl (mem (bytes_of_int 0)) fs IOCTL_MIRROR_SECTOR st;
        if failed r4 then Some (1, l3, st) else do {
        (st, o5, f5, r5) \<leftarrow> storage_ioctl (mem (backup_path @ stack)) fs IOCTL_BACKUP_TO_FILE st;
        let l5 = l3\<lparr>log_backup := f5\<rparr>;
        if failed r5 then Some (1, l5, st) else do {
        (st, o6, f6, r6) \<leftarrow> storage_ioctl (mem (bytes_of_int 4)) fs IOCTL_ERASE_SECTOR st;
        if failed r6 then Some (1, l5, st) else Some (0, l5, st)
        }}}}}}})"

text \<open>The kernel reads the program's memory as it is and can write all of it.\<close>

definition faithful_mem :: "(byte list \<Rightarrow> uenv) \<Rightarrow> bool" where
  "faithful_mem mem \<longleftrightarrow>
     (\<forall>d. ready (mem d) \<and> (\<forall>n \<le> length d. ucfu (mem d) n = (0, take n d)))"

lemma faithful_user_mem [simp]: "faithful_mem user_mem"
  by (simp add: faithful_mem_def)

lemma faithful_ready [simp]: "faithful_mem mem \<Longrightarrow> ready (mem d)"
  by (simp add: faithful_mem_def)

lemma ready_simps [simp]:
  "ready u \<Longrightarrow> uaccess_ok u" "ready u \<Longrightarrow> \<not> intr u" "ready u \<Longrightarrow> uctu u n = 0"
  by (simp_all add: ready_def)

lemma faithful_ucfu [simp]: "faithful_mem mem \<Longrightarrow> n \<le> length d \<Longrightarrow> ucfu (mem d) n = (0, take n d)"
  by (simp add: faithful_mem_def)

lemma faithful_user_int [simp]:
  "faithful_mem mem \<Longrightarrow> user_int (mem (bytes_of_int w)) = Some (sint w)"
  by (simp add: user_int_def)

text \<open>
  The key byte the driver takes from the program's request is byte 1 of the sector number,
  which is 0 for every sector of the device.
\<close>

lemma unlock_request_key:
  assumes "sint w \<in> {0..7}"
  shows "unlock_req_key (take 4 (unlock_request w key pad)) = 0"
proof -
  have "sint w = int (unat w)" using assms by (intro sint_nonneg_unat) simp
  then have "int (unat w) \<le> 7" using assms by simp
  then have "unat w < 256" by linarith
  then have "drop_bit 8 (unat w) = 0" by (simp add: drop_bit_eq_div)
  then have "unat (drop_bit 8 w) = 0" by (simp only: unat_drop_bit_eq)
  then have "drop_bit 8 w = 0" by (simp only: unat_eq_zero)
  then show ?thesis by (simp add: unlock_req_key_def unlock_request_def bytes_of_int_def)
qed

text \<open>The whole run on a system whose sectors 0 and 4 are not locked.\<close>

lemma wBuf_length [simp]: "length wBuf = 512"
  by (simp add: wBuf_def)

lemma sector_offset: "n < 8 \<Longrightarrow> unat (word_of_int (int n * 512) :: loff_t) = n * 512"
proof -
  assume "n < 8"
  then have "unat (word_of_nat (n * 512) :: loff_t) = n * 512" by (intro unat_of_nat_small) simp
  moreover have "word_of_int (int n * 512) = (word_of_nat (n * 512) :: loff_t)" by simp
  ultimately show ?thesis by (simp only:)
qed

lemma sector_position:
  assumes "n < 8"
  shows "vfs_ok 512 (word_of_int (int n * 512))" "clamp 512 (word_of_int (int n * 512)) = 512"
    "\<not> 4096 \<le> unat (word_of_int (int n * 512) :: loff_t)"
  using assms sector_offset [OF assms]
  by (auto simp: clamp_def simp del: of_int_mult of_int_of_nat_eq intro: vfs_ok_small)

lemma write_sector_run:
  assumes "faithful_mem mem" and "storage_inv s" and "length buf = 512" and "n < 8"
    and "\<not> sector_lock_state s ! n"
  shows "write_sector mem (int n) buf (s, m) =
    Some (0, (s\<lparr>storage_buffer := overlay (n * 512) buf (storage_buffer s)\<rparr>, m))"
proof -
  have t: "sectors_touched (n * 512) 512 = {n}" by (auto simp: sectors_touched_def)
  show ?thesis using assms sector_position [OF assms(4)] sector_offset [OF assms(4)] t
    by (simp add: write_sector_def storage_write_run Let_def del: of_int_mult of_int_of_nat_eq)
qed

lemma read_sector_run:
  assumes "faithful_mem mem" and "storage_inv s" and "n < 8"
  shows "read_sector mem (int n) (s, m) = Some (0, sector_slice s n, (s, m))"
  using assms sector_position [OF assms(3)] sector_offset [OF assms(3)]
  by (simp add: read_sector_def storage_read_run Let_def sector_slice_def
      del: of_int_mult of_int_of_nat_eq)

text \<open>The state after each call of the program that changes it.\<close>

definition after_write :: "storage_dev \<Rightarrow> storage_dev" where
  "after_write s = s\<lparr>storage_buffer := overlay 0 wBuf (storage_buffer s)\<rparr>"

definition after_lock :: "storage_dev \<Rightarrow> storage_dev" where
  "after_lock s = (after_write s)\<lparr>sector_lock_state := (sector_lock_state s)[2 := True]\<rparr>"

definition after_erase :: "storage_dev \<Rightarrow> storage_dev" where
  "after_erase s = (after_lock s)\<lparr>storage_buffer :=
     overlay (4 * 512) (replicate 512 0) (storage_buffer (after_lock s))\<rparr>"

definition mirrored :: "storage_dev \<Rightarrow> mirror_dev \<Rightarrow> mirror_dev" where
  "mirrored s m = m\<lparr>mirror_buffer := overlay 0 wBuf (mirror_buffer m)\<rparr>"

lemma after_inv:
  assumes "storage_inv s"
  shows "storage_inv (after_write s)" "storage_inv (after_lock s)" "storage_inv (after_erase s)"
  using assms by (simp_all add: storage_inv_def after_write_def after_lock_def after_erase_def)

lemma backup_path_string:
  "take 256 (backup_path @ stack) = backup_path @ take 235 stack"
  "takeWhile (\<lambda>b. b \<noteq> 0) (backup_path @ rest) = butlast backup_path"
  "0 \<in> set backup_path" "(backup_path @ rest) ! 0 \<noteq> 0"
  by (simp_all add: backup_path_def)

lemma user_write_read:
  assumes "faithful_mem mem" and "storage_inv s" and "\<not> sector_lock_state s ! 0"
  shows "write_sector mem 0 wBuf (s, m) = Some (0, (after_write s, m))"
    and "read_sector mem 0 (after_write s, m) = Some (0, wBuf, (after_write s, m))"
proof -
  show "write_sector mem 0 wBuf (s, m) = Some (0, (after_write s, m))"
    using write_sector_run [OF assms(1,2), of wBuf 0 m] assms(3) by (simp add: after_write_def)
  have "sector_slice (after_write s) 0 = wBuf"
    using take_drop_overlay [of 0 wBuf "storage_buffer s"] assms(2)
    by (simp add: sector_slice_def after_write_def storage_invD)
  then show "read_sector mem 0 (after_write s, m) = Some (0, wBuf, (after_write s, m))"
    using read_sector_run [OF assms(1) after_inv(1) [OF assms(2)], of 0 m] by simp
qed

lemma user_lock:
  assumes "faithful_mem mem" and "storage_inv s"
  shows "storage_ioctl (mem (bytes_of_int 2)) fs IOCTL_LOCK_SECTOR (after_write s, m)
           = Some ((after_lock s, m), [], None, Inr 0)"
  using assms after_inv(1) [OF assms(2)]
  by (simp add: storage_ioctl_def ioctl_lock_sector_run after_lock_def) (simp add: after_write_def)

lemma user_unlock:
  assumes "faithful_mem mem" and "storage_inv s" and "\<not> key_matches s 0"
  shows "storage_ioctl (mem (unlock_request 2 66 pad)) fs IOCTL_UNLOCK_SECTOR (after_lock s, m)
           = Some ((after_lock s, m), [], None, Inl EPERM)"
proof -
  have "take 4 (unlock_request 2 66 pad) = bytes_of_int 2" by (simp add: unlock_request_def)
  then have u: "ucfu (mem (unlock_request 2 66 pad)) 4 = (0, bytes_of_int 2)"
    using assms(1) by (simp add: unlock_request_def)
  have b: "unlock_req_sector (bytes_of_int 2) = 2" "unlock_req_key (bytes_of_int 2) = 0"
    by (simp_all add: unlock_req_sector_def unlock_req_key_def bytes_of_int_def)
  have "\<not> key_matches (after_lock s) 0"
    using assms(3) by (simp add: key_matches_def after_lock_def after_write_def)
  then show ?thesis using u b after_inv(2) [OF assms(2)]
    by (simp add: storage_ioctl_def ioctl_unlock_sector_run)
qed

lemma user_lock_info:
  assumes "faithful_mem mem" and "storage_inv s"
  shows "storage_ioctl (mem []) fs IOCTL_GET_LOCK_INFO (after_lock s, m)
     = Some ((after_lock s, m), map of_bool ((sector_lock_state s)[2 := True]), None, Inr 0)"
  using assms after_inv(2) [OF assms(2)]
  by (simp add: storage_ioctl_def ioctl_get_lock_info_run after_lock_def storage_invD)

lemma user_mirror:
  assumes "faithful_mem mem" and "storage_inv s" and "mirror_inv m"
  shows "storage_ioctl (mem (bytes_of_int 0)) fs IOCTL_MIRROR_SECTOR (after_lock s, m)
     = Some ((after_lock s, mirrored s m), [], None, Inr 0)"
proof -
  have "take 512 (storage_buffer (after_lock s)) = wBuf"
    using take_drop_overlay [of 0 wBuf "storage_buffer s"] assms(2)
    by (simp add: after_lock_def after_write_def storage_invD)
  then show ?thesis using assms after_inv(2) [OF assms(2)]
    by (simp add: storage_ioctl_def ioctl_mirror_sector_run mirrored_def)
qed

lemma user_backup:
  assumes "faithful_mem mem" and "mirror_inv m'" and "fs_ok fs" and "fs_progress fs"
    and "filp_open fs (butlast backup_path) = Inr []" and "235 \<le> length stack"
  shows "storage_ioctl (mem (backup_path @ stack)) fs IOCTL_BACKUP_TO_FILE (s, m')
     = Some ((s, m'), [], Some (mirror_buffer m'), Inr 0)"
proof -
  have "length backup_path = 21" by (simp add: backup_path_def)
  then have "ucfu (mem (backup_path @ stack)) 256 = (0, backup_path @ take 235 stack)"
    using assms(1,6) by (simp add: backup_path_string)
  then show ?thesis
    using vblock_backup_succeeds [OF assms(3,4,2), of "backup_path @ take 235 stack"] assms(1,5)
    by (simp add: storage_ioctl_def ioctl_backup_to_file_def backup_path_string)
qed

lemma user_erase:
  assumes "faithful_mem mem" and "storage_inv s" and "\<not> sector_lock_state s ! 4"
  shows "storage_ioctl (mem (bytes_of_int 4)) fs IOCTL_ERASE_SECTOR (after_lock s, m)
     = Some ((after_erase s, m), [], None, Inr 0)"
  using assms after_inv(2) [OF assms(2)]
  by (simp add: storage_ioctl_def ioctl_erase_sector_run after_erase_def)
    (simp add: after_lock_def)

lemma storage_user_main_run:
  assumes "faithful_mem mem" and "storage_inv s" and "mirror_inv m" and "fs_ok fs" and "fs_progress fs"
    and "filp_open fs (butlast backup_path) = Inr []" and "235 \<le> length stack"
    and "\<not> sector_lock_state s ! 0" and "\<not> sector_lock_state s ! 4" and "\<not> key_matches s 0"
  shows "storage_user_main mem fs pad stack True (s, m) =
    Some (0, \<lparr>log_rbuf = wBuf, log_unlock = Some (Inl EPERM),
              log_lockinfo = map of_bool ((sector_lock_state s)[2 := True]),
              log_backup = Some (mirror_buffer (mirrored s m))\<rparr>,
          (after_erase s, mirrored s m))"
proof -
  have mi: "mirror_inv (mirrored s m)"
    using assms(3) by (simp add: mirrored_def mirror_inv_def)
  note calls = user_write_read [OF assms(1,2,8)] user_lock [OF assms(1,2)]
    user_unlock [OF assms(1,2,10)] user_lock_info [OF assms(1,2)] user_mirror [OF assms(1,2,3)]
    user_backup [OF assms(1) mi assms(4-7)] user_erase [OF assms(1,2,9)]
  show ?thesis by (simp add: storage_user_main_def calls failed_def log0_def)
qed

subsection \<open>Property\<close>

text \<open>C10: The test program runs to its end with exit code 0 on a system whose sectors 0 and 4 are
  not locked: it reads back what it wrote, its backup is the mirror with sector 0 in it. But its
  unlock request is refused: the program and the driver lay the request out differently, the key
  the driver finds is a zero byte, and sector 2 stays locked.\<close>

theorem storage_user_session:
  assumes "faithful_mem mem" and "storage_inv s" and "mirror_inv m" and "fs_ok fs" and "fs_progress fs"
    and "filp_open fs (butlast backup_path) = Inr []" and "235 \<le> length stack"
    and "\<not> sector_lock_state s ! 0" and "\<not> sector_lock_state s ! 4" and "\<not> key_matches s 0"
  shows "\<exists>log s' m'. storage_user_main mem fs pad stack True (s, m) = Some (0, log, (s', m')) \<and>
     log_rbuf log = wBuf \<and> log_unlock log = Some (Inl EPERM) \<and> sector_lock_state s' ! 2 \<and>
     log_backup log = Some (mirror_buffer m') \<and> mirror_slice m' 0 = wBuf \<and>
     sector_slice s' 4 = replicate 512 0"
proof -
  have m0: "mirror_slice (mirrored s m) 0 = wBuf"
    using take_drop_overlay [of 0 wBuf "mirror_buffer m"] assms(3)
    by (simp add: mirror_slice_def mirrored_def mirror_inv_def)
  have l: "sector_lock_state (after_erase s) ! 2"
    using assms(2) by (simp add: after_erase_def after_lock_def storage_invD)
  have "sector_slice (after_erase s) 4 = replicate 512 0"
    using take_drop_overlay [of "4 * 512" "replicate 512 0" "storage_buffer (after_lock s)"] after_inv(2) [OF assms(2)]
    by (simp add: sector_slice_def after_erase_def storage_invD)
  then show ?thesis using storage_user_main_run [OF assms, of pad] m0 l by simp
qed

theorem storage_user_session_witness:
  "\<exists>log s' m'. storage_user_main user_mem (chunk_fs 4096) [0, 0, 0] (replicate 235 0) True (storage_boot, mirror_boot)
      = Some (0, log, (s', m')) \<and> log_unlock log = Some (Inl EPERM) \<and> sector_lock_state s' ! 2"
proof -
  have b: "user_keys storage_boot = default_keys" "key_count storage_boot = 8"
    by (simp_all add: storage_boot_def storage_init_data_def Let_def)
  have k: "\<forall>x \<in> set default_keys. \<forall>str. x = Some str \<longrightarrow> first_char str \<noteq> 0" and l: "length default_keys = 8"
    by (simp_all add: default_keys_def first_char_def)
  have keys: "\<not> key_matches storage_boot 0"
  proof
    assume "key_matches storage_boot 0"
    then obtain j str where "j < 8" "default_keys ! j = Some str" "first_char str = 0"
      by (auto simp: key_matches_def b)
    then show False using k l nth_mem [of j default_keys] by metis
  qed
  have locks: "\<not> sector_lock_state storage_boot ! 0" "\<not> sector_lock_state storage_boot ! 4"
    by (simp_all add: storage_boot_def storage_init_data_def Let_def)
  have fs: "fs_progress (chunk_fs 4096)" "filp_open (chunk_fs 4096) (butlast backup_path) = Inr []"
    by (auto simp: fs_progress_def chunk_fs_def)
  show ?thesis
    using storage_user_session [OF faithful_user_mem boot_inv(1,2) chunk_fs_ok fs, of "replicate 235 0" "[0, 0, 0]"]
      keys locks by auto
qed

end
