(* ===== verification/Interleaving.thy ===== *)
theory Interleaving
  imports LddPrelude
begin

section \<open>Calls that run at the same time, statement by statement\<close>

text \<open>
  Several processes call handlers of one driver. Each call is a program counter; a step of a
  process executes the statement there on the shared state, and between any two steps others
  may run. A call is \<open>Blocked\<close> where it waits (a lock, a condition) and \<open>Crash\<close> is undefined
  behaviour. The code of a driver is a function \<open>code p pc s\<close>; a process between two calls has
  no program counter.

  The locale \<open>owicki_gries\<close> is the proof method for such programs: an invariant of the shared
  state and an assertion at every program counter that its own step establishes and no step of
  another process destroys. \<open>process_local\<close> is the case of assertions about local variables only. What the proofs add to the state beside the variables of the
  driver (who holds the lock, what the calls returned) is never looked at by the code.
\<close>

datatype 'c progress = Blocked | Crash | Next 'c

record ('s, 'p) conc =
  sh :: 's
  pcs :: "nat \<Rightarrow> 'p option"

type_synonym ('s, 'p) stmts = "nat \<Rightarrow> 'p \<Rightarrow> 's \<Rightarrow> ('s \<times> 'p option) progress"

datatype 'p action = Call nat 'p | Run nat

fun act :: "('s, 'p) stmts \<Rightarrow> 'p action \<Rightarrow> ('s, 'p) conc \<Rightarrow> ('s, 'p) conc progress" where
  "act code (Call p pc) c = (if pcs c p = None then Next (c\<lparr>pcs := (pcs c)(p \<mapsto> pc)\<rparr>) else Blocked)"
| "act code (Run p) c =
     (case pcs c p of
        None \<Rightarrow> Blocked
      | Some pc \<Rightarrow>
          (case code p pc (sh c) of
             Next (s, pc') \<Rightarrow> Next \<lparr>sh = s, pcs = (pcs c)(p := pc')\<rparr>
           | Blocked \<Rightarrow> Blocked
           | Crash \<Rightarrow> Crash))"

definition conc_start :: "'s \<Rightarrow> ('s, 'p) conc" where
  "conc_start s = \<lparr>sh = s, pcs = (\<lambda>_. None)\<rparr>"

text \<open>The states that can be reached when the calls begin at the program counters \<open>calls\<close>.\<close>

inductive conc_reach :: "('s, 'p) stmts \<Rightarrow> ('p \<Rightarrow> bool) \<Rightarrow> 's \<Rightarrow> ('s, 'p) conc \<Rightarrow> bool" for code calls s where
  start: "conc_reach code calls s (conc_start s)"
| call: "conc_reach code calls s c \<Longrightarrow> calls pc \<Longrightarrow> act code (Call p pc) c = Next c' \<Longrightarrow> conc_reach code calls s c'"
| run: "conc_reach code calls s c \<Longrightarrow> act code (Run p) c = Next c' \<Longrightarrow> conc_reach code calls s c'"

text \<open>One schedule, carried out; none if it asks for a step that is not possible.\<close>

fun schedule :: "('s, 'p) stmts \<Rightarrow> 'p action list \<Rightarrow> ('s, 'p) conc \<Rightarrow> ('s, 'p) conc option" where
  "schedule code [] c = Some c"
| "schedule code (a # as) c = (case act code a c of Next c' \<Rightarrow> schedule code as c' | _ \<Rightarrow> None)"

fun call_ok :: "('p \<Rightarrow> bool) \<Rightarrow> 'p action \<Rightarrow> bool" where
  "call_ok calls (Call p pc) = calls pc"
| "call_ok calls (Run p) = True"

lemma schedule_reach:
  "schedule code as c = Some c' \<Longrightarrow> list_all (call_ok calls) as \<Longrightarrow> conc_reach code calls s c \<Longrightarrow> conc_reach code calls s c'"
proof (induction as arbitrary: c)
  case Nil
  then show ?case by simp
next
  case (Cons a as)
  from Cons.prems(1) obtain c1 where 1: "act code a c = Next c1" "schedule code as c1 = Some c'"
    by (cases "act code a c") (simp_all del: act.simps)
  have "conc_reach code calls s c1"
  proof (cases a)
    case (Call p pc)
    then show ?thesis using conc_reach.call [OF Cons.prems(3), of pc p c1] 1(1) Cons.prems(2) by simp
  next
    case (Run p)
    then show ?thesis using conc_reach.run [OF Cons.prems(3), of p c1] 1(1) by simp
  qed
  then show ?case using Cons.IH [OF 1(2)] Cons.prems(2) by simp
qed

lemma schedule_from_start:
  "schedule code as (conc_start s) = Some c \<Longrightarrow> list_all (call_ok calls) as \<Longrightarrow> conc_reach code calls s c"
  by (rule schedule_reach) (auto intro: conc_reach.start)

lemma schedule_append:
  "schedule code (as @ bs) c = (case schedule code as c of None \<Rightarrow> None | Some c' \<Rightarrow> schedule code bs c')"
  by (induction as arbitrary: c) (auto split: progress.splits)

lemma two_phases:
  assumes "schedule code as c = Some c'" and "schedule code bs c' = Some c''" and "list_all (call_ok calls) (as @ bs)"
    and "c = conc_start s"
  shows "conc_reach code calls s c''"
  using assms schedule_from_start [of code "as @ bs" s c'' calls] by (simp add: schedule_append)

lemma replicate_numeral: "replicate (numeral k) x = x # replicate (pred_numeral k) x"
  by (simp add: numeral_eq_Suc)

lemma run_next:
  "act code (Run p) c = Next c' \<longleftrightarrow>
     (\<exists>pc s pc'. pcs c p = Some pc \<and> code p pc (sh c) = Next (s, pc') \<and> c' = \<lparr>sh = s, pcs = (pcs c)(p := pc')\<rparr>)"
  by (auto split: option.splits progress.splits)

locale owicki_gries =
  fixes code :: "('s, 'p) stmts" and calls :: "'p \<Rightarrow> bool" and I :: "'s \<Rightarrow> bool"
    and at :: "nat \<Rightarrow> 'p \<Rightarrow> 's \<Rightarrow> bool"
  assumes calls_at: "calls pc \<Longrightarrow> I s \<Longrightarrow> at p pc s"
    and local_step: "I s \<Longrightarrow> at p pc s \<Longrightarrow> code p pc s = Next (s', pc') \<Longrightarrow> I s' \<and> (\<forall>q. pc' = Some q \<longrightarrow> at p q s')"
    and interference: "I s \<Longrightarrow> at p pc s \<Longrightarrow> at p' q s \<Longrightarrow> p \<noteq> p' \<Longrightarrow> code p pc s = Next (s', pc') \<Longrightarrow> at p' q s'"
    and safe: "I s \<Longrightarrow> at p pc s \<Longrightarrow> code p pc s \<noteq> Crash"
begin

lemma reach_inv:
  assumes "conc_reach code calls s c" and "I s"
  shows "I (sh c) \<and> (\<forall>p pc. pcs c p = Some pc \<longrightarrow> at p pc (sh c))"
  using assms(1)
proof (induction rule: conc_reach.induct)
  case start
  then show ?case using assms(2) by (simp add: conc_start_def)
next
  case (call c pc p c')
  then have c': "c' = c\<lparr>pcs := (pcs c)(p \<mapsto> pc)\<rparr>" by (simp split: if_splits)
  have "at p pc (sh c)" using calls_at call by blast
  then show ?case using call.IH by (auto simp: c')
next
  case (run c p c')
  then obtain pc s' pc' where r: "pcs c p = Some pc" "code p pc (sh c) = Next (s', pc')" "c' = \<lparr>sh = s', pcs = (pcs c)(p := pc')\<rparr>"
    unfolding run_next by blast
  have "I (sh c)" and a: "at p pc (sh c)" using run.IH r(1) by blast+
  note l = local_step [OF this r(2)]
  have "at p' q s'" if "p' \<noteq> p" "pcs c p' = Some q" for p' q
    using interference [OF _ a _ _ r(2)] run.IH that by blast
  then show ?case using l by (auto simp: r(3))
qed

lemma reach_safe:
  assumes "conc_reach code calls s c" and "I s"
  shows "act code a c \<noteq> Crash"
  using reach_inv [OF assms] safe by (cases a) (auto split: option.splits progress.splits)

end

text \<open>Where the assertions speak of the process alone, there is no interference.\<close>

locale process_local =
  fixes code :: "('s, 'p) stmts" and calls :: "'p \<Rightarrow> bool" and I :: "'s \<Rightarrow> bool" and at :: "'p \<Rightarrow> bool"
  assumes calls_begin: "calls pc \<Longrightarrow> at pc"
    and step_keeps: "I s \<Longrightarrow> at pc \<Longrightarrow> code p pc s = Next (s', pc') \<Longrightarrow> I s' \<and> (\<forall>q. pc' = Some q \<longrightarrow> at q)"
    and no_crash: "I s \<Longrightarrow> at pc \<Longrightarrow> code p pc s \<noteq> Crash"

sublocale process_local \<subseteq> owicki_gries code calls I "\<lambda>p pc s. at pc"
  by unfold_locales (use calls_begin step_keeps no_crash in blast)+

end
