(* ===== verification/StorageConcurrency.thy ===== *)
theory StorageConcurrency
  imports StorageDevice Interleaving
begin

section \<open>The storage device and its mirror used by several processes at the same time\<close>

text \<open>
  All calls of \<open>storage_kernel.c\<close> (reads, writes and the six ioctls) with the two routines of
  \<open>storage_mirror_kernel.c\<close>, statement by statement, with their copies byte by byte. \<open>storage_mutex\<close>
  guards the buffer and the lock flags, \<open>mirror_mutex\<close> the mirror; the mirror ioctl reads the
  buffer without \<open>storage_mutex\<close>. A signal during \<open>mutex_lock_interruptible\<close> ends a call without
  effect, and is looked at where the call begins. The file system of a backup comes with the
  call; one \<open>kernel_write\<close> is one step. What the copies to the user deliver is not recorded here
  (StorageLinearizable does that).

  \<open>owner\<close> and \<open>mowner\<close> (who holds the two mutexes) and \<open>mirrored\<close> (the sectors whose mirroring was
  completed) are not variables of the code.
\<close>

record cstore =
  sto :: storage_dev
  mir :: mirror_dev
  owner :: "nat option"
  mowner :: "nat option"
  mirrored :: "int set"

datatype spc =
    SWEnter uenv size_t loff_t | SWLock loff_t "byte list" int int | SWCheck loff_t "byte list" int int
  | SWCopy loff_t "byte list" nat
  | SEEnter uenv | SELock int | SETest int | SEZero int nat
  | SLEnter uenv | SLLock int | SLSet int
  | SUEnter uenv | SULock int | SUSet int
  | SREnter uenv size_t loff_t | SRLock uenv loff_t nat | SRCopy uenv loff_t nat nat
  | SGEnter uenv | SGRead uenv nat "bool list" | SGUnlock uenv "bool list" | SGOut uenv "bool list"
  | SUnlock
  | MREnter uenv | MRLock int | MRCopy int nat | MRUnlock int
  | BKEnter uenv fsenv | BKLock fsenv "byte list" | BKWrite fsenv "byte list" int int | BKUnlock "byte list" ret

subsection \<open>The statements\<close>

definition storage_lock :: "nat \<Rightarrow> spc \<Rightarrow> cstore \<Rightarrow> (cstore \<times> spc option) progress" where
  "storage_lock p pc c =
     (if storage_mutex (sto c) then Blocked
      else Next (c\<lparr>sto := (sto c)\<lparr>storage_mutex := True\<rparr>, owner := Some p\<rparr>, Some pc))"

definition buffer_set :: "int \<Rightarrow> byte \<Rightarrow> spc \<Rightarrow> cstore \<Rightarrow> (cstore \<times> spc option) progress" where
  "buffer_set i b pc c =
     (case arr_set (storage_buffer (sto c)) i b of
        None \<Rightarrow> Crash
      | Some buf \<Rightarrow> Next (c\<lparr>sto := (sto c)\<lparr>storage_buffer := buf\<rparr>\<rparr>, Some pc))"

definition lock_state_set :: "int \<Rightarrow> bool \<Rightarrow> cstore \<Rightarrow> (cstore \<times> spc option) progress" where
  "lock_state_set i l c =
     (case arr_set (sector_lock_state (sto c)) i l of
        None \<Rightarrow> Crash
      | Some lk \<Rightarrow> Next (c\<lparr>sto := (sto c)\<lparr>sector_lock_state := lk\<rparr>\<rparr>, Some SUnlock))"

definition lock_state_test :: "int \<Rightarrow> spc \<Rightarrow> cstore \<Rightarrow> (cstore \<times> spc option) progress" where
  "lock_state_test i pc c =
     (case arr_get (sector_lock_state (sto c)) i of
        None \<Rightarrow> Crash
      | Some l \<Rightarrow> Next (c, Some (if l then SUnlock else pc)))"

definition storage_write_stmts :: "nat \<Rightarrow> spc \<Rightarrow> cstore \<Rightarrow> (cstore \<times> spc option) progress" where
  "storage_write_stmts p pc c =
     (case pc of
        SWEnter u len off \<Rightarrow>
          if 4096 \<le> sint off then Next (c, None)
          else
            let len = (if 4096 < off + len then 4096 - off else len); endp = off + len in
            if intr u then Next (c, None)
            else Next (c, Some (SWLock off (snd (ucfu u (unat len))) (sector_of off) (sector_of (endp - 1))))
      | SWLock off bs s e \<Rightarrow> storage_lock p (SWCheck off bs s e) c
      | SWCheck off bs s e \<Rightarrow>
          if s \<le> e then lock_state_test s (SWCheck off bs (s + 1) e) c else Next (c, Some (SWCopy off bs 0))
      | SWCopy off bs i \<Rightarrow>
          if i < length bs then buffer_set (sint off + int i) (bs ! i) (SWCopy off bs (i + 1)) c
          else Next (c, Some SUnlock)
      | _ \<Rightarrow> Blocked)"

definition storage_read_stmts :: "nat \<Rightarrow> spc \<Rightarrow> cstore \<Rightarrow> (cstore \<times> spc option) progress" where
  "storage_read_stmts p pc c =
     (case pc of
        SREnter u len off \<Rightarrow>
          if 4096 \<le> sint off then Next (c, None)
          else
            let len = (if 4096 < off + len then 4096 - off else len) in
            Next (c, if intr u then None else Some (SRLock u off (unat len)))
      | SRLock u off n \<Rightarrow> storage_lock p (SRCopy u off n 0) c
      | SRCopy u off n k \<Rightarrow>
          if k < n - uctu u n then
            (case arr_get (storage_buffer (sto c)) (sint off + int k) of
               None \<Rightarrow> Crash
             | Some b \<Rightarrow> Next (c, Some (SRCopy u off n (k + 1))))
          else Next (c, Some SUnlock)
      | _ \<Rightarrow> Blocked)"

definition sector_arg :: "uenv \<Rightarrow> (int \<Rightarrow> spc) \<Rightarrow> cstore \<Rightarrow> (cstore \<times> spc option) progress" where
  "sector_arg u pc c =
     (case user_int u of
        None \<Rightarrow> Next (c, None)
      | Some i \<Rightarrow> if i < 0 \<or> 8 \<le> i then Next (c, None) else Next (c, Some (pc i)))"

definition ioctl_stmts :: "nat \<Rightarrow> spc \<Rightarrow> cstore \<Rightarrow> (cstore \<times> spc option) progress" where
  "ioctl_stmts p pc c =
     (case pc of
        SLEnter u \<Rightarrow> sector_arg u SLLock c
      | SLLock i \<Rightarrow> storage_lock p (SLSet i) c
      | SLSet i \<Rightarrow> lock_state_set i True c
      | SUEnter u \<Rightarrow>
          if fst (ucfu u 4) \<noteq> 0 then Next (c, None)
          else
            let req = snd (ucfu u 4); i = unlock_req_sector req in
            if i < 0 \<or> 8 \<le> i then Next (c, None)
            else
              (case key_valid (user_keys (sto c)) (key_count (sto c)) (unlock_req_key req) 0 of
                 None \<Rightarrow> Crash
               | Some valid \<Rightarrow> Next (c, if \<not> valid \<or> intr u then None else Some (SULock i)))
      | SULock i \<Rightarrow> storage_lock p (SUSet i) c
      | SUSet i \<Rightarrow> lock_state_set i False c
      | SEEnter u \<Rightarrow> sector_arg u SELock c
      | SELock i \<Rightarrow> storage_lock p (SETest i) c
      | SETest i \<Rightarrow> lock_state_test i (SEZero i 0) c
      | SEZero i k \<Rightarrow>
          if k < 512 then buffer_set (i * 512 + int k) 0 (SEZero i (k + 1)) c else Next (c, Some SUnlock)
      | SGEnter u \<Rightarrow> storage_lock p (SGRead u 0 []) c
      | SGRead u i info \<Rightarrow>
          if i < 8 then
            (case arr_get (sector_lock_state (sto c)) (int i) of
               None \<Rightarrow> Crash
             | Some l \<Rightarrow> Next (c, Some (SGRead u (i + 1) (info @ [l]))))
          else Next (c, Some (SGUnlock u info))
      | SGUnlock u info \<Rightarrow>
          Next (c\<lparr>sto := (sto c)\<lparr>storage_mutex := False\<rparr>, owner := None\<rparr>, Some (SGOut u info))
      | SGOut u info \<Rightarrow> Next (c, None)
      | SUnlock \<Rightarrow> Next (c\<lparr>sto := (sto c)\<lparr>storage_mutex := False\<rparr>, owner := None\<rparr>, None)
      | _ \<Rightarrow> Blocked)"

definition mirror_stmts :: "nat \<Rightarrow> spc \<Rightarrow> cstore \<Rightarrow> (cstore \<times> spc option) progress" where
  "mirror_stmts p pc c =
     (case pc of
        MREnter u \<Rightarrow> if intr u then Next (c, None) else sector_arg u MRLock c
      | MRLock i \<Rightarrow>
          if mirror_mutex (mir c) then Blocked
          else Next (c\<lparr>mir := (mir c)\<lparr>mirror_mutex := True\<rparr>, mowner := Some p\<rparr>, Some (MRCopy i 0))
      | MRCopy i k \<Rightarrow>
          if k < 512 then
            (case arr_get (storage_buffer (sto c)) (i * 512 + int k) of
               None \<Rightarrow> Crash
             | Some b \<Rightarrow>
                 (case arr_set (mirror_buffer (mir c)) (i * 512 + int k) b of
                    None \<Rightarrow> Crash
                  | Some m \<Rightarrow> Next (c\<lparr>mir := (mir c)\<lparr>mirror_buffer := m\<rparr>\<rparr>, Some (MRCopy i (k + 1)))))
          else Next (c, Some (MRUnlock i))
      | MRUnlock i \<Rightarrow>
          Next (c\<lparr>mir := (mir c)\<lparr>mirror_mutex := False\<rparr>, mowner := None, mirrored := insert i (mirrored c)\<rparr>, None)
      | _ \<Rightarrow> Blocked)"

text \<open>
  The backup: the path is fetched and the file opened before \<open>mirror_mutex\<close> is taken, and closed
  after it is given back.
\<close>

definition backup_stmts :: "nat \<Rightarrow> spc \<Rightarrow> cstore \<Rightarrow> (cstore \<times> spc option) progress" where
  "backup_stmts p pc c =
     (case pc of
        BKEnter u fs \<Rightarrow>
          if fst (ucfu u 256) \<noteq> 0 then Next (c, None)
          else
            (case arr_get (snd (ucfu u 256)) 0 of
               None \<Rightarrow> Crash
             | Some c0 \<Rightarrow>
                 if c0 = 0 then Next (c, None)
                 else
                   (case c_string (snd (ucfu u 256)) of
                      None \<Rightarrow> Crash
                    | Some path \<Rightarrow>
                        (case filp_open fs path of
                           Inl e \<Rightarrow> Next (c, None)
                         | Inr f \<Rightarrow> Next (c, if intr u then None else Some (BKLock fs f)))))
      | BKLock fs f \<Rightarrow>
          if mirror_mutex (mir c) then Blocked
          else Next (c\<lparr>mir := (mir c)\<lparr>mirror_mutex := True\<rparr>, mowner := Some p\<rparr>, Some (BKWrite fs f 0 0))
      | BKWrite fs f pos written \<Rightarrow>
          if pos < 4096 then
            (case mem_read (mirror_buffer (mir c)) pos (min 4096 (nat (4096 - pos))) of
               None \<Rightarrow> Crash
             | Some src \<Rightarrow>
                 (case kernel_write fs f src pos of
                    (rc, pos', f') \<Rightarrow> Next (c, Some
                      (if rc < 0 then BKUnlock f' (Inl (KErr rc))
                       else if rc = 0 then BKUnlock f' (Inl EIO)
                       else BKWrite fs f' pos' (written + rc)))))
          else Next (c, Some (BKUnlock f (if written = 4096 then Inr 0 else Inl EIO)))
      | BKUnlock f r \<Rightarrow> Next (c\<lparr>mir := (mir c)\<lparr>mirror_mutex := False\<rparr>, mowner := None\<rparr>, None)
      | _ \<Rightarrow> Blocked)"

fun pc_read :: "spc \<Rightarrow> bool" where
  "pc_read (SREnter u len off) = True"
| "pc_read (SRLock u off n) = True"
| "pc_read (SRCopy u off n k) = True"
| "pc_read pc = False"

fun pc_backup :: "spc \<Rightarrow> bool" where
  "pc_backup (BKEnter u fs) = True"
| "pc_backup (BKLock fs f) = True"
| "pc_backup (BKWrite fs f pos written) = True"
| "pc_backup (BKUnlock f r) = True"
| "pc_backup pc = False"

fun pc_write :: "spc \<Rightarrow> bool" where
  "pc_write (SWEnter u len off) = True"
| "pc_write (SWLock off bs s e) = True"
| "pc_write (SWCheck off bs s e) = True"
| "pc_write (SWCopy off bs i) = True"
| "pc_write pc = False"

fun pc_mirror :: "spc \<Rightarrow> bool" where
  "pc_mirror (MREnter u) = True"
| "pc_mirror (MRLock i) = True"
| "pc_mirror (MRCopy i k) = True"
| "pc_mirror (MRUnlock i) = True"
| "pc_mirror pc = False"

definition storage_stmts :: "(cstore, spc) stmts" where
  "storage_stmts p pc c =
     (if pc_write pc then storage_write_stmts p pc c
      else if pc_mirror pc then mirror_stmts p pc c
      else if pc_read pc then storage_read_stmts p pc c
      else if pc_backup pc then backup_stmts p pc c
      else ioctl_stmts p pc c)"

fun storage_calls :: "spc \<Rightarrow> bool" where
  "storage_calls (SWEnter u len off) = (uaccess_ok u \<and> vfs_ok len off)"
| "storage_calls (SREnter u len off) = vfs_ok len off"
| "storage_calls (SGEnter u) = True"
| "storage_calls (BKEnter u fs) =
     (uaccess_ok u \<and> fs_ok fs \<and> (fst (ucfu u 256) = 0 \<longrightarrow> 0 \<in> set (snd (ucfu u 256))))"
| "storage_calls (SEEnter u) = True"
| "storage_calls (SLEnter u) = True"
| "storage_calls (SUEnter u) = True"
| "storage_calls (MREnter u) = True"
| "storage_calls pc = False"

definition cstore_start :: "storage_dev \<Rightarrow> mirror_dev \<Rightarrow> cstore" where
  "cstore_start s m = \<lparr>sto = s, mir = m, owner = None, mowner = None, mirrored = {}\<rparr>"

lemmas storage_steps = storage_lock_def buffer_set_def lock_state_set_def lock_state_test_def sector_arg_def

lemmas storage_stmts_simps = storage_stmts_def storage_write_stmts_def storage_read_stmts_def ioctl_stmts_def
  mirror_stmts_def backup_stmts_def storage_steps Let_def

subsection \<open>What holds in every interleaving\<close>

fun holds :: "spc \<Rightarrow> bool" where
  "holds (SWCheck off bs s e) = True"
| "holds (SWCopy off bs i) = True"
| "holds (SRCopy u off n k) = True"
| "holds (SGRead u i info) = True"
| "holds (SGUnlock u info) = True"
| "holds (SETest i) = True"
| "holds (SEZero i k) = True"
| "holds (SLSet i) = True"
| "holds (SUSet i) = True"
| "holds SUnlock = True"
| "holds pc = False"

fun mholds :: "spc \<Rightarrow> bool" where
  "mholds (MRCopy i k) = True"
| "mholds (MRUnlock i) = True"
| "mholds (BKWrite fs f pos written) = True"
| "mholds (BKUnlock f r) = True"
| "mholds pc = False"

definition store_shared :: "cstore \<Rightarrow> bool" where
  "store_shared c \<longleftrightarrow>
     length (storage_buffer (sto c)) = 4096 \<and> length (sector_lock_state (sto c)) = 8 \<and>
     length (mirror_buffer (mir c)) = 4096 \<and> length (user_keys (sto c)) = 8 \<and>
     0 \<le> key_count (sto c) \<and> key_count (sto c) \<le> 8 \<and>
     (storage_mutex (sto c) \<longleftrightarrow> owner c \<noteq> None) \<and> (mirror_mutex (mir c) \<longleftrightarrow> mowner c \<noteq> None)"

definition inside :: "loff_t \<Rightarrow> byte list \<Rightarrow> bool" where
  "inside off bs \<longleftrightarrow> 0 \<le> sint off \<and> sint off + int (length bs) \<le> 4096"

fun bounded :: "spc \<Rightarrow> bool" where
  "bounded (SWEnter u len off) = (uaccess_ok u \<and> vfs_ok len off)"
| "bounded (SWLock off bs s e) = (inside off bs \<and> 0 \<le> s \<and> e < 8)"
| "bounded (SWCheck off bs s e) = (inside off bs \<and> 0 \<le> s \<and> e < 8)"
| "bounded (SWCopy off bs i) = inside off bs"
| "bounded (SREnter u len off) = vfs_ok len off"
| "bounded (SRLock u off n) = (0 \<le> sint off \<and> sint off + int n \<le> 4096)"
| "bounded (SRCopy u off n k) = (0 \<le> sint off \<and> sint off + int n \<le> 4096)"
| "bounded (BKEnter u fs) =
     (uaccess_ok u \<and> fs_ok fs \<and> (fst (ucfu u 256) = 0 \<longrightarrow> 0 \<in> set (snd (ucfu u 256))))"
| "bounded (BKLock fs f) = (fs_ok fs \<and> f = [])"
| "bounded (BKWrite fs f pos written) = (fs_ok fs \<and> 0 \<le> pos \<and> pos \<le> 4096)"
| "bounded (SELock i) = (0 \<le> i \<and> i < 8)"
| "bounded (SETest i) = (0 \<le> i \<and> i < 8)"
| "bounded (SEZero i k) = (0 \<le> i \<and> i < 8)"
| "bounded (SLLock i) = (0 \<le> i \<and> i < 8)"
| "bounded (SLSet i) = (0 \<le> i \<and> i < 8)"
| "bounded (SULock i) = (0 \<le> i \<and> i < 8)"
| "bounded (SUSet i) = (0 \<le> i \<and> i < 8)"
| "bounded (MRLock i) = (0 \<le> i \<and> i < 8)"
| "bounded (MRCopy i k) = (0 \<le> i \<and> i < 8)"
| "bounded pc = True"

text \<open>What a backup has written is the beginning of the mirror; all of it, when it will report success.\<close>

fun file_copied :: "spc \<Rightarrow> byte list \<Rightarrow> bool" where
  "file_copied (BKWrite fs f pos written) buf = (f = take (nat pos) buf)"
| "file_copied (BKUnlock f r) buf = (r = Inr 0 \<longrightarrow> f = buf)"
| "file_copied pc buf = True"

definition store_at :: "nat \<Rightarrow> spc \<Rightarrow> cstore \<Rightarrow> bool" where
  "store_at p pc c \<longleftrightarrow> bounded pc \<and> (holds pc \<longrightarrow> owner c = Some p) \<and> (mholds pc \<longrightarrow> mowner c = Some p) \<and>
     file_copied pc (mirror_buffer (mir c))"

lemma file_copied_free: "\<not> mholds pc \<Longrightarrow> file_copied pc buf"
  by (cases pc) simp_all

text \<open>The entry of a write: what is left of the count, and the sectors the check will look at.\<close>

lemma write_range:
  assumes "vfs_ok len off" and "unat off < 4096"
  shows "sector_of off = int (unat off div 512)"
    and "sector_of (off + word_of_nat (clamp len off) - 1) =
      (if unat off + clamp len off = 0 then - 1 else int ((unat off + clamp len off - 1) div 512))"
proof -
  let ?n = "clamp len off"
  have le: "unat off + ?n \<le> 4096" using assms(2) by (rule clamp_le)
  show "sector_of off = int (unat off div 512)" using assms(2) by (intro sector_of_small) simp
  have sum: "unat (off + word_of_nat ?n) = unat off + ?n"
    using le by (subst unat_add_lem [THEN iffD1]) (simp_all add: unat_clamp)
  show "sector_of (off + word_of_nat ?n - 1) =
      (if unat off + ?n = 0 then - 1 else int ((unat off + ?n - 1) div 512))"
  proof (cases "unat off + ?n = 0")
    case True
    then have "off + word_of_nat ?n = 0" using sum by (metis unat_eq_zero)
    then show ?thesis using True by (simp add: sector_of_wrapped)
  next
    case False
    have "unat (off + word_of_nat ?n - 1) = unat off + ?n - 1"
      using False sum by (subst unat_sub) (auto simp: word_le_nat_alt)
    then show ?thesis using False le by (simp add: sector_of_small)
  qed
qed

lemma write_enters:
  assumes "uaccess_ok u" and "vfs_ok len off" and "storage_stmts p (SWEnter u len off) c = Next (c', Some pc)"
  obtains n where "c' = c" "unat off + n \<le> 4096" "unat off < 4096"
    "pc = SWLock off (snd (ucfu u n)) (int (unat off div 512)) (if unat off + n = 0 then - 1 else int ((unat off + n - 1) div 512))"
proof -
  have lt: "unat off < 4096" and "\<not> intr u"
    using assms by (auto simp: storage_stmts_def storage_write_stmts_def Let_def not_le[symmetric] split: if_splits)
  then have "pc = SWLock off (snd (ucfu u (clamp len off))) (sector_of off) (sector_of (off + word_of_nat (clamp len off) - 1))" "c' = c"
    using assms(2,3) by (simp_all add: storage_stmts_def storage_write_stmts_def Let_def clamp_word [OF assms(2) lt])
  then show thesis using that [of "clamp len off"] lt clamp_le [OF lt] write_range [OF assms(2) lt] by simp
qed

lemma read_enters:
  assumes "vfs_ok len off" and "storage_stmts p (SREnter u len off) c = Next (c', Some pc)"
  shows "c' = c \<and> (\<exists>n. unat off + n \<le> 4096 \<and> pc = SRLock u off n)"
proof -
  have lt: "unat off < 4096" and "\<not> intr u"
    using assms by (auto simp: storage_stmts_def storage_read_stmts_def Let_def not_le[symmetric] split: if_splits)
  then have "pc = SRLock u off (clamp len off)" "c' = c"
    using assms by (simp_all add: storage_stmts_def storage_read_stmts_def Let_def clamp_word [OF assms(1) lt] unat_clamp)
  then show ?thesis using clamp_le [OF lt] by blast
qed

text \<open>One \<open>kernel_write\<close> of a backup: the file is again the beginning of the mirror.\<close>

lemma backup_step:
  assumes "store_shared c" and "store_at p (BKWrite fs f pos w) c" and "storage_stmts p (BKWrite fs f pos w) c = Next (c', pc')"
  shows "c' = c \<and> (\<exists>q. pc' = Some q \<and> mholds q \<and> \<not> holds q \<and> bounded q \<and> file_copied q (mirror_buffer (mir c)))"
proof -
  let ?buf = "mirror_buffer (mir c)" and ?n = "min 4096 (nat (4096 - pos))"
  have l: "length ?buf = 4096" using assms(1) by (simp add: store_shared_def)
  have a: "fs_ok fs" "0 \<le> pos" "pos \<le> 4096" "f = take (nat pos) ?buf" using assms(2) by (simp_all add: store_at_def)
  show ?thesis
  proof (cases "pos < 4096")
    case False
    then have "f = ?buf" using a l by simp
    then show ?thesis using assms(3) False by (auto simp: storage_stmts_def backup_stmts_def)
  next
    case True
    let ?src = "take ?n (drop (nat pos) ?buf)"
    have rd: "mem_read ?buf pos ?n = Some ?src" using True a l by (intro mem_read_in) auto
    obtain rc pos' f' where kw: "kernel_write fs f ?src pos = (rc, pos', f')" using prod_cases3 by blast
    have s: "c' = c" "pc' = Some (if rc < 0 then BKUnlock f' (Inl (KErr rc)) else if rc = 0 then BKUnlock f' (Inl EIO)
        else BKWrite fs f' pos' (w + rc))"
      using assms(3) True rd kw by (simp_all add: storage_stmts_def backup_stmts_def)
    show ?thesis
    proof (cases "0 < rc")
      case False
      then show ?thesis using s by (cases "rc = 0") simp_all
    next
      case rc: True
      have "int (length f) = pos" using a l by simp
      then have k: "rc \<le> int (length ?src)" "pos' = pos + rc" "f' = f @ take (nat rc) ?src"
        using a(1) kw rc unfolding fs_ok_def by metis+
      then have le: "pos + rc \<le> 4096" using a l by auto
      have "f' = take (nat (pos + rc)) ?buf"
        using k a(2,4) le rc by (simp add: nat_add_distrib take_add min_absorb1 nat_le_eq_zle)
      then show ?thesis using s rc le k(2) a(1,2) by simp
    qed
  qed
qed

lemma store_local:
  assumes "store_shared c" and "store_at p pc c" and "storage_stmts p pc c = Next (c', pc')"
  shows "store_shared c' \<and> (\<forall>q. pc' = Some q \<longrightarrow> store_at p q c')"
proof (cases pc)
  case (SWEnter u len off)
  then have v: "vfs_ok len off" "uaccess_ok u" using assms(2) by (simp_all add: store_at_def)
  show ?thesis
  proof (cases pc')
    case None
    then show ?thesis using assms(1,3) SWEnter by (auto simp: storage_stmts_simps split: if_splits)
  next
    case (Some q)
    have "storage_stmts p (SWEnter u len off) c = Next (c', Some q)" using assms(3) SWEnter Some by simp
    then obtain n where n: "c' = c" "unat off + n \<le> 4096" "unat off < 4096"
      "q = SWLock off (snd (ucfu u n)) (int (unat off div 512)) (if unat off + n = 0 then - 1 else int ((unat off + n - 1) div 512))"
      by (rule write_enters [OF v(2,1)])
    have "int ((unat off + n - 1) div 512) < 8" if "unat off + n \<noteq> 0"
    proof -
      have "unat off + n - 1 < 8 * 512" using that n(2) by simp
      then have "(unat off + n - 1) div 512 < 8" by (rule less_mult_imp_div_less)
      then show ?thesis by simp
    qed
    moreover have "inside off (snd (ucfu u n))"
    proof -
      have "int (unat off + n) \<le> int 4096" using n(2) by (simp only: of_nat_le_iff)
      then show ?thesis using v unfolding inside_def vfs_ok_sint [OF v(1)] by simp
    qed
    ultimately show ?thesis using assms(1) n(1,4) Some
      by (simp add: store_at_def)
  qed
next
  case (SREnter u len off)
  show ?thesis
  proof (cases pc')
    case None
    then show ?thesis using assms(1,3) SREnter by (auto simp: storage_stmts_simps split: if_splits)
  next
    case (Some q)
    have v: "vfs_ok len off" using assms(2) SREnter by (simp add: store_at_def)
    obtain n where n: "c' = c" "unat off + n \<le> 4096" "q = SRLock u off n"
      using read_enters [OF v] assms(3) SREnter Some by blast
    have "int (unat off + n) \<le> int 4096" using n(2) by (simp only: of_nat_le_iff)
    then show ?thesis using assms(1) n Some vfs_ok_sint [OF v] by (simp add: store_at_def)
  qed
next
  case (BKEnter u fs)
  then show ?thesis using assms
    by (auto simp: storage_stmts_simps store_at_def fs_ok_def split: if_splits option.splits sum.splits)
next
  case (BKWrite fs f pos w)
  then show ?thesis using backup_step [of c p fs f pos w c' pc'] assms by (auto simp: store_at_def)
next
  case (SWCopy off bs i)
  then show ?thesis using assms
    by (auto simp: storage_stmts_simps store_at_def store_shared_def inside_def arr_set_def split: if_splits)
next
  case (SEZero i k)
  then show ?thesis using assms
    by (auto simp: storage_stmts_simps store_at_def store_shared_def arr_set_def split: if_splits)
next
  case (MRCopy i k)
  then show ?thesis using assms
    by (auto simp: storage_stmts_simps store_at_def store_shared_def arr_set_def split: if_splits option.splits)
qed (use assms in \<open>auto simp: storage_stmts_simps store_at_def store_shared_def arr_set_def split: if_splits option.splits\<close>)

text \<open>Another process changes the mirror only while it holds \<open>mirror_mutex\<close>.\<close>

lemma mirror_only_holder:
  assumes "storage_stmts p pc c = Next (c', pc')" and "\<not> mholds pc"
  shows "mirror_buffer (mir c') = mirror_buffer (mir c)"
  using assms by (cases pc) (auto simp: storage_stmts_simps split: if_splits option.splits sum.splits prod.splits)

lemma store_interference:
  assumes "store_shared c" and "store_at p pc c" and "store_at p' q c" and "p \<noteq> p'"
    and "storage_stmts p pc c = Next (c', pc')"
  shows "store_at p' q c'"
proof -
  have "bounded q \<and> (holds q \<longrightarrow> owner c' = Some p') \<and> (mholds q \<longrightarrow> mowner c' = Some p')"
    using assms
    by (cases pc) (auto simp: storage_stmts_simps store_at_def store_shared_def split: if_splits option.splits prod.splits sum.splits)
  moreover have "file_copied q (mirror_buffer (mir c'))"
  proof (cases "mholds q")
    case True
    then have "\<not> mholds pc" using assms(2-4) by (auto simp: store_at_def)
    then show ?thesis using mirror_only_holder [OF assms(5)] assms(3) by (simp add: store_at_def)
  qed (rule file_copied_free)
  ultimately show ?thesis by (simp add: store_at_def)
qed

lemma store_safe:
  assumes "store_shared c" and "store_at p pc c"
  shows "storage_stmts p pc c \<noteq> Crash"
proof (cases pc)
  case (SUEnter u)
  obtain v where "key_valid (user_keys (sto c)) (key_count (sto c)) (unlock_req_key (snd (ucfu u 4))) 0 = Some v"
    using key_valid_eq [of 0 "key_count (sto c)" "user_keys (sto c)"] assms(1) by (simp add: store_shared_def)
  then show ?thesis using SUEnter by (simp add: storage_stmts_simps)
next
  case (BKEnter u fs)
  then have "length (snd (ucfu u 256)) = 256" and "fst (ucfu u 256) = 0 \<Longrightarrow> c_string (snd (ucfu u 256)) \<noteq> None"
    using assms(2) by (simp_all add: store_at_def c_string_def)
  then show ?thesis using BKEnter by (auto simp: storage_stmts_simps arr_get_def split: sum.splits)
next
  case (BKWrite fs f pos w)
  have "length (mirror_buffer (mir c)) = 4096" using assms(1) by (simp add: store_shared_def)
  then have "mem_read (mirror_buffer (mir c)) pos (min 4096 (nat (4096 - pos))) \<noteq> None" if "pos < 4096"
    using assms(2) BKWrite that mem_read_in [of pos "min 4096 (nat (4096 - pos))" "mirror_buffer (mir c)"]
    by (auto simp: store_at_def)
  then show ?thesis using BKWrite by (auto simp: storage_stmts_simps split: prod.splits)
qed (use assms in \<open>auto simp: storage_stmts_simps store_at_def store_shared_def inside_def arr_set_def arr_get_def split: if_splits option.splits\<close>)

interpretation storage_processes: owicki_gries storage_stmts storage_calls store_shared store_at
proof unfold_locales
  fix pc c p p' q c' pc'
  show "storage_calls pc \<Longrightarrow> store_shared c \<Longrightarrow> store_at p pc c"
    by (cases pc) (simp_all add: store_at_def)
  show "store_shared c \<Longrightarrow> store_at p pc c \<Longrightarrow> storage_stmts p pc c = Next (c', pc') \<Longrightarrow>
      store_shared c' \<and> (\<forall>q. pc' = Some q \<longrightarrow> store_at p q c')" by (rule store_local)
  show "store_shared c \<Longrightarrow> store_at p pc c \<Longrightarrow> store_at p' q c \<Longrightarrow> p \<noteq> p' \<Longrightarrow>
      storage_stmts p pc c = Next (c', pc') \<Longrightarrow> store_at p' q c'" by (rule store_interference)
  show "store_shared c \<Longrightarrow> store_at p pc c \<Longrightarrow> storage_stmts p pc c \<noteq> Crash" by (rule store_safe)
qed

subsection \<open>A locked sector, and its mirror\<close>

text \<open>\<open>sk\<close> is the contents of sector \<open>k\<close> when it was locked.\<close>

definition has_sector :: "nat \<Rightarrow> byte list \<Rightarrow> nat \<Rightarrow> byte list \<Rightarrow> bool" where
  "has_sector k sk n buf \<longleftrightarrow> (\<forall>j < n. j < 512 \<longrightarrow> buf ! (k * 512 + j) = sk ! j)"

text \<open>\<open>ks\<close> are the keys that fit.\<close>

definition keys_are :: "(byte \<Rightarrow> bool) \<Rightarrow> cstore \<Rightarrow> bool" where
  "keys_are ks c \<longleftrightarrow> (\<forall>b. key_valid (user_keys (sto c)) (key_count (sto c)) b 0 = Some (ks b))"

definition frozen_shared :: "nat \<Rightarrow> byte list \<Rightarrow> (byte \<Rightarrow> bool) \<Rightarrow> cstore \<Rightarrow> bool" where
  "frozen_shared k sk ks c \<longleftrightarrow> store_shared c \<and> k < 8 \<and> sector_lock_state (sto c) ! k \<and>
     has_sector k sk 512 (storage_buffer (sto c)) \<and> keys_are ks c \<and>
     (int k \<in> mirrored c \<longrightarrow> has_sector k sk 512 (mirror_buffer (mir c)))"

text \<open>The sectors that a write still has to check cover every byte it will change in sector \<open>k\<close>.\<close>

definition covers :: "nat \<Rightarrow> loff_t \<Rightarrow> byte list \<Rightarrow> int \<Rightarrow> int \<Rightarrow> bool" where
  "covers k off bs s e \<longleftrightarrow> (\<forall>i < length bs. (nat (sint off) + i) div 512 = k \<longrightarrow> s \<le> int k \<and> int k \<le> e)"

fun avoids :: "nat \<Rightarrow> byte list \<Rightarrow> (byte \<Rightarrow> bool) \<Rightarrow> spc \<Rightarrow> cstore \<Rightarrow> bool" where
  "avoids k sk ks (SWLock off bs s e) c = covers k off bs s e"
| "avoids k sk ks (SWCheck off bs s e) c = covers k off bs s e"
| "avoids k sk ks (SWCopy off bs i) c = (\<forall>i < length bs. (nat (sint off) + i) div 512 \<noteq> k)"
| "avoids k sk ks (SEZero i n) c = (i \<noteq> int k)"
| "avoids k sk ks (SUEnter u) c =
     (unlock_req_sector (snd (ucfu u 4)) = int k \<longrightarrow> \<not> ks (unlock_req_key (snd (ucfu u 4))))"
| "avoids k sk ks (SULock i) c = (i \<noteq> int k)"
| "avoids k sk ks (SUSet i) c = (i \<noteq> int k)"
| "avoids k sk ks (MRCopy i n) c = (i = int k \<longrightarrow> has_sector k sk n (mirror_buffer (mir c)))"
| "avoids k sk ks (MRUnlock i) c = (i = int k \<longrightarrow> has_sector k sk 512 (mirror_buffer (mir c)))"
| "avoids k sk ks pc c = True"

definition frozen_at :: "nat \<Rightarrow> byte list \<Rightarrow> (byte \<Rightarrow> bool) \<Rightarrow> nat \<Rightarrow> spc \<Rightarrow> cstore \<Rightarrow> bool" where
  "frozen_at k sk ks p pc c \<longleftrightarrow> store_at p pc c \<and> avoids k sk ks pc c"

fun keeps_lock :: "nat \<Rightarrow> (byte \<Rightarrow> bool) \<Rightarrow> spc \<Rightarrow> bool" where
  "keeps_lock k ks (SUEnter u) =
     (unlock_req_sector (snd (ucfu u 4)) = int k \<longrightarrow> \<not> ks (unlock_req_key (snd (ucfu u 4))))"
| "keeps_lock k ks pc = storage_calls pc"

lemma other_sector:
  assumes "0 \<le> i" and "nat i div 512 \<noteq> k" and "j < 512"
  shows "xs[nat i := b] ! (k * 512 + j) = xs ! (k * 512 + j)"
proof -
  have "(k * 512 + j) div 512 = k" using assms(3) by simp
  then have "nat i \<noteq> k * 512 + j" using assms(2) by metis
  then show ?thesis by simp
qed

lemma has_sector_other:
  "has_sector k sk n buf \<Longrightarrow> 0 \<le> i \<Longrightarrow> nat i div 512 \<noteq> k \<Longrightarrow> has_sector k sk n (buf[nat i := b])"
  by (simp add: has_sector_def other_sector)

lemma has_sector_same:
  assumes "has_sector k sk n buf" and "k * 512 + m < length buf" and "m < 512 \<longrightarrow> b = sk ! m"
  shows "has_sector k sk n (buf[k * 512 + m := b])"
  using assms by (auto simp: has_sector_def nth_list_update)

lemma has_sector_next:
  assumes "has_sector k sk n buf" and "k * 512 + n < length buf" and "n < 512 \<longrightarrow> b = sk ! n"
  shows "has_sector k sk (n + 1) (buf[k * 512 + n := b])"
  using assms by (auto simp: has_sector_def nth_list_update less_Suc_eq)

lemma covers_next: "covers k off bs s e \<Longrightarrow> s \<noteq> int k \<Longrightarrow> covers k off bs (s + 1) e"
  by (auto simp: covers_def)

lemma covers_done: "covers k off bs s e \<Longrightarrow> \<not> s \<le> e \<Longrightarrow> i < length bs \<Longrightarrow> (nat (sint off) + i) div 512 \<noteq> k"
  by (auto simp: covers_def)

lemma covers_entry:
  assumes "0 \<le> sint off" and "nat (sint off) = w" and "length bs = n"
  shows "covers k off bs (int (w div 512)) (if w + n = 0 then - 1 else int ((w + n - 1) div 512))"
proof -
  have "w div 512 \<le> (w + i) div 512 \<and> (w + i) div 512 \<le> (w + n - 1) div 512" if "i < n" for i
    using that by (auto intro!: div_le_mono)
  then show ?thesis using assms by (auto simp: covers_def simp del: of_nat_div)
qed

text \<open>What a step does to the sector, its flag and its mirror; one lemma for each kind of step.\<close>

definition frozen :: "nat \<Rightarrow> byte list \<Rightarrow> (byte \<Rightarrow> bool) \<Rightarrow> cstore \<Rightarrow> bool" where
  "frozen k sk ks c \<longleftrightarrow> sector_lock_state (sto c) ! k \<and> has_sector k sk 512 (storage_buffer (sto c)) \<and>
     keys_are ks c \<and> (int k \<in> mirrored c \<longrightarrow> has_sector k sk 512 (mirror_buffer (mir c)))"

lemma frozen_sharedI: "store_shared c \<Longrightarrow> k < 8 \<Longrightarrow> frozen k sk ks c \<Longrightarrow> frozen_shared k sk ks c"
  by (simp add: frozen_shared_def frozen_def)

lemma frozen_buffer_set:
  assumes "frozen k sk ks c" and "0 \<le> i" and "nat i div 512 \<noteq> k" and "buffer_set i b pc c = Next (c', pc')"
  shows "frozen k sk ks c' \<and> pc' = Some pc"
  using assms has_sector_other [OF _ assms(2,3)]
  by (auto simp: frozen_def keys_are_def buffer_set_def arr_set_def split: if_splits)

lemma frozen_lock_set:
  assumes "frozen k sk ks c" and "i \<noteq> int k \<or> l" and "lock_state_set i l c = Next (c', pc')"
  shows "frozen k sk ks c' \<and> pc' = Some SUnlock"
  using assms by (auto simp: frozen_def keys_are_def lock_state_set_def arr_set_def nth_list_update split: if_splits)

lemma frozen_lock_test:
  assumes "frozen k sk ks c" and "lock_state_test i pc c = Next (c', pc')" and "0 \<le> i"
  shows "c' = c \<and> (pc' = Some SUnlock \<or> i \<noteq> int k \<and> pc' = Some pc)"
  using assms by (auto simp: frozen_def keys_are_def lock_state_test_def arr_get_def split: if_splits)

lemma frozen_copy:
  assumes "store_shared c" and "frozen k sk ks c" and "k < 8" and "0 \<le> i" and "i < 8" and "n < 512"
    and "i = int k \<longrightarrow> has_sector k sk n (mirror_buffer (mir c))"
    and "storage_stmts p (MRCopy i n) c = Next (c', pc')"
  shows "frozen k sk ks c' \<and> pc' = Some (MRCopy i (n + 1)) \<and>
    (i = int k \<longrightarrow> has_sector k sk (n + 1) (mirror_buffer (mir c')))"
proof -
  let ?j = "i * 512 + int n"
  have l: "length (storage_buffer (sto c)) = 4096" "length (mirror_buffer (mir c)) = 4096"
    using assms(1) by (simp_all add: store_shared_def)
  have j: "0 \<le> ?j" "nat ?j < 4096" using assms(4-6) by auto
  have c': "c' = c\<lparr>mir := (mir c)\<lparr>mirror_buffer := (mirror_buffer (mir c))[nat ?j := storage_buffer (sto c) ! nat ?j]\<rparr>\<rparr>"
    and pc': "pc' = Some (MRCopy i (n + 1))"
    using assms(6,8) l j by (auto simp: storage_stmts_simps arr_get_def arr_set_def split: if_splits)
  show ?thesis
  proof (cases "i = int k")
    case True
    then have e: "nat ?j = k * 512 + n" by simp
    have b: "storage_buffer (sto c) ! (k * 512 + n) = sk ! n"
      using assms(2,6) by (simp add: frozen_def has_sector_def)
    have "has_sector k sk (n + 1) ((mirror_buffer (mir c))[k * 512 + n := sk ! n])"
      using has_sector_next [of k sk n "mirror_buffer (mir c)"] assms(7) True j(2) l e by simp
    moreover have "has_sector k sk 512 ((mirror_buffer (mir c))[k * 512 + n := sk ! n])"
      if "has_sector k sk 512 (mirror_buffer (mir c))"
      using has_sector_same [OF that, of n] j(2) l e by simp
    ultimately show ?thesis using assms(2) unfolding c' pc' e b by (auto simp: frozen_def keys_are_def)
  next
    case False
    have "nat ?j div 512 = nat i" using assms(4,6) by (simp add: nat_add_distrib nat_mult_distrib)
    then have "nat ?j div 512 \<noteq> k" using False assms(4) by auto
    then show ?thesis using assms(2) has_sector_other [OF _ j(1)] False unfolding c' pc' by (auto simp: frozen_def keys_are_def)
  qed
qed

lemma frozen_write:
  assumes "frozen k sk ks c" and "store_at p pc c" and "avoids k sk ks pc c" and "pc_write pc"
    and "storage_stmts p pc c = Next (c', pc')"
  shows "frozen k sk ks c' \<and> (\<forall>q. pc' = Some q \<longrightarrow> avoids k sk ks q c')"
proof (cases pc)
  case (SWEnter u len off)
  then have v: "vfs_ok len off" "uaccess_ok u" using assms(2) by (simp_all add: store_at_def)
  have cc: "c' = c" using assms(5) SWEnter by (auto simp: storage_stmts_def storage_write_stmts_def Let_def split: if_splits)
  show ?thesis
  proof (cases pc')
    case (Some q)
    have "storage_stmts p (SWEnter u len off) c = Next (c', Some q)" using assms(5) SWEnter Some by simp
    then obtain n where "q = SWLock off (snd (ucfu u n)) (int (unat off div 512))
        (if unat off + n = 0 then - 1 else int ((unat off + n - 1) div 512))"
      by (rule write_enters [OF v(2,1)])
    then show ?thesis using assms(1) cc Some v
        covers_entry [of off "unat off" "snd (ucfu u n)" n k] by simp
  qed (use assms(1) cc in simp)
next
  case (SWLock off bs s e)
  then show ?thesis using assms by (auto simp: storage_stmts_simps frozen_def keys_are_def split: if_splits)
next
  case (SWCheck off bs s e)
  have s: "0 \<le> s" and v: "covers k off bs s e" using assms(2,3) SWCheck by (simp_all add: store_at_def)
  show ?thesis
  proof (cases "s \<le> e")
    case True
    then have "lock_state_test s (SWCheck off bs (s + 1) e) c = Next (c', pc')"
      using assms(5) SWCheck by (simp add: storage_stmts_def storage_write_stmts_def)
    then show ?thesis using frozen_lock_test [OF assms(1) _ s] covers_next [OF v] assms(1) by fastforce
  next
    case False
    then show ?thesis using assms(1,5) SWCheck covers_done [OF v False]
      by (auto simp: storage_stmts_def storage_write_stmts_def)
  qed
next
  case (SWCopy off bs i)
  show ?thesis
  proof (cases "i < length bs")
    case True
    then have "buffer_set (sint off + int i) (bs ! i) (SWCopy off bs (i + 1)) c = Next (c', pc')"
      using assms(5) SWCopy by (simp add: storage_stmts_def storage_write_stmts_def)
    moreover have "nat (sint off + int i) div 512 \<noteq> k" and "0 \<le> sint off + int i"
      using assms(2,3) SWCopy True by (auto simp: store_at_def inside_def nat_add_distrib)
    ultimately show ?thesis using frozen_buffer_set [OF assms(1)] assms(3) SWCopy by fastforce
  next
    case False
    then show ?thesis using assms(1,5) SWCopy by (auto simp: storage_stmts_def storage_write_stmts_def)
  qed
qed (use assms(4) in simp_all)

lemma frozen_mirror:
  assumes "store_shared c" and "k < 8" and "frozen k sk ks c" and "store_at p pc c" and "avoids k sk ks pc c" and "pc_mirror pc"
    and "storage_stmts p pc c = Next (c', pc')"
  shows "frozen k sk ks c' \<and> (\<forall>q. pc' = Some q \<longrightarrow> avoids k sk ks q c')"
proof (cases pc)
  case (MRCopy i n)
  show ?thesis
  proof (cases "n < 512")
    case True
    then show ?thesis using frozen_copy [OF assms(1,3,2), of i n p c' pc'] assms(4,5,7) MRCopy
      by (auto simp: store_at_def)
  next
    case False
    then show ?thesis using assms(3,5,7) MRCopy
      by (auto simp: storage_stmts_def mirror_stmts_def has_sector_def)
  qed
qed (use assms in \<open>auto simp: storage_stmts_simps frozen_def keys_are_def has_sector_def split: if_splits option.splits\<close>)

text \<open>Reads and backups change nothing but the mutexes.\<close>

lemma frozen_looks:
  assumes "frozen k sk ks c" and "pc_read pc \<or> pc_backup pc" and "storage_stmts p pc c = Next (c', pc')"
  shows "frozen k sk ks c' \<and> (\<forall>q. pc' = Some q \<longrightarrow> avoids k sk ks q c')"
  using assms
  by (cases pc) (auto simp: storage_stmts_simps frozen_def keys_are_def split: if_splits option.splits sum.splits prod.splits)

lemma frozen_ioctl:
  assumes "frozen k sk ks c" and "store_at p pc c" and "avoids k sk ks pc c" and "\<not> pc_write pc" and "\<not> pc_mirror pc"
    and "\<not> (pc_read pc \<or> pc_backup pc)"
    and "storage_stmts p pc c = Next (c', pc')"
  shows "frozen k sk ks c' \<and> (\<forall>q. pc' = Some q \<longrightarrow> avoids k sk ks q c')"
proof (cases pc)
  case (SETest i)
  then have "lock_state_test i (SEZero i 0) c = Next (c', pc')"
    using assms(7) by (simp add: storage_stmts_def ioctl_stmts_def)
  then show ?thesis using frozen_lock_test [OF assms(1)] assms(1,2) SETest by (fastforce simp: store_at_def)
next
  case (SEZero i n)
  show ?thesis
  proof (cases "n < 512")
    case True
    then have b: "buffer_set (i * 512 + int n) 0 (SEZero i (n + 1)) c = Next (c', pc')"
      using assms(7) SEZero by (simp add: storage_stmts_def ioctl_stmts_def)
    have i: "0 \<le> i" using assms(2) SEZero by (simp add: store_at_def)
    have "nat (i * 512 + int n) div 512 = nat i" using i True by (simp add: nat_add_distrib nat_mult_distrib)
    then have "nat (i * 512 + int n) div 512 \<noteq> k" using assms(3) SEZero i by auto
    then have "frozen k sk ks c' \<and> pc' = Some (SEZero i (n + 1))"
      using frozen_buffer_set [OF assms(1) _ _ b] i by simp
    then show ?thesis using assms(3) SEZero by simp
  next
    case False
    then show ?thesis using assms(1,7) SEZero by (auto simp: storage_stmts_def ioctl_stmts_def)
  qed
next
  case (SLSet i)
  then show ?thesis using frozen_lock_set [OF assms(1), of i True c' pc'] assms(7)
    by (auto simp: storage_stmts_def ioctl_stmts_def)
next
  case (SUSet i)
  then show ?thesis using frozen_lock_set [OF assms(1), of i False c' pc'] assms(3,7)
    by (auto simp: storage_stmts_def ioctl_stmts_def)
qed (use assms in \<open>auto simp: storage_stmts_simps frozen_def keys_are_def split: if_splits option.splits\<close>)

lemma frozen_local:
  assumes "frozen_shared k sk ks c" and "frozen_at k sk ks p pc c" and "storage_stmts p pc c = Next (c', pc')"
  shows "frozen_shared k sk ks c' \<and> (\<forall>q. pc' = Some q \<longrightarrow> frozen_at k sk ks p q c')"
proof -
  have 1: "store_shared c" "k < 8" "frozen k sk ks c" "store_at p pc c" "avoids k sk ks pc c"
    using assms(1,2) by (simp_all add: frozen_shared_def frozen_def frozen_at_def)
  have "frozen k sk ks c' \<and> (\<forall>q. pc' = Some q \<longrightarrow> avoids k sk ks q c')"
    using frozen_write [OF 1(3-5) _ assms(3)] frozen_mirror [OF 1 _ assms(3)] frozen_looks [OF 1(3) _ assms(3)]
      frozen_ioctl [OF 1(3-5) _ _ _ assms(3)] by blast
  then show ?thesis using store_local [OF 1(1,4) assms(3)] 1(2) frozen_sharedI by (simp add: frozen_at_def)
qed

lemma avoids_cong: "mirror_buffer (mir c') = mirror_buffer (mir c) \<Longrightarrow> avoids k sk ks pc c' = avoids k sk ks pc c"
  by (cases pc) simp_all

lemma avoids_elsewhere: "\<not> mholds pc \<Longrightarrow> avoids k sk ks pc c' = avoids k sk ks pc c"
  by (cases pc) simp_all

lemma frozen_interference:
  assumes "frozen_shared k sk ks c" and "frozen_at k sk ks p pc c" and "frozen_at k sk ks p' q c" and "p \<noteq> p'"
    and "storage_stmts p pc c = Next (c', pc')"
  shows "frozen_at k sk ks p' q c'"
proof -
  have 1: "store_shared c" "store_at p pc c" "store_at p' q c" "avoids k sk ks q c"
    using assms(1-3) by (simp_all add: frozen_shared_def frozen_at_def)
  have "\<not> mholds pc \<or> \<not> mholds q" using 1(2,3) assms(4) by (auto simp: store_at_def)
  then have "avoids k sk ks q c'"
    using mirror_only_holder [OF assms(5)] avoids_cong avoids_elsewhere 1(4) by metis
  then show ?thesis using store_interference [OF 1(1-3) assms(4,5)] by (simp add: frozen_at_def)
qed

interpretation locked_sector: owicki_gries storage_stmts "keeps_lock k ks" "frozen_shared k sk ks" "frozen_at k sk ks" for k sk ks
proof unfold_locales
  fix pc c p p' q c' pc'
  show "keeps_lock k ks pc \<Longrightarrow> frozen_shared k sk ks c \<Longrightarrow> frozen_at k sk ks p pc c"
    by (cases pc) (simp_all add: frozen_at_def store_at_def)
  show "frozen_shared k sk ks c \<Longrightarrow> frozen_at k sk ks p pc c \<Longrightarrow> storage_stmts p pc c = Next (c', pc') \<Longrightarrow>
      frozen_shared k sk ks c' \<and> (\<forall>q. pc' = Some q \<longrightarrow> frozen_at k sk ks p q c')" by (rule frozen_local)
  show "frozen_shared k sk ks c \<Longrightarrow> frozen_at k sk ks p pc c \<Longrightarrow> frozen_at k sk ks p' q c \<Longrightarrow> p \<noteq> p' \<Longrightarrow>
      storage_stmts p pc c = Next (c', pc') \<Longrightarrow> frozen_at k sk ks p' q c'" by (rule frozen_interference)
  show "frozen_shared k sk ks c \<Longrightarrow> frozen_at k sk ks p pc c \<Longrightarrow> storage_stmts p pc c \<noteq> Crash"
    using store_safe by (simp add: frozen_shared_def frozen_at_def)
qed

lemma start_shared: "storage_inv s \<Longrightarrow> mirror_inv m \<Longrightarrow> store_shared (cstore_start s m)"
  by (simp add: store_shared_def cstore_start_def storage_inv_def mirror_inv_def)

lemma has_sector_slice: "length buf = 4096 \<Longrightarrow> k < 8 \<Longrightarrow> has_sector k sk 512 buf \<longleftrightarrow> take 512 (drop (k * 512) buf) = take 512 sk"
  if "length sk = 512"
  using that by (auto simp: has_sector_def list_eq_iff_nth_eq)

lemma start_frozen:
  assumes "storage_inv s" and "mirror_inv m" and "k < 8" and "sector_lock_state s ! k"
  shows "frozen_shared k (sector_slice s k) (key_matches s) (cstore_start s m)"
proof -
  have l: "length (storage_buffer s) = 4096" using assms(1) by (rule storage_invD)
  have "has_sector k (sector_slice s k) 512 (storage_buffer s)"
    using l assms(3) by (simp add: has_sector_def sector_slice_def)
  then show ?thesis using start_shared [OF assms(1,2)] assms(3,4) key_valid_matches [OF assms(1)]
    by (simp add: frozen_shared_def keys_are_def cstore_start_def)
qed

subsection \<open>The rest of a mirror copy, alone\<close>

lemma copy_rest:
  assumes "store_shared (sh c)" and "0 \<le> i" and "i < 8" and "pcs c p = Some (MRCopy i n)" and "n \<le> 512"
  shows "\<exists>c'. schedule storage_stmts (replicate (512 - n + 2) (Run p)) c = Some c' \<and> pcs c' = (pcs c)(p := None) \<and>
     sto (sh c') = sto (sh c) \<and> mirrored (sh c') = insert i (mirrored (sh c)) \<and>
     (\<forall>j < 4096. mirror_buffer (mir (sh c')) ! j =
       (if nat i * 512 + n \<le> j \<and> j < nat i * 512 + 512 then storage_buffer (sto (sh c)) ! j else mirror_buffer (mir (sh c)) ! j))"
  using assms
proof (induction "512 - n" arbitrary: n c)
  case 0
  then have "n = 512" by simp
  then show ?case using 0(5) by (auto simp: storage_stmts_def mirror_stmts_def numeral_2_eq_2 fun_eq_iff)
next
  case (Suc k)
  let ?j = "nat i * 512 + n"
  have n: "n < 512" and k: "512 - n = Suc k" "512 - (n + 1) = k" using Suc.hyps(2) by simp_all
  have j: "nat (i * 512 + int n) = ?j" using Suc.prems(2) by (simp add: nat_add_distrib nat_mult_distrib)
  have j': "0 \<le> i * 512 + int n" "?j < 4096" using Suc.prems(2,3) n by auto
  have l: "length (storage_buffer (sto (sh c))) = 4096" "length (mirror_buffer (mir (sh c))) = 4096"
    using Suc.prems(1) by (simp_all add: store_shared_def)
  define s1 where "s1 = (sh c)\<lparr>mir := (mir (sh c))\<lparr>mirror_buffer :=
    (mirror_buffer (mir (sh c)))[?j := storage_buffer (sto (sh c)) ! ?j]\<rparr>\<rparr>"
  define c1 where "c1 = \<lparr>sh = s1, pcs = (pcs c)(p \<mapsto> MRCopy i (n + 1))\<rparr>"
  have "storage_stmts p (MRCopy i n) (sh c) = Next (s1, Some (MRCopy i (n + 1)))"
    using n l j j' by (simp add: storage_stmts_def mirror_stmts_def arr_get_def arr_set_def s1_def)
  then have a: "act storage_stmts (Run p) c = Next c1" using Suc.prems(4) by (simp add: c1_def)
  have s: "store_shared (sh c1)" using Suc.prems(1) by (simp add: c1_def s1_def store_shared_def)
  have f: "sh c1 = s1" "sto s1 = sto (sh c)" "mirrored s1 = mirrored (sh c)" "(pcs c1)(p := None) = (pcs c)(p := None)"
    "pcs c1 p = Some (MRCopy i (n + 1))" by (simp_all add: c1_def s1_def)
  have "n + 1 \<le> 512" using n by simp
  note ih = Suc.hyps(1) [OF k(2) [symmetric] s Suc.prems(2,3) f(5) this]
  from ih obtain c' where c': "schedule storage_stmts (replicate (k + 2) (Run p)) c1 = Some c'"
    "pcs c' = (pcs c)(p := None)" "sto (sh c') = sto (sh c)" "mirrored (sh c') = insert i (mirrored (sh c))"
    "\<forall>j < 4096. mirror_buffer (mir (sh c')) ! j =
       (if nat i * 512 + (n + 1) \<le> j \<and> j < nat i * 512 + 512 then storage_buffer (sto (sh c)) ! j else mirror_buffer (mir s1) ! j)"
    unfolding f(1-4) k(2) by blast
  have "mirror_buffer (mir s1) ! j = (if j = ?j then storage_buffer (sto (sh c)) ! j else mirror_buffer (mir (sh c)) ! j)" for j
    using l j' by (simp add: s1_def nth_list_update)
  then have "\<forall>j < 4096. mirror_buffer (mir (sh c')) ! j =
       (if nat i * 512 + n \<le> j \<and> j < nat i * 512 + 512 then storage_buffer (sto (sh c)) ! j else mirror_buffer (mir (sh c)) ! j)"
    using c'(5) n by auto
  moreover have "schedule storage_stmts (replicate (512 - n + 2) (Run p)) c = Some c'"
    using a c'(1) unfolding k(1) by simp
  ultimately show ?case using c'(2-4) by blast
qed

subsection \<open>Properties\<close>

text \<open>C12: In every interleaving of any number of reads, writes and ioctls of all six kinds no access leaves
  the buffers or the user's path, and never are two processes in code that the same mutex guards.
  A backup under way has written exactly the beginning of the mirror as it is now: the mirror
  cannot change under it.\<close>

theorem storage_statements_safe:
  assumes "storage_inv s" and "mirror_inv m" and "conc_reach storage_stmts storage_calls (cstore_start s m) c"
  shows "act storage_stmts a c \<noteq> Crash \<and>
     \<not> (p \<noteq> p' \<and> pcs c p = Some pc \<and> pcs c p' = Some pc' \<and> (holds pc \<and> holds pc' \<or> mholds pc \<and> mholds pc')) \<and>
     (\<forall>p fs f pos w. pcs c p = Some (BKWrite fs f pos w) \<longrightarrow> f = take (nat pos) (mirror_buffer (mir (sh c))))"
proof -
  note st = start_shared [OF assms(1,2)]
  have at: "\<forall>p pc. pcs c p = Some pc \<longrightarrow> store_at p pc (sh c)"
    using storage_processes.reach_inv [OF assms(3) st] by blast
  then have "p = p'" if "pcs c p = Some pc" "pcs c p' = Some pc'" "holds pc \<and> holds pc' \<or> mholds pc \<and> mholds pc'"
    using that unfolding store_at_def by (metis option.inject)
  moreover have "f = take (nat pos) (mirror_buffer (mir (sh c)))" if "pcs c p = Some (BKWrite fs f pos w)" for p fs f pos w
    using at that unfolding store_at_def by (metis file_copied.simps(1))
  ultimately show ?thesis using storage_processes.reach_safe [OF assms(3) st] by blast
qed

text \<open>C4: A locked sector does not change, whatever the other processes are in the middle of, as long as
  nobody asks to unlock it with a key that fits; and once the mirror ioctl has copied it, its
  mirror is exactly its contents, although the copy is made without the mutex of the buffer.\<close>

theorem locked_sector_mirrored:
  assumes "storage_inv s" and "mirror_inv m" and "k < 8" and "sector_lock_state s ! k"
    and "conc_reach storage_stmts (keeps_lock k (key_matches s)) (cstore_start s m) c"
  shows "sector_slice (sto (sh c)) k = sector_slice s k \<and> sector_lock_state (sto (sh c)) ! k \<and>
     (int k \<in> mirrored (sh c) \<longrightarrow> mirror_slice (mir (sh c)) k = sector_slice s k)"
proof -
  have f: "frozen_shared k (sector_slice s k) (key_matches s) (sh c)"
    using locked_sector.reach_inv [OF assms(5) start_frozen [OF assms(1-4)]] by blast
  have l: "length (sector_slice s k) = 512" using assms(3) storage_invD(1) [OF assms(1)] by (simp add: sector_slice_def)
  then have "take 512 (drop (k * 512) buf) = sector_slice s k"
    if "length buf = 4096" "has_sector k (sector_slice s k) 512 buf" for buf
    using has_sector_slice [OF l that(1) assms(3)] that(2) by simp
  then show ?thesis using f by (simp add: frozen_shared_def store_shared_def sector_slice_def [of "sto (sh c)"] mirror_slice_def)
qed

text \<open>For the sectors 4 to 7 the condition on the unlock requests is no condition: none reaches them.\<close>

lemma upper_keeps_lock: "4 \<le> k \<Longrightarrow> keeps_lock k ks = storage_calls"
proof
  fix pc assume "4 \<le> k"
  moreover have "unlock_req_sector bs \<noteq> int k" if "4 \<le> k" for bs
    using unlock_req_sector_bounds [of bs] that by simp
  ultimately show "keeps_lock k ks pc = storage_calls pc" by (cases pc) simp_all
qed

subsection \<open>Two runs\<close>

lemma sector_of_example: "sector_of 0 = 0" "sector_of 1 = 0" "sector_of 2560 = 5" "sector_of 2561 = 5"
  by (simp_all add: sector_of_small)

lemmas storage_eval = conc_start_def cstore_start_def storage_stmts_simps user_int_def sector_of_example
  arr_get_def arr_set_def

text \<open>A mirror copy of sector 0 has copied its first byte when a write changes the first two.\<close>

definition torn_mirror :: "spc action list" where
  "torn_mirror = [Call 0 (MREnter (user_mem (bytes_of_int 0))), Run 0, Run 0, Run 0,
     Call 1 (SWEnter (user_mem [1, 1]) 2 0), Run 1, Run 1, Run 1, Run 1, Run 1, Run 1, Run 1, Run 1]"

lemma torn_mirror_run:
  assumes "length buf = 4096" and "buf ! 0 = 0" and "length mbuf = 4096"
  shows "\<exists>c. schedule storage_stmts torn_mirror (conc_start (cstore_start
       (storage_boot\<lparr>storage_buffer := buf\<rparr>) (mirror_boot\<lparr>mirror_buffer := mbuf\<rparr>))) = Some c \<and>
     pcs c = (\<lambda>_. None)(0 \<mapsto> MRCopy 0 1) \<and> sto (sh c) = storage_boot\<lparr>storage_buffer := buf[0 := 1, 1 := 1]\<rparr> \<and>
     mirrored (sh c) = {} \<and> mirror_buffer (mir (sh c)) = mbuf[0 := 0]"
  using assms
  by (simp add: torn_mirror_def storage_eval storage_boot_def mirror_boot_def storage_init_data_def mirror_init_def
      fun_eq_iff)

text \<open>Sector 5 is locked; a write to it comes to the check while it is being mirrored.\<close>

definition locked_boot :: storage_dev where
  "locked_boot = storage_boot\<lparr>sector_lock_state := replicate 8 True\<rparr>"

definition locked_mirror :: "spc action list" where
  "locked_mirror = [Call 0 (MREnter (user_mem (bytes_of_int 5))), Run 0, Run 0,
     Call 1 (SWEnter (user_mem [1, 1]) 2 2560), Run 1, Run 1, Run 1]"

lemma locked_mirror_run:
  "\<exists>c. schedule storage_stmts locked_mirror (conc_start (cstore_start locked_boot mirror_boot)) = Some c \<and>
     pcs c = (\<lambda>_. None)(0 \<mapsto> MRCopy 5 0, 1 \<mapsto> SUnlock) \<and> mirrored (sh c) = {}"
  by (simp add: locked_mirror_def storage_eval locked_boot_def storage_boot_def mirror_boot_def storage_init_data_def
      mirror_init_def fun_eq_iff)

lemma runs_calls:
  "list_all (call_ok storage_calls) (torn_mirror @ replicate n (Run p))"
  "list_all (call_ok (keeps_lock 5 ks)) (locked_mirror @ replicate n (Run p))"
  by (simp_all add: torn_mirror_def locked_mirror_def list_all_iff vfs_ok_small)

lemma locked_boot_inv: "storage_inv locked_boot"
  using boot_inv(1) by (simp add: locked_boot_def storage_inv_def)

theorem locked_sector_mirrored_witness:
  "\<exists>c. conc_reach storage_stmts (keeps_lock 5 (key_matches locked_boot)) (cstore_start locked_boot mirror_boot) c \<and>
     pcs c 1 = Some SUnlock \<and> mirror_slice (mir (sh c)) 5 = sector_slice locked_boot 5"
proof -
  let ?s = "cstore_start locked_boot mirror_boot" and ?calls = "keeps_lock 5 (key_matches locked_boot)"
  obtain c where c: "schedule storage_stmts locked_mirror (conc_start ?s) = Some c"
    "pcs c = (\<lambda>_. None)(0 \<mapsto> MRCopy 5 0, 1 \<mapsto> SUnlock)" "mirrored (sh c) = {}" using locked_mirror_run by blast
  have r: "conc_reach storage_stmts ?calls ?s c"
    using schedule_from_start [OF c(1)] runs_calls(2) [of _ 0 0] by simp
  have "frozen_shared 5 (sector_slice locked_boot 5) (key_matches locked_boot) (sh c)"
    using locked_sector.reach_inv [OF r start_frozen [OF locked_boot_inv boot_inv(2)]] by (simp add: locked_boot_def)
  then have "store_shared (sh c)" by (simp add: frozen_shared_def)
  from copy_rest [OF this, of 5 0 0] c(2,3) obtain c' where c': "schedule storage_stmts (replicate (512 - 0 + 2) (Run 0)) c = Some c'"
    "pcs c' = (pcs c)(0 := None)" "mirrored (sh c') = {5}" by auto
  have r': "conc_reach storage_stmts ?calls ?s c'"
    by (rule two_phases [OF c(1) c'(1) runs_calls(2) refl])
  have "mirror_slice (mir (sh c')) 5 = sector_slice locked_boot 5"
    using locked_sector_mirrored [OF locked_boot_inv boot_inv(2) _ _ r'] c'(3) by (simp add: locked_boot_def)
  then show ?thesis using r' c(2) c'(2) by auto
qed

text \<open>A backup has written its first 100 bytes when the query of the lock flags has read the first flag.\<close>

definition backup_and_info :: "spc action list" where
  "backup_and_info = [Call 1 (BKEnter (user_mem (46 # 97 # replicate 254 0)) (chunk_fs 100)), Run 1, Run 1, Run 1,
     Call 0 (SGEnter (user_mem [])), Run 0, Run 0]"

lemma backup_and_info_run:
  assumes "length m = 4096" and "length l = 8"
  shows "\<exists>c. schedule storage_stmts backup_and_info (conc_start (cstore_start (storage_boot\<lparr>sector_lock_state := l\<rparr>)
      (mirror_boot\<lparr>mirror_buffer := m\<rparr>))) = Some c \<and>
     pcs c 0 = Some (SGRead (user_mem []) 1 [l ! 0]) \<and> pcs c 1 = Some (BKWrite (chunk_fs 100) (take 100 m) 100 100)"
  using assms
  by (simp add: backup_and_info_def storage_eval storage_boot_def mirror_boot_def storage_init_data_def mirror_init_def
      chunk_fs_def c_string_def mem_read_def user_mem_def)

theorem storage_statements_safe_witness:
  "\<exists>c f. conc_reach storage_stmts storage_calls (cstore_start locked_boot mirror_boot) c \<and>
     pcs c 0 = Some (SGRead (user_mem []) 1 [True]) \<and> pcs c 1 = Some (BKWrite (chunk_fs 100) f 100 100) \<and>
     f = take 100 (mirror_buffer (mir (sh c))) \<and> act storage_stmts (Run 1) c \<noteq> Crash"
proof -
  let ?s = "cstore_start locked_boot mirror_boot"
  have "length (mirror_buffer mirror_boot) = 4096" using boot_inv(2) by (simp add: mirror_inv_def)
  then obtain c where c: "schedule storage_stmts backup_and_info (conc_start ?s) = Some c"
    "pcs c 0 = Some (SGRead (user_mem []) 1 [True])" "\<exists>f. pcs c 1 = Some (BKWrite (chunk_fs 100) f 100 100)"
    using backup_and_info_run [of "mirror_buffer mirror_boot" "replicate 8 True"] unfolding locked_boot_def by auto
  have "list_all (call_ok storage_calls) backup_and_info" by (simp add: backup_and_info_def chunk_fs_ok)
  then have r: "conc_reach storage_stmts storage_calls ?s c" by (rule schedule_from_start [OF c(1)])
  show ?thesis using storage_statements_safe [OF locked_boot_inv boot_inv(2) r, of "Run 1"] r c(2,3) by fastforce
qed

lemma first_two: "length xs = 4096 \<Longrightarrow> take 2 (take 512 (drop (0 * 512) xs)) = [xs ! 0, xs ! 1]"
  by (simp add: list_eq_iff_nth_eq less_2_cases_iff nth_Cons')

text \<open>The mirror of a sector that is not locked may be a state the sector never had: the mirror
  ioctl does not take the mutex of the buffer, and a write of two bytes may come between the
  copies of the two.\<close>

theorem mirror_torn:
  "\<exists>c. conc_reach storage_stmts storage_calls (cstore_start storage_boot mirror_boot) c \<and> (\<forall>p. pcs c p = None) \<and>
     mirrored (sh c) = {0} \<and> take 2 (mirror_slice (mir (sh c)) 0) = [0, 1] \<and>
     take 2 (sector_slice (sto (sh c)) 0) = [1, 1] \<and> take 2 (sector_slice storage_boot 0) = [0, 0]"
proof -
  let ?s = "cstore_start storage_boot mirror_boot" and ?buf = "storage_buffer storage_boot" and ?mbuf = "mirror_buffer mirror_boot"
  have buf: "length ?buf = 4096" "?buf ! 0 = 0" "?buf ! 1 = 0" and mbuf: "length ?mbuf = 4096"
    by (simp_all add: storage_boot_def storage_init_data_def mirror_boot_def mirror_init_def)
  obtain c where c: "schedule storage_stmts torn_mirror (conc_start ?s) = Some c"
    "pcs c = (\<lambda>_. None)(0 \<mapsto> MRCopy 0 1)" "sto (sh c) = storage_boot\<lparr>storage_buffer := ?buf[0 := 1, 1 := 1]\<rparr>"
    "mirrored (sh c) = {}" "mirror_buffer (mir (sh c)) = ?mbuf[0 := 0]"
    using torn_mirror_run [OF buf(1,2) mbuf] by auto
  have "conc_reach storage_stmts storage_calls ?s c"
    using schedule_from_start [OF c(1)] runs_calls(1) [of 0 0] by simp
  then have "store_shared (sh c)" using storage_processes.reach_inv start_shared [OF boot_inv(1,2)] by blast
  from copy_rest [OF this, of 0 0 1] c(2) obtain c' where c': "schedule storage_stmts (replicate (512 - 1 + 2) (Run 0)) c = Some c'"
    "pcs c' = (pcs c)(0 := None)" "sto (sh c') = sto (sh c)" "mirrored (sh c') = insert 0 (mirrored (sh c))"
    "\<forall>j < 4096. mirror_buffer (mir (sh c')) ! j =
       (if nat 0 * 512 + 1 \<le> j \<and> j < nat 0 * 512 + 512 then storage_buffer (sto (sh c)) ! j else mirror_buffer (mir (sh c)) ! j)"
    by auto
  have r: "conc_reach storage_stmts storage_calls ?s c'"
    by (rule two_phases [OF c(1) c'(1) runs_calls(1) refl])
  then have l: "length (mirror_buffer (mir (sh c'))) = 4096" "length (storage_buffer (sto (sh c'))) = 4096"
    using storage_processes.reach_inv start_shared [OF boot_inv(1,2)] by (auto simp: store_shared_def)
  have m: "mirror_buffer (mir (sh c')) ! 0 = 0" "mirror_buffer (mir (sh c')) ! 1 = 1"
    using c'(5) c(3,5) buf(1) mbuf by simp_all
  have "take 2 (mirror_slice (mir (sh c')) 0) = [0, 1]" unfolding mirror_slice_def first_two [OF l(1)] m ..
  moreover have "take 2 (sector_slice (sto (sh c')) 0) = [1, 1]"
    unfolding sector_slice_def first_two [OF l(2)] using c'(3) c(3) buf(1) by simp
  moreover have "take 2 (sector_slice storage_boot 0) = [0, 0]"
    unfolding sector_slice_def first_two [OF buf(1)] using buf(2,3) by simp
  moreover have "\<forall>p. pcs c' p = None" using c'(2) c(2) by simp
  ultimately show ?thesis using r c'(4) c(4) by blast
qed

end
