(* ===== verification/LockedCalls.thy ===== *)
theory LockedCalls
  imports Interleaving
begin

section \<open>Handlers that work under a lock\<close>

text \<open>
  Most handlers take the lock of their device, work on the device, give the lock back and
  return. This theory has the form of such handlers, statement by statement, for any number of
  devices with a lock each, and what follows from it: the handlers take effect one after
  the other (they are linearizable), and every call can come to its end.

  A device is \<open>obj\<close> with its lock \<open>owner\<close> (the process that holds it). \<open>before\<close>, the device when the
  lock was taken, and \<open>glog\<close>, the calls that have taken effect with their results, are not
  variables of the code. A call returns early where it fails before the lock is taken. Its
  statements under the lock are \<open>body\<close>: the next one, or the result.
\<close>

record ('o, 'c, 'r) guarded =
  obj :: 'o
  owner :: "nat option"
  before :: 'o
  glog :: "('c \<times> 'r) list"

datatype ('c, 'p, 'r) gpc = Enter 'c | Body 'c 'p | Leave 'c 'r

datatype ('p, 'r) bnext = Goto 'p | Ret 'r

type_synonym ('o, 'p, 'r) body = "'p \<Rightarrow> 'o \<Rightarrow> ('o \<times> ('p, 'r) bnext) option"

fun guarded_stmts :: "('c \<Rightarrow> nat) \<Rightarrow> ('c \<Rightarrow> 'r option) \<Rightarrow> ('c \<Rightarrow> 'p) \<Rightarrow> ('o, 'p, 'r) body \<Rightarrow>
    (nat \<Rightarrow> ('o, 'c, 'r) guarded, ('c, 'p, 'r) gpc) stmts" where
  "guarded_stmts dev early entry body p (Enter c) s =
     (let g = s (dev c) in
      case early c of
        Some r \<Rightarrow> Next (s(dev c := g\<lparr>glog := glog g @ [(c, r)]\<rparr>), None)
      | None \<Rightarrow>
          if owner g \<noteq> None then Blocked
          else Next (s(dev c := g\<lparr>owner := Some p, before := obj g\<rparr>), Some (Body c (entry c))))"
| "guarded_stmts dev early entry body p (Body c pc) s =
     (let g = s (dev c) in
      case body pc (obj g) of
        None \<Rightarrow> Crash
      | Some (d, nx) \<Rightarrow>
          Next (s(dev c := g\<lparr>obj := d\<rparr>), Some (case nx of Goto q \<Rightarrow> Body c q | Ret r \<Rightarrow> Leave c r)))"
| "guarded_stmts dev early entry body p (Leave c r) s =
     (let g = s (dev c) in Next (s(dev c := g\<lparr>owner := None, glog := glog g @ [(c, r)]\<rparr>), None))"

fun gcalls :: "('c \<Rightarrow> bool) \<Rightarrow> ('c, 'p, 'r) gpc \<Rightarrow> bool" where
  "gcalls good (Enter c) = good c"
| "gcalls good _ = False"

definition guarded_start :: "(nat \<Rightarrow> 'o) \<Rightarrow> nat \<Rightarrow> ('o, 'c, 'r) guarded" where
  "guarded_start d = (\<lambda>i. \<lparr>obj = d i, owner = None, before = d i, glog = []\<rparr>)"

text \<open>The calls one after the other, by the handlers as functions.\<close>

fun seq_run :: "('c \<Rightarrow> 'o \<Rightarrow> ('o \<times> 'r) option) \<Rightarrow> 'c list \<Rightarrow> 'o \<Rightarrow> ('r list \<times> 'o) option" where
  "seq_run sq [] d = Some ([], d)"
| "seq_run sq (c # cs) d =
     do { (d, r) \<leftarrow> sq c d; (rs, d) \<leftarrow> seq_run sq cs d; Some (r # rs, d) }"

lemma seq_run_snoc:
  "seq_run sq cs d = Some (rs, d1) \<Longrightarrow> sq c d1 = Some (d2, r) \<Longrightarrow> seq_run sq (cs @ [c]) d = Some (rs @ [r], d2)"
  by (induction cs arbitrary: d rs) (auto simp: bind_eq_Some_conv)

fun in_body :: "('c \<Rightarrow> nat) \<Rightarrow> nat \<Rightarrow> ('c, 'p, 'r) gpc \<Rightarrow> bool" where
  "in_body dev i (Enter c) = False"
| "in_body dev i (Body c q) \<longleftrightarrow> dev c = i"
| "in_body dev i (Leave c r) \<longleftrightarrow> dev c = i"

subsection \<open>The contract of such handlers\<close>

text \<open>
  \<open>sq\<close> is the handler as a function, \<open>rest\<close> what remains to be done from a statement on, as a
  function. A statement that is executed leaves over exactly the rest.
\<close>

locale locked_calls =
  fixes dev :: "'c \<Rightarrow> nat" and early :: "'c \<Rightarrow> 'r option" and entry :: "'c \<Rightarrow> 'p"
    and body :: "('o, 'p, 'r) body" and sq :: "'c \<Rightarrow> 'o \<Rightarrow> ('o \<times> 'r) option"
    and rest :: "'p \<Rightarrow> 'o \<Rightarrow> ('o \<times> 'r) option" and ok :: "'o \<Rightarrow> bool" and good :: "'c \<Rightarrow> bool"
  assumes sq_early: "early c = Some r \<Longrightarrow> good c \<Longrightarrow> ok d \<Longrightarrow> sq c d = Some (d, r)"
    and sq_entry: "early c = None \<Longrightarrow> good c \<Longrightarrow> ok d \<Longrightarrow> rest (entry c) d = sq c d"
    and rest_goto: "rest pc d = Some w \<Longrightarrow> body pc d = Some (d', Goto q) \<Longrightarrow> rest q d' = Some w"
    and rest_ret: "rest pc d = Some w \<Longrightarrow> body pc d = Some (d', Ret r) \<Longrightarrow> w = (d', r)"
    and rest_runs: "rest pc d = Some w \<Longrightarrow> body pc d \<noteq> None"
    and sq_ok: "ok d \<Longrightarrow> good c \<Longrightarrow> \<exists>d' r. sq c d = Some (d', r) \<and> ok d'"
begin

abbreviation code :: "(nat \<Rightarrow> ('o, 'c, 'r) guarded, ('c, 'p, 'r) gpc) stmts" where
  "code \<equiv> guarded_stmts dev early entry body"

definition current :: "('o, 'c, 'r) guarded \<Rightarrow> 'o" where
  "current g = (if owner g = None then obj g else before g)"

definition all_ok :: "(nat \<Rightarrow> 'o) \<Rightarrow> bool" where
  "all_ok d0 \<longleftrightarrow> (\<forall>i. ok (d0 i))"

fun gat :: "nat \<Rightarrow> ('c, 'p, 'r) gpc \<Rightarrow> (nat \<Rightarrow> ('o, 'c, 'r) guarded) \<Rightarrow> bool" where
  "gat p (Enter c) s = good c"
| "gat p (Body c q) s \<longleftrightarrow> good c \<and> owner (s (dev c)) = Some p \<and> rest q (obj (s (dev c))) = sq c (before (s (dev c))) \<and>
     sq c (before (s (dev c))) \<noteq> None"
| "gat p (Leave c r) s \<longleftrightarrow> good c \<and> owner (s (dev c)) = Some p \<and> sq c (before (s (dev c))) = Some (obj (s (dev c)), r)"

definition ginv_at :: "(nat \<Rightarrow> 'o) \<Rightarrow> nat \<Rightarrow> (nat \<Rightarrow> ('o, 'c, 'r) guarded) \<Rightarrow> bool" where
  "ginv_at d0 i s \<longleftrightarrow> ok (current (s i)) \<and>
     seq_run sq (map fst (glog (s i))) (d0 i) = Some (map snd (glog (s i)), current (s i))"

definition gI :: "(nat \<Rightarrow> 'o) \<Rightarrow> (nat \<Rightarrow> ('o, 'c, 'r) guarded) \<Rightarrow> bool" where
  "gI d0 s \<longleftrightarrow> (\<forall>i. ginv_at d0 i s)"

lemma gI_upd:
  "gI d0 s \<Longrightarrow> ok (current g) \<Longrightarrow> seq_run sq (map fst (glog g)) (d0 i) = Some (map snd (glog g), current g) \<Longrightarrow> gI d0 (s(i := g))"
  by (simp add: gI_def ginv_at_def)

text \<open>The call takes effect on the device as it was when the lock was taken.\<close>

lemma gI_effect:
  assumes "gI d0 s" and "good c" and "sq c (current (s i)) = Some (current g, r)"
    and "glog g = glog (s i) @ [(c, r)]"
  shows "gI d0 (s(i := g))"
proof (rule gI_upd [OF assms(1)])
  have i: "ok (current (s i))" "seq_run sq (map fst (glog (s i))) (d0 i) = Some (map snd (glog (s i)), current (s i))"
    using assms(1) by (simp_all add: gI_def ginv_at_def)
  show "ok (current g)" using sq_ok [OF i(1) assms(2)] assms(3) by auto
  show "seq_run sq (map fst (glog g)) (d0 i) = Some (map snd (glog g), current g)"
    using seq_run_snoc [OF i(2) assms(3)] assms(4) by simp
qed

lemma glocal:
  assumes "gI d0 s" and "gat p pc s" and "code p pc s = Next (s', pc')"
  shows "gI d0 s' \<and> (\<forall>q. pc' = Some q \<longrightarrow> gat p q s')"
proof (cases pc)
  case (Enter c)
  have g: "good c" using assms(2) Enter by simp
  let ?g = "s (dev c)"
  have i: "ok (current ?g)" "seq_run sq (map fst (glog ?g)) (d0 (dev c)) = Some (map snd (glog ?g), current ?g)"
    using assms(1) by (simp_all add: gI_def ginv_at_def)
  show ?thesis
  proof (cases "early c")
    case (Some r)
    then have s': "s' = s(dev c := ?g\<lparr>glog := glog ?g @ [(c, r)]\<rparr>)" "pc' = None"
      using assms(3) Enter by (simp_all add: Let_def)
    have "gI d0 s'" unfolding s'(1)
      by (rule gI_effect [OF assms(1) g, where r = r]) (use sq_early [OF Some g i(1)] in \<open>simp_all add: current_def\<close>)
    then show ?thesis using s'(2) by simp
  next
    case None
    then have o: "owner ?g = None" and s': "s' = s(dev c := ?g\<lparr>owner := Some p, before := obj ?g\<rparr>)"
      "pc' = Some (Body c (entry c))"
      using assms(3) Enter by (simp_all add: Let_def split: if_splits)
    have "gI d0 s'" unfolding s'(1) by (rule gI_upd [OF assms(1)]) (use i o in \<open>simp_all add: current_def\<close>)
    moreover have "ok (obj ?g)" using i(1) o by (simp add: current_def)
    ultimately show ?thesis using s' g sq_entry [OF None g] sq_ok [of "obj ?g", OF _ g] by auto
  qed
next
  case (Body c q)
  let ?g = "s (dev c)"
  have a: "good c" "owner ?g = Some p" "rest q (obj ?g) = sq c (before ?g)"
    using assms(2) Body by simp_all
  obtain w where w: "sq c (before ?g) = Some w" using assms(2) Body by auto
  obtain d nx where b: "body q (obj ?g) = Some (d, nx)"
    and s': "s' = s(dev c := ?g\<lparr>obj := d\<rparr>)" "pc' = Some (case nx of Goto q \<Rightarrow> Body c q | Ret r \<Rightarrow> Leave c r)"
    using assms(3) Body by (auto simp: Let_def split: option.splits)
  have i: "ginv_at d0 (dev c) s" using assms(1) by (simp add: gI_def)
  have "gI d0 s'" unfolding s'(1)
    by (rule gI_upd [OF assms(1)]) (use i a(2) in \<open>simp_all add: ginv_at_def current_def\<close>)
  moreover have "gat p (case nx of Goto q \<Rightarrow> Body c q | Ret r \<Rightarrow> Leave c r) s'"
    using a w s'(1) b rest_goto [of q "obj ?g" w d] rest_ret [of q "obj ?g" w d] by (cases nx) simp_all
  ultimately show ?thesis using s'(2) by simp
next
  case (Leave c r)
  let ?g = "s (dev c)"
  have a: "good c" "owner ?g = Some p" "sq c (before ?g) = Some (obj ?g, r)" using assms(2) Leave by simp_all
  have s': "s' = s(dev c := ?g\<lparr>owner := None, glog := glog ?g @ [(c, r)]\<rparr>)" "pc' = None"
    using assms(3) Leave by (simp_all add: Let_def)
  have "gI d0 s'" unfolding s'(1)
    by (rule gI_effect [OF assms(1) a(1), where r = r]) (use a in \<open>simp_all add: current_def\<close>)
  then show ?thesis using s'(2) by simp
qed

text \<open>Whoever is not the owner changes nothing the owner relies on.\<close>

lemma ginterference:
  assumes "gat p pc s" and "gat p' q s" and "p \<noteq> p'" and "code p pc s = Next (s', pc')"
  shows "gat p' q s'"
proof -
  have "owner (s i) = Some p' \<Longrightarrow> owner (s' i) = Some p' \<and> obj (s' i) = obj (s i) \<and> before (s' i) = before (s i)" for i
    using assms(1,3,4) by (cases pc) (auto simp: Let_def split: option.splits if_splits)
  then show ?thesis using assms(2) by (cases q) simp_all
qed

lemma gsafe: "gat p pc s \<Longrightarrow> code p pc s \<noteq> Crash"
  using rest_runs by (cases pc) (auto simp: Let_def split: option.split)

lemma gI_start: "all_ok d0 \<Longrightarrow> gI d0 (guarded_start d0)"
  by (simp add: gI_def ginv_at_def guarded_start_def current_def all_ok_def)

end

sublocale locked_calls \<subseteq> guarded: owicki_gries code "gcalls good" "gI d0" gat for d0
proof unfold_locales
  fix pc s p s' pc' p' q
  show "gcalls good pc \<Longrightarrow> gI d0 s \<Longrightarrow> gat p pc s" by (cases pc) simp_all
  show "gI d0 s \<Longrightarrow> gat p pc s \<Longrightarrow> code p pc s = Next (s', pc') \<Longrightarrow>
      gI d0 s' \<and> (\<forall>q. pc' = Some q \<longrightarrow> gat p q s')" by (rule glocal)
  show "gI d0 s \<Longrightarrow> gat p pc s \<Longrightarrow> gat p' q s \<Longrightarrow> p \<noteq> p' \<Longrightarrow>
      code p pc s = Next (s', pc') \<Longrightarrow> gat p' q s'" by (rule ginterference)
  show "gI d0 s \<Longrightarrow> gat p pc s \<Longrightarrow> code p pc s \<noteq> Crash" by (rule gsafe)
qed

subsection \<open>Linearizability\<close>

context locked_calls
begin

lemma linearizable:
  assumes "all_ok d0" and "conc_reach code (gcalls good) (guarded_start d0) c"
  shows "seq_run sq (map fst (glog (sh c i))) (d0 i) = Some (map snd (glog (sh c i)), current (sh c i)) \<and>
     ok (current (sh c i)) \<and> act code a c \<noteq> Crash"
  using guarded.reach_inv [OF assms(2) gI_start [OF assms(1)]] guarded.reach_safe [OF assms(2) gI_start [OF assms(1)], of a]
  by (simp add: gI_def ginv_at_def)

lemma in_body_owner: "gat p pc s \<Longrightarrow> in_body dev i pc \<Longrightarrow> owner (s i) = Some p"
  by (cases pc) auto

text \<open>Two processes are never under the same lock.\<close>

lemma exclusion:
  assumes "all_ok d0" and "conc_reach code (gcalls good) (guarded_start d0) c"
    and "pcs c p = Some pc" and "pcs c p' = Some pc'" and "in_body dev i pc" and "in_body dev i pc'"
  shows "p = p'"
  using guarded.reach_inv [OF assms(2) gI_start [OF assms(1)]] assms(3-6) in_body_owner [of _ _ "sh c" i]
  by (metis option.inject)

text \<open>The owner of a lock is on its way to give it back.\<close>

lemma owner_in_body:
  assumes "conc_reach code (gcalls good) (guarded_start d0) c" and "all_ok d0"
    and "owner (sh c i) = Some p"
  shows "\<exists>pc. pcs c p = Some pc \<and> in_body dev i pc"
  using assms(1,3)
proof (induction rule: conc_reach.induct)
  case start
  then show ?case by (simp add: conc_start_def guarded_start_def)
next
  case (call c pc p0 c')
  then show ?case by (auto split: if_splits)
next
  case (run c p0 c')
  then obtain pc s pc' where r: "pcs c p0 = Some pc" "code p0 pc (sh c) = Next (s, pc')"
    "c' = \<lparr>sh = s, pcs = (pcs c)(p0 := pc')\<rparr>" unfolding run_next by blast
  have a: "gat p0 pc (sh c)"
    using guarded.reach_inv [OF run.hyps(1) gI_start [OF assms(2)]] r(1) by blast
  have "(\<exists>q. pc' = Some q \<and> in_body dev i q) \<and> p = p0 \<or> owner (sh c i) = Some p \<and> (p = p0 \<longrightarrow> \<not> in_body dev i pc)"
    using r(2) run.prems a by (cases pc) (auto simp: r(3) Let_def split: if_splits option.splits bnext.splits)
  then show ?case using run.IH r(1) by (auto simp: r(3))
qed

end

subsection \<open>Every call can come to its end\<close>

locale ending_calls = locked_calls dev early entry body sq rest ok good
  for dev :: "'c \<Rightarrow> nat" and early :: "'c \<Rightarrow> 'r option" and entry :: "'c \<Rightarrow> 'p"
    and body :: "('o, 'p, 'r) body" and sq rest ok good +
  fixes left :: "'p \<Rightarrow> 'o \<Rightarrow> nat"
  assumes shrinks: "rest pc d = Some w \<Longrightarrow> body pc d = Some (d', Goto q) \<Longrightarrow> left q d' < left pc d"
begin

text \<open>The owner alone reaches the end of its call.\<close>

lemma leave_runs:
  assumes "pcs c p = Some (Leave cc r)"
  shows "\<exists>c'. schedule code [Run p] c = Some c' \<and> pcs c' p = None \<and>
     owner (sh c' (dev cc)) = None \<and> (\<forall>q. q \<noteq> p \<longrightarrow> pcs c' q = pcs c q)"
  using assms by (simp add: Let_def)

lemma body_runs:
  assumes "pcs c p = Some (Body cc pc)" and "gat p (Body cc pc) (sh c)"
  shows "\<exists>n c'. schedule code (replicate n (Run p)) c = Some c' \<and> pcs c' p = None \<and>
     owner (sh c' (dev cc)) = None \<and> (\<forall>q. q \<noteq> p \<longrightarrow> pcs c' q = pcs c q)"
  using assms
proof (induction "left pc (obj (sh c (dev cc)))" arbitrary: c pc rule: less_induct)
  case less
  let ?g = "sh c (dev cc)"
  obtain w where w: "rest pc (obj ?g) = Some w" "sq cc (before ?g) = Some w" using less.prems(2) by auto
  obtain d nx where b: "body pc (obj ?g) = Some (d, nx)" using rest_runs [OF w(1)] by fastforce
  define c1 where "c1 = \<lparr>sh = (sh c)(dev cc := ?g\<lparr>obj := d\<rparr>),
    pcs = (pcs c)(p \<mapsto> (case nx of Goto q \<Rightarrow> Body cc q | Ret r \<Rightarrow> Leave cc r))\<rparr>"
  have s1: "schedule code (Run p # as) c = schedule code as c1" for as
    using less.prems(1) b by (simp add: c1_def Let_def)
  have rec: "\<exists>n c'. schedule code (replicate n (Run p)) c1 = Some c' \<and> pcs c' p = None \<and>
      owner (sh c' (dev cc)) = None \<and> (\<forall>q. q \<noteq> p \<longrightarrow> pcs c' q = pcs c1 q)"
  proof (cases nx)
    case (Goto q)
    have "left q (obj (sh c1 (dev cc))) < left pc (obj ?g)" using shrinks [OF w(1)] b Goto by (simp add: c1_def)
    moreover have "pcs c1 p = Some (Body cc q)" by (simp add: c1_def Goto)
    moreover have "gat p (Body cc q) (sh c1)"
      using less.prems(2) rest_goto [OF w(1)] b Goto w by (simp add: c1_def)
    ultimately show ?thesis by (rule less.hyps)
  next
    case (Ret r)
    then have "pcs c1 p = Some (Leave cc r)" by (simp add: c1_def)
    from leave_runs [OF this] show ?thesis by (intro exI [of _ 1]) simp
  qed
  then obtain n c' where "schedule code (replicate n (Run p)) c1 = Some c'" "pcs c' p = None"
    "owner (sh c' (dev cc)) = None" "\<forall>q. q \<noteq> p \<longrightarrow> pcs c' q = pcs c1 q" by blast
  then show ?case by (intro exI [of _ "Suc n"] exI [of _ c']) (simp only: replicate_Suc s1, simp add: c1_def)
qed

lemma owner_runs:
  assumes "pcs c p = Some pc" and "gat p pc (sh c)" and "in_body dev i pc"
  shows "\<exists>n c'. schedule code (replicate n (Run p)) c = Some c' \<and> pcs c' p = None \<and>
     owner (sh c' i) = None \<and> (\<forall>q. q \<noteq> p \<longrightarrow> pcs c' q = pcs c q)"
proof (cases pc)
  case (Body cc q)
  then show ?thesis using body_runs [of c p cc q] assms by auto
next
  case (Leave cc r)
  then show ?thesis using leave_runs [of c p cc r] assms by (intro exI [of _ 1]) auto
qed (use assms in simp)

lemma runs_reach:
  assumes "schedule code (replicate n (Run p)) c = Some c'"
    and "conc_reach code (gcalls good) s c"
  shows "conc_reach code (gcalls good) s c'"
  using schedule_reach [OF assms(1) _ assms(2)] by (simp add: list_all_iff)

text \<open>With the lock free, one step enters; then the owner runs.\<close>

lemma entry_runs:
  assumes "conc_reach code (gcalls good) (guarded_start d0) c" and "all_ok d0"
    and "pcs c p = Some (Enter cc)" and "owner (sh c (dev cc)) = None"
  shows "\<exists>n c'. schedule code (replicate n (Run p)) c = Some c' \<and> pcs c' p = None"
proof (cases "early cc")
  case (Some r)
  then show ?thesis using assms(3) by (intro exI [of _ 1]) (simp add: Let_def)
next
  case None
  let ?g = "sh c (dev cc)"
  define c1 where "c1 = \<lparr>sh = (sh c)(dev cc := ?g\<lparr>owner := Some p, before := obj ?g\<rparr>), pcs = (pcs c)(p \<mapsto> Body cc (entry cc))\<rparr>"
  have s1: "schedule code [Run p] c = Some c1"
    using assms(3,4) None by (simp add: c1_def Let_def)
  then have r1: "conc_reach code (gcalls good) (guarded_start d0) c1"
    using runs_reach [of 1 p c c1] assms(1) by simp
  have p1: "pcs c1 p = Some (Body cc (entry cc))" by (simp add: c1_def)
  then have "gat p (Body cc (entry cc)) (sh c1)" using guarded.reach_inv [OF r1 gI_start [OF assms(2)]] by blast
  from body_runs [OF p1 this] obtain n c' where
    "schedule code (replicate n (Run p)) c1 = Some c'" "pcs c' p = None" by blast
  then show ?thesis using s1 schedule_append [of code "[Run p]" "replicate n (Run p)" c]
    by (intro exI [of _ "Suc n"]) auto
qed

text \<open>Whatever the other processes are doing, a call can be completed: by steps of the process that
  holds the lock it waits for, if any, and then by its own.\<close>

lemma completes:
  assumes "conc_reach code (gcalls good) (guarded_start d0) c" and "all_ok d0"
    and "pcs c p \<noteq> None"
  shows "\<exists>p' n m c'. schedule code (replicate n (Run p') @ replicate m (Run p)) c = Some c' \<and>
     pcs c' p = None"
proof -
  have at: "gat q pc (sh c)" if "pcs c q = Some pc" for q pc
    using guarded.reach_inv [OF assms(1) gI_start [OF assms(2)]] that by blast
  obtain pc where pc: "pcs c p = Some pc" using assms(3) by blast
  show ?thesis
  proof (cases pc)
    case (Enter cc)
    show ?thesis
    proof (cases "owner (sh c (dev cc))")
      case None
      then obtain m c' where "schedule code (replicate m (Run p)) c = Some c'" "pcs c' p = None"
        using entry_runs [OF assms(1,2)] pc Enter by blast
      then show ?thesis by (intro exI [of _ p] exI [of _ 0] exI [of _ m]) simp
    next
      case (Some p')
      obtain q where q: "pcs c p' = Some q" "in_body dev (dev cc) q" using owner_in_body [OF assms(1,2) Some] by blast
      obtain n c1 where 1: "schedule code (replicate n (Run p')) c = Some c1"
        "owner (sh c1 (dev cc)) = None" "\<forall>r. r \<noteq> p' \<longrightarrow> pcs c1 r = pcs c r"
        using owner_runs [OF q(1) at [OF q(1)] q(2)] by blast
      have "p \<noteq> p'" using pc Enter q by auto
      then have "pcs c1 p = Some (Enter cc)" using 1(3) pc Enter by simp
      then obtain m c' where "schedule code (replicate m (Run p)) c1 = Some c'" "pcs c' p = None"
        using entry_runs [OF runs_reach [OF 1(1) assms(1)] assms(2) _ 1(2)] by blast
      then show ?thesis using 1(1)
        by (intro exI [of _ p'] exI [of _ n] exI [of _ m]) (simp add: schedule_append)
    qed
  next
    case (Body cc q)
    then obtain m c' where "schedule code (replicate m (Run p)) c = Some c'" "pcs c' p = None"
      using owner_runs [OF pc at [OF pc], of "dev cc"] by auto
    then show ?thesis by (intro exI [of _ p] exI [of _ 0] exI [of _ m]) simp
  next
    case (Leave cc r)
    then obtain m c' where "schedule code (replicate m (Run p)) c = Some c'" "pcs c' p = None"
      using owner_runs [OF pc at [OF pc], of "dev cc"] by auto
    then show ?thesis by (intro exI [of _ p] exI [of _ 0] exI [of _ m]) simp
  qed
qed

end

subsection \<open>Copies to and from the user, byte by byte\<close>

text \<open>The number of bytes a \<open>copy_to_user\<close> delivers, and the bytes a \<open>copy_from_user\<close> fetches.\<close>

definition copied :: "uenv \<Rightarrow> size_t \<Rightarrow> nat" where
  "copied u n = unat n - uctu u (unat n)"

definition fetch :: "uenv \<Rightarrow> size_t \<Rightarrow> byte list" where
  "fetch u n = snd (ucfu u (unat n))"

lemma copied_le: "copied u n \<le> unat n"
  by (simp add: copied_def)

lemma copy_out_step:
  assumes "mem_read buf off (unat n) = Some src" and "k < copied u n"
  shows "arr_get buf (off + int k) = Some (src ! k)" and "drop k src = src ! k # drop (Suc k) src"
    and "drop k (take (copied u n) src) = src ! k # drop (Suc k) (take (copied u n) src)"
proof -
  have k: "k < unat n" using assms(2) copied_le [of u n] by simp
  then show "arr_get buf (off + int k) = Some (src ! k)" by (rule read_step [OF assms(1)])
  have l: "k < length src" "k < length (take (copied u n) src)"
    using mem_read_length [OF assms(1)] k assms(2) by simp_all
  show "drop k src = src ! k # drop (Suc k) src" by (rule drop_step [OF l(1)])
  show "drop k (take (copied u n) src) = src ! k # drop (Suc k) (take (copied u n) src)"
    using drop_step [OF l(2)] assms(2) by simp
qed

lemma copy_out_end:
  assumes "mem_read buf off (unat n) = Some src" and "\<not> k < copied u n"
  shows "drop k (take (copied u n) src) = []" and "uctu u (unat n) = 0 \<Longrightarrow> drop k src = []"
  using mem_read_length [OF assms(1)] assms(2) by (simp_all add: copied_def)

end
