(* ===== verification/StorageLinearizable.thy ===== *)
theory StorageLinearizable
  imports StorageDevice LockedCalls
begin

section \<open>The storage device as a linearizable object\<close>

text \<open>
  \<open>003_char_block_storage_device/storage_kernel.c\<close> as an instance of LockedCalls: reads, writes and the
  four ioctls on sectors, which all work under \<open>storage_mutex\<close>, run statement by statement in any number
  of processes, with their copies and scans element by element. The handlers of StorageDevice are what the
  statements are compared with. Before the lock a call looks at its arguments, at whether a signal comes
  while it waits, and (unlock) at the keys.

  The keys \<open>ks\<close> and their number \<open>kc\<close> are parameters: no function of the driver changes them after
  \<open>storage_driver_init\<close>. (The module parameter is writable under \<open>/sys/module\<close>; such writes are
  outside this model.) The mirror and backup ioctls, which do not take \<open>storage_mutex\<close>, are in
  StorageConcurrency.
\<close>

datatype sreq =
    SRead uenv size_t loff_t
  | SWrite uenv size_t loff_t
  | SLock uenv
  | SUnlock uenv
  | SInfo uenv
  | SErase uenv

text \<open>The result of a call: the position, the bytes delivered and the return value.\<close>

type_synonym sres = "loff_t \<times> byte list \<times> ret"

definition s_dev :: "sreq \<Rightarrow> nat" where
  "s_dev c = 0"

definition early_sector :: "uenv \<Rightarrow> sres option" where
  "early_sector u =
     (case user_int u of
        None \<Rightarrow> Some (0, [], Inl EFAULT)
      | Some idx \<Rightarrow> if idx < 0 \<or> 8 \<le> idx then Some (0, [], Inl EINVAL) else None)"

text \<open>The key check reads inside the key table wherever the module has at most as many keys as the table
  has entries (\<open>storage_inv\<close>).\<close>

fun s_early :: "byte list option list \<Rightarrow> int \<Rightarrow> sreq \<Rightarrow> sres option" where
  "s_early ks kc (SRead u len off) =
     (if 4096 \<le> sint off then Some (off, [], Inr 0)
      else if intr u then Some (off, [], Inl ERESTARTSYS) else None)"
| "s_early ks kc (SWrite u len off) =
     (if 4096 \<le> sint off then Some (off, [], Inl ENOSPC)
      else if intr u then Some (off, [], Inl ERESTARTSYS) else None)"
| "s_early ks kc (SLock u) = early_sector u"
| "s_early ks kc (SUnlock u) =
     (if fst (ucfu u 4) \<noteq> 0 then Some (0, [], Inl EFAULT)
      else
        let req = snd (ucfu u 4); sector = unlock_req_sector req in
        if sector < 0 \<or> 8 \<le> sector then Some (0, [], Inl EINVAL)
        else if key_valid ks kc (unlock_req_key req) 0 \<noteq> Some True then Some (0, [], Inl EPERM)
        else if intr u then Some (0, [], Inl ERESTARTSYS) else None)"
| "s_early ks kc (SInfo u) = None"
| "s_early ks kc (SErase u) = early_sector u"

subsection \<open>The statements between lock and unlock\<close>

datatype sstmt =
    RdCopy uenv size_t loff_t nat "byte list"
  | WrScan uenv size_t loff_t int int | WrCopy uenv size_t loff_t nat
  | LkSet int | UnSet int
  | InCopy uenv nat "bool list"
  | ErTest int | ErZero int nat

definition sector_in :: "uenv \<Rightarrow> int" where
  "sector_in u = sint (int_of_bytes (snd (ucfu u 4)))"

fun s_entry :: "sreq \<Rightarrow> sstmt" where
  "s_entry (SRead u len off) = RdCopy u (if 4096 < off + len then 4096 - off else len) off 0 []"
| "s_entry (SWrite u len off) =
     (let len = (if 4096 < off + len then 4096 - off else len); start = off; endp = start + len in
      WrScan u len off (sector_of start) (sector_of (endp - 1)))"
| "s_entry (SLock u) = LkSet (sector_in u)"
| "s_entry (SUnlock u) = UnSet (unlock_req_sector (snd (ucfu u 4)))"
| "s_entry (SInfo u) = InCopy u 0 []"
| "s_entry (SErase u) = ErTest (sector_in u)"

fun s_body :: "(storage_dev, sstmt, sres) body" where
  "s_body (RdCopy u len off k out) s =
     (if k < copied u len
      then map_option (\<lambda>b. (s, Goto (RdCopy u len off (Suc k) (out @ [b])))) (arr_get (storage_buffer s) (sint off + int k))
      else Some (s, Ret (if uctu u (unat len) \<noteq> 0 then (off, out, Inl EFAULT) else (off + len, out, Inr len))))"
| "s_body (WrScan u len off i e) s =
     (if i \<le> e
      then map_option (\<lambda>l. (s, if l then Ret (off, [], Inl EPERM) else Goto (WrScan u len off (i + 1) e)))
             (arr_get (sector_lock_state s) i)
      else Some (s, Goto (WrCopy u len off 0)))"
| "s_body (WrCopy u len off k) s =
     (if k < length (fetch u len)
      then map_option (\<lambda>buf. (s\<lparr>storage_buffer := buf\<rparr>, Goto (WrCopy u len off (Suc k))))
             (arr_set (storage_buffer s) (sint off + int k) (fetch u len ! k))
      else Some (s, Ret (if fst (ucfu u (unat len)) \<noteq> 0 then (off, [], Inl EFAULT) else (off + len, [], Inr len))))"
| "s_body (LkSet i) s =
     map_option (\<lambda>lk. (s\<lparr>sector_lock_state := lk\<rparr>, Ret (0, [], Inr 0))) (arr_set (sector_lock_state s) i True)"
| "s_body (UnSet i) s =
     map_option (\<lambda>lk. (s\<lparr>sector_lock_state := lk\<rparr>, Ret (0, [], Inr 0))) (arr_set (sector_lock_state s) i False)"
| "s_body (InCopy u k info) s =
     (if k < 8
      then map_option (\<lambda>l. (s, Goto (InCopy u (Suc k) (info @ [l])))) (arr_get (sector_lock_state s) (int k))
      else Some (s, Ret (0, take (8 - uctu u 8) (map of_bool info), if uctu u 8 \<noteq> 0 then Inl EFAULT else Inr 0)))"
| "s_body (ErTest i) s =
     map_option (\<lambda>l. (s, if l then Ret (0, [], Inl EPERM) else Goto (ErZero i 0))) (arr_get (sector_lock_state s) i)"
| "s_body (ErZero i k) s =
     (if k < 512
      then map_option (\<lambda>buf. (s\<lparr>storage_buffer := buf\<rparr>, Goto (ErZero i (Suc k))))
             (arr_set (storage_buffer s) (i * 512 + int k) 0)
      else Some (s, Ret (0, [], Inr 0)))"

subsection \<open>The handlers of StorageDevice\<close>

fun s_call :: "sreq \<Rightarrow> storage_dev \<Rightarrow> (storage_dev \<times> sres) option" where
  "s_call (SRead u len off) s = storage_read u len off s"
| "s_call (SWrite u len off) s = map_option (\<lambda>(s, off, r). (s, off, [], r)) (storage_write u len off s)"
| "s_call (SLock u) s = map_option (\<lambda>(s, r). (s, 0, [], r)) (ioctl_lock_sector u s)"
| "s_call (SUnlock u) s = map_option (\<lambda>(s, r). (s, 0, [], r)) (ioctl_unlock_sector u s)"
| "s_call (SInfo u) s = map_option (\<lambda>(s, out, r). (s, 0, out, r)) (ioctl_get_lock_info u s)"
| "s_call (SErase u) s = map_option (\<lambda>(s, r). (s, 0, [], r)) (ioctl_erase_sector u s)"

text \<open>What the kernel guarantees of a call, and what holds of the device whenever the lock is free.\<close>

fun s_call_ok :: "sreq \<Rightarrow> bool" where
  "s_call_ok (SRead u len off) \<longleftrightarrow> uaccess_ok u \<and> vfs_ok len off"
| "s_call_ok (SWrite u len off) \<longleftrightarrow> uaccess_ok u \<and> vfs_ok len off"
| "s_call_ok _ = True"

definition s_dev_ok :: "byte list option list \<Rightarrow> int \<Rightarrow> storage_dev \<Rightarrow> bool" where
  "s_dev_ok ks kc s \<longleftrightarrow> storage_inv s \<and> user_keys s = ks \<and> key_count s = kc"

text \<open>The rest of a handler, from a statement on, and how many statements that are at most.\<close>

definition s_read_rest :: "uenv \<Rightarrow> size_t \<Rightarrow> loff_t \<Rightarrow> nat \<Rightarrow> byte list \<Rightarrow> storage_dev \<Rightarrow> (storage_dev \<times> sres) option" where
  "s_read_rest u len off k out s =
     map_option (\<lambda>src. (s, if uctu u (unat len) \<noteq> 0 then (off, out @ drop k (take (copied u len) src), Inl EFAULT)
                           else (off + len, out @ drop k src, Inr len)))
       (mem_read (storage_buffer s) (sint off) (unat len))"

definition s_write_rest :: "uenv \<Rightarrow> size_t \<Rightarrow> loff_t \<Rightarrow> nat \<Rightarrow> storage_dev \<Rightarrow> (storage_dev \<times> sres) option" where
  "s_write_rest u len off k s =
     map_option (\<lambda>buf. (s\<lparr>storage_buffer := buf\<rparr>,
                        if fst (ucfu u (unat len)) \<noteq> 0 then (off, [], Inl EFAULT) else (off + len, [], Inr len)))
       (mem_write (storage_buffer s) (sint off + int k) (drop k (fetch u len)))"

definition s_info_rest :: "uenv \<Rightarrow> nat \<Rightarrow> bool list \<Rightarrow> storage_dev \<Rightarrow> (storage_dev \<times> sres) option" where
  "s_info_rest u k info s =
     map_option (\<lambda>src. (s, 0, take (8 - uctu u 8) (map of_bool (info @ drop k src)), if uctu u 8 \<noteq> 0 then Inl EFAULT else Inr 0))
       (mem_read (sector_lock_state s) 0 8)"

definition s_erase_rest :: "int \<Rightarrow> nat \<Rightarrow> storage_dev \<Rightarrow> (storage_dev \<times> sres) option" where
  "s_erase_rest i k s =
     map_option (\<lambda>buf. (s\<lparr>storage_buffer := buf\<rparr>, 0, [], Inr 0))
       (mem_write (storage_buffer s) (i * 512 + int k) (drop k (replicate 512 0)))"

definition s_set_rest :: "int \<Rightarrow> bool \<Rightarrow> storage_dev \<Rightarrow> (storage_dev \<times> sres) option" where
  "s_set_rest i l s = map_option (\<lambda>lk. (s\<lparr>sector_lock_state := lk\<rparr>, 0, [], Inr 0)) (arr_set (sector_lock_state s) i l)"

fun s_rest :: "sstmt \<Rightarrow> storage_dev \<Rightarrow> (storage_dev \<times> sres) option" where
  "s_rest (RdCopy u len off k out) s = s_read_rest u len off k out s"
| "s_rest (WrScan u len off i e) s =
     do { l \<leftarrow> locked_in_range (sector_lock_state s) i e;
          if l then Some (s, off, [], Inl EPERM) else s_write_rest u len off 0 s }"
| "s_rest (WrCopy u len off k) s = s_write_rest u len off k s"
| "s_rest (LkSet i) s = s_set_rest i True s"
| "s_rest (UnSet i) s = s_set_rest i False s"
| "s_rest (InCopy u k info) s = s_info_rest u k info s"
| "s_rest (ErTest i) s =
     do { l \<leftarrow> arr_get (sector_lock_state s) i; if l then Some (s, 0, [], Inl EPERM) else s_erase_rest i 0 s }"
| "s_rest (ErZero i k) s = s_erase_rest i k s"

fun s_left :: "sstmt \<Rightarrow> storage_dev \<Rightarrow> nat" where
  "s_left (RdCopy u len off k out) s = copied u len - k"
| "s_left (WrScan u len off i e) s = nat (e + 1 - i) + length (fetch u len) + 1"
| "s_left (WrCopy u len off k) s = length (fetch u len) - k"
| "s_left (LkSet i) s = 0"
| "s_left (UnSet i) s = 0"
| "s_left (InCopy u k info) s = 8 - k"
| "s_left (ErTest i) s = 513"
| "s_left (ErZero i k) s = 512 - k"

subsection \<open>One statement leaves over the rest\<close>

definition s_step_ok :: "sstmt \<Rightarrow> storage_dev \<Rightarrow> storage_dev \<times> sres \<Rightarrow> bool" where
  "s_step_ok pc s w \<longleftrightarrow> (\<exists>s' nx. s_body pc s = Some (s', nx) \<and>
     (case nx of Goto q \<Rightarrow> s_rest q s' = Some w \<and> s_left q s' < s_left pc s | Ret r \<Rightarrow> w = (s', r)))"

lemma RdCopy_step:
  assumes "s_read_rest u len off k out s = Some w"
  shows "s_step_ok (RdCopy u len off k out) s w"
proof -
  obtain src where src: "mem_read (storage_buffer s) (sint off) (unat len) = Some src"
    using assms by (auto simp: s_read_rest_def)
  show ?thesis
    using assms src copy_out_step [OF src, of k u] copy_out_end [OF src, of k u]
    by (cases "k < copied u len") (auto simp: s_step_ok_def s_read_rest_def)
qed

lemma WrScan_step:
  assumes "s_rest (WrScan u len off i e) s = Some w"
  shows "s_step_ok (WrScan u len off i e) s w"
proof (cases "i \<le> e")
  case True
  then obtain l where "arr_get (sector_lock_state s) i = Some l"
    using assms by (subst (asm) s_rest.simps, subst (asm) locked_in_range.simps) (auto split: bind_splits)
  then show ?thesis using assms True
    by (subst (asm) s_rest.simps, subst (asm) locked_in_range.simps) (auto simp: s_step_ok_def)
next
  case False
  then show ?thesis using assms
    by (subst (asm) s_rest.simps, subst (asm) locked_in_range.simps) (auto simp: s_step_ok_def)
qed

lemma WrCopy_step:
  assumes "s_write_rest u len off k s = Some w"
  shows "s_step_ok (WrCopy u len off k) s w"
proof -
  obtain buf where buf: "mem_write (storage_buffer s) (sint off + int k) (drop k (fetch u len)) = Some buf"
    using assms by (auto simp: s_write_rest_def)
  show ?thesis
    using assms buf write_step [OF buf] mem_write_end [of "storage_buffer s" "sint off + int k" buf]
    by (cases "k < length (fetch u len)") (auto simp: s_step_ok_def s_write_rest_def)
qed

lemma InCopy_step:
  assumes "s_info_rest u k info s = Some w"
  shows "s_step_ok (InCopy u k info) s w"
proof -
  obtain src where src: "mem_read (sector_lock_state s) 0 8 = Some src" using assms by (auto simp: s_info_rest_def)
  show ?thesis
    using assms src read_step [OF src, of k] drop_step [of k src] mem_read_length [OF src]
    by (cases "k < 8") (auto simp: s_step_ok_def s_info_rest_def)
qed

lemma ErZero_step:
  assumes "s_erase_rest i k s = Some w"
  shows "s_step_ok (ErZero i k) s w"
proof -
  obtain buf where buf: "mem_write (storage_buffer s) (i * 512 + int k) (drop k (replicate 512 0)) = Some buf"
    using assms by (auto simp: s_erase_rest_def)
  show ?thesis
    using assms buf write_step [OF buf] mem_write_end [of "storage_buffer s" "i * 512 + int k" buf]
    by (cases "k < 512") (auto simp: s_step_ok_def s_erase_rest_def)
qed

lemma s_body_step:
  assumes "s_rest pc s = Some w"
  shows "s_step_ok pc s w"
proof (cases pc)
  case (WrScan u len off i e)
  then show ?thesis using assms WrScan_step by blast
next
  case (ErTest i)
  then obtain l where "arr_get (sector_lock_state s) i = Some l" using assms by (auto simp: bind_eq_Some_conv)
  then show ?thesis using assms ErTest by (cases l) (simp_all add: s_step_ok_def)
qed (use assms in \<open>auto simp: RdCopy_step WrCopy_step InCopy_step ErZero_step\<close>,
    (auto simp: s_step_ok_def s_set_rest_def)?)

subsection \<open>The statements from the first on are the handler\<close>

lemma s_entry_call:
  assumes "s_early ks kc c = None" and "s_dev_ok ks kc s"
  shows "s_rest (s_entry c) s = s_call c s"
proof -
  have l: "\<not> storage_mutex s" using assms(2) by (simp add: s_dev_ok_def storage_invD)
  have k: "user_keys s = ks" "key_count s = kc" using assms(2) by (simp_all add: s_dev_ok_def)
  show ?thesis
  proof (cases c)
    case (SRead u len off)
    then show ?thesis using assms(1) l
      by (auto simp: storage_read_def s_read_rest_def copied_def Let_def bind_eq_Some_conv
          split: if_splits bind_splits intro!: option.expand)
  next
    case (SWrite u len off)
    then show ?thesis using assms(1) l
      by (auto simp: storage_write_def s_write_rest_def fetch_def Let_def split: if_splits bind_splits)
  next
    case (SLock u)
    then show ?thesis using assms(1) l
      by (auto simp: early_sector_def ioctl_lock_sector_def s_set_rest_def sector_in_def user_int_def Let_def
          split: if_splits bind_splits)
  next
    case (SUnlock u)
    then show ?thesis using assms(1) l k
      by (auto simp: ioctl_unlock_sector_def s_set_rest_def Let_def split: if_splits bind_splits)
  next
    case (SInfo u)
    then show ?thesis using l
      by (auto simp: ioctl_get_lock_info_def s_info_rest_def Let_def split: bind_splits)
  next
    case (SErase u)
    then show ?thesis using assms(1) l
      by (auto simp: early_sector_def ioctl_erase_sector_def s_erase_rest_def sector_in_def user_int_def Let_def
          split: if_splits bind_splits)
  qed
qed

lemma s_early_call:
  assumes "s_early ks kc c = Some r" and "s_dev_ok ks kc s"
  shows "s_call c s = Some (s, r)"
proof -
  have i: "storage_inv s" and k: "user_keys s = ks" "key_count s = kc" using assms(2) by (simp_all add: s_dev_ok_def)
  have "s_early (user_keys s) (key_count s) c = Some r" using assms(1) k by simp
  then show ?thesis using key_valid_matches [OF i]
    by (cases c)
      (auto simp: early_sector_def storage_read_def storage_write_def ioctl_lock_sector_def ioctl_unlock_sector_def
        ioctl_erase_sector_def Let_def split: if_splits option.splits)
qed

lemma s_call_sound:
  assumes "s_dev_ok ks kc s" and "s_call_ok c"
  shows "\<exists>s' r. s_call c s = Some (s', r) \<and> s_dev_ok ks kc s'"
proof -
  have i: "storage_inv s" using assms(1) by (simp add: s_dev_ok_def)
  have le: "nat idx * 512 + 512 \<le> 4096" if "\<not> idx < 0" "\<not> 8 \<le> idx" for idx using that by simp
  show ?thesis
  proof (cases c)
    case (SRead u len off)
    then show ?thesis using assms by (simp add: storage_read_run i Let_def)
  next
    case (SWrite u len off)
    then have c: "vfs_ok len off" "uaccess_ok u" using assms(2) by simp_all
    have "storage_write u len off s \<noteq> None" by (simp add: storage_write_run [OF i c])
    then obtain s' pos r where w: "storage_write u len off s = Some (s', pos, r)" by auto
    then have "user_keys s' = user_keys s \<and> key_count s' = key_count s"
      using storage_write_run [OF i c] by (auto simp: Let_def split: if_splits)
    then show ?thesis using SWrite w write_inv [OF i c w] assms(1) by (simp add: s_dev_ok_def)
  next
    case (SLock u)
    then show ?thesis using assms(1) i
      by (auto simp: ioctl_lock_sector_run s_dev_ok_def intro: inv_intros split: option.split)
  next
    case (SUnlock u)
    then show ?thesis using assms(1) i by (auto simp: ioctl_unlock_sector_run s_dev_ok_def intro: inv_intros)
  next
    case (SInfo u)
    then show ?thesis using assms(1) i by (auto simp: ioctl_get_lock_info_run s_dev_ok_def)
  next
    case (SErase u)
    then show ?thesis using assms(1) i le
      by (auto simp: ioctl_erase_sector_run s_dev_ok_def intro!: inv_intros split: option.split)
  qed
qed

interpretation storage_calls: ending_calls s_dev "s_early ks kc" s_entry s_body s_call s_rest "s_dev_ok ks kc" s_call_ok s_left
  for ks kc
proof unfold_locales
  fix c r s pc w s' q
  show "s_early ks kc c = Some r \<Longrightarrow> s_call_ok c \<Longrightarrow> s_dev_ok ks kc s \<Longrightarrow> s_call c s = Some (s, r)" by (rule s_early_call)
  show "s_early ks kc c = None \<Longrightarrow> s_call_ok c \<Longrightarrow> s_dev_ok ks kc s \<Longrightarrow> s_rest (s_entry c) s = s_call c s" by (rule s_entry_call)
  show "s_rest pc s = Some w \<Longrightarrow> s_body pc s = Some (s', Goto q) \<Longrightarrow> s_rest q s' = Some w"
    and "s_rest pc s = Some w \<Longrightarrow> s_body pc s = Some (s', Ret r) \<Longrightarrow> w = (s', r)"
    and "s_rest pc s = Some w \<Longrightarrow> s_body pc s \<noteq> None"
    and "s_rest pc s = Some w \<Longrightarrow> s_body pc s = Some (s', Goto q) \<Longrightarrow> s_left q s' < s_left pc s"
    using s_body_step [of pc s w] by (auto simp: s_step_ok_def simp del: s_rest.simps s_body.simps)
  show "s_dev_ok ks kc s \<Longrightarrow> s_call_ok c \<Longrightarrow> \<exists>s' r. s_call c s = Some (s', r) \<and> s_dev_ok ks kc s'" by (rule s_call_sound)
qed

definition locked_stmts :: "storage_dev \<Rightarrow> (nat \<Rightarrow> (storage_dev, sreq, sres) guarded, (sreq, sstmt, sres) gpc) stmts" where
  "locked_stmts s = guarded_stmts s_dev (s_early (user_keys s) (key_count s)) s_entry s_body"

definition storage_start :: "storage_dev \<Rightarrow> nat \<Rightarrow> (storage_dev, sreq, sres) guarded" where
  "storage_start s = guarded_start (\<lambda>i. s)"

lemma start_ok: "storage_inv s \<Longrightarrow> storage_calls.all_ok (user_keys s) (key_count s) (\<lambda>i. s)"
  by (simp add: storage_calls.all_ok_def s_dev_ok_def)

subsection \<open>Properties\<close>

text \<open>C5: The storage device is linearizable. However many processes read, write, lock, unlock,
  erase and query sectors, and however their statements interleave: the calls, in the order in
  which they took effect, returned exactly what the handlers return one after the other, starting
  from the device as it was; the device is then what the handlers make of it; no access leaves a
  buffer or a table; and no two processes are between lock and unlock.\<close>

theorem storage_linearizable:
  assumes "storage_inv s" and "conc_reach (locked_stmts s) (gcalls s_call_ok) (storage_start s) c"
  shows "(\<exists>d. seq_run s_call (map fst (glog (sh c 0))) s = Some (map snd (glog (sh c 0)), d) \<and> storage_inv d \<and>
       (owner (sh c 0) = None \<longrightarrow> obj (sh c 0) = d)) \<and>
     act (locked_stmts s) a c \<noteq> Crash \<and>
     \<not> (p \<noteq> p' \<and> pcs c p = Some pc \<and> pcs c p' = Some pc' \<and> in_body s_dev 0 pc \<and> in_body s_dev 0 pc')"
proof (intro conjI)
  note r = assms(2) [unfolded locked_stmts_def storage_start_def]
  note l = storage_calls.linearizable [OF start_ok [OF assms(1)] r]
  show "\<exists>d. seq_run s_call (map fst (glog (sh c 0))) s = Some (map snd (glog (sh c 0)), d) \<and> storage_inv d \<and>
      (owner (sh c 0) = None \<longrightarrow> obj (sh c 0) = d)"
    using l [where i = 0] by (auto simp: storage_calls.current_def s_dev_ok_def)
  show "act (locked_stmts s) a c \<noteq> Crash" unfolding locked_stmts_def using l by blast
  show "\<not> (p \<noteq> p' \<and> pcs c p = Some pc \<and> pcs c p' = Some pc' \<and> in_body s_dev 0 pc \<and> in_body s_dev 0 pc')"
    using storage_calls.exclusion [OF start_ok [OF assms(1)] r] by blast
qed

text \<open>A write that has entered, a read that waits for it, and a lock request after both.\<close>

definition storage_users :: "(sreq, sstmt, sres) gpc action list" where
  "storage_users = [Call 0 (Enter (SWrite (user_mem [7, 8]) 2 0)), Run 0,
     Call 1 (Enter (SRead (user_mem []) 2 0)), Run 0, Run 0, Run 0, Run 0, Run 0, Run 0,
     Run 1, Run 1, Run 1, Run 1, Run 1,
     Call 0 (Enter (SLock (user_mem (bytes_of_int 9)))), Run 0]"

lemma storage_users_run:
  assumes "length buf = 4096"
  shows "\<exists>c. schedule (locked_stmts (storage_boot\<lparr>storage_buffer := buf\<rparr>)) storage_users
       (conc_start (storage_start (storage_boot\<lparr>storage_buffer := buf\<rparr>))) = Some c \<and> owner (sh c 0) = None \<and>
     map snd (glog (sh c 0)) = [(2, [], Inr 2), (2, [7, 8], Inr 2), (0, [], Inl EINVAL)]"
  using assms
  by (simp add: storage_users_def locked_stmts_def conc_start_def storage_start_def guarded_start_def s_dev_def
      storage_boot_def storage_init_data_def fetch_def copied_def early_sector_def user_int_def arr_get_def arr_set_def
      sector_of_small Let_def flip: length_greater_0_conv)

lemma storage_users_calls: "list_all (call_ok (gcalls s_call_ok)) storage_users"
  by (simp add: storage_users_def vfs_ok_def)

theorem storage_linearizable_witness:
  "\<exists>c. conc_reach (locked_stmts storage_boot) (gcalls s_call_ok) (storage_start storage_boot) c \<and>
     map snd (glog (sh c 0)) = [(2, [], Inr 2), (2, [7, 8], Inr 2), (0, [], Inl EINVAL)] \<and>
     (\<exists>d. seq_run s_call (map fst (glog (sh c 0))) storage_boot = Some (map snd (glog (sh c 0)), d) \<and> obj (sh c 0) = d)"
proof -
  have b: "storage_boot\<lparr>storage_buffer := storage_buffer storage_boot\<rparr> = storage_boot" by simp
  have l: "length (storage_buffer storage_boot) = 4096" using boot_inv(1) by (rule storage_invD)
  obtain c where c: "schedule (locked_stmts storage_boot) storage_users (conc_start (storage_start storage_boot)) = Some c"
    "owner (sh c 0) = None" "map snd (glog (sh c 0)) = [(2, [], Inr 2), (2, [7, 8], Inr 2), (0, [], Inl EINVAL)]"
    by (rule exE [OF storage_users_run [OF l, unfolded b]]) (elim conjE)
  have r: "conc_reach (locked_stmts storage_boot) (gcalls s_call_ok) (storage_start storage_boot) c"
    by (rule schedule_from_start [OF c(1) storage_users_calls])
  show ?thesis
    using conjunct1 [OF storage_linearizable [OF boot_inv(1) r]] c(2) by (intro exI [of _ c]) (use r c(3) in auto)
qed

end
