(* ===== verification/KeyQueue.thy ===== *)
theory KeyQueue
  imports LddPrelude
begin

section \<open>The keypad's ring buffer: queue\_kernel.h and queue\_kernel.c\<close>

text \<open>
  \<open>002_char_keypad_driver/queue_kernel.[ch]\<close>: a ring of 64 characters with \<open>front\<close>, \<open>rear\<close>
  and \<open>count\<close>, and a spinlock around \<open>enqueue\<close> and \<open>dequeue\<close>. The contract of a bounded
  queue is the locale \<open>bounded_queue\<close>; the ring interprets it, and the keypad driver
  rests on its lemmas.
\<close>

subsection \<open>The contract of a bounded queue\<close>

text \<open>
  Calls a client issues, what each returned, and the two ways to run them: on an
  implementation and on the specification, a list that takes at most \<open>cap\<close> elements.
\<close>

datatype 'a qop = Enq 'a | Deq

fun q_step :: "('q \<Rightarrow> 'a \<Rightarrow> (int \<times> 'q) option) \<Rightarrow> ('q \<Rightarrow> (int \<times> 'a option \<times> 'q) option)
    \<Rightarrow> 'a qop \<Rightarrow> 'q \<Rightarrow> ((int \<times> 'a option) \<times> 'q) option" where
  "q_step enq deq (Enq x) q = map_option (\<lambda>(r, q'). ((r, None), q')) (enq q x)"
| "q_step enq deq Deq q = map_option (\<lambda>(r, x, q'). ((r, x), q')) (deq q)"

fun q_run :: "('q \<Rightarrow> 'a \<Rightarrow> (int \<times> 'q) option) \<Rightarrow> ('q \<Rightarrow> (int \<times> 'a option \<times> 'q) option)
    \<Rightarrow> 'a qop list \<Rightarrow> 'q \<Rightarrow> ((int \<times> 'a option) list \<times> 'q) option" where
  "q_run enq deq [] q = Some ([], q)"
| "q_run enq deq (c # cs) q =
     do { (r, q1) \<leftarrow> q_step enq deq c q; (rs, q2) \<leftarrow> q_run enq deq cs q1; Some (r # rs, q2) }"

fun fifo_step :: "nat \<Rightarrow> 'a qop \<Rightarrow> 'a list \<Rightarrow> (int \<times> 'a option) \<times> 'a list" where
  "fifo_step cap (Enq x) xs = (if length xs < cap then ((0, None), xs @ [x]) else ((-1, None), xs))"
| "fifo_step cap Deq [] = ((-1, None), [])"
| "fifo_step cap Deq (x # xs) = ((0, Some x), xs)"

fun fifo_run :: "nat \<Rightarrow> 'a qop list \<Rightarrow> 'a list \<Rightarrow> (int \<times> 'a option) list \<times> 'a list" where
  "fifo_run cap [] xs = ([], xs)"
| "fifo_run cap (c # cs) xs =
     (let (r, xs1) = fifo_step cap c xs; (rs, xs2) = fifo_run cap cs xs1 in (r # rs, xs2))"

text \<open>What went in (the calls that returned 0) and what came out.\<close>

fun accepted :: "'a qop list \<Rightarrow> (int \<times> 'a option) list \<Rightarrow> 'a list" where
  "accepted (Enq x # cs) (r # rs) = (if fst r = 0 then x # accepted cs rs else accepted cs rs)"
| "accepted (Deq # cs) (r # rs) = accepted cs rs"
| "accepted cs rs = []"

definition delivered :: "(int \<times> 'a option) list \<Rightarrow> 'a list" where
  "delivered rs = concat (map (\<lambda>r. case snd r of None \<Rightarrow> [] | Some x \<Rightarrow> [x]) rs)"

text \<open>The loop \<open>for (i = 0; s[i]; i++) enqueue(q, s[i])\<close>: the codes are not looked at.\<close>

fun enq_each :: "('q \<Rightarrow> 'a \<Rightarrow> (int \<times> 'q) option) \<Rightarrow> 'a list \<Rightarrow> 'q \<Rightarrow> 'q option" where
  "enq_each enq [] q = Some q"
| "enq_each enq (x # xs) q = do { (r, q') \<leftarrow> enq q x; enq_each enq xs q' }"

locale bounded_queue =
  fixes enq :: "'q \<Rightarrow> 'a \<Rightarrow> (int \<times> 'q) option" and deq :: "'q \<Rightarrow> (int \<times> 'a option \<times> 'q) option"
    and abs :: "'q \<Rightarrow> 'a list" and invar :: "'q \<Rightarrow> bool" and cap :: nat
  assumes abs_cap: "invar q \<Longrightarrow> length (abs q) \<le> cap"
    and enq_room: "invar q \<Longrightarrow> length (abs q) < cap \<Longrightarrow>
      \<exists>q'. enq q x = Some (0, q') \<and> invar q' \<and> abs q' = abs q @ [x]"
    and enq_full: "invar q \<Longrightarrow> length (abs q) = cap \<Longrightarrow> enq q x = Some (-1, q)"
    and deq_some: "invar q \<Longrightarrow> abs q = x # xs \<Longrightarrow>
      \<exists>q'. deq q = Some (0, Some x, q') \<and> invar q' \<and> abs q' = xs"
    and deq_none: "invar q \<Longrightarrow> abs q = [] \<Longrightarrow> deq q = Some (-1, None, q)"
begin

lemma step_refines:
  assumes "invar q"
  shows "\<exists>q'. q_step enq deq c q = Some (fst (fifo_step cap c (abs q)), q') \<and> invar q' \<and>
           abs q' = snd (fifo_step cap c (abs q))"
proof (cases c)
  case (Enq x)
  show ?thesis
  proof (cases "length (abs q) < cap")
    case True
    then show ?thesis using enq_room [OF assms True, of x] Enq by auto
  next
    case False
    then have "length (abs q) = cap" using abs_cap [OF assms] by simp
    then show ?thesis using enq_full [OF assms] assms Enq by simp
  qed
next
  case Deq
  show ?thesis
  proof (cases "abs q")
    case Nil
    then show ?thesis using deq_none [OF assms] assms Deq by simp
  next
    case (Cons x xs)
    then show ?thesis using deq_some [OF assms Cons] Deq by auto
  qed
qed

text \<open>Any sequence of calls gives the results of the abstract FIFO and ends in step with it.\<close>

lemma run_refines:
  assumes "invar q"
  shows "\<exists>q'. q_run enq deq cs q = Some (fst (fifo_run cap cs (abs q)), q') \<and> invar q' \<and>
           abs q' = snd (fifo_run cap cs (abs q))"
  using assms
proof (induction cs arbitrary: q)
  case Nil
  then show ?case by simp
next
  case (Cons c cs)
  obtain q1 where 1: "q_step enq deq c q = Some (fst (fifo_step cap c (abs q)), q1)" "invar q1"
    "abs q1 = snd (fifo_step cap c (abs q))" using step_refines [OF Cons.prems] by blast
  show ?case using 1 Cons.IH [OF 1(2)] by (auto simp: case_prod_unfold Let_def)
qed

text \<open>No element is lost, duplicated or reordered.\<close>

lemma run_conserves:
  assumes "invar q" and "q_run enq deq cs q = Some (rs, q')"
  shows "abs q @ accepted cs rs = delivered rs @ abs q'"
  using assms
proof (induction cs arbitrary: q rs)
  case Nil
  then show ?case by (simp add: delivered_def)
next
  case (Cons c cs)
  obtain q1 where 1: "q_step enq deq c q = Some (fst (fifo_step cap c (abs q)), q1)" "invar q1"
    "abs q1 = snd (fifo_step cap c (abs q))" using step_refines [OF Cons.prems(1)] by blast
  obtain rs' where 2: "q_run enq deq cs q1 = Some (rs', q')" "rs = fst (fifo_step cap c (abs q)) # rs'"
    using Cons.prems(2) 1(1) by (auto simp: bind_eq_Some_conv)
  have "abs q1 @ accepted cs rs' = delivered rs' @ abs q'" by (rule Cons.IH [OF 1(2) 2(1)])
  then show ?case using 1(3) 2(2)
    by (cases "(cap, c, abs q)" rule: fifo_step.cases) (auto simp: delivered_def split: if_splits)
qed

text \<open>Filling the queue keeps the first elements that fit and drops the others.\<close>

lemma enq_each_fills:
  assumes "invar q"
  shows "\<exists>q'. enq_each enq xs q = Some q' \<and> invar q' \<and> abs q' = abs q @ take (cap - length (abs q)) xs"
  using assms
proof (induction xs arbitrary: q)
  case Nil
  then show ?case by simp
next
  case (Cons x xs)
  show ?case
  proof (cases "length (abs q) < cap")
    case True
    then obtain q1 where 1: "enq q x = Some (0, q1)" "invar q1" "abs q1 = abs q @ [x]"
      using enq_room [OF Cons.prems] by blast
    have "cap - length (abs q) = Suc (cap - Suc (length (abs q)))" using True by simp
    then show ?thesis using 1 Cons.IH [OF 1(2)] by simp
  next
    case False
    then have "length (abs q) = cap" using abs_cap [OF Cons.prems] by simp
    then show ?thesis using enq_full [OF Cons.prems] Cons.IH [OF Cons.prems] by simp
  qed
qed

end

subsection \<open>The ring\<close>

record queue =
  items :: "byte list"
  front :: int
  rear :: int
  count :: int
  spin :: bool

definition queue_init :: "queue \<Rightarrow> queue" where
  "queue_init q = q\<lparr>front := 0, rear := 0, count := 0, spin := False\<rparr>"

text \<open>
  A spinlock is, like a mutex, the flag whether it is held. The index \<open>rear + 1\<close> is not
  negative where the remainder is taken (the access before it has checked the bounds), so
  the remainder of C is \<open>mod\<close>.
\<close>

definition enqueue :: "queue \<Rightarrow> byte \<Rightarrow> (int \<times> queue) option" where
  "enqueue q item =
     do {
       l \<leftarrow> mutex_lock (spin q);
       (ret, q) \<leftarrow>
         (if count q = 64 then Some (-1, q)
          else do {
            its \<leftarrow> arr_set (items q) (rear q) item;
            Some (0, q\<lparr>items := its, rear := (rear q + 1) mod 64, count := count q + 1\<rparr>)
          });
       l' \<leftarrow> mutex_unlock l;
       Some (ret, q\<lparr>spin := l'\<rparr>)
     }"

text \<open>\<open>*item\<close> is written only when there is a character: the second component.\<close>

definition dequeue :: "queue \<Rightarrow> (int \<times> byte option \<times> queue) option" where
  "dequeue q =
     do {
       l \<leftarrow> mutex_lock (spin q);
       (ret, item, q) \<leftarrow>
         (if count q = 0 then Some (-1, None, q)
          else do {
            c \<leftarrow> arr_get (items q) (front q);
            Some (0, Some c, q\<lparr>front := (front q + 1) mod 64, count := count q - 1\<rparr>)
          });
       l' \<leftarrow> mutex_unlock l;
       Some (ret, item, q\<lparr>spin := l'\<rparr>)
     }"

text \<open>\<open>while (dequeue(q, &item) == 0) {}\<close>, and the reset behind it, outside the lock.\<close>

partial_function (option) drain :: "queue \<Rightarrow> queue option" where
  "drain q = Option.bind (dequeue q) (\<lambda>r. if fst r = 0 then drain (snd (snd r)) else Some (snd (snd r)))"

definition queue_empty :: "queue \<Rightarrow> queue option" where
  "queue_empty q = do { q' \<leftarrow> drain q; Some (q'\<lparr>front := 0, rear := 0, count := 0\<rparr>) }"

subsection \<open>Invariant and abstraction\<close>

definition queue_inv :: "queue \<Rightarrow> bool" where
  "queue_inv q \<longleftrightarrow>
     length (items q) = 64 \<and> \<not> spin q \<and> 0 \<le> front q \<and> front q < 64 \<and> 0 \<le> count q \<and>
     count q \<le> 64 \<and> rear q = (front q + count q) mod 64"

definition queue_list :: "queue \<Rightarrow> byte list" where
  "queue_list q = map (\<lambda>i. items q ! ((nat (front q) + i) mod 64)) [0..<nat (count q)]"

lemma queue_invD:
  "queue_inv q \<Longrightarrow> length (items q) = 64" "queue_inv q \<Longrightarrow> \<not> spin q"
  "queue_inv q \<Longrightarrow> 0 \<le> front q" "queue_inv q \<Longrightarrow> front q < 64"
  "queue_inv q \<Longrightarrow> 0 \<le> count q" "queue_inv q \<Longrightarrow> count q \<le> 64"
  "queue_inv q \<Longrightarrow> rear q = (front q + count q) mod 64"
  by (simp_all add: queue_inv_def)

lemma length_queue_list [simp]: "length (queue_list q) = nat (count q)"
  by (simp add: queue_list_def)

lemma queue_init_inv [inv_intros]: "length (items q) = 64 \<Longrightarrow> queue_inv (queue_init q)"
  by (simp add: queue_inv_def queue_init_def)

lemma queue_init_list: "queue_list (queue_init q) = []"
  by (simp add: queue_list_def queue_init_def)

lemma rear_slot:
  assumes "queue_inv q"
  shows "0 \<le> rear q" "nat (rear q) < 64" "nat (rear q) = (nat (front q) + nat (count q)) mod 64"
proof -
  have r: "rear q = (front q + count q) mod 64" using assms by (simp add: queue_invD)
  show "0 \<le> rear q" and "nat (rear q) < 64" using r by simp_all
  show "nat (rear q) = (nat (front q) + nat (count q)) mod 64"
    using assms r by (simp add: nat_mod_distrib nat_add_distrib queue_invD)
qed

text \<open>The slots of the stored characters differ from the slot behind them.\<close>

lemma ring_slots_differ:
  assumes "i < n" and "n < (64 :: nat)"
  shows "(f + i) mod 64 \<noteq> (f + n) mod 64"
proof
  assume "(f + i) mod 64 = (f + n) mod 64"
  then have "(64 :: nat) dvd (f + n) - (f + i)" using assms(1) by (intro mod_eq_dvd_iff_nat [THEN iffD1]) simp_all
  then show False using assms by (auto dest: dvd_imp_le)
qed

lemma spin_clear: "queue_inv q \<Longrightarrow> q\<lparr>spin := False\<rparr> = q"
  by (simp add: queue_invD)

lemma enqueue_ok:
  assumes "queue_inv q" and "length (queue_list q) < 64"
  shows "\<exists>q'. enqueue q x = Some (0, q') \<and> queue_inv q' \<and> queue_list q' = queue_list q @ [x]"
proof -
  let ?q = "q\<lparr>items := (items q)[nat (rear q) := x], rear := (rear q + 1) mod 64, count := count q + 1\<rparr>"
  have c: "count q < 64" and s: "\<not> spin q" using assms by (simp_all add: queue_invD)
  have "enqueue q x = Some (0, ?q)"
    using assms(1) c s rear_slot [OF assms(1)] by (simp add: enqueue_def mem_simps queue_invD(1))
  moreover have "queue_inv ?q"
    using assms(1) c by (simp add: queue_inv_def mod_add_left_eq add.assoc)
  moreover have "queue_list ?q = queue_list q @ [x]"
  proof -
    have n: "nat (count q + 1) = Suc (nat (count q))"
      using queue_invD(5) [OF assms(1)] by (simp add: nat_add_distrib)
    have r: "nat (rear q) < length (items q)"
      using rear_slot(2) [OF assms(1)] queue_invD(1) [OF assms(1)] by simp
    have ne: "nat (rear q) \<noteq> (nat (front q) + i) mod 64" if "i < nat (count q)" for i
    proof -
      have "nat (count q) < 64" using c by simp
      then show ?thesis
        using ring_slots_differ [OF that, of "nat (front q)"] rear_slot(3) [OF assms(1)] by metis
    qed
    have "map (\<lambda>i. (items q)[nat (rear q) := x] ! ((nat (front q) + i) mod 64)) [0..<nat (count q)]
        = map (\<lambda>i. items q ! ((nat (front q) + i) mod 64)) [0..<nat (count q)]"
      using ne by (intro map_cong refl nth_list_update_neq) simp
    then show ?thesis using n r by (simp add: queue_list_def rear_slot(3) [OF assms(1), symmetric])
  qed
  ultimately show ?thesis by blast
qed

lemma enqueue_full:
  assumes "queue_inv q" and "length (queue_list q) = 64"
  shows "enqueue q x = Some (-1, q)"
proof -
  have "count q = 64" and "\<not> spin q" using assms by (simp_all add: queue_invD)
  then show ?thesis using spin_clear [OF assms(1)] by (simp add: enqueue_def)
qed

lemma dequeue_ok:
  assumes "queue_inv q" and "queue_list q = x # xs"
  shows "\<exists>q'. dequeue q = Some (0, Some x, q') \<and> queue_inv q' \<and> queue_list q' = xs"
proof -
  let ?q = "q\<lparr>front := (front q + 1) mod 64, count := count q - 1\<rparr>"
  have "nat (count q) = Suc (length xs)" using assms(2) by (metis length_Cons length_queue_list)
  then have n: "nat (count q) = Suc (nat (count q - 1))" and c: "0 < count q" by simp_all
  have f: "nat (front q) < 64" using assms(1) queue_invD(3,4) [of q] by simp
  have "queue_list q = items q ! nat (front q) #
      map (\<lambda>i. items q ! ((nat (front q) + Suc i) mod 64)) [0..<nat (count q - 1)]"
    using f by (simp add: queue_list_def n map_upt_Suc del: upt_Suc)
  then have x: "items q ! nat (front q) = x"
    and xs: "map (\<lambda>i. items q ! ((nat (front q) + Suc i) mod 64)) [0..<nat (count q - 1)] = xs"
    using assms(2) by simp_all
  have "dequeue q = Some (0, Some x, ?q)"
    using queue_invD(1-3) [OF assms(1)] f c x by (simp add: dequeue_def mem_simps)
  moreover have "queue_inv ?q"
    using assms(1) c by (simp add: queue_inv_def mod_add_left_eq)
  moreover have "queue_list ?q = xs"
  proof -
    have "nat ((front q + 1) mod 64) = (nat (front q) + 1) mod 64"
      using assms(1) by (simp add: nat_mod_distrib nat_add_distrib queue_invD)
    then show ?thesis using xs by (simp add: queue_list_def mod_add_left_eq)
  qed
  ultimately show ?thesis by blast
qed

lemma dequeue_empty:
  assumes "queue_inv q" and "queue_list q = []"
  shows "dequeue q = Some (-1, None, q)"
proof -
  have "length (queue_list q) = 0" using assms(2) by simp
  then have "count q = 0" and "\<not> spin q"
    using queue_invD(2,5) [OF assms(1)] by simp_all
  then show ?thesis using spin_clear [OF assms(1)] by (simp add: dequeue_def)
qed

interpretation ring: bounded_queue enqueue dequeue queue_list queue_inv 64
proof unfold_locales
  fix q :: queue and x xs
  show "queue_inv q \<Longrightarrow> length (queue_list q) \<le> 64" using queue_invD(6) [of q] by simp
  show "queue_inv q \<Longrightarrow> length (queue_list q) < 64 \<Longrightarrow>
      \<exists>q'. enqueue q x = Some (0, q') \<and> queue_inv q' \<and> queue_list q' = queue_list q @ [x]"
    by (rule enqueue_ok)
  show "queue_inv q \<Longrightarrow> length (queue_list q) = 64 \<Longrightarrow> enqueue q x = Some (- 1, q)"
    by (rule enqueue_full)
  show "queue_inv q \<Longrightarrow> queue_list q = x # xs \<Longrightarrow>
      \<exists>q'. dequeue q = Some (0, Some x, q') \<and> queue_inv q' \<and> queue_list q' = xs"
    by (rule dequeue_ok)
  show "queue_inv q \<Longrightarrow> queue_list q = [] \<Longrightarrow> dequeue q = Some (- 1, None, q)"
    by (rule dequeue_empty)
qed

subsection \<open>Emptying\<close>

lemma drain_total: "queue_inv q \<Longrightarrow> \<exists>q'. drain q = Some q' \<and> queue_inv q' \<and> queue_list q' = []"
proof (induction "queue_list q" arbitrary: q)
  case Nil
  then show ?case using dequeue_empty [OF Nil.prems] by (simp add: drain.simps [of q])
next
  case (Cons x xs)
  obtain q1 where "dequeue q = Some (0, Some x, q1)" "queue_inv q1" "queue_list q1 = xs"
    using dequeue_ok [OF Cons.prems Cons.hyps(2) [symmetric]] by blast
  then show ?case using Cons.hyps(1) [of q1] by (simp add: drain.simps [of q])
qed

lemma queue_empty_run: "queue_inv q \<Longrightarrow> \<exists>q'. queue_empty q = Some q' \<and> queue_inv q' \<and> queue_list q' = []"
  using drain_total [of q] by (auto simp: queue_empty_def queue_inv_def queue_list_def)

subsection \<open>Properties\<close>

text \<open>C11: Any sequence of \<open>enqueue\<close> and \<open>dequeue\<close> calls returns exactly the codes and
  characters of a first-in first-out list that takes at most 64 characters, and ends in a ring
  that stands for that list. No access leaves the array and the lock is free after each call.\<close>

theorem queue_refines_fifo:
  assumes "queue_inv q"
  shows "\<exists>q'. q_run enqueue dequeue cs q = Some (fst (fifo_run 64 cs (queue_list q)), q') \<and> queue_inv q' \<and>
           queue_list q' = snd (fifo_run 64 cs (queue_list q))"
  by (rule ring.run_refines [OF assms])

definition queue_fresh :: queue where
  "queue_fresh = queue_init \<lparr>items = replicate 64 0, front = 7, rear = 7, count = 7, spin = True\<rparr>"

lemma queue_fresh: "queue_inv queue_fresh" "queue_list queue_fresh = []"
  by (simp_all add: queue_fresh_def queue_init_inv queue_init_list)

theorem queue_refines_fifo_witness:
  "\<exists>q'. q_run enqueue dequeue [Enq 1, Enq 2, Deq, Deq, Deq] queue_fresh
     = Some ([(0, None), (0, None), (0, Some 1), (0, Some 2), (-1, None)], q')"
  using queue_refines_fifo [OF queue_fresh(1), of "[Enq 1, Enq 2, Deq, Deq, Deq]"] by (auto simp: queue_fresh(2))

text \<open>Emptying the queue comes to an end from every state and leaves an empty, usable queue.\<close>

theorem queue_empty_terminates:
  assumes "queue_inv q"
  shows "\<exists>q'. queue_empty q = Some q' \<and> queue_inv q' \<and> queue_list q' = []"
  by (rule queue_empty_run [OF assms])

theorem queue_empty_terminates_witness:
  "\<exists>q'. queue_empty queue_fresh = Some q' \<and> queue_inv q' \<and> queue_list q' = []"
  by (rule queue_empty_terminates [OF queue_fresh(1)])

end
