(* ===== verification/KeypadDriver.thy ===== *)
theory KeypadDriver
  imports KeyQueue KernelResources
begin

section \<open>The keypad: keypad\_helper\_kernel.c, key\_kernel.c and key\_user.c\<close>

text \<open>
  \<open>002_char_keypad_driver\<close>: the helper module owns the queue \<open>keyQueue\<close> and exports three
  routines; the character driver serves one key per \<open>read\<close> and \<open>write\<close>; the user program
  writes, reads and clears. What the queue does enters only through the facts \<open>ring\<close> of its
  contract.
\<close>

subsection \<open>keypad\_helper\_kernel.c\<close>

definition keypad_inject_event :: "byte \<Rightarrow> queue \<Rightarrow> queue option" where
  "keypad_inject_event key q = do { (r, q') \<leftarrow> enqueue q key; Some q' }"

text \<open>\<open>*key\<close> keeps its value when there is no event: the first argument.\<close>

definition keypad_get_event :: "byte \<Rightarrow> queue \<Rightarrow> (byte \<times> queue) option" where
  "keypad_get_event key q =
     do { (r, x, q') \<leftarrow> dequeue q; Some (case x of None \<Rightarrow> key | Some c \<Rightarrow> c, q') }"

definition keypad_clear_queue :: "queue \<Rightarrow> queue option" where
  "keypad_clear_queue q = queue_empty q"

text \<open>\<open>for (i = 0; keymap[i]; i++)\<close>: a string without NUL is read past its end.\<close>

fun keymap_loop :: "byte list \<Rightarrow> queue \<Rightarrow> queue option" where
  "keymap_loop [] q = None"
| "keymap_loop (c # cs) q =
     (if c = 0 then Some q else do { (r, q') \<leftarrow> enqueue q c; keymap_loop cs q' })"

definition keypad_init :: "byte list option \<Rightarrow> queue \<Rightarrow> (queue \<times> ret) option" where
  "keypad_init keymap q =
     do {
       q' \<leftarrow> (case keymap of None \<Rightarrow> Some (queue_init q) | Some s \<Rightarrow> keymap_loop s (queue_init q));
       Some (q', Inr 0)
     }"

lemma keymap_loop_enq_each:
  "0 \<in> set s \<Longrightarrow> keymap_loop s q = enq_each enqueue (takeWhile (\<lambda>c. c \<noteq> 0) s) q"
  by (induction s arbitrary: q) (auto split: bind_splits)

lemma keypad_inject_run:
  assumes "queue_inv q"
  shows "\<exists>q'. keypad_inject_event x q = Some q' \<and> queue_inv q' \<and>
           queue_list q' = (if length (queue_list q) < 64 then queue_list q @ [x] else queue_list q)"
proof (cases "length (queue_list q) < 64")
  case True
  then show ?thesis using ring.enq_room [OF assms True, of x] by (auto simp: keypad_inject_event_def)
next
  case False
  then have "length (queue_list q) = 64" using ring.abs_cap [OF assms] by simp
  then show ?thesis using ring.enq_full [OF assms] assms by (simp add: keypad_inject_event_def)
qed

lemma keypad_get_run:
  assumes "queue_inv q"
  shows "\<exists>q'. keypad_get_event v q = Some (case queue_list q of [] \<Rightarrow> v | x # xs \<Rightarrow> x, q') \<and>
           queue_inv q' \<and> queue_list q' = tl (queue_list q)"
proof (cases "queue_list q")
  case Nil
  then show ?thesis using ring.deq_none [OF assms] assms by (simp add: keypad_get_event_def)
next
  case (Cons x xs)
  then show ?thesis using ring.deq_some [OF assms Cons] by (auto simp: keypad_get_event_def)
qed

lemma keypad_init_run:
  assumes "length (items q) = 64" and "0 \<in> set s"
  shows "\<exists>q'. keypad_init (Some s) q = Some (q', Inr 0) \<and> queue_inv q' \<and>
           queue_list q' = take 64 (takeWhile (\<lambda>c. c \<noteq> 0) s)"
  using ring.enq_each_fills [OF queue_init_inv [OF assms(1)], of "takeWhile (\<lambda>c. c \<noteq> 0) s"]
  by (auto simp: keypad_init_def keymap_loop_enq_each [OF assms(2)] queue_init_list)

subsection \<open>key\_kernel.c\<close>

text \<open>
  The local \<open>char val\<close> of \<open>device_read\<close> is not initialised: its indeterminate value is the
  argument \<open>val\<close>. Neither handler looks at \<open>len\<close> or at the offset. A result is the queue,
  the bytes delivered to the caller and the return value.
\<close>

definition device_read_key ::
  "uenv \<Rightarrow> byte \<Rightarrow> size_t \<Rightarrow> queue \<Rightarrow> (queue \<times> byte list \<times> ret) option" where
  "device_read_key u val len q =
     do {
       (val', q') \<leftarrow> keypad_get_event val q;
       if uctu u 1 \<noteq> 0 then Some (q', [], Inl EFAULT) else Some (q', [val'], Inr 1)
     }"

definition device_write_key :: "uenv \<Rightarrow> size_t \<Rightarrow> queue \<Rightarrow> (queue \<times> ret) option" where
  "device_write_key u len q =
     (case ucfu u 1 of
        (left, bs) \<Rightarrow>
          if left \<noteq> 0 then Some (q, Inl EFAULT)
          else do { val \<leftarrow> arr_get bs 0; q' \<leftarrow> keypad_inject_event val q; Some (q', Inr 1) })"

text \<open>Opening and closing only log.\<close>

definition device_open_key :: "queue \<Rightarrow> queue \<times> ret" where
  "device_open_key s = (s, Inr 0)"

definition device_release_key :: "queue \<Rightarrow> queue \<times> ret" where
  "device_release_key s = (s, Inr 0)"

text \<open>\<open>CLEAR_BUF\<close> is \<open>_IO('a', 0x11)\<close>; every other command is accepted and does nothing.\<close>

definition CLEAR_BUF :: cint where
  "CLEAR_BUF = 0x6111"

definition device_ioctl_key :: "cint \<Rightarrow> queue \<Rightarrow> (queue \<times> ret) option" where
  "device_ioctl_key cmd q =
     do { q' \<leftarrow> (if cmd = CLEAR_BUF then keypad_clear_queue q else Some q); Some (q', Inr 0) }"

text \<open>
  \<open>temp_init\<close> looks only at the result of \<open>alloc_chrdev_region\<close>, and returns 0 in either
  case; \<open>temp_exit\<close> gives back what a complete registration would have acquired.
\<close>

definition temp_init_key :: module_init where
  "temp_init_key api h =
     (let h = acquire api Class h in
      if api Region = None
      then Some (None, acquire api (Device 0) (acquire api (Cdev 0) (acquire api Region h)))
      else Some (None, h))"

definition temp_exit_key :: module_exit where
  "temp_exit_key h = release_list [Device 0, Class, Cdev 0, Region] h"

subsection \<open>key\_user.c\<close>

text \<open>
  The program writes one key, reads an \<open>int\<close> and prints it, then clears. \<open>fd\<close> is what
  \<open>open\<close> returned, \<open>myKey\<close> the indeterminate value of its local, \<open>val\<close> that of the driver's.
  The result is what was printed (\<open>None\<close>: nothing), the exit code and the queue.
\<close>

definition key_user_main ::
  "int \<Rightarrow> cint \<Rightarrow> byte \<Rightarrow> queue \<Rightarrow> (cint option \<times> int \<times> queue) option" where
  "key_user_main fd myKey val q =
     (if fd < 0 then Some (None, -1, q)
      else do {
        (q1, w) \<leftarrow> device_write_key (user_mem [97]) 1 q;
        (case w of
           Inl e \<Rightarrow> Some (None, 1, q1)
         | Inr n \<Rightarrow> do {
             (q2, out, r) \<leftarrow> device_read_key (user_mem []) val 4 q1;
             let myKey' = int_of_bytes (overlay 0 out (bytes_of_int myKey));
             (q3, c) \<leftarrow> device_ioctl_key CLEAR_BUF q2;
             (case c of Inl e \<Rightarrow> Some (Some myKey', -1, q3) | Inr z \<Rightarrow> Some (Some myKey', 0, q3))
           })
      })"

subsection \<open>What the calls of the driver do to the list of pending keys\<close>

datatype key_op = KRead uenv byte size_t | KWrite uenv size_t | KIoctl cint

fun key_step :: "key_op \<Rightarrow> queue \<Rightarrow> (queue \<times> byte list \<times> ret) option" where
  "key_step (KRead u val len) q = device_read_key u val len q"
| "key_step (KWrite u len) q = map_option (\<lambda>(q', r). (q', [], r)) (device_write_key u len q)"
| "key_step (KIoctl cmd) q = map_option (\<lambda>(q', r). (q', [], r)) (device_ioctl_key cmd q)"

fun key_run :: "key_op list \<Rightarrow> queue \<Rightarrow> (queue \<times> (byte list \<times> ret) list) option" where
  "key_run [] q = Some (q, [])"
| "key_run (c # cs) q =
     do { (q1, out, r) \<leftarrow> key_step c q; (q2, rs) \<leftarrow> key_run cs q1; Some (q2, (out, r) # rs) }"

text \<open>
  The specification over the pending keys. A read takes a key also when it cannot deliver
  it; a write into a full queue is reported as written.
\<close>

fun key_spec :: "key_op \<Rightarrow> byte list \<Rightarrow> byte list \<times> byte list \<times> ret" where
  "key_spec (KRead u val len) ks =
     (tl ks, if uctu u 1 = 0 then ([case ks of [] \<Rightarrow> val | k # _ \<Rightarrow> k], Inr 1) else ([], Inl EFAULT))"
| "key_spec (KWrite u len) ks =
     (if fst (ucfu u 1) \<noteq> 0 then (ks, [], Inl EFAULT)
      else (if length ks < 64 then ks @ [hd (snd (ucfu u 1))] else ks, [], Inr 1))"
| "key_spec (KIoctl cmd) ks = (if cmd = CLEAR_BUF then [] else ks, [], Inr 0)"

fun key_spec_run :: "key_op list \<Rightarrow> byte list \<Rightarrow> byte list \<times> (byte list \<times> ret) list" where
  "key_spec_run [] ks = (ks, [])"
| "key_spec_run (c # cs) ks =
     (let (ks1, o1) = key_spec c ks; (ks2, rs) = key_spec_run cs ks1 in (ks2, o1 # rs))"

fun key_op_ok :: "key_op \<Rightarrow> bool" where
  "key_op_ok (KRead u val len) = uaccess_ok u"
| "key_op_ok (KWrite u len) = uaccess_ok u"
| "key_op_ok (KIoctl cmd) = True"

lemma device_read_key_run:
  assumes "queue_inv q"
  shows "\<exists>q'. device_read_key u val len q = Some (q', snd (key_spec (KRead u val len) (queue_list q))) \<and>
           queue_inv q' \<and> queue_list q' = tl (queue_list q)"
  using keypad_get_run [OF assms, of val] by (auto simp: device_read_key_def)

lemma device_write_key_run:
  assumes "queue_inv q" and "uaccess_ok u"
  shows "\<exists>q'. device_write_key u len q = Some (q', snd (snd (key_spec (KWrite u len) (queue_list q)))) \<and>
           queue_inv q' \<and> queue_list q' = fst (key_spec (KWrite u len) (queue_list q))"
proof -
  obtain left bs where u: "ucfu u 1 = (left, bs)" by fastforce
  then have "length bs = 1" using uaccess_ok_length [OF assms(2), of 1] by simp
  then obtain v where "bs = [v]" by (auto simp: length_Suc_conv)
  then show ?thesis using u assms keypad_inject_run [OF assms(1), of v]
    by (auto simp: device_write_key_def arr_get_def)
qed

lemma device_ioctl_key_run:
  assumes "queue_inv q"
  shows "\<exists>q'. device_ioctl_key cmd q = Some (q', Inr 0) \<and> queue_inv q' \<and>
           queue_list q' = (if cmd = CLEAR_BUF then [] else queue_list q)"
  using queue_empty_run [OF assms] assms by (auto simp: device_ioctl_key_def keypad_clear_queue_def)

lemma key_step_refines:
  assumes "queue_inv q" and "key_op_ok c"
  shows "\<exists>q'. key_step c q = Some (q', snd (key_spec c (queue_list q))) \<and> queue_inv q' \<and>
           queue_list q' = fst (key_spec c (queue_list q))"
proof (cases c)
  case (KRead u val len)
  then show ?thesis using device_read_key_run [OF assms(1), of u val len] by auto
next
  case (KWrite u len)
  then show ?thesis using device_write_key_run [OF assms(1), of u len] assms(2) by auto
next
  case (KIoctl cmd)
  then show ?thesis using device_ioctl_key_run [OF assms(1), of cmd] by auto
qed

lemma key_run_refines_aux:
  "queue_inv q \<Longrightarrow> list_all key_op_ok cs \<Longrightarrow>
     \<exists>q'. key_run cs q = Some (q', snd (key_spec_run cs (queue_list q))) \<and> queue_inv q' \<and>
       queue_list q' = fst (key_spec_run cs (queue_list q))"
proof (induction cs arbitrary: q)
  case Nil
  then show ?case by simp
next
  case (Cons c cs)
  obtain q1 where 1: "key_step c q = Some (q1, snd (key_spec c (queue_list q)))" "queue_inv q1"
    "queue_list q1 = fst (key_spec c (queue_list q))"
    using key_step_refines [OF Cons.prems(1), of c] Cons.prems(2) by auto
  then show ?case using Cons.IH [OF 1(2)] Cons.prems(2) by (auto simp: case_prod_unfold Let_def)
qed

lemma key_user_main_run:
  assumes "queue_inv q" and "0 \<le> fd"
  shows "\<exists>q'. key_user_main fd myKey val q =
             Some (Some (int_of_bytes (overlay 0 [hd (queue_list q @ [97])] (bytes_of_int myKey))), 0, q') \<and>
           queue_inv q' \<and> queue_list q' = []"
proof -
  obtain q1 where 1: "device_write_key (user_mem [97]) 1 q = Some (q1, Inr 1)" "queue_inv q1"
    "queue_list q1 = (if length (queue_list q) < 64 then queue_list q @ [97] else queue_list q)"
    using device_write_key_run [OF assms(1), of "user_mem [97]" 1] by auto
  then obtain k ks where k: "queue_list q1 = k # ks" and hd: "k = hd (queue_list q @ [97])"
    by (cases "queue_list q") (auto split: if_splits)
  obtain q2 where 2: "device_read_key (user_mem []) val 4 q1 = Some (q2, [k], Inr 1)" "queue_inv q2"
    using device_read_key_run [OF 1(2), of "user_mem []" val 4] k by auto
  obtain q3 where "device_ioctl_key CLEAR_BUF q2 = Some (q3, Inr 0)" "queue_inv q3" "queue_list q3 = []"
    using device_ioctl_key_run [OF 2(2), of CLEAR_BUF] by auto
  then show ?thesis using assms(2) 1(1) 2(1) hd by (simp add: key_user_main_def)
qed

subsection \<open>Properties\<close>

text \<open>Loading the helper with a key map puts the first 64 characters of the string into the
  queue, in order, and drops the others without an error.\<close>

theorem keypad_init_fills:
  assumes "length (items q) = 64" and "0 \<in> set s"
  shows "\<exists>q'. keypad_init (Some s) q = Some (q', Inr 0) \<and> queue_inv q' \<and>
           queue_list q' = take 64 (takeWhile (\<lambda>c. c \<noteq> 0) s)"
  by (rule keypad_init_run [OF assms])

theorem keypad_init_fills_witness:
  "\<exists>q'. keypad_init (Some (replicate 70 65 @ [0])) queue_fresh = Some (q', Inr 0) \<and>
     queue_list q' = replicate 64 65"
  using keypad_init_fills [of queue_fresh "replicate 70 65 @ [0]"] queue_invD(1) [OF queue_fresh(1)]
  by (auto simp: takeWhile_append)

text \<open>C21: The character device refines a list of pending keys under any sequence of reads, writes
  and ioctls. The list also shows what is wrong with it: a read of the empty device succeeds and
  delivers the uninitialised byte \<open>val\<close>, a read whose copy fails loses its key, and a write into
  the full device is reported as written.\<close>

theorem keypad_refines:
  assumes "queue_inv q" and "list_all key_op_ok cs"
  shows "\<exists>q'. key_run cs q = Some (q', snd (key_spec_run cs (queue_list q))) \<and> queue_inv q' \<and>
       queue_list q' = fst (key_spec_run cs (queue_list q))"
  by (rule key_run_refines_aux [OF assms])

theorem keypad_refines_witness:
  "\<exists>q'. key_run [KWrite (user_mem [97]) 1, KRead (user_mem []) 238 1, KRead (user_mem []) 238 1] queue_fresh
     = Some (q', [([], Inr 1), ([97], Inr 1), ([238], Inr 1)])"
  using keypad_refines [OF queue_fresh(1),
      of "[KWrite (user_mem [97]) 1, KRead (user_mem []) 238 1, KRead (user_mem []) 238 1]"]
  by (auto simp: queue_fresh(2) Let_def)

text \<open>The test program ends with exit code 0 and an empty device. The number it prints is its
  own uninitialised \<open>int\<close> with only the lowest byte replaced by the key, which is the oldest one
  pending and its own \<open>a\<close> only if none was.\<close>

theorem key_user_prints:
  assumes "queue_inv q" and "0 \<le> fd"
  shows "\<exists>q'. key_user_main fd myKey val q =
             Some (Some (int_of_bytes (overlay 0 [hd (queue_list q @ [97])] (bytes_of_int myKey))), 0, q') \<and>
           queue_inv q' \<and> queue_list q' = []"
  by (rule key_user_main_run [OF assms])

theorem key_user_prints_witness:
  "\<exists>q'. key_user_main 3 0x11223344 0 queue_fresh
     = Some (Some (int_of_bytes (overlay 0 [97] (bytes_of_int 0x11223344))), 0, q')"
  using key_user_prints [OF queue_fresh(1), of 3 "0x11223344" 0] by (auto simp: queue_fresh(2))

text \<open>The keypad driver's \<open>temp_init\<close> always reports success. When one of the four
  registrations failed, unloading the module then gives back an object that is not held.\<close>

theorem keypad_unload_unsafe:
  "module_session temp_init_key temp_exit_key [Insmod api, Rmmod] (False, []) =
     (if api Class = None \<and> api Region = None \<and> api (Cdev 0) = None \<and> api (Device 0) = None then Some (False, []) else None)"
  by (auto simp: temp_init_key_def temp_exit_key_def acquire_def release_def Let_def)

end
