(* ===== verification/QueueConcurrency.thy ===== *)
theory QueueConcurrency
  imports KeyQueue Interleaving
begin

section \<open>The keypad queue used by several processes at the same time\<close>

text \<open>
  \<open>002_char_keypad_driver/queue_kernel.c\<close> again, now statement by statement: the driver's reads,
  writes and ioctls run in as many processes as have the device open. An assignment that reads
  and writes the same field is two steps. The spinlock serialises \<open>enqueue\<close> and \<open>dequeue\<close>, and the
  theorem is that what the calls return is what the routines of KeyQueue return when they run
  one after the other, in the order in which they gave the lock back. \<open>queue_empty\<close> writes the
  three indices outside the lock, and with it the ring breaks.

  \<open>holder\<close> (who has the lock), \<open>base\<close> (the ring when it was taken) and \<open>hist\<close> (the calls completed
  and what they returned) are not variables of the code.
\<close>

record cqueue =
  cq :: queue
  holder :: "nat option"
  base :: queue
  hist :: "(byte qop \<times> (int \<times> byte option)) list"

text \<open>
  The flag of a \<open>dequeue\<close> says that it was called by \<open>queue_empty\<close>; \<open>ZCount\<close>, \<open>ZRear\<close> and \<open>ZFront\<close>
  are the three stores of its last line, right to left.
\<close>

datatype qpc =
    ELock byte | ETest byte | EItem byte | ERear byte | ERearSet byte int | ECount byte
  | ECountSet byte int | EUnlock byte int
  | DLock bool | DTest bool | DItem bool | DFront bool byte | DFrontSet bool byte int
  | DCount bool byte | DCountSet bool byte int | DUnlock bool int "byte option"
  | ZCount | ZRear | ZFront

definition enqueue_stmts :: "nat \<Rightarrow> qpc \<Rightarrow> cqueue \<Rightarrow> (cqueue \<times> qpc option) progress" where
  "enqueue_stmts p pc s =
     (let q = cq s in
      case pc of
        ELock x \<Rightarrow>
          if spin q then Blocked
          else Next (s\<lparr>cq := q\<lparr>spin := True\<rparr>, holder := Some p, base := q\<rparr>, Some (ETest x))
      | ETest x \<Rightarrow> Next (s, Some (if count q = 64 then EUnlock x (-1) else EItem x))
      | EItem x \<Rightarrow>
          (case arr_set (items q) (rear q) x of
             None \<Rightarrow> Crash
           | Some its \<Rightarrow> Next (s\<lparr>cq := q\<lparr>items := its\<rparr>\<rparr>, Some (ERear x)))
      | ERear x \<Rightarrow> Next (s, Some (ERearSet x (rear q)))
      | ERearSet x r \<Rightarrow> Next (s\<lparr>cq := q\<lparr>rear := (r + 1) mod 64\<rparr>\<rparr>, Some (ECount x))
      | ECount x \<Rightarrow> Next (s, Some (ECountSet x (count q)))
      | ECountSet x n \<Rightarrow> Next (s\<lparr>cq := q\<lparr>count := n + 1\<rparr>\<rparr>, Some (EUnlock x 0))
      | EUnlock x ret \<Rightarrow>
          Next (s\<lparr>cq := q\<lparr>spin := False\<rparr>, holder := None, hist := hist s @ [(Enq x, (ret, None))]\<rparr>, None)
      | _ \<Rightarrow> Blocked)"

definition dequeue_stmts :: "nat \<Rightarrow> qpc \<Rightarrow> cqueue \<Rightarrow> (cqueue \<times> qpc option) progress" where
  "dequeue_stmts p pc s =
     (let q = cq s in
      case pc of
        DLock w \<Rightarrow>
          if spin q then Blocked
          else Next (s\<lparr>cq := q\<lparr>spin := True\<rparr>, holder := Some p, base := q\<rparr>, Some (DTest w))
      | DTest w \<Rightarrow> Next (s, Some (if count q = 0 then DUnlock w (-1) None else DItem w))
      | DItem w \<Rightarrow>
          (case arr_get (items q) (front q) of
             None \<Rightarrow> Crash
           | Some x \<Rightarrow> Next (s, Some (DFront w x)))
      | DFront w x \<Rightarrow> Next (s, Some (DFrontSet w x (front q)))
      | DFrontSet w x f \<Rightarrow> Next (s\<lparr>cq := q\<lparr>front := (f + 1) mod 64\<rparr>\<rparr>, Some (DCount w x))
      | DCount w x \<Rightarrow> Next (s, Some (DCountSet w x (count q)))
      | DCountSet w x n \<Rightarrow> Next (s\<lparr>cq := q\<lparr>count := n - 1\<rparr>\<rparr>, Some (DUnlock w 0 (Some x)))
      | DUnlock w ret v \<Rightarrow>
          Next (s\<lparr>cq := q\<lparr>spin := False\<rparr>, holder := None, hist := hist s @ [(Deq, (ret, v))]\<rparr>,
            if w then Some (if ret = 0 then DLock True else ZCount) else None)
      | _ \<Rightarrow> Blocked)"

text \<open>\<open>queue_empty\<close> begins with a \<open>dequeue\<close>.\<close>

definition empty_stmts :: "qpc \<Rightarrow> cqueue \<Rightarrow> (cqueue \<times> qpc option) progress" where
  "empty_stmts pc s =
     (let q = cq s in
      case pc of
        ZCount \<Rightarrow> Next (s\<lparr>cq := q\<lparr>count := 0\<rparr>\<rparr>, Some ZRear)
      | ZRear \<Rightarrow> Next (s\<lparr>cq := q\<lparr>rear := 0\<rparr>\<rparr>, Some ZFront)
      | ZFront \<Rightarrow> Next (s\<lparr>cq := q\<lparr>front := 0\<rparr>\<rparr>, None)
      | _ \<Rightarrow> Blocked)"

fun queue_stmts :: "(cqueue, qpc) stmts" where
  "queue_stmts p (ELock x) s = enqueue_stmts p (ELock x) s"
| "queue_stmts p (ETest x) s = enqueue_stmts p (ETest x) s"
| "queue_stmts p (EItem x) s = enqueue_stmts p (EItem x) s"
| "queue_stmts p (ERear x) s = enqueue_stmts p (ERear x) s"
| "queue_stmts p (ERearSet x r) s = enqueue_stmts p (ERearSet x r) s"
| "queue_stmts p (ECount x) s = enqueue_stmts p (ECount x) s"
| "queue_stmts p (ECountSet x n) s = enqueue_stmts p (ECountSet x n) s"
| "queue_stmts p (EUnlock x r) s = enqueue_stmts p (EUnlock x r) s"
| "queue_stmts p ZCount s = empty_stmts ZCount s"
| "queue_stmts p ZRear s = empty_stmts ZRear s"
| "queue_stmts p ZFront s = empty_stmts ZFront s"
| "queue_stmts p pc s = dequeue_stmts p pc s"

definition cqueue_start :: "queue \<Rightarrow> cqueue" where
  "cqueue_start q = \<lparr>cq = q, holder = None, base = q, hist = []\<rparr>"

text \<open>The entry points of \<open>enqueue\<close> and \<open>dequeue\<close>; \<open>queue_empty\<close> is a third one.\<close>

fun enq_deq :: "qpc \<Rightarrow> bool" where
  "enq_deq (ELock x) = True"
| "enq_deq (DLock w) = (\<not> w)"
| "enq_deq pc = False"

fun queue_calls :: "qpc \<Rightarrow> bool" where
  "queue_calls (ELock x) = True"
| "queue_calls (DLock w) = True"
| "queue_calls pc = False"

lemmas stmts_simps = enqueue_stmts_def dequeue_stmts_def empty_stmts_def Let_def

subsection \<open>Between lock and unlock\<close>

fun in_lock :: "qpc \<Rightarrow> bool" where
  "in_lock (ELock x) = False"
| "in_lock (DLock w) = False"
| "in_lock ZCount = False"
| "in_lock ZRear = False"
| "in_lock ZFront = False"
| "in_lock pc = True"

text \<open>How far the ring has got from the one the lock was taken with.\<close>

definition stored :: "queue \<Rightarrow> byte \<Rightarrow> queue \<Rightarrow> bool" where
  "stored b x q \<longleftrightarrow> \<not> spin b \<and> count b \<noteq> 64 \<and> arr_set (items b) (rear b) x = Some (items q) \<and>
     spin q \<and> front q = front b \<and> count q = count b"

definition fetched :: "queue \<Rightarrow> byte \<Rightarrow> queue \<Rightarrow> bool" where
  "fetched b x q \<longleftrightarrow> \<not> spin b \<and> count b \<noteq> 0 \<and> arr_get (items b) (front b) = Some x \<and>
     spin q \<and> items q = items b \<and> rear q = rear b \<and> count q = count b"

definition taken :: "queue \<Rightarrow> queue \<Rightarrow> bool" where
  "taken b q \<longleftrightarrow> \<not> spin b \<and> q = b\<lparr>spin := True\<rparr>"

fun mid :: "qpc \<Rightarrow> queue \<Rightarrow> queue \<Rightarrow> bool" where
  "mid (ETest x) b q = taken b q"
| "mid (EItem x) b q = (count b \<noteq> 64 \<and> taken b q)"
| "mid (ERear x) b q = (stored b x q \<and> rear q = rear b)"
| "mid (ERearSet x r) b q = (stored b x q \<and> rear q = rear b \<and> r = rear b)"
| "mid (ECount x) b q = (stored b x q \<and> rear q = (rear b + 1) mod 64)"
| "mid (ECountSet x n) b q = (stored b x q \<and> rear q = (rear b + 1) mod 64 \<and> n = count b)"
| "mid (EUnlock x r) b q = (spin q \<and> enqueue b x = Some (r, q\<lparr>spin := False\<rparr>))"
| "mid (DTest w) b q = taken b q"
| "mid (DItem w) b q = (count b \<noteq> 0 \<and> taken b q)"
| "mid (DFront w x) b q = (fetched b x q \<and> front q = front b)"
| "mid (DFrontSet w x f) b q = (fetched b x q \<and> front q = front b \<and> f = front b)"
| "mid (DCount w x) b q = (fetched b x q \<and> front q = (front b + 1) mod 64)"
| "mid (DCountSet w x n) b q = (fetched b x q \<and> front q = (front b + 1) mod 64 \<and> n = count b)"
| "mid (DUnlock w r v) b q = (spin q \<and> dequeue b = Some (r, v, q\<lparr>spin := False\<rparr>))"
| "mid pc b q = False"

text \<open>The calls of \<open>queue_empty\<close> do not occur.\<close>

fun no_clear :: "qpc \<Rightarrow> bool" where
  "no_clear ZCount = False"
| "no_clear ZRear = False"
| "no_clear ZFront = False"
| "no_clear (DLock w) = (\<not> w)"
| "no_clear (DTest w) = (\<not> w)"
| "no_clear (DItem w) = (\<not> w)"
| "no_clear (DFront w x) = (\<not> w)"
| "no_clear (DFrontSet w x f) = (\<not> w)"
| "no_clear (DCount w x) = (\<not> w)"
| "no_clear (DCountSet w x n) = (\<not> w)"
| "no_clear (DUnlock w r v) = (\<not> w)"
| "no_clear pc = True"

definition queue_at :: "nat \<Rightarrow> qpc \<Rightarrow> cqueue \<Rightarrow> bool" where
  "queue_at p pc s \<longleftrightarrow> no_clear pc \<and> (in_lock pc \<longrightarrow> holder s = Some p \<and> mid pc (base s) (cq s))"

text \<open>\<open>spec xs hs\<close>: the abstract queue after the completed calls. The ring that stands for it is the
  current one or, while the lock is held, \<open>base\<close>.\<close>

definition spec :: "byte list \<Rightarrow> (byte qop \<times> (int \<times> byte option)) list \<Rightarrow> byte list" where
  "spec xs hs = snd (fifo_run 64 (map fst hs) xs)"

definition fifo_hist :: "byte list \<Rightarrow> (byte qop \<times> (int \<times> byte option)) list \<Rightarrow> bool" where
  "fifo_hist xs hs \<longleftrightarrow> map snd hs = fst (fifo_run 64 (map fst hs) xs)"

definition cqueue_inv :: "byte list \<Rightarrow> cqueue \<Rightarrow> bool" where
  "cqueue_inv xs s \<longleftrightarrow> (spin (cq s) \<longleftrightarrow> holder s \<noteq> None) \<and> fifo_hist xs (hist s) \<and>
     (let b = (if holder s = None then cq s else base s) in queue_inv b \<and> queue_list b = spec xs (hist s))"

lemma fifo_run_snoc:
  "fifo_run cap (cs @ [c]) xs =
     (fst (fifo_run cap cs xs) @ [fst (fifo_step cap c (snd (fifo_run cap cs xs)))],
      snd (fifo_step cap c (snd (fifo_run cap cs xs))))"
  by (induction cs arbitrary: xs) (simp_all add: case_prod_unfold Let_def)

lemma hist_snoc:
  "fifo_hist xs hs \<Longrightarrow> fst (fifo_step 64 c (spec xs hs)) = r \<Longrightarrow> fifo_hist xs (hs @ [(c, r)])"
  "spec xs (hs @ [(c, r)]) = snd (fifo_step 64 c (spec xs hs))"
  by (simp_all add: fifo_hist_def spec_def fifo_run_snoc)

text \<open>Giving the lock back completes a call of the sequential routine.\<close>

lemma enq_completes:
  assumes "queue_inv b" and "enqueue b x = Some (r, q)"
  shows "queue_inv q \<and> queue_list q = snd (fifo_step 64 (Enq x) (queue_list b)) \<and> fst (fifo_step 64 (Enq x) (queue_list b)) = (r, None)"
  using ring.step_refines [OF assms(1), of "Enq x"] assms(2) by (auto simp del: fifo_step.simps)

lemma deq_completes:
  assumes "queue_inv b" and "dequeue b = Some (r, v, q)"
  shows "queue_inv q \<and> queue_list q = snd (fifo_step 64 Deq (queue_list b)) \<and> fst (fifo_step 64 Deq (queue_list b)) = (r, v)"
  using ring.step_refines [OF assms(1), of Deq] assms(2) by (auto simp del: fifo_step.simps)

lemma cqueue_inv_unlock:
  assumes "cqueue_inv xs s" and "holder s = Some p" and "queue_inv q"
    and "queue_list q = snd (fifo_step 64 c (queue_list (base s)))"
    and "fst (fifo_step 64 c (queue_list (base s))) = r" and "\<not> spin q"
  shows "cqueue_inv xs (s\<lparr>cq := q, holder := None, hist := hist s @ [(c, r)]\<rparr>)"
  using assms by (auto simp: cqueue_inv_def Let_def hist_snoc)

text \<open>A step inside the lock leaves everything but the ring as it is.\<close>

lemma cqueue_inv_inside: "cqueue_inv xs s \<Longrightarrow> holder s = Some p \<Longrightarrow> spin q \<Longrightarrow> cqueue_inv xs (s\<lparr>cq := q\<rparr>)"
  by (simp add: cqueue_inv_def)

lemma cqueue_inv_lock: "cqueue_inv xs s \<Longrightarrow> \<not> spin (cq s) \<Longrightarrow> cqueue_inv xs (s\<lparr>cq := cq s\<lparr>spin := True\<rparr>, holder := Some p, base := cq s\<rparr>)"
  by (auto simp: cqueue_inv_def Let_def)

text \<open>The statements inside the lock, one by one.\<close>

lemma mid_step:
  assumes "in_lock pc" and "no_clear pc" and "mid pc (base s) (cq s)" and "queue_inv (base s)"
    and "queue_stmts p pc s = Next (s', Some pc')"
  shows "mid pc' (base s') (cq s') \<and> in_lock pc' \<and> no_clear pc' \<and> spin (cq s') \<and> s' = s\<lparr>cq := cq s'\<rparr>"
proof (cases pc)
  case (ETest x)
  then show ?thesis using assms
    by (auto simp: stmts_simps taken_def enqueue_def)
next
  case (EItem x)
  then show ?thesis using assms
    by (auto simp: stmts_simps taken_def stored_def split: option.splits)
next
  case (ECountSet x n)
  then show ?thesis using assms
    by (auto simp: stmts_simps stored_def enqueue_def)
next
  case (DTest w)
  then show ?thesis using assms
    by (auto simp: stmts_simps taken_def dequeue_def)
next
  case (DItem w)
  then show ?thesis using assms
    by (auto simp: stmts_simps taken_def fetched_def split: option.splits)
next
  case (DCountSet w x n)
  then show ?thesis using assms
    by (auto simp: stmts_simps fetched_def dequeue_def)
qed (use assms in \<open>auto simp: stmts_simps stored_def fetched_def\<close>)

lemma base_inv: "cqueue_inv xs s \<Longrightarrow> holder s = Some p \<Longrightarrow> queue_inv (base s) \<and> spin (cq s)"
  by (simp add: cqueue_inv_def Let_def)

lemma lock_step:
  assumes "cqueue_inv xs s" and "\<not> in_lock pc" and "no_clear pc" and "queue_stmts p pc s = Next (s', pc')"
  shows "cqueue_inv xs s' \<and> (\<forall>q. pc' = Some q \<longrightarrow> queue_at p q s')"
  using assms by (cases pc) (auto simp: stmts_simps queue_at_def taken_def cqueue_inv_lock split: if_splits)

lemma unlock_step:
  assumes "cqueue_inv xs s" and "queue_at p pc s" and "in_lock pc" and "queue_stmts p pc s = Next (s', None)"
  shows "cqueue_inv xs s'"
proof -
  have h: "holder s = Some p" and m: "mid pc (base s) (cq s)" and n: "no_clear pc"
    using assms(2,3) by (simp_all add: queue_at_def)
  note b = base_inv [OF assms(1) h]
  show ?thesis
  proof (cases pc)
    case (EUnlock x r)
    then show ?thesis using assms(4) m cqueue_inv_unlock [OF assms(1) h] enq_completes [of "base s" x r] b
      by (auto simp: stmts_simps simp del: fifo_step.simps)
  next
    case (DUnlock w r v)
    then show ?thesis using assms(4) m cqueue_inv_unlock [OF assms(1) h] deq_completes [of "base s" r v] b n
      by (auto simp: stmts_simps simp del: fifo_step.simps)
  qed (use assms(3,4) in \<open>auto simp: stmts_simps split: if_splits option.splits\<close>)
qed

lemma queue_local:
  assumes "cqueue_inv xs s" and "queue_at p pc s" and "queue_stmts p pc s = Next (s', pc')"
  shows "cqueue_inv xs s' \<and> (\<forall>q. pc' = Some q \<longrightarrow> queue_at p q s')"
proof (cases "in_lock pc")
  case False
  then show ?thesis using lock_step [OF assms(1)] assms(2,3) by (simp add: queue_at_def)
next
  case True
  then have h: "holder s = Some p" and m: "mid pc (base s) (cq s)" and n: "no_clear pc"
    using assms(2) by (simp_all add: queue_at_def)
  show ?thesis
  proof (cases pc')
    case None
    then show ?thesis using unlock_step [OF assms(1,2) True] assms(3) by simp
  next
    case (Some q)
    note ms = mid_step [OF True n m, of p s' q]
    have st: "mid q (base s') (cq s') \<and> in_lock q \<and> no_clear q \<and> spin (cq s') \<and> s' = s\<lparr>cq := cq s'\<rparr>"
      using ms base_inv [OF assms(1) h] assms(3) Some by blast
    then have "cqueue_inv xs (s\<lparr>cq := cq s'\<rparr>)" using cqueue_inv_inside [OF assms(1) h] by blast
    moreover have "holder s' = Some p" using st h by (metis cqueue.select_convs(2) cqueue.surjective cqueue.update_convs(1))
    ultimately show ?thesis using st Some by (auto simp: queue_at_def)
  qed
qed

lemma queue_interference:
  assumes "cqueue_inv xs s" and "queue_at p pc s" and "queue_at p' q s" and "p \<noteq> p'"
    and "queue_stmts p pc s = Next (s', pc')"
  shows "queue_at p' q s'"
proof (cases "in_lock q")
  case True
  then have h: "holder s = Some p'" and "spin (cq s)"
    using assms(1,3) base_inv [OF assms(1)] by (auto simp: queue_at_def)
  then have "queue_stmts p pc s = Blocked" if "\<not> in_lock pc" "no_clear pc"
    using that by (cases pc) (auto simp: stmts_simps)
  then show ?thesis using assms(2,4,5) h by (auto simp: queue_at_def)
qed (use assms(3) in \<open>auto simp: queue_at_def\<close>)

lemma queue_safe:
  assumes "cqueue_inv xs s" and "queue_at p pc s"
  shows "queue_stmts p pc s \<noteq> Crash"
proof (cases "in_lock pc")
  case True
  then have h: "queue_inv (base s)" and m: "mid pc (base s) (cq s)"
    using assms base_inv [OF assms(1)] by (auto simp: queue_at_def)
  have "arr_set (items (base s)) (rear (base s)) x \<noteq> None" for x
    using rear_slot [OF h] queue_invD(1) [OF h] by (simp add: mem_simps)
  moreover have "arr_get (items (base s)) (front (base s)) \<noteq> None"
    using queue_invD(1,3,4) [OF h] by (simp add: mem_simps)
  ultimately show ?thesis using m
    by (cases pc) (auto simp: stmts_simps taken_def split: if_splits option.splits)
qed (cases pc; auto simp: stmts_simps)

interpretation atomic_queue: owicki_gries queue_stmts enq_deq "cqueue_inv xs" queue_at for xs
proof unfold_locales
  fix pc s p p' q s' pc'
  show "enq_deq pc \<Longrightarrow> cqueue_inv xs s \<Longrightarrow> queue_at p pc s"
    by (cases pc) (simp_all add: queue_at_def)
  show "cqueue_inv xs s \<Longrightarrow> queue_at p pc s \<Longrightarrow> queue_stmts p pc s = Next (s', pc') \<Longrightarrow>
      cqueue_inv xs s' \<and> (\<forall>q. pc' = Some q \<longrightarrow> queue_at p q s')" by (rule queue_local)
  show "cqueue_inv xs s \<Longrightarrow> queue_at p pc s \<Longrightarrow> queue_at p' q s \<Longrightarrow> p \<noteq> p' \<Longrightarrow>
      queue_stmts p pc s = Next (s', pc') \<Longrightarrow> queue_at p' q s'" by (rule queue_interference)
  show "cqueue_inv xs s \<Longrightarrow> queue_at p pc s \<Longrightarrow> queue_stmts p pc s \<noteq> Crash" by (rule queue_safe)
qed

subsection \<open>With queue\_empty: the accesses stay inside the ring\<close>

definition ring_bounds :: "cqueue \<Rightarrow> bool" where
  "ring_bounds s \<longleftrightarrow> length (items (cq s)) = 64 \<and> 0 \<le> front (cq s) \<and> front (cq s) < 64 \<and>
     0 \<le> rear (cq s) \<and> rear (cq s) < 64 \<and> (spin (cq s) \<longleftrightarrow> holder s \<noteq> None)"

definition locked_at :: "nat \<Rightarrow> qpc \<Rightarrow> cqueue \<Rightarrow> bool" where
  "locked_at p pc s \<longleftrightarrow> (in_lock pc \<longrightarrow> holder s = Some p)"

lemma bounds_local:
  assumes "ring_bounds s" and "locked_at p pc s" and "queue_stmts p pc s = Next (s', pc')"
  shows "ring_bounds s' \<and> (\<forall>q. pc' = Some q \<longrightarrow> locked_at p q s')"
  using assms
  by (cases pc) (auto simp: stmts_simps ring_bounds_def locked_at_def arr_set_def split: if_splits option.splits)

lemma bounds_interference:
  assumes "ring_bounds s" and "locked_at p pc s" and "locked_at p' q s" and "p \<noteq> p'"
    and "queue_stmts p pc s = Next (s', pc')"
  shows "locked_at p' q s'"
  using assms
  by (cases pc) (auto simp: stmts_simps ring_bounds_def locked_at_def split: if_splits option.splits)

interpretation bounded_ring: owicki_gries queue_stmts queue_calls ring_bounds locked_at
proof unfold_locales
  fix pc s p p' q s' pc'
  show "queue_calls pc \<Longrightarrow> ring_bounds s \<Longrightarrow> locked_at p pc s"
    by (cases pc) (simp_all add: locked_at_def)
  show "ring_bounds s \<Longrightarrow> locked_at p pc s \<Longrightarrow> queue_stmts p pc s = Next (s', pc') \<Longrightarrow>
      ring_bounds s' \<and> (\<forall>q. pc' = Some q \<longrightarrow> locked_at p q s')" by (rule bounds_local)
  show "ring_bounds s \<Longrightarrow> locked_at p pc s \<Longrightarrow> locked_at p' q s \<Longrightarrow> p \<noteq> p' \<Longrightarrow>
      queue_stmts p pc s = Next (s', pc') \<Longrightarrow> locked_at p' q s'" by (rule bounds_interference)
  show "ring_bounds s \<Longrightarrow> locked_at p pc s \<Longrightarrow> queue_stmts p pc s \<noteq> Crash"
    by (cases pc) (auto simp: stmts_simps ring_bounds_def arr_set_def arr_get_def)
qed

lemma start_inv: "queue_inv q \<Longrightarrow> cqueue_inv (queue_list q) (cqueue_start q)"
  by (simp add: cqueue_inv_def cqueue_start_def fifo_hist_def spec_def queue_invD(2))

lemma start_bounds: "queue_inv q \<Longrightarrow> ring_bounds (cqueue_start q)"
  by (simp add: ring_bounds_def cqueue_start_def queue_invD)

subsection \<open>Deadlock\<close>

lemma holder_runs:
  assumes "conc_reach queue_stmts queue_calls (cqueue_start q) c" and "queue_inv q" and "holder (sh c) = Some p"
  shows "\<exists>pc. pcs c p = Some pc \<and> in_lock pc"
  using assms(1,3)
proof (induction arbitrary: p rule: conc_reach.induct)
  case start
  then show ?case by (simp add: conc_start_def cqueue_start_def)
next
  case (call c pc p0 c')
  then show ?case by (auto split: if_splits)
next
  case (run c p0 c')
  then obtain pc s pc' where r: "pcs c p0 = Some pc" "queue_stmts p0 pc (sh c) = Next (s, pc')" "c' = \<lparr>sh = s, pcs = (pcs c)(p0 := pc')\<rparr>"
    unfolding run_next by blast
  have i: "ring_bounds (sh c)" "locked_at p0 pc (sh c)"
    using bounded_ring.reach_inv [OF run.hyps(1) start_bounds [OF assms(2)]] r(1) by blast+
  have "(\<exists>q. pc' = Some q \<and> in_lock q) \<and> p = p0 \<or> holder (sh c) = Some p \<and> (p = p0 \<longrightarrow> \<not> in_lock pc)"
    using r(2) run.prems i by (cases pc) (auto simp: r(3) stmts_simps ring_bounds_def locked_at_def split: if_splits option.splits)
  then show ?case using run.IH [of p] r(1) by (auto simp: r(3))
qed

lemma in_lock_runs: "in_lock pc \<Longrightarrow> queue_stmts p pc s \<noteq> Blocked"
  by (cases pc) (auto simp: stmts_simps split: option.splits)

lemma free_runs: "\<not> spin (cq s) \<Longrightarrow> queue_stmts p pc s \<noteq> Blocked"
  by (cases pc) (auto simp: stmts_simps split: option.splits)

text \<open>As long as a call is under way, the process with the lock, or any one if it is free, can run.\<close>

lemma queue_no_deadlock:
  assumes "conc_reach queue_stmts queue_calls (cqueue_start q) c" and "queue_inv q" and "pcs c p \<noteq> None"
  shows "\<exists>p' c'. act queue_stmts (Run p') c = Next c'"
proof -
  have i: "ring_bounds (sh c)" and nc: "act queue_stmts a c \<noteq> Crash" for a
    using bounded_ring.reach_inv [OF assms(1) start_bounds [OF assms(2)]]
      bounded_ring.reach_safe [OF assms(1) start_bounds [OF assms(2)]] by blast+
  obtain p' pc where "pcs c p' = Some pc" "queue_stmts p' pc (sh c) \<noteq> Blocked"
  proof (cases "holder (sh c)")
    case None
    then show ?thesis using that assms(3) free_runs i by (auto simp: ring_bounds_def)
  next
    case (Some p')
    then show ?thesis using that holder_runs [OF assms(1,2) Some] in_lock_runs by blast
  qed
  then show ?thesis using nc [of "Run p'"]
    by (intro exI [of _ p']) (cases "queue_stmts p' pc (sh c)"; auto)
qed

subsection \<open>A count below zero\<close>

lemma dequeue_negative:
  assumes "length (items q) = 64" and "0 \<le> front q" and "front q < 64" and "\<not> spin q" and "count q < 0"
  shows "dequeue q = Some (0, Some (items q ! nat (front q)), q\<lparr>front := (front q + 1) mod 64, count := count q - 1\<rparr>)"
  using assms by (cases q) (simp add: dequeue_def mem_simps)

lemma dequeues_negative:
  assumes "length (items q) = 64" and "0 \<le> front q" and "front q < 64" and "\<not> spin q" and "count q < 0"
  shows "\<exists>rs q'. q_run enqueue dequeue (replicate n Deq) q = Some (rs, q') \<and> map fst rs = replicate n 0"
  using assms
proof (induction n arbitrary: q)
  case 0
  then show ?case by simp
next
  case (Suc n)
  let ?q = "q\<lparr>front := (front q + 1) mod 64, count := count q - 1\<rparr>"
  obtain rs q' where "q_run enqueue dequeue (replicate n Deq) ?q = Some (rs, q')" "map fst rs = replicate n 0"
    using Suc.IH [of ?q] Suc.prems by auto
  then show ?case using dequeue_negative [OF Suc.prems] by simp
qed

subsection \<open>Properties\<close>

text \<open>C7: The queue is linearizable. However many processes call \<open>enqueue\<close> and \<open>dequeue\<close>, and however
  their statements interleave: the completed calls, in the order in which they gave the lock
  back, returned exactly what a first-in first-out list of at most 64 characters returns for
  them one after the other; whenever the lock is free the ring stands for that list; no access
  leaves the array.\<close>

theorem queue_linearizable:
  assumes "queue_inv q" and "conc_reach queue_stmts enq_deq (cqueue_start q) c"
  shows "map snd (hist (sh c)) = fst (fifo_run 64 (map fst (hist (sh c))) (queue_list q)) \<and>
     (\<not> spin (cq (sh c)) \<longrightarrow> queue_inv (cq (sh c)) \<and>
        queue_list (cq (sh c)) = snd (fifo_run 64 (map fst (hist (sh c))) (queue_list q))) \<and>
     act queue_stmts a c \<noteq> Crash"
  using atomic_queue.reach_inv [OF assms(2) start_inv [OF assms(1)]]
    atomic_queue.reach_safe [OF assms(2) start_inv [OF assms(1)], of a]
  by (auto simp: cqueue_inv_def fifo_hist_def spec_def Let_def)

text \<open>Two processes overlap: the second waits for the lock and finds the key of the first.\<close>

definition overlap :: "qpc action list" where
  "overlap = [Call 0 (ELock 97), Run 0, Call 1 (DLock False)] @ replicate 7 (Run 0) @ replicate 8 (Run 1)"

lemma overlap_run:
  "\<exists>c. schedule queue_stmts overlap (conc_start (cqueue_start queue_fresh)) = Some c \<and>
     hist (sh c) = [(Enq 97, (0, None)), (Deq, (0, Some 97))] \<and> \<not> spin (cq (sh c))"
  by (simp add: overlap_def replicate_numeral conc_start_def cqueue_start_def queue_fresh_def queue_init_def stmts_simps
      arr_set_def arr_get_def)

theorem queue_linearizable_witness:
  "\<exists>c. conc_reach queue_stmts enq_deq (cqueue_start queue_fresh) c \<and> length (hist (sh c)) = 2 \<and>
     queue_list (cq (sh c)) = []"
proof -
  obtain c where c: "schedule queue_stmts overlap (conc_start (cqueue_start queue_fresh)) = Some c"
    "hist (sh c) = [(Enq 97, (0, None)), (Deq, (0, Some 97))]" "\<not> spin (cq (sh c))" using overlap_run by blast
  have "list_all (call_ok enq_deq) overlap" by (simp add: overlap_def replicate_numeral)
  then have r: "conc_reach queue_stmts enq_deq (cqueue_start queue_fresh) c" by (rule schedule_from_start [OF c(1)])
  have "queue_list (cq (sh c)) = []"
    using queue_linearizable [OF queue_fresh(1) r] c(2,3) queue_fresh(2) by simp
  then show ?thesis using r c(2) by auto
qed

text \<open>C28: Also with \<open>queue_empty\<close> among the calls no access leaves the array, never are two processes
  between lock and unlock, and as long as a call is under way some process can run.\<close>

theorem queue_calls_safe:
  assumes "queue_inv q" and "conc_reach queue_stmts queue_calls (cqueue_start q) c"
  shows "act queue_stmts a c \<noteq> Crash \<and>
     \<not> (p \<noteq> p' \<and> pcs c p = Some pc \<and> pcs c p' = Some pc' \<and> in_lock pc \<and> in_lock pc') \<and>
     (pcs c p \<noteq> None \<longrightarrow> (\<exists>i c'. act queue_stmts (Run i) c = Next c'))"
proof (intro conjI notI impI)
  show "act queue_stmts a c = Crash \<Longrightarrow> False"
    using bounded_ring.reach_safe [OF assms(2) start_bounds [OF assms(1)]] by blast
  show "p \<noteq> p' \<and> pcs c p = Some pc \<and> pcs c p' = Some pc' \<and> in_lock pc \<and> in_lock pc' \<Longrightarrow> False"
    using bounded_ring.reach_inv [OF assms(2) start_bounds [OF assms(1)]] by (metis locked_at_def option.inject)
  show "pcs c p \<noteq> None \<Longrightarrow> \<exists>i c'. act queue_stmts (Run i) c = Next c'"
    by (rule queue_no_deadlock [OF assms(2,1)])
qed

theorem queue_calls_safe_witness:
  "\<exists>c. conc_reach queue_stmts queue_calls (cqueue_start queue_fresh) c \<and> pcs c 1 = Some (DLock True) \<and>
     pcs c 0 = Some (ETest 97) \<and> (\<exists>i c'. act queue_stmts (Run i) c = Next c')"
proof -
  let ?as = "[Call 0 (ELock 97), Run 0, Call 1 (DLock True)]"
  have "\<exists>c. schedule queue_stmts ?as (conc_start (cqueue_start queue_fresh)) = Some c \<and>
      pcs c 1 = Some (DLock True) \<and> pcs c 0 = Some (ETest 97)"
    by (simp add: conc_start_def cqueue_start_def queue_fresh_def queue_init_def stmts_simps)
  then obtain c where c: "schedule queue_stmts ?as (conc_start (cqueue_start queue_fresh)) = Some c"
    "pcs c 1 = Some (DLock True)" "pcs c 0 = Some (ETest 97)" by blast
  have r: "conc_reach queue_stmts queue_calls (cqueue_start queue_fresh) c"
    by (rule schedule_from_start [OF c(1)]) simp
  then show ?thesis using c(2,3) queue_calls_safe [OF queue_fresh(1) r, of _ 1] by auto
qed

text \<open>Two schedules with a call of \<open>queue_empty\<close> by process 0, whose stores come between the halves of an
  \<open>enqueue\<close>, or between the load and the store of a \<open>dequeue\<close>.\<close>

definition clear_race :: "qpc action list" where
  "clear_race =
     Call 0 (DLock True) # replicate 3 (Run 0) @
     Call 1 (ELock 65) # replicate 5 (Run 1) @ replicate 3 (Run 0) @ replicate 3 (Run 1) @
     Call 2 (DLock False) # replicate 8 (Run 2) @ Call 3 (ELock 66) # replicate 8 (Run 3) @
     Call 4 (DLock False) # replicate 8 (Run 4)"

definition count_race :: "qpc action list" where
  "count_race =
     Call 0 (DLock True) # replicate 3 (Run 0) @ Call 1 (ELock 65) # replicate 8 (Run 1) @
     Call 2 (DLock False) # replicate 5 (Run 2) @ replicate 3 (Run 0) @ replicate 3 (Run 2)"

lemma clear_race_run:
  "\<exists>c. schedule queue_stmts clear_race (conc_start (cqueue_start queue_fresh)) = Some c \<and>
     hist (sh c) = [(Deq, (-1, None)), (Enq 65, (0, None)), (Deq, (0, Some 65)), (Enq 66, (0, None)), (Deq, (0, Some 0))]"
  by (simp add: clear_race_def replicate_numeral conc_start_def cqueue_start_def queue_fresh_def queue_init_def stmts_simps
      arr_set_def arr_get_def)

lemma count_race_run:
  "\<exists>c. schedule queue_stmts count_race (conc_start (cqueue_start queue_fresh)) = Some c \<and>
     (\<forall>p. pcs c p = None) \<and> count (cq (sh c)) = - 1 \<and> \<not> spin (cq (sh c))"
  by (simp add: count_race_def replicate_numeral conc_start_def cqueue_start_def queue_fresh_def queue_init_def stmts_simps
      arr_set_def arr_get_def)

lemma race_calls: "list_all (call_ok queue_calls) clear_race" "list_all (call_ok queue_calls) count_race"
  by (simp_all add: clear_race_def count_race_def replicate_numeral)

text \<open>With the count at -1 and an empty ring, a key that is put in brings the count to 0: it is not
  delivered.\<close>

lemma enqueue_negative:
  assumes "length (items q) = 64" and "0 \<le> rear q" and "rear q < 64" and "\<not> spin q" and "count q = - 1"
  shows "q_run enqueue dequeue [Enq x, Deq] q =
    Some ([(0, None), (- 1, None)], q\<lparr>items := (items q)[nat (rear q) := x], rear := (rear q + 1) mod 64, count := 0\<rparr>)"
  using assms by (cases q) (simp add: enqueue_def dequeue_def mem_simps)

lemma count_race_reach:
  "\<exists>c rs q'. conc_reach queue_stmts queue_calls (cqueue_start queue_fresh) c \<and> (\<forall>p. pcs c p = None) \<and>
     count (cq (sh c)) = - 1 \<and>
     q_run enqueue dequeue (replicate n Deq) (cq (sh c)) = Some (rs, q') \<and> map fst rs = replicate n 0 \<and>
     (\<forall>x. \<exists>q''. q_run enqueue dequeue [Enq x, Deq] (cq (sh c)) = Some ([(0, None), (- 1, None)], q''))"
proof -
  obtain c where c: "schedule queue_stmts count_race (conc_start (cqueue_start queue_fresh)) = Some c"
    "\<forall>p. pcs c p = None" "count (cq (sh c)) = - 1" "\<not> spin (cq (sh c))" using count_race_run by blast
  have r: "conc_reach queue_stmts queue_calls (cqueue_start queue_fresh) c"
    by (rule schedule_from_start [OF c(1) race_calls(2)])
  then have b: "ring_bounds (sh c)" using bounded_ring.reach_inv start_bounds [OF queue_fresh(1)] by blast
  then obtain rs q' where "q_run enqueue dequeue (replicate n Deq) (cq (sh c)) = Some (rs, q')"
    "map fst rs = replicate n 0"
    using dequeues_negative [of "cq (sh c)" n] c(3,4) unfolding ring_bounds_def by auto
  moreover have "\<exists>q''. q_run enqueue dequeue [Enq x, Deq] (cq (sh c)) = Some ([(0, None), (- 1, None)], q'')" for x
    using enqueue_negative [of "cq (sh c)" x] b c(3,4) unfolding ring_bounds_def by blast
  ultimately show ?thesis using r c(2,3) by blast
qed

lemma clear_race_reach:
  "\<exists>c. conc_reach queue_stmts queue_calls (cqueue_start queue_fresh) c \<and>
     hist (sh c) = [(Deq, (-1, None)), (Enq 65, (0, None)), (Deq, (0, Some 65)), (Enq 66, (0, None)), (Deq, (0, Some 0))]"
  (is "\<exists>c. ?R c \<and> ?H c")
proof -
  obtain c where c: "schedule queue_stmts clear_race (conc_start (cqueue_start queue_fresh)) = Some c" "?H c"
    using clear_race_run by blast
  have "?R c" by (rule schedule_from_start [OF c(1) race_calls(1)])
  with c(2) show ?thesis by (intro exI conjI)
qed

text \<open>C29: The stores of \<open>queue_empty\<close> behind the lock break the queue. Between the two halves of an
  \<open>enqueue\<close> they leave indices that do not fit: when all calls have returned, a key is put in, and
  the next read delivers a byte that nobody put in. Between the load and the store of a
  \<open>dequeue\<close> they leave the count -1. From that state, with no call under way, the calls one after
  the other go wrong in two ways: as long as nobody puts a key in, every \<open>dequeue\<close> of the empty queue
  succeeds, for more than two thousand million calls; and a key that is put in first is not
  delivered by the \<open>dequeue\<close> that follows, since the \<open>enqueue\<close> brings the count back to 0 only.\<close>

theorem queue_clear_races:
  "(\<exists>c. conc_reach queue_stmts queue_calls (cqueue_start queue_fresh) c \<and>
     hist (sh c) = [(Deq, (-1, None)), (Enq 65, (0, None)), (Deq, (0, Some 65)), (Enq 66, (0, None)), (Deq, (0, Some 0))]) \<and>
   (\<exists>c rs q'. conc_reach queue_stmts queue_calls (cqueue_start queue_fresh) c \<and> (\<forall>p. pcs c p = None) \<and>
     count (cq (sh c)) = - 1 \<and>
     q_run enqueue dequeue (replicate (2 ^ 31 - 1) Deq) (cq (sh c)) = Some (rs, q') \<and>
     map fst rs = replicate (2 ^ 31 - 1) 0 \<and>
     (\<forall>x. \<exists>q''. q_run enqueue dequeue [Enq x, Deq] (cq (sh c)) = Some ([(0, None), (- 1, None)], q'')))"
  by (intro conjI clear_race_reach count_race_reach)

end
