(* ===== verification/CText.thy ===== *)
theory CText
  imports LddPrelude
begin

section \<open>Text of the C library: formatted output and strings\<close>

text \<open>
  The pieces of \<open>sprintf\<close> and \<open>string.h\<close> the attribute handlers use, on character codes:
  \<open>%.*s\<close>, \<open>%zu\<close>, \<open>%d\<close>, \<open>strncpy\<close>, and the numbers \<open>strtoul\<close> and \<open>strtol\<close> read.
\<close>

text \<open>\<open>%.*s\<close> prints up to the precision, and stops at a NUL. \<open>%zu\<close> prints decimal digits.\<close>

definition fmt_prec_s :: "int \<Rightarrow> byte list \<Rightarrow> byte list" where
  "fmt_prec_s prec s = takeWhile (\<lambda>b. b \<noteq> 0) (if prec < 0 then s else take (nat prec) s)"

function fmt_zu :: "nat \<Rightarrow> byte list" where
  "fmt_zu n = (if n < 10 then [word_of_nat (48 + n)] else fmt_zu (n div 10) @ [word_of_nat (48 + n mod 10)])"
  by pat_completeness auto
termination
  by (relation "measure id") auto

declare fmt_zu.simps [simp del]

definition fmt_d :: "cint \<Rightarrow> byte list" where
  "fmt_d w = (if sint w < 0 then 45 # fmt_zu (nat (- sint w)) else fmt_zu (nat (sint w)))"

text \<open>The characters of a format string.\<close>

definition ascii :: "string \<Rightarrow> byte list" where
  "ascii s = map of_char s"

lemma length_ascii [simp]: "length (ascii s) = length s"
  by (simp add: ascii_def)

text \<open>\<open>strncpy(d, s, n)\<close> puts \<open>n\<close> characters at \<open>d\<close>: the string, then NULs.\<close>

definition strncpy :: "byte list \<Rightarrow> nat \<Rightarrow> byte list" where
  "strncpy s n = (let t = takeWhile (\<lambda>b. b \<noteq> 0) (take n s) in t @ replicate (n - length t) 0)"

lemma length_strncpy [simp]: "length (strncpy s n) = n"
proof -
  have "length (takeWhile (\<lambda>b. b \<noteq> 0) (take n s)) \<le> n"
    by (rule order_trans [OF length_takeWhile_le]) simp
  then show ?thesis by (simp add: strncpy_def Let_def)
qed

lemma length_fmt_zu: "n < 10 ^ k \<Longrightarrow> 0 < k \<Longrightarrow> length (fmt_zu n) \<le> k"
proof (induction k arbitrary: n)
  case 0
  then show ?case by simp
next
  case (Suc k)
  show ?case
  proof (cases "n < 10")
    case True
    then show ?thesis by (simp add: fmt_zu.simps)
  next
    case False
    then have "0 < k" and "n div 10 < 10 ^ k" using Suc.prems by (cases k; simp)+
    then show ?thesis using False Suc.IH [of "n div 10"] by (simp add: fmt_zu.simps [of n])
  qed
qed

lemma length_fmt_lu: "length (fmt_zu (unat (w :: 64 word))) \<le> 20"
proof -
  have "unat w < 2 ^ 64" by (rule order_less_le_trans [OF unsigned_less]) simp
  also have "(2 :: nat) ^ 64 \<le> 10 ^ 20" by simp
  finally show ?thesis by (intro length_fmt_zu) simp_all
qed

text \<open>Decimal digits read back give the number.\<close>

definition digits_value :: "byte list \<Rightarrow> nat" where
  "digits_value ds = foldl (\<lambda>n d. 10 * n + (unat d - 48)) 0 ds"

lemma digits_value_snoc: "digits_value (ds @ [d]) = 10 * digits_value ds + (unat d - 48)"
  by (simp add: digits_value_def)

lemma unat_digit: "k < 10 \<Longrightarrow> unat (word_of_nat (48 + k) :: byte) = 48 + k"
  by (rule unat_of_nat_small) simp

lemma digits_value_fmt_zu: "digits_value (fmt_zu n) = n"
proof (induction n rule: fmt_zu.induct)
  case (1 n)
  show ?case
  proof (cases "n < 10")
    case True
    then show ?thesis using unat_digit [of n] by (simp add: fmt_zu.simps digits_value_def)
  next
    case False
    then have "digits_value (fmt_zu n) = 10 * (n div 10) + (unat (word_of_nat (48 + n mod 10) :: byte) - 48)"
      using "1.IH" [OF False] False by (simp add: fmt_zu.simps [of n] digits_value_snoc)
    then show ?thesis using unat_digit [of "n mod 10"] by simp
  qed
qed

lemma fmt_zu_inject: "fmt_zu m = fmt_zu n \<longleftrightarrow> m = n"
  by (metis digits_value_fmt_zu)

lemma fmt_zu_digits: "d \<in> set (fmt_zu n) \<Longrightarrow> 48 \<le> unat d \<and> unat d \<le> 57"
proof (induction n rule: fmt_zu.induct)
  case (1 n)
  show ?case
  proof (cases "n < 10")
    case True
    then show ?thesis using "1.prems" unat_digit [of n] by (auto simp: fmt_zu.simps)
  next
    case False
    then show ?thesis using 1 unat_digit [of "n mod 10"] by (auto simp: fmt_zu.simps [of n])
  qed
qed

lemma fmt_zu_not_Nil [simp]: "fmt_zu n \<noteq> []"
  by (subst fmt_zu.simps) simp

lemma hd_fmt_zu: "0 < n \<Longrightarrow> hd (fmt_zu n) \<noteq> 48"
proof (induction n rule: fmt_zu.induct)
  case (1 n)
  show ?case
  proof (cases "n < 10")
    case True
    then have "unat (hd (fmt_zu n)) = 48 + n" using unat_digit [of n] by (simp add: fmt_zu.simps)
    then show ?thesis using "1.prems" by auto
  next
    case False
    then show ?thesis using "1.IH" by (simp add: fmt_zu.simps [of n])
  qed
qed

subsection \<open>\<open>strtoul\<close> and \<open>strtol\<close> with base 0\<close>

text \<open>
  White space, a sign, then \<open>0x\<close> for hexadecimal, \<open>0\<close> for octal, else decimal; digits up to the
  first character that is none. The magnitude saturates.
\<close>

definition is_space :: "byte \<Rightarrow> bool" where
  "is_space b \<longleftrightarrow> b = 32 \<or> (9 \<le> b \<and> b \<le> 13)"

definition digit_val :: "byte \<Rightarrow> nat" where
  "digit_val b =
     (if 48 \<le> b \<and> b \<le> 57 then unat b - 48
      else if 97 \<le> b \<and> b \<le> 122 then unat b - 87
      else if 65 \<le> b \<and> b \<le> 90 then unat b - 55
      else 36)"

definition digits_num :: "nat \<Rightarrow> byte list \<Rightarrow> nat" where
  "digits_num base s = foldl (\<lambda>n d. base * n + digit_val d) 0 (takeWhile (\<lambda>d. digit_val d < base) s)"

definition unsigned_num :: "byte list \<Rightarrow> nat" where
  "unsigned_num s =
     (case s of
        a # x # d # r \<Rightarrow>
          if a = 48 \<and> (x = 120 \<or> x = 88) \<and> digit_val d < 16 then digits_num 16 (d # r)
          else if a = 48 then digits_num 8 s else digits_num 10 s
      | a # r \<Rightarrow> if a = 48 then digits_num 8 s else digits_num 10 s
      | [] \<Rightarrow> 0)"

definition sign_num :: "byte list \<Rightarrow> bool \<times> nat" where
  "sign_num s =
     (case dropWhile is_space s of
        [] \<Rightarrow> (False, 0)
      | c # r \<Rightarrow> if c = 45 then (True, unsigned_num r) else if c = 43 then (False, unsigned_num r)
                 else (False, unsigned_num (c # r)))"

definition strtoul :: "byte list \<Rightarrow> 64 word" where
  "strtoul s = (case sign_num s of (neg, n) \<Rightarrow>
     if 2 ^ 64 \<le> n then - 1 else if neg then - word_of_nat n else word_of_nat n)"

definition strtol :: "byte list \<Rightarrow> int" where
  "strtol s = (case sign_num s of (neg, n) \<Rightarrow>
     if neg then (if 2 ^ 63 < n then - (2 ^ 63) else - int n) else if 2 ^ 63 \<le> n then 2 ^ 63 - 1 else int n)"

lemma digit_val_decimal:
  assumes "48 \<le> unat d" and "unat d \<le> 57"
  shows "digit_val d = unat d - 48"
  using assms by (simp add: digit_val_def word_le_nat_alt)

lemma digits_num_decimal:
  assumes "\<forall>d \<in> set ds. 48 \<le> unat d \<and> unat d \<le> 57" and "digit_val x = 36"
  shows "digits_num 10 (ds @ x # r) = digits_value ds"
proof -
  have "\<forall>d \<in> set ds. digit_val d < 10" using assms(1) by (auto simp: digit_val_decimal)
  then have t: "takeWhile (\<lambda>d. digit_val d < 10) (ds @ x # r) = ds"
    using assms(2) by (simp add: takeWhile_tail takeWhile_eq_all_conv)
  have "foldl (\<lambda>n d. 10 * n + digit_val d) a ds = foldl (\<lambda>n d. 10 * n + (unat d - 48)) a ds" for a
    using assms(1) by (induction ds arbitrary: a) (auto simp: digit_val_decimal)
  then show ?thesis by (simp add: digits_num_def t digits_value_def)
qed

lemma sign_num_fmt_zu: "sign_num (fmt_zu n @ [10]) = (False, n)"
proof (cases "n = 0")
  case True
  have "sign_num [48, 10] = (False, 0)"
    by (simp add: sign_num_def is_space_def unsigned_num_def digits_num_def digit_val_def)
  moreover have "fmt_zu 0 = [48]" by (simp add: fmt_zu.simps)
  ultimately show ?thesis by (simp add: True)
next
  case False
  obtain a r where f: "fmt_zu n = a # r" by (cases "fmt_zu n") auto
  have d: "\<forall>d \<in> set (fmt_zu n). 48 \<le> unat d \<and> unat d \<le> 57" using fmt_zu_digits by blast
  then have a: "48 \<le> unat a" "unat a \<le> 57" using f by simp_all
  have nz: "a \<noteq> 48" using hd_fmt_zu [of n] False f by simp
  have ns: "\<not> is_space a" "a \<noteq> 45" "a \<noteq> 43"
    using a by (auto simp: is_space_def word_le_nat_alt)
  have "digit_val 10 = 36" by (simp add: digit_val_def)
  then have "digits_num 10 (a # r @ [10]) = n"
    using digits_num_decimal [of "fmt_zu n" 10 "[]"] d f digits_value_fmt_zu [of n] by simp
  then have "unsigned_num (a # r @ [10]) = n"
    using nz by (auto simp: unsigned_num_def split: list.split)
  then show ?thesis using f ns by (simp add: sign_num_def)
qed

end
