(* ===== verification/MultiDev.thy ===== *)
theory MultiDev
  imports SeekDevice KernelResources CText
begin

section \<open>The two-device driver: 010\_multi\_char\_driver/driver.c\<close>

text \<open>
  \<open>mydevs\<close> is an array of two devices, each with a 1024-byte buffer, a length and a mutex. The
  handlers of an open file reach their device through \<open>private_data\<close>, the attributes of a
  device through \<open>dev_get_drvdata\<close>: both pointers are \<open>nat option\<close>, \<open>None\<close> the null pointer
  and \<open>Some i\<close> the address of \<open>mydevs[i]\<close>.
\<close>

record mydev =
  md_lock :: bool
  md_buf :: "byte list"
  md_len :: size_t

type_synonym mydevs = "mydev list"

record mfile =
  private_data :: "nat option"
  f_pos :: loff_t

subsection \<open>File operations\<close>

text \<open>\<open>container_of(inode->i_cdev, ...)\<close> is the device of the inode: the argument \<open>i\<close>.\<close>

definition mydev_open :: "nat \<Rightarrow> mfile \<Rightarrow> mfile \<times> ret" where
  "mydev_open i filp = (filp\<lparr>private_data := Some i\<rparr>, Inr 0)"

definition mydev_release :: "mfile \<Rightarrow> mfile \<times> ret" where
  "mydev_release filp = (filp\<lparr>private_data := None\<rparr>, Inr 0)"

text \<open>
  \<open>*ppos >= d->len\<close> compares a signed with an unsigned 64-bit number: it is unsigned.
\<close>

definition mydev_read ::
  "nat option \<Rightarrow> uenv \<Rightarrow> size_t \<Rightarrow> loff_t \<Rightarrow> mydevs \<Rightarrow> (mydevs \<times> loff_t \<times> byte list \<times> ret) option" where
  "mydev_read pd u count ppos devs =
     (case pd of
        None \<Rightarrow> Some (devs, ppos, [], Inl EINVAL)
      | Some i \<Rightarrow>
          if intr u then Some (devs, ppos, [], Inl ERESTARTSYS)
          else do {
            d \<leftarrow> arr_get devs (int i);
            l \<leftarrow> mutex_lock (md_lock d);
            (ppos', out, ret) \<leftarrow>
              (if md_len d \<le> ppos then Some (ppos, [], Inr 0)
               else
                 let count = (if md_len d - ppos < count then md_len d - ppos else count) in
                 do {
                   src \<leftarrow> mem_read (md_buf d) (sint ppos) (unat count);
                   if uctu u (unat count) \<noteq> 0
                   then Some (ppos, take (unat count - uctu u (unat count)) src, Inl EFAULT)
                   else Some (ppos + count, src, Inr count)
                 });
            l' \<leftarrow> mutex_unlock l;
            devs' \<leftarrow> arr_set devs (int i) (d\<lparr>md_lock := l'\<rparr>);
            Some (devs', ppos', out, ret)
          })"

text \<open>
  \<open>*ppos >= BUF_SIZE\<close> is a signed comparison, \<open>count > BUF_SIZE - *ppos\<close> an unsigned one.
\<close>

definition mydev_write ::
  "nat option \<Rightarrow> uenv \<Rightarrow> size_t \<Rightarrow> loff_t \<Rightarrow> mydevs \<Rightarrow> (mydevs \<times> loff_t \<times> ret) option" where
  "mydev_write pd u count ppos devs =
     (case pd of
        None \<Rightarrow> Some (devs, ppos, Inl EINVAL)
      | Some i \<Rightarrow>
          if intr u then Some (devs, ppos, Inl ERESTARTSYS)
          else do {
            d \<leftarrow> arr_get devs (int i);
            l \<leftarrow> mutex_lock (md_lock d);
            (d, ppos', ret) \<leftarrow>
              (if 1024 \<le> sint ppos then Some (d, ppos, Inl ENOSPC)
               else
                 let count = (if 1024 - ppos < count then 1024 - ppos else count) in
                 do {
                   buf \<leftarrow> mem_write (md_buf d) (sint ppos) (snd (ucfu u (unat count)));
                   let d = d\<lparr>md_buf := buf\<rparr>;
                   if fst (ucfu u (unat count)) \<noteq> 0 then Some (d, ppos, Inl EFAULT)
                   else
                     let ppos' = ppos + count;
                         d = (if md_len d < ppos' then d\<lparr>md_len := ppos'\<rparr> else d)
                     in Some (d, ppos', Inr count)
                 });
            l' \<leftarrow> mutex_unlock l;
            devs' \<leftarrow> arr_set devs (int i) (d\<lparr>md_lock := l'\<rparr>);
            Some (devs', ppos', ret)
          })"

text \<open>\<open>SEEK_SET\<close>, \<open>SEEK_CUR\<close>, \<open>SEEK_END\<close> are 0, 1, 2; the sums wrap at 64 bits.\<close>

definition mydev_llseek ::
  "uenv \<Rightarrow> mfile \<Rightarrow> loff_t \<Rightarrow> int \<Rightarrow> mydevs \<Rightarrow> (mydevs \<times> mfile \<times> ret) option" where
  "mydev_llseek u filp off whence devs =
     (case private_data filp of
        None \<Rightarrow> Some (devs, filp, Inl EINVAL)
      | Some i \<Rightarrow>
          if intr u then Some (devs, filp, Inl ERESTARTSYS)
          else do {
            d \<leftarrow> arr_get devs (int i);
            l \<leftarrow> mutex_lock (md_lock d);
            let newpos =
              (if whence = 0 then Some off
               else if whence = 1 then Some (f_pos filp + off)
               else if whence = 2 then Some (md_len d + off)
               else None);
            l' \<leftarrow> mutex_unlock l;
            devs' \<leftarrow> arr_set devs (int i) (d\<lparr>md_lock := l'\<rparr>);
            Some (case newpos of
                None \<Rightarrow> (devs', filp, Inl EINVAL)
              | Some p \<Rightarrow>
                  if sint p < 0 \<or> 1024 < sint p then (devs', filp, Inl EINVAL)
                  else (devs', filp\<lparr>f_pos := p\<rparr>, Inr p))
          })"

subsection \<open>Sysfs attributes\<close>

text \<open>
  \<open>sysfs_emit\<close> is not code of this repository: \<open>emit s\<close> is what it leaves in the page for the
  formatted text \<open>s\<close>, and it returns the length of that. What the attributes rely on is that
  a text shorter than a page is stored whole. Characters are their codes.
\<close>

type_synonym emit = "byte list \<Rightarrow> byte list"

definition emit_ok :: "emit \<Rightarrow> bool" where
  "emit_ok emit \<longleftrightarrow> (\<forall>s. length s < 4096 \<longrightarrow> emit s = s)"

definition page_emit :: emit where
  "page_emit s = take 4095 s"

definition data_show ::
  "emit \<Rightarrow> bool \<Rightarrow> nat option \<Rightarrow> mydevs \<Rightarrow> (mydevs \<times> byte list \<times> ret) option" where
  "data_show emit sig drv devs =
     (case drv of
        None \<Rightarrow> Some (devs, [], Inl EINVAL)
      | Some i \<Rightarrow>
          if sig then Some (devs, [], Inl ERESTARTSYS)
          else do {
            d \<leftarrow> arr_get devs (int i);
            l \<leftarrow> mutex_lock (md_lock d);
            let out = emit (fmt_prec_s (sint (ucast (md_len d) :: cint)) (md_buf d) @ [10]);
            l' \<leftarrow> mutex_unlock l;
            devs' \<leftarrow> arr_set devs (int i) (d\<lparr>md_lock := l'\<rparr>);
            Some (devs', out, Inr (word_of_nat (length out)))
          })"

definition data_store ::
  "bool \<Rightarrow> nat option \<Rightarrow> byte list \<Rightarrow> size_t \<Rightarrow> mydevs \<Rightarrow> (mydevs \<times> ret) option" where
  "data_store sig drv page count devs =
     (case drv of
        None \<Rightarrow> Some (devs, Inl EINVAL)
      | Some i \<Rightarrow>
          if sig then Some (devs, Inl ERESTARTSYS)
          else do {
            d \<leftarrow> arr_get devs (int i);
            l \<leftarrow> mutex_lock (md_lock d);
            let count = (if 1024 < count then 1024 else count);
            src \<leftarrow> mem_read page 0 (unat count);
            buf \<leftarrow> mem_write (md_buf d) 0 src;
            l' \<leftarrow> mutex_unlock l;
            devs' \<leftarrow> arr_set devs (int i) (d\<lparr>md_buf := buf, md_len := count, md_lock := l'\<rparr>);
            Some (devs', Inr count)
          })"

definition stats_show ::
  "emit \<Rightarrow> bool \<Rightarrow> nat option \<Rightarrow> mydevs \<Rightarrow> (mydevs \<times> byte list \<times> ret) option" where
  "stats_show emit sig drv devs =
     (case drv of
        None \<Rightarrow> Some (devs, [], Inl EINVAL)
      | Some i \<Rightarrow>
          if sig then Some (devs, [], Inl ERESTARTSYS)
          else do {
            d \<leftarrow> arr_get devs (int i);
            l \<leftarrow> mutex_lock (md_lock d);
            let out = emit ([108, 101, 110, 61] @ fmt_zu (unat (md_len d)) @ [10]);
            l' \<leftarrow> mutex_unlock l;
            devs' \<leftarrow> arr_set devs (int i) (d\<lparr>md_lock := l'\<rparr>);
            Some (devs', out, Inr (word_of_nat (length out)))
          })"

definition reset_store :: "bool \<Rightarrow> nat option \<Rightarrow> size_t \<Rightarrow> mydevs \<Rightarrow> (mydevs \<times> ret) option" where
  "reset_store sig drv count devs =
     (case drv of
        None \<Rightarrow> Some (devs, Inl EINVAL)
      | Some i \<Rightarrow>
          if sig then Some (devs, Inl ERESTARTSYS)
          else do {
            d \<leftarrow> arr_get devs (int i);
            l \<leftarrow> mutex_lock (md_lock d);
            buf \<leftarrow> mem_write (md_buf d) 0 (replicate 1024 0);
            l' \<leftarrow> mutex_unlock l;
            devs' \<leftarrow> arr_set devs (int i) (d\<lparr>md_len := 0, md_buf := buf, md_lock := l'\<rparr>);
            Some (devs', Inr count)
          })"

subsection \<open>Module init and exit\<close>

definition mydev_fresh :: mydev where
  "mydev_fresh = \<lparr>md_lock = False, md_buf = replicate 1024 0, md_len = 0\<rparr>"

text \<open>
  One round of the loop: a failed step undoes the round's own earlier steps through the
  labels \<open>err_attr_reset\<close>, \<open>err_attr_stats\<close> and \<open>err_attr\<close>.
\<close>

definition mydev_add :: "kapi \<Rightarrow> nat \<Rightarrow> held \<Rightarrow> (errno option \<times> held) option" where
  "mydev_add api i h =
     (case api (Cdev i) of Some e \<Rightarrow> Some (Some e, h) | None \<Rightarrow>
      let h = Cdev i # h in
      case api (Device i) of
        Some e \<Rightarrow> do { h \<leftarrow> release (Cdev i) h; Some (Some e, h) }
      | None \<Rightarrow>
      let h = Device i # h in
      case api (AttrFile i ''data'') of
        Some e \<Rightarrow> do { h \<leftarrow> release_list [Device i, Cdev i] h; Some (Some e, h) }
      | None \<Rightarrow>
      let h = AttrFile i ''data'' # h in
      case api (AttrFile i ''stats'') of
        Some e \<Rightarrow> do { h \<leftarrow> release_list [AttrFile i ''data'', Device i, Cdev i] h; Some (Some e, h) }
      | None \<Rightarrow>
      let h = AttrFile i ''stats'' # h in
      case api (AttrFile i ''reset'') of
        Some e \<Rightarrow> do { h \<leftarrow> release_list [AttrFile i ''stats'', AttrFile i ''data'', Device i, Cdev i] h;
                        Some (Some e, h) }
      | None \<Rightarrow> Some (None, AttrFile i ''reset'' # h))"

text \<open>\<open>while (--i >= 0)\<close>, from the label \<open>err_loop\<close>.\<close>

definition mydev_remove :: "nat \<Rightarrow> held \<Rightarrow> held option" where
  "mydev_remove i =
     release_list [AttrFile i ''reset'', AttrFile i ''stats'', AttrFile i ''data'', Device i, Cdev i]"

fun mydev_rollback :: "kapi \<Rightarrow> nat \<Rightarrow> held \<Rightarrow> held option" where
  "mydev_rollback api 0 h = Some h"
| "mydev_rollback api (Suc i) h =
     do {
       h \<leftarrow> (if api (Device i) = None
             then release_list [AttrFile i ''reset'', AttrFile i ''stats'', AttrFile i ''data'', Device i] h
             else Some h);
       h \<leftarrow> release (Cdev i) h;
       mydev_rollback api i h
     }"

text \<open>The loop from device \<open>i\<close> with \<open>k\<close> rounds to go; a failure hands over the index.\<close>

fun mydev_init_loop :: "kapi \<Rightarrow> nat \<Rightarrow> nat \<Rightarrow> held \<Rightarrow> ((errno \<times> nat) option \<times> held) option" where
  "mydev_init_loop api 0 i h = Some (None, h)"
| "mydev_init_loop api (Suc k) i h =
     do {
       (r, h) \<leftarrow> mydev_add api i h;
       (case r of Some e \<Rightarrow> Some (Some (e, i), h) | None \<Rightarrow> mydev_init_loop api k (Suc i) h)
     }"

definition mydev_init :: module_init where
  "mydev_init api h =
     (case api Region of Some e \<Rightarrow> Some (Some e, h) | None \<Rightarrow>
      let h = Region # h in
      case api Class of
        Some e \<Rightarrow> do { h \<leftarrow> release Region h; Some (Some e, h) }
      | None \<Rightarrow>
      let h = Class # h in
      case api DevMem of
        Some e \<Rightarrow> do { h \<leftarrow> release_list [Class, Region] h; Some (Some ENOMEM, h) }
      | None \<Rightarrow>
      do {
        (r, h) \<leftarrow> mydev_init_loop api 2 0 (DevMem # h);
        (case r of
           None \<Rightarrow> Some (None, h)
         | Some (e, i) \<Rightarrow> do {
             h \<leftarrow> mydev_rollback api i h;
             h \<leftarrow> release_list [DevMem, Class, Region] h;
             Some (Some e, h)
           })
      })"

fun mydev_exit_loop :: "nat \<Rightarrow> nat \<Rightarrow> held \<Rightarrow> held option" where
  "mydev_exit_loop 0 i h = Some h"
| "mydev_exit_loop (Suc k) i h = do { h \<leftarrow> mydev_remove i h; mydev_exit_loop k (Suc i) h }"

definition mydev_exit :: module_exit where
  "mydev_exit h = do { h \<leftarrow> mydev_exit_loop 2 0 h; release_list [DevMem, Class, Region] h }"

definition mydev_objs :: "nat \<Rightarrow> held" where
  "mydev_objs i =
     [AttrFile i ''reset'', AttrFile i ''stats'', AttrFile i ''data'', Device i, Cdev i]"

definition mydev_owned :: held where
  "mydev_owned = mydev_objs 1 @ mydev_objs 0 @ [DevMem, Class, Region]"

text \<open>One round either undoes itself or leaves exactly the objects of its device.\<close>

lemma mydev_add_cases:
  obtains (fails) e where "mydev_add api i h = Some (Some e, h)" "\<exists>r \<in> set (mydev_objs i). api r \<noteq> None"
  | (works) "mydev_add api i h = Some (None, mydev_objs i @ h)" "\<forall>r \<in> set (mydev_objs i). api r = None"
proof -
  have "(\<exists>e. mydev_add api i h = Some (Some e, h) \<and> (\<exists>r \<in> set (mydev_objs i). api r \<noteq> None)) \<or>
      mydev_add api i h = Some (None, mydev_objs i @ h) \<and> (\<forall>r \<in> set (mydev_objs i). api r = None)"
    by (cases "api (Cdev i)"; cases "api (Device i)"; cases "api (AttrFile i ''data'')";
        cases "api (AttrFile i ''stats'')"; cases "api (AttrFile i ''reset'')";
        simp add: mydev_add_def mydev_objs_def)
  then show ?thesis using fails works by blast
qed

lemma mydev_rollback_one:
  "api (Device 0) = None \<Longrightarrow> mydev_rollback api 1 (mydev_objs 0 @ h) = Some h"
  by (simp add: mydev_objs_def)

lemma mydev_init_cases:
  obtains (fails) e where "mydev_init api h = Some (Some e, h)" "\<exists>r \<in> set mydev_owned. api r \<noteq> None"
  | (works) "mydev_init api h = Some (None, mydev_owned @ h)" "\<forall>r \<in> set mydev_owned. api r = None"
proof (cases "api Region = None \<and> api Class = None \<and> api DevMem = None")
  case False
  then have "\<exists>e. mydev_init api h = Some (Some e, h)" and "\<exists>r \<in> set mydev_owned. api r \<noteq> None"
    by (auto simp: mydev_init_def mydev_owned_def Let_def split: option.splits)
  then show ?thesis using fails by blast
next
  case True
  let ?h = "DevMem # Class # Region # h"
  have start: "mydev_init api h =
     do {
       (r, h) \<leftarrow> mydev_init_loop api 2 0 ?h;
       (case r of
          None \<Rightarrow> Some (None, h)
        | Some (e, i) \<Rightarrow> do {
            h \<leftarrow> mydev_rollback api i h;
            h \<leftarrow> release_list [DevMem, Class, Region] h;
            Some (Some e, h)
          })
     }" using True by (simp add: mydev_init_def Let_def)
  show ?thesis
  proof (rule mydev_add_cases [of api 0 ?h])
    fix e assume "mydev_add api 0 ?h = Some (Some e, ?h)" and bad: "\<exists>r \<in> set (mydev_objs 0). api r \<noteq> None"
    then have "mydev_init api h = Some (Some e, h)" by (simp add: start numeral_2_eq_2)
    moreover have "\<exists>r \<in> set mydev_owned. api r \<noteq> None" using bad by (auto simp: mydev_owned_def)
    ultimately show ?thesis by (rule fails)
  next
    assume 0: "mydev_add api 0 ?h = Some (None, mydev_objs 0 @ ?h)"
      and ok0: "\<forall>r \<in> set (mydev_objs 0). api r = None"
    have dev0: "api (Device 0) = None" using ok0 by (simp add: mydev_objs_def)
    show ?thesis
    proof (rule mydev_add_cases [of api 1 "mydev_objs 0 @ ?h"])
      fix e assume "mydev_add api 1 (mydev_objs 0 @ ?h) = Some (Some e, mydev_objs 0 @ ?h)"
        and bad: "\<exists>r \<in> set (mydev_objs 1). api r \<noteq> None"
      then have "mydev_init_loop api 2 0 ?h = Some (Some (e, 1), mydev_objs 0 @ ?h)"
        using 0 by (simp add: numeral_2_eq_2)
      then have "mydev_init api h = Some (Some e, h)"
        using mydev_rollback_one [of api ?h, OF dev0] by (simp add: start del: mydev_rollback.simps)
      moreover have "\<exists>r \<in> set mydev_owned. api r \<noteq> None" using bad by (auto simp: mydev_owned_def)
      ultimately show ?thesis by (rule fails)
    next
      assume "mydev_add api 1 (mydev_objs 0 @ ?h) = Some (None, mydev_objs 1 @ mydev_objs 0 @ ?h)"
        and "\<forall>r \<in> set (mydev_objs 1). api r = None"
      then show ?thesis using 0 ok0 True works
        by (simp add: start numeral_2_eq_2 mydev_owned_def ball_Un)
    qed
  qed
qed

lemma mydev_exit_all: "mydev_exit (mydev_owned @ h) = Some h"
  by (simp add: mydev_exit_def mydev_owned_def mydev_objs_def mydev_remove_def numeral_2_eq_2 release_def)

interpretation mydev_module: clean_module mydev_init mydev_exit mydev_owned
proof
  fix api h h' e
  show "\<exists>r h'. mydev_init api h = Some (r, h')" by (rule mydev_init_cases [of api h]) auto
  show "mydev_init api h = Some (None, h') \<Longrightarrow> h' = mydev_owned @ h"
    by (rule mydev_init_cases [of api h]) auto
  show "mydev_init api h = Some (Some e, h') \<Longrightarrow> h' = h"
    by (rule mydev_init_cases [of api h]) auto
  show "(\<And>r. r \<in> set mydev_owned \<Longrightarrow> api r = None) \<Longrightarrow> mydev_init api h = Some (None, mydev_owned @ h)"
    by (rule mydev_init_cases [of api h]) auto
  show "mydev_exit (mydev_owned @ h) = Some h" by (rule mydev_exit_all)
qed

subsection \<open>Invariant and what each handler does\<close>

definition mydev_ok :: "mydev \<Rightarrow> bool" where
  "mydev_ok d \<longleftrightarrow> \<not> md_lock d \<and> length (md_buf d) = 1024 \<and> unat (md_len d) \<le> 1024"

definition mydevs_inv :: "mydevs \<Rightarrow> bool" where
  "mydevs_inv devs \<longleftrightarrow> length devs = 2 \<and> (\<forall>d \<in> set devs. mydev_ok d)"

lemma mydevs_fresh_inv [inv_intros]: "mydevs_inv (replicate 2 mydev_fresh)"
  by (simp add: mydevs_inv_def mydev_ok_def mydev_fresh_def)

lemma mydevs_inv_get:
  assumes "mydevs_inv devs" and "i < 2"
  shows "arr_get devs (int i) = Some (devs ! i)" "mydev_ok (devs ! i)" "i < length devs"
  using assms by (simp_all add: mydevs_inv_def arr_get_def)

lemma mydevs_inv_set [inv_intros]: "mydevs_inv devs \<Longrightarrow> mydev_ok d \<Longrightarrow> mydevs_inv (devs[i := d])"
  by (auto simp: mydevs_inv_def dest!: set_update_subset_insert [THEN subsetD])

lemma mydev_okD:
  "mydev_ok d \<Longrightarrow> \<not> md_lock d" "mydev_ok d \<Longrightarrow> length (md_buf d) = 1024" "mydev_ok d \<Longrightarrow> unat (md_len d) \<le> 1024"
  by (simp_all add: mydev_ok_def)

lemma md_unlock [simp]: "\<not> md_lock d \<Longrightarrow> d\<lparr>md_lock := False\<rparr> = d"
  by simp

definition read_span :: "mydev \<Rightarrow> size_t \<Rightarrow> loff_t \<Rightarrow> nat" where
  "read_span d count ppos = min (unat count) (unat (md_len d) - unat ppos)"

lemma mydev_read_run:
  assumes "mydevs_inv devs" and "i < 2"
  shows "mydev_read (Some i) u count ppos devs = Some (
     if intr u then (devs, ppos, [], Inl ERESTARTSYS)
     else if unat (md_len (devs ! i)) \<le> unat ppos then (devs, ppos, [], Inr 0)
     else
       let n = read_span (devs ! i) count ppos; out = take n (drop (unat ppos) (md_buf (devs ! i))) in
       if uctu u n \<noteq> 0 then (devs, ppos, take (n - uctu u n) out, Inl EFAULT)
       else (devs, ppos + word_of_nat n, out, Inr (word_of_nat n)))"
proof (cases "intr u \<or> unat (md_len (devs ! i)) \<le> unat ppos")
  case True
  then show ?thesis using mydevs_inv_get [OF assms] assms
    by (auto simp: mydev_read_def mem_simps word_le_nat_alt mydev_okD)
next
  case False
  note get = mydevs_inv_get [OF assms]
  let ?d = "devs ! i" and ?n = "read_span (devs ! i) count ppos"
  have lt: "unat ppos < unat (md_len ?d)" using False by simp
  have "unat ppos < 1024" using lt get(2) mydev_okD(3) by fastforce
  then have pos: "sint ppos = int (unat ppos)" by (intro sint_of_small) simp
  have le: "unat ppos + ?n \<le> length (md_buf ?d)"
    using lt mydev_okD(2,3) [OF get(2)] by (simp add: read_span_def)
  have cut: "(if md_len ?d - ppos < count then md_len ?d - ppos else count) = word_of_nat ?n"
    "unat (word_of_nat ?n :: size_t) = ?n"
    using cut_word [of ppos "md_len ?d" count] lt by (simp_all add: read_span_def)
  have rd: "mem_read (md_buf ?d) (sint ppos) ?n = Some (take ?n (drop (unat ppos) (md_buf ?d)))"
    using le by (simp only: pos mem_read_in nat_int of_nat_0_le_iff)
  have set: "arr_set devs (int i) ?d = Some devs" using get(3) by (simp add: mem_simps)
  show ?thesis using False get(1) mydev_okD(1) [OF get(2)] rd set
    by (simp add: mydev_read_def word_le_nat_alt cut Let_def)
qed

definition write_span :: "size_t \<Rightarrow> loff_t \<Rightarrow> nat" where
  "write_span count ppos = min (unat count) (1024 - unat ppos)"

lemma mydev_write_run:
  assumes "mydevs_inv devs" and "i < 2" and "vfs_ok count ppos" and "uaccess_ok u"
  shows "mydev_write (Some i) u count ppos devs = Some (
     if intr u then (devs, ppos, Inl ERESTARTSYS)
     else if 1024 \<le> unat ppos then (devs, ppos, Inl ENOSPC)
     else
       let n = write_span count ppos;
           d = (devs ! i)\<lparr>md_buf := overlay (unat ppos) (snd (ucfu u n)) (md_buf (devs ! i))\<rparr> in
       if fst (ucfu u n) \<noteq> 0 then (devs[i := d], ppos, Inl EFAULT)
       else (devs[i := d\<lparr>md_len := max (md_len d) (ppos + word_of_nat n)\<rparr>],
             ppos + word_of_nat n, Inr (word_of_nat n)))"
proof (cases "intr u \<or> 1024 \<le> unat ppos")
  case True
  then show ?thesis using mydevs_inv_get [OF assms(1,2)] assms
    by (auto simp: mydev_write_def mem_simps mydev_okD)
next
  case False
  note get = mydevs_inv_get [OF assms(1,2)]
  let ?n = "write_span count ppos"
  have le: "unat ppos + ?n \<le> length (md_buf (devs ! i))"
    using False mydev_okD(2) [OF get(2)] by (auto simp: write_span_def)
  have cut: "(if 1024 - ppos < count then 1024 - ppos else count) = word_of_nat ?n"
    "unat (word_of_nat ?n :: size_t) = ?n"
    using cut_word [of ppos 1024 count] False by (simp_all add: write_span_def)
  have wr: "mem_write (md_buf (devs ! i)) (sint ppos) (snd (ucfu u ?n))
      = Some (overlay (unat ppos) (snd (ucfu u ?n)) (md_buf (devs ! i)))"
    using le assms(3,4) by (simp add: mem_write_in)
  have set: "arr_set devs (int i) d = Some (devs[i := d])" for d using get(3) by (simp add: mem_simps)
  have mx: "max (md_len (devs ! i)) p = (if md_len (devs ! i) < p then p else md_len (devs ! i))" for p
    by (auto simp: max_def)
  show ?thesis using False get(1) mydev_okD(1) [OF get(2)] assms(3) wr
    by (simp add: mydev_write_def cut set Let_def mx)
qed

lemma write_span_bound: "unat ppos < 1024 \<Longrightarrow> unat ppos + write_span count ppos \<le> 1024"
  by (simp add: write_span_def)

lemma unat_write_span [simp]: "unat (word_of_nat (write_span count ppos) :: size_t) = write_span count ppos"
  by (rule unat_of_nat_small) (simp add: write_span_def)

lemma unat_after_write:
  "unat ppos < 1024 \<Longrightarrow> unat (ppos + word_of_nat (write_span count ppos)) = unat ppos + write_span count ppos"
  using write_span_bound [of ppos count] by (intro unat_add_small) simp

lemma mydev_write_keeps:
  assumes "mydevs_inv devs" and "i < 2" and "vfs_ok count ppos" and "uaccess_ok u"
    and "mydev_write (Some i) u count ppos devs = Some (devs', ppos', r)"
  shows "mydevs_inv devs'"
proof -
  let ?d = "devs ! i" and ?n = "write_span count ppos"
  have ok: "mydev_ok ?d" by (rule mydevs_inv_get(2) [OF assms(1,2)])
  show ?thesis
  proof (cases "1024 \<le> unat ppos")
    case True
    then show ?thesis using assms mydev_write_run [OF assms(1-4)] by (auto split: if_splits)
  next
    case False
    have le: "unat ppos + ?n \<le> 1024" using False by (intro write_span_bound) simp
    have d: "mydev_ok (?d\<lparr>md_buf := overlay (unat ppos) (snd (ucfu u ?n)) (md_buf ?d)\<rparr>)"
      using ok le assms(4) by (simp add: mydev_ok_def)
    have "unat (ppos + word_of_nat ?n) = unat ppos + ?n" using False by (intro unat_after_write) simp
    then have "mydev_ok (?d\<lparr>md_buf := overlay (unat ppos) (snd (ucfu u ?n)) (md_buf ?d),
        md_len := max (md_len ?d) (ppos + word_of_nat ?n)\<rparr>)"
      using d le by (simp add: mydev_ok_def max_def)
    then show ?thesis using False assms(1,5) d mydev_write_run [OF assms(1-4)]
      by (auto simp: Let_def intro: mydevs_inv_set split: if_splits)
  qed
qed

definition mydev_contents :: "mydev \<Rightarrow> byte list" where
  "mydev_contents d = take (unat (md_len d)) (md_buf d)"

lemma length_mydev_contents: "mydev_ok d \<Longrightarrow> length (mydev_contents d) = unat (md_len d)"
  by (simp add: mydev_contents_def mydev_ok_def)

interpretation mydev_rw: seek_device "mydev_read (Some i)" "mydev_write (Some i)" 1024
    "\<lambda>devs. mydev_contents (devs ! i)" "\<lambda>devs. mydevs_inv devs \<and> i < 2" for i
proof
  show "(1024 :: nat) < 2 ^ 31" by simp
next
  fix devs assume "mydevs_inv devs \<and> i < 2"
  then have "mydev_ok (devs ! i)" using mydevs_inv_get(2) by blast
  then show "length (mydev_contents (devs ! i)) \<le> 1024"
    by (simp add: length_mydev_contents mydev_okD)
next
  fix devs u and len :: size_t and off :: loff_t
  assume a: "mydevs_inv devs \<and> i < 2" "ready u" "vfs_ok len off"
  let ?d = "devs ! i"
  have ok: "mydev_ok ?d" using a mydevs_inv_get(2) by blast
  have out: "take (unat len) (drop (unat off) (mydev_contents ?d)) =
      take (read_span ?d len off) (drop (unat off) (md_buf ?d))"
    by (simp add: mydev_contents_def read_span_def drop_take min.commute)
  have len: "length (take (read_span ?d len off) (drop (unat off) (md_buf ?d))) = read_span ?d len off"
    using mydev_okD(2,3) [OF ok] by (auto simp: read_span_def)
  have "unat (md_len ?d) \<le> unat off \<Longrightarrow> read_span ?d len off = 0" by (simp add: read_span_def)
  then show "mydev_read (Some i) u len off devs =
      (let out = take (unat len) (drop (unat off) (mydev_contents ?d))
       in Some (devs, off + word_of_nat (length out), out, Inr (word_of_nat (length out))))"
    using a out len mydev_read_run [of devs i u len off]
    by (auto simp: Let_def ready_def simp del: length_take length_drop)
next
  fix devs u devs' n and len :: size_t and off off' :: loff_t
  assume a: "mydevs_inv devs \<and> i < 2" "uaccess_ok u" "vfs_ok len off"
    and w: "mydev_write (Some i) u len off devs = Some (devs', off', Inr n)"
  let ?d = "devs ! i" and ?k = "write_span len off"
  have inv: "mydevs_inv devs" and i: "i < 2" using a by simp_all
  note run = mydev_write_run [OF inv i a(3,2)]
  have off: "unat off < 1024" using w run by (auto simp: not_le Let_def split: if_splits)
  have le: "unat off + ?k \<le> 1024" using off by (rule write_span_bound)
  have blen: "length (md_buf ?d) = 1024" using mydevs_inv_get(2) [OF inv i] mydev_okD(2) by blast
  have ulen: "length (snd (ucfu u ?k)) = ?k" using a(2) by simp
  have devs': "devs' = devs[i := ?d\<lparr>md_buf := overlay (unat off) (snd (ucfu u ?k)) (md_buf ?d),
      md_len := max (md_len ?d) (off + word_of_nat ?k)\<rparr>]"
    and n: "n = word_of_nat ?k" and off': "off' = off + n"
    using w run by (auto simp: Let_def split: if_splits)
  have inv': "mydevs_inv devs'" by (rule mydev_write_keeps [OF inv i a(3,2) w])
  have nth: "devs' ! i = ?d\<lparr>md_buf := overlay (unat off) (snd (ucfu u ?k)) (md_buf ?d),
      md_len := max (md_len ?d) (off + word_of_nat ?k)\<rparr>"
    using devs' mydevs_inv_get(3) [OF inv i] by simp
  have "unat off + ?k \<le> unat (max (md_len ?d) (off + word_of_nat ?k))"
    using unat_after_write [OF off, of len] by (simp add: max_def word_le_nat_alt)
  then have "take ?k (drop (unat off) (mydev_contents (devs' ! i)))
      = take ?k (drop (unat off) (overlay (unat off) (snd (ucfu u ?k)) (md_buf ?d)))"
    by (simp add: nth mydev_contents_def drop_take min_absorb1)
  also have "\<dots> = snd (ucfu u ?k)"
    using take_drop_overlay [of "unat off" "snd (ucfu u ?k)" "md_buf ?d"] ulen le blen by simp
  finally show "unat off < 1024 \<and> unat n = min (unat len) (1024 - unat off) \<and> off' = off + n \<and>
      (mydevs_inv devs' \<and> i < 2) \<and>
      take (unat n) (drop (unat off) (mydev_contents (devs' ! i))) = snd (ucfu u (unat n))"
    using off n off' inv' i by (simp add: write_span_def [symmetric])
qed

subsection \<open>Seeking\<close>

text \<open>
  The sums of \<open>llseek\<close> may wrap, but from a position inside the buffer a sum that wraps is
  negative: the check of the code sees the integer sum.
\<close>

lemma sint_add_from_small:
  fixes p off :: "64 word"
  assumes "unat p \<le> 1024"
  defines "t \<equiv> uint p + sint off"
  shows "sint (p + off) = (if t < 2 ^ 63 then t else t - 2 ^ 64)" "0 \<le> uint p" "uint p \<le> 1024"
proof -
  show u: "0 \<le> uint p" "uint p \<le> 1024"
    using assms(1) unat_less_iff_uint [of p 1025] by simp_all
  have p: "sint p = uint p" using assms(1) sint_of_small [of p] by simp
  have s: "sint (p + off) = (t + 2 ^ 63) mod 2 ^ 64 - 2 ^ 63"
    unfolding t_def p [symmetric]
    by (simp add: sint_word_ariths signed_take_bit_eq_take_bit_shift take_bit_eq_mod)
  have bounds: "- (2 ^ 63) \<le> sint off" "sint off < 2 ^ 63"
    using sint_ge [of off] sint_lt [of off] by simp_all
  have pw: "(2 :: int) ^ 64 = 2 * 2 ^ 63" "(1024 :: int) < 2 ^ 63" by simp_all
  show "sint (p + off) = (if t < 2 ^ 63 then t else t - 2 ^ 64)"
  proof (cases "t < 2 ^ 63")
    case True
    then have "(t + 2 ^ 63) mod 2 ^ 64 = t + 2 ^ 63"
      using bounds(1) u pw unfolding t_def by (intro mod_pos_pos_trivial) linarith+
    then show ?thesis using True s by simp
  next
    case False
    have "(t + 2 ^ 63) mod 2 ^ 64 = (t - 2 ^ 63 + 2 ^ 64) mod 2 ^ 64" by (simp add: add.commute)
    also have "\<dots> = t - 2 ^ 63"
      using False bounds(2) u pw unfolding t_def
      by (subst mod_add_self2, intro mod_pos_pos_trivial) linarith+
    finally show ?thesis using False s by simp
  qed
qed

lemma seek_check:
  fixes p off :: "64 word"
  assumes "unat p \<le> 1024"
  shows "sint (p + off) < 0 \<or> 1024 < sint (p + off) \<longleftrightarrow> uint p + sint off < 0 \<or> 1024 < uint p + sint off"
  using sint_add_from_small(1) [OF assms, of off] sint_add_from_small(2,3) [OF assms] sint_lt [of off] by (auto split: if_splits)

definition seek_target :: "mfile \<Rightarrow> loff_t \<Rightarrow> int \<Rightarrow> mydev \<Rightarrow> int option" where
  "seek_target filp off whence d =
     (if whence = 0 then Some (sint off)
      else if whence = 1 then Some (uint (f_pos filp) + sint off)
      else if whence = 2 then Some (uint (md_len d) + sint off)
      else None)"

lemma mydev_llseek_run:
  assumes "mydevs_inv devs" and "private_data filp = Some i" and "i < 2" and "unat (f_pos filp) \<le> 1024"
  shows "mydev_llseek u filp off whence devs = Some (
     if intr u then (devs, filp, Inl ERESTARTSYS)
     else case seek_target filp off whence (devs ! i) of
       None \<Rightarrow> (devs, filp, Inl EINVAL)
     | Some t \<Rightarrow> if t < 0 \<or> 1024 < t then (devs, filp, Inl EINVAL)
                else (devs, filp\<lparr>f_pos := word_of_int t\<rparr>, Inr (word_of_int t)))"
proof -
  note get = mydevs_inv_get [OF assms(1,3)]
  have set: "arr_set devs (int i) (devs ! i) = Some devs" using get(3) by (simp add: mem_simps)
  have l: "unat (md_len (devs ! i)) \<le> 1024" by (rule mydev_okD(3) [OF get(2)])
  have w: "p + off = word_of_int (uint p + sint off)" for p :: loff_t
    by simp
  let ?p = "if whence = 0 then Some off else if whence = 1 then Some (f_pos filp + off)
    else if whence = 2 then Some (md_len (devs ! i) + off) else None"
  have run: "mydev_llseek u filp off whence devs = Some (
     if intr u then (devs, filp, Inl ERESTARTSYS)
     else case ?p of
       None \<Rightarrow> (devs, filp, Inl EINVAL)
     | Some p \<Rightarrow> if sint p < 0 \<or> 1024 < sint p then (devs, filp, Inl EINVAL)
                else (devs, filp\<lparr>f_pos := p\<rparr>, Inr p))"
    using get(1) mydev_okD(1) [OF get(2)] set assms(2) by (simp add: mydev_llseek_def Let_def)
  consider "whence = 0" | "whence = 1" | "whence = 2" | "whence \<noteq> 0 \<and> whence \<noteq> 1 \<and> whence \<noteq> 2" by blast
  then show ?thesis
  proof cases
    case 1
    then show ?thesis unfolding run by (simp add: seek_target_def)
  next
    case 2
    then show ?thesis unfolding run using seek_check [OF assms(4), of off] by (simp add: seek_target_def)
  next
    case 3
    then show ?thesis unfolding run using seek_check [OF l, of off] by (simp add: seek_target_def)
  next
    case 4
    then show ?thesis unfolding run by (simp add: seek_target_def)
  qed
qed

subsection \<open>The attributes\<close>

lemma data_show_run:
  assumes "mydevs_inv devs" and "i < 2" and "emit_ok emit"
  shows "data_show emit False (Some i) devs =
     Some (devs, takeWhile (\<lambda>b. b \<noteq> 0) (mydev_contents (devs ! i)) @ [10],
       Inr (word_of_nat (length (takeWhile (\<lambda>b. b \<noteq> 0) (mydev_contents (devs ! i))) + 1)))"
proof -
  note get = mydevs_inv_get [OF assms(1,2)]
  let ?d = "devs ! i"
  have l: "unat (md_len ?d) \<le> 1024" by (rule mydev_okD(3) [OF get(2)])
  have set: "arr_set devs (int i) ?d = Some devs" using get(3) by (simp add: mem_simps)
  have "unat (ucast (md_len ?d) :: cint) = unat (md_len ?d)"
    using l by (simp add: unsigned_ucast_eq unsigned_take_bit_eq take_bit_nat_eq_self)
  then have prec: "sint (ucast (md_len ?d) :: cint) = int (unat (md_len ?d))"
    using l sint_of_small [of "ucast (md_len ?d) :: cint"] by simp
  have "fmt_prec_s (sint (ucast (md_len ?d) :: cint)) (md_buf ?d) = takeWhile (\<lambda>b. b \<noteq> 0) (mydev_contents ?d)"
    by (simp only: prec fmt_prec_s_def mydev_contents_def nat_int of_nat_less_0_iff if_False)
  moreover have "length (takeWhile (\<lambda>b. b \<noteq> 0) (mydev_contents ?d) @ [10]) < 4096"
    using length_takeWhile_le [of "\<lambda>b. b \<noteq> 0" "mydev_contents ?d"] l length_mydev_contents [OF get(2)] by simp
  then have "emit (takeWhile (\<lambda>b. b \<noteq> 0) (mydev_contents ?d) @ [10]) = takeWhile (\<lambda>b. b \<noteq> 0) (mydev_contents ?d) @ [10]"
    using assms(3) by (simp only: emit_ok_def)
  ultimately show ?thesis using get(1) mydev_okD(1) [OF get(2)] set by (simp add: data_show_def Let_def)
qed

lemma data_store_run:
  assumes "mydevs_inv devs" and "i < 2" and "unat count \<le> length page"
  shows "data_store False (Some i) page count devs =
     (let n = min (unat count) 1024; d = devs ! i in
      Some (devs[i := d\<lparr>md_buf := overlay 0 (take n page) (md_buf d), md_len := word_of_nat n\<rparr>],
            Inr (word_of_nat n)))"
proof -
  note get = mydevs_inv_get [OF assms(1,2)]
  let ?n = "min (unat count) 1024"
  have u: "unat (if 1024 < count then 1024 else count) = ?n"
    by (simp add: word_less_nat_alt min_def)
  then have w: "(if 1024 < count then 1024 else count) = word_of_nat ?n" by (rule word_of_unat)
  have u': "unat (word_of_nat ?n :: size_t) = ?n" using u unfolding w .
  have rd: "mem_read page 0 ?n = Some (take ?n page)" using assms(3) by (simp add: mem_simps)
  have wr: "mem_write (md_buf (devs ! i)) 0 (take ?n page) = Some (overlay 0 (take ?n page) (md_buf (devs ! i)))"
    using mydev_okD(2) [OF get(2)] by (simp add: mem_simps)
  have set: "arr_set devs (int i) d = Some (devs[i := d])" for d using get(3) by (simp add: mem_simps)
  show ?thesis using get(1) mydev_okD(1) [OF get(2)] rd wr
    by (simp add: data_store_def w u' set Let_def del: of_nat_min)
qed

lemma reset_store_run:
  assumes "mydevs_inv devs" and "i < 2"
  shows "reset_store False (Some i) count devs = Some (devs[i := mydev_fresh], Inr count)"
proof -
  note get = mydevs_inv_get [OF assms]
  have wr: "mem_write (md_buf (devs ! i)) 0 (replicate 1024 0) = Some (replicate 1024 0)"
    using mydev_okD(2) [OF get(2)] by (simp add: mem_write_def overlay_def)
  have set: "arr_set devs (int i) d = Some (devs[i := d])" for d using get(3) by (simp add: mem_simps)
  show ?thesis using get(1) mydev_okD(1) [OF get(2)] wr
    by (cases "devs ! i") (simp add: reset_store_def set mydev_fresh_def)
qed

lemma stats_show_run:
  assumes "mydevs_inv devs" and "i < 2" and "emit_ok emit"
  shows "\<exists>n. stats_show emit False (Some i) devs =
     Some (devs, [108, 101, 110, 61] @ fmt_zu (unat (md_len (devs ! i))) @ [10], Inr n)"
proof -
  note get = mydevs_inv_get [OF assms(1,2)]
  have set: "arr_set devs (int i) (devs ! i) = Some devs" using get(3) by (simp add: mem_simps)
  have "length (fmt_zu (unat (md_len (devs ! i)))) \<le> 4"
    using mydev_okD(3) [OF get(2)] by (intro length_fmt_zu) simp_all
  then have "emit ([108, 101, 110, 61] @ fmt_zu (unat (md_len (devs ! i))) @ [10])
      = [108, 101, 110, 61] @ fmt_zu (unat (md_len (devs ! i))) @ [10]"
    using assms(3) by (simp add: emit_ok_def)
  then show ?thesis using get(1) mydev_okD(1) [OF get(2)] set by (simp add: stats_show_def Let_def)
qed

subsection \<open>The driver with its open files\<close>

text \<open>
  The files opened so far, by descriptor, and the devices. A read and a write go through the
  file's position; the VFS stores the position back after the call.
\<close>

record msys =
  m_devs :: mydevs
  m_files :: "mfile list"

datatype mop =
    MOpen nat
  | MClose nat
  | MRead nat uenv size_t
  | MWrite nat uenv size_t
  | MSeek nat uenv loff_t int
  | MDataShow bool nat
  | MDataStore bool nat "byte list" size_t
  | MStatsShow bool nat
  | MResetStore bool nat size_t

fun m_step :: "emit \<Rightarrow> mop \<Rightarrow> msys \<Rightarrow> (msys \<times> byte list \<times> ret) option" where
  "m_step emit (MOpen i) st =
     (let (f, r) = mydev_open i \<lparr>private_data = None, f_pos = 0\<rparr> in
      Some (st\<lparr>m_files := m_files st @ [f]\<rparr>, [], r))"
| "m_step emit (MClose fd) st =
     do { f \<leftarrow> arr_get (m_files st) (int fd);
          let (f', r) = mydev_release f;
          Some (st\<lparr>m_files := (m_files st)[fd := f']\<rparr>, [], r) }"
| "m_step emit (MRead fd u count) st =
     do { f \<leftarrow> arr_get (m_files st) (int fd);
          (devs, pos, out, r) \<leftarrow> mydev_read (private_data f) u count (f_pos f) (m_devs st);
          Some (st\<lparr>m_devs := devs, m_files := (m_files st)[fd := f\<lparr>f_pos := pos\<rparr>]\<rparr>, out, r) }"
| "m_step emit (MWrite fd u count) st =
     do { f \<leftarrow> arr_get (m_files st) (int fd);
          (devs, pos, r) \<leftarrow> mydev_write (private_data f) u count (f_pos f) (m_devs st);
          Some (st\<lparr>m_devs := devs, m_files := (m_files st)[fd := f\<lparr>f_pos := pos\<rparr>]\<rparr>, [], r) }"
| "m_step emit (MSeek fd u off whence) st =
     do { f \<leftarrow> arr_get (m_files st) (int fd);
          (devs, f', r) \<leftarrow> mydev_llseek u f off whence (m_devs st);
          Some (st\<lparr>m_devs := devs, m_files := (m_files st)[fd := f']\<rparr>, [], r) }"
| "m_step emit (MDataShow sig i) st =
     map_option (\<lambda>(devs, out, r). (st\<lparr>m_devs := devs\<rparr>, out, r)) (data_show emit sig (Some i) (m_devs st))"
| "m_step emit (MDataStore sig i page count) st =
     map_option (\<lambda>(devs, r). (st\<lparr>m_devs := devs\<rparr>, [], r)) (data_store sig (Some i) page count (m_devs st))"
| "m_step emit (MStatsShow sig i) st =
     map_option (\<lambda>(devs, out, r). (st\<lparr>m_devs := devs\<rparr>, out, r)) (stats_show emit sig (Some i) (m_devs st))"
| "m_step emit (MResetStore sig i count) st =
     map_option (\<lambda>(devs, r). (st\<lparr>m_devs := devs\<rparr>, [], r)) (reset_store sig (Some i) count (m_devs st))"

fun m_run :: "emit \<Rightarrow> mop list \<Rightarrow> msys \<Rightarrow> msys option" where
  "m_run emit [] st = Some st"
| "m_run emit (c # cs) st = do { (st', out, r) \<leftarrow> m_step emit c st; m_run emit cs st' }"

text \<open>
  What the kernel guarantees of a call: a known descriptor, an existing device, a count
  within \<open>MAX_RW_COUNT\<close>, an attribute page as long as the count.
\<close>

fun mop_ok :: "mop \<Rightarrow> msys \<Rightarrow> bool" where
  "mop_ok (MOpen i) st \<longleftrightarrow> i < 2"
| "mop_ok (MClose fd) st \<longleftrightarrow> fd < length (m_files st)"
| "mop_ok (MRead fd u count) st \<longleftrightarrow> fd < length (m_files st) \<and> uaccess_ok u \<and> unat count \<le> 2147479552"
| "mop_ok (MWrite fd u count) st \<longleftrightarrow> fd < length (m_files st) \<and> uaccess_ok u \<and> unat count \<le> 2147479552"
| "mop_ok (MSeek fd u off whence) st \<longleftrightarrow> fd < length (m_files st)"
| "mop_ok (MDataShow sig i) st \<longleftrightarrow> i < 2"
| "mop_ok (MDataStore sig i page count) st \<longleftrightarrow> i < 2 \<and> unat count \<le> length page"
| "mop_ok (MStatsShow sig i) st \<longleftrightarrow> i < 2"
| "mop_ok (MResetStore sig i count) st \<longleftrightarrow> i < 2"

definition mfile_ok :: "mfile \<Rightarrow> bool" where
  "mfile_ok f \<longleftrightarrow> (\<forall>i. private_data f = Some i \<longrightarrow> i < 2) \<and> unat (f_pos f) \<le> 1024"

definition m_inv :: "msys \<Rightarrow> bool" where
  "m_inv st \<longleftrightarrow> mydevs_inv (m_devs st) \<and> (\<forall>f \<in> set (m_files st). mfile_ok f)"

text \<open>The device an operation works on.\<close>

fun m_target :: "mop \<Rightarrow> msys \<Rightarrow> nat option" where
  "m_target (MOpen i) st = None"
| "m_target (MClose fd) st = None"
| "m_target (MRead fd u count) st = private_data (m_files st ! fd)"
| "m_target (MWrite fd u count) st = private_data (m_files st ! fd)"
| "m_target (MSeek fd u off whence) st = private_data (m_files st ! fd)"
| "m_target (MDataShow sig i) st = Some i"
| "m_target (MDataStore sig i page count) st = Some i"
| "m_target (MStatsShow sig i) st = Some i"
| "m_target (MResetStore sig i count) st = Some i"

text \<open>
  A step that is defined, keeps the invariant, keeps the descriptors and touches no other
  device than its target.
\<close>

definition m_good :: "emit \<Rightarrow> mop \<Rightarrow> msys \<Rightarrow> bool" where
  "m_good emit c st \<longleftrightarrow> (\<exists>st' out r. m_step emit c st = Some (st', out, r) \<and> m_inv st' \<and>
     length (m_files st) \<le> length (m_files st') \<and>
     (\<forall>j < 2. m_target c st \<noteq> Some j \<longrightarrow> m_devs st' ! j = m_devs st ! j))"

lemma m_files_set: "\<forall>f \<in> set fs. mfile_ok f \<Longrightarrow> mfile_ok g \<Longrightarrow> \<forall>f \<in> set (fs[fd := g]). mfile_ok f"
  by (auto dest!: set_update_subset_insert [THEN subsetD])

lemma mfile_ok_pos: "mfile_ok f \<Longrightarrow> unat p \<le> 1024 \<Longrightarrow> mfile_ok (f\<lparr>f_pos := p\<rparr>)"
  by (simp add: mfile_ok_def)

lemma m_files_pos:
  "\<forall>f \<in> set fs. mfile_ok f \<Longrightarrow> fd < length fs \<Longrightarrow> unat p \<le> 1024 \<Longrightarrow>
     \<forall>f \<in> set (fs[fd := (fs ! fd)\<lparr>f_pos := p\<rparr>]). mfile_ok f"
  by (intro m_files_set mfile_ok_pos) simp_all

lemma vfs_ok_file: "mfile_ok f \<Longrightarrow> unat count \<le> 2147479552 \<Longrightarrow> vfs_ok count (f_pos f)"
  by (intro vfs_ok_small) (simp_all add: mfile_ok_def)

text \<open>Each file operation ends with a good device array and a good position.\<close>

lemma mydev_read_good:
  assumes "mydevs_inv devs" and "i < 2" and "unat pos \<le> 1024"
  shows "\<exists>pos' out r. mydev_read (Some i) u count pos devs = Some (devs, pos', out, r) \<and> unat pos' \<le> 1024"
proof (cases "unat (md_len (devs ! i)) \<le> unat pos")
  case True
  then show ?thesis using mydev_read_run [OF assms(1,2), of u count pos] assms(3) by auto
next
  case False
  have "unat (md_len (devs ! i)) \<le> 1024" using mydevs_inv_get(2) [OF assms(1,2)] mydev_okD(3) by blast
  then have "unat pos + read_span (devs ! i) count pos \<le> 1024" using False by (simp add: read_span_def)
  then have "unat (pos + word_of_nat (read_span (devs ! i) count pos)) \<le> 1024"
    by (subst unat_add_small) simp_all
  then show ?thesis using mydev_read_run [OF assms(1,2), of u count pos] assms(3) False
    by (auto simp: Let_def)
qed

lemma mydev_write_good:
  assumes "mydevs_inv devs" and "i < 2" and "vfs_ok count pos" and "uaccess_ok u" and "unat pos \<le> 1024"
  shows "\<exists>devs' pos' r. mydev_write (Some i) u count pos devs = Some (devs', pos', r) \<and>
    mydevs_inv devs' \<and> unat pos' \<le> 1024 \<and> (\<forall>j. j \<noteq> i \<longrightarrow> devs' ! j = devs ! j)"
proof -
  note run = mydev_write_run [OF assms(1-4)]
  obtain devs' pos' r where w: "mydev_write (Some i) u count pos devs = Some (devs', pos', r)"
    using run by (auto simp: Let_def split: if_splits)
  have "unat pos' \<le> 1024"
    using w run assms(5) unat_after_write [of pos count] write_span_bound [of pos count]
    by (auto simp: Let_def not_le split: if_splits)
  moreover have "\<forall>j. j \<noteq> i \<longrightarrow> devs' ! j = devs ! j" using w run by (auto simp: Let_def split: if_splits)
  ultimately show ?thesis using w mydev_write_keeps [OF assms(1-4) w] by blast
qed

lemma mydev_llseek_good:
  assumes "mydevs_inv devs" and "mfile_ok f"
  shows "\<exists>f' r. mydev_llseek u f off whence devs = Some (devs, f', r) \<and> mfile_ok f'"
proof (cases "private_data f")
  case None
  then show ?thesis using assms(2) by (simp add: mydev_llseek_def)
next
  case (Some i)
  then have i: "i < 2" and p: "unat (f_pos f) \<le> 1024" using assms(2) by (simp_all add: mfile_ok_def)
  have "mfile_ok (f\<lparr>f_pos := word_of_int t\<rparr>)" if "\<not> (t < 0 \<or> 1024 < t)" for t
  proof -
    have "0 \<le> t" and "t \<le> 1024" using that by auto
    then obtain n where "t = int n" "n \<le> 1024" by (auto elim!: nonneg_int_cases)
    then have "unat (word_of_int t :: loff_t) \<le> 1024" by (simp add: unat_of_nat_small)
    then show ?thesis using assms(2) by (intro mfile_ok_pos)
  qed
  then show ?thesis using mydev_llseek_run [OF assms(1) Some i p, of u off whence] assms(2)
    by (auto split: option.splits)
qed

lemma data_store_good:
  assumes "mydevs_inv devs" and "i < 2" and "unat count \<le> length page"
  shows "\<exists>devs' r. data_store sig (Some i) page count devs = Some (devs', r) \<and> mydevs_inv devs' \<and>
    (\<forall>j. j \<noteq> i \<longrightarrow> devs' ! j = devs ! j)"
proof (cases sig)
  case True
  then show ?thesis using assms(1) by (simp add: data_store_def)
next
  case False
  let ?n = "min (unat count) 1024" and ?d = "devs ! i"
  have u: "unat (word_of_nat ?n :: size_t) = ?n" by (rule unat_of_nat_small) simp
  have "mydev_ok (?d\<lparr>md_buf := overlay 0 (take ?n page) (md_buf ?d), md_len := word_of_nat ?n\<rparr>)"
    using mydevs_inv_get(2) [OF assms(1,2)] assms(3) u by (simp add: mydev_ok_def del: of_nat_min)
  then have "mydevs_inv (devs[i := ?d\<lparr>md_buf := overlay 0 (take ?n page) (md_buf ?d), md_len := word_of_nat ?n\<rparr>])"
    by (rule mydevs_inv_set [OF assms(1)])
  then show ?thesis using False data_store_run [OF assms] by (simp add: Let_def del: of_nat_min)
qed

lemma reset_store_good:
  assumes "mydevs_inv devs" and "i < 2"
  shows "\<exists>devs' r. reset_store sig (Some i) count devs = Some (devs', r) \<and> mydevs_inv devs' \<and>
    (\<forall>j. j \<noteq> i \<longrightarrow> devs' ! j = devs ! j)"
proof (cases sig)
  case True
  then show ?thesis using assms(1) by (simp add: reset_store_def)
next
  case False
  have "mydev_ok mydev_fresh" by (simp add: mydev_ok_def mydev_fresh_def)
  then show ?thesis using False reset_store_run [OF assms, of count] mydevs_inv_set [OF assms(1)] by simp
qed

lemma show_good:
  assumes "mydevs_inv devs" and "i < 2"
  shows "\<exists>out r. data_show emit sig (Some i) devs = Some (devs, out, r)"
    and "\<exists>out r. stats_show emit sig (Some i) devs = Some (devs, out, r)"
proof -
  note get = mydevs_inv_get [OF assms]
  have set: "arr_set devs (int i) (devs ! i) = Some devs" using get(3) by (simp add: mem_simps)
  show "\<exists>out r. data_show emit sig (Some i) devs = Some (devs, out, r)"
    and "\<exists>out r. stats_show emit sig (Some i) devs = Some (devs, out, r)"
    using get(1) mydev_okD(1) [OF get(2)] set by (simp_all add: data_show_def stats_show_def Let_def)
qed

lemma m_step_good:
  assumes "m_inv st" and "mop_ok c st"
  shows "m_good emit c st"
proof (cases c)
  case (MOpen i)
  then show ?thesis using assms by (auto simp: m_good_def mydev_open_def m_inv_def mfile_ok_def)
next
  case (MClose fd)
  then have fd: "fd < length (m_files st)" and files: "\<forall>f \<in> set (m_files st). mfile_ok f"
    using assms by (simp_all add: m_inv_def)
  then have "mfile_ok ((m_files st ! fd)\<lparr>private_data := None\<rparr>)" by (simp add: mfile_ok_def)
  then show ?thesis using MClose fd assms(1) m_files_set [OF files]
    by (simp add: m_good_def mydev_release_def m_inv_def mem_simps)
next
  case (MRead fd u count)
  then have fd: "fd < length (m_files st)" and inv: "mydevs_inv (m_devs st)"
    and files: "\<forall>f \<in> set (m_files st). mfile_ok f" using assms by (simp_all add: m_inv_def)
  have f: "mfile_ok (m_files st ! fd)" using fd files by simp
  show ?thesis
  proof (cases "private_data (m_files st ! fd)")
    case None
    then show ?thesis using MRead fd assms(1) by (simp add: m_good_def mem_simps mydev_read_def)
  next
    case (Some i)
    then have "i < 2" and "unat (f_pos (m_files st ! fd)) \<le> 1024" using f by (simp_all add: mfile_ok_def)
    then obtain pos' out r where "mydev_read (Some i) u count (f_pos (m_files st ! fd)) (m_devs st)
        = Some (m_devs st, pos', out, r)" and "unat pos' \<le> 1024"
      using mydev_read_good [OF inv] by blast
    then show ?thesis using MRead Some fd inv m_files_pos [OF files fd]
      by (simp add: m_good_def mem_simps m_inv_def)
  qed
next
  case (MWrite fd u count)
  then have fd: "fd < length (m_files st)" and inv: "mydevs_inv (m_devs st)"
    and files: "\<forall>f \<in> set (m_files st). mfile_ok f" using assms by (simp_all add: m_inv_def)
  have f: "mfile_ok (m_files st ! fd)" using fd files by simp
  show ?thesis
  proof (cases "private_data (m_files st ! fd)")
    case None
    then show ?thesis using MWrite fd assms(1) by (simp add: m_good_def mem_simps mydev_write_def)
  next
    case (Some i)
    then have i: "i < 2" and pos: "unat (f_pos (m_files st ! fd)) \<le> 1024" using f by (simp_all add: mfile_ok_def)
    have v: "vfs_ok count (f_pos (m_files st ! fd))" using assms(2) MWrite by (intro vfs_ok_file [OF f]) simp
    have "uaccess_ok u" using assms(2) MWrite by simp
    then obtain devs' pos' r where "mydev_write (Some i) u count (f_pos (m_files st ! fd)) (m_devs st)
        = Some (devs', pos', r)" "mydevs_inv devs'" "unat pos' \<le> 1024" "\<forall>j. j \<noteq> i \<longrightarrow> devs' ! j = m_devs st ! j"
      using mydev_write_good [OF inv i v _ pos] by blast
    then show ?thesis using MWrite Some fd m_files_pos [OF files fd]
      by (simp add: m_good_def mem_simps m_inv_def)
  qed
next
  case (MSeek fd u off whence)
  then have fd: "fd < length (m_files st)" and inv: "mydevs_inv (m_devs st)"
    and files: "\<forall>f \<in> set (m_files st). mfile_ok f" using assms by (simp_all add: m_inv_def)
  have f: "mfile_ok (m_files st ! fd)" using fd files by simp
  obtain f' r where "mydev_llseek u (m_files st ! fd) off whence (m_devs st) = Some (m_devs st, f', r)" "mfile_ok f'"
    using mydev_llseek_good [OF inv f] by blast
  then show ?thesis using MSeek fd inv m_files_set [OF files]
    by (simp add: m_good_def mem_simps m_inv_def)
next
  case (MDataShow sig i)
  then show ?thesis using assms show_good(1) [of "m_devs st" i emit sig] by (auto simp: m_good_def m_inv_def)
next
  case (MDataStore sig i page count)
  then show ?thesis using assms data_store_good [of "m_devs st" i count page sig]
    by (auto simp: m_good_def m_inv_def)
next
  case (MStatsShow sig i)
  then show ?thesis using assms show_good(2) [of "m_devs st" i emit sig] by (auto simp: m_good_def m_inv_def)
next
  case (MResetStore sig i count)
  then show ?thesis using assms reset_store_good [of "m_devs st" i sig count]
    by (auto simp: m_good_def m_inv_def)
qed

text \<open>A whole run: the operations are admissible where they are issued.\<close>

fun m_run_ok :: "emit \<Rightarrow> mop list \<Rightarrow> msys \<Rightarrow> bool" where
  "m_run_ok emit [] st = True"
| "m_run_ok emit (c # cs) st \<longleftrightarrow> mop_ok c st \<and>
     (\<forall>st' out r. m_step emit c st = Some (st', out, r) \<longrightarrow> m_run_ok emit cs st')"

lemma m_run_good: "m_inv st \<Longrightarrow> m_run_ok emit cs st \<Longrightarrow> \<exists>st'. m_run emit cs st = Some st' \<and> m_inv st'"
proof (induction cs arbitrary: st)
  case Nil
  then show ?case by simp
next
  case (Cons c cs)
  then obtain st1 out r where 1: "m_step emit c st = Some (st1, out, r)" "m_inv st1"
    using m_step_good [of st c emit] by (auto simp: m_good_def)
  then have "m_run_ok emit cs st1" using Cons.prems(2) by simp
  then show ?case using 1 Cons.IH [OF 1(2)] by simp
qed

subsection \<open>Properties\<close>

definition m_boot :: msys where
  "m_boot = \<lparr>m_devs = replicate 2 mydev_fresh, m_files = []\<rparr>"

lemma m_boot_inv: "m_inv m_boot"
  by (simp add: m_inv_def m_boot_def mydevs_fresh_inv)

lemma page_emit_ok: "emit_ok page_emit"
  by (simp add: emit_ok_def page_emit_def)

text \<open>C13: Every admissible sequence of opens, reads, writes, seeks, closes and attribute accesses
  on the two devices is defined: no access leaves a buffer, no lock is left held, every length
  and every file position stays within the 1024 bytes.\<close>

theorem mydev_run_safe:
  assumes "m_inv st" and "m_run_ok emit cs st"
  shows "\<exists>st'. m_run emit cs st = Some st' \<and> m_inv st'"
  by (rule m_run_good [OF assms])

theorem mydev_run_safe_witness:
  "\<exists>st'. m_run page_emit [MOpen 1, MOpen 0, MWrite 1 (user_mem [1, 2]) 2] m_boot = Some st' \<and> m_inv st'"
  by (rule mydev_run_safe [OF m_boot_inv]) (simp add: m_boot_def mydev_open_def Let_def mem_simps)

text \<open>The devices are independent: an operation leaves every device alone that it is not
  aimed at.\<close>

theorem mydev_isolated:
  assumes "m_inv st" and "mop_ok c st" and "m_step emit c st = Some (st', out, r)" and "j < 2"
    and "m_target c st \<noteq> Some j"
  shows "m_devs st' ! j = m_devs st ! j"
  using m_step_good [OF assms(1,2), of emit] assms(3-5) by (auto simp: m_good_def)

theorem mydev_isolated_witness:
  "\<exists>st' out r. m_step page_emit (MResetStore False 0 1) m_boot = Some (st', out, r) \<and>
     m_devs st' ! 1 = mydev_fresh"
proof -
  have ok: "mop_ok (MResetStore False 0 1) m_boot" by simp
  obtain st' out r where s: "m_step page_emit (MResetStore False 0 1) m_boot = Some (st', out, r)"
    using m_step_good [OF m_boot_inv ok, of page_emit] by (auto simp: m_good_def)
  have "m_devs st' ! 1 = m_devs m_boot ! 1" by (rule mydev_isolated [OF m_boot_inv ok s]) simp_all
  then show ?thesis using s by (auto simp: m_boot_def)
qed

text \<open>What a write to a device reports as written is what a read of as many bytes at the same
  position returns.\<close>

theorem mydev_write_read:
  assumes "mydevs_inv devs" and "i < 2" and "uaccess_ok u" and "vfs_ok len off"
    and "mydev_write (Some i) u len off devs = Some (devs', off', Inr n)" and "ready v"
  shows "mydev_read (Some i) v n off devs' = Some (devs', off', snd (ucfu u (unat n)), Inr n)"
  by (rule mydev_rw.write_read_back [OF _ assms(3-6)]) (use assms(1,2) in simp)

theorem mydev_write_read_witness:
  "\<exists>devs off. mydev_write (Some 1) (user_mem [1, 2, 3]) 3 1022 (replicate 2 mydev_fresh) = Some (devs, off, Inr 2) \<and>
     mydev_read (Some 1) (user_mem []) 2 1022 devs = Some (devs, off, [1, 2], Inr 2)"
proof -
  have v: "vfs_ok 3 1022" by (simp add: vfs_ok_def)
  have n: "write_span 3 1022 = 2" by (simp add: write_span_def)
  obtain devs off where w: "mydev_write (Some 1) (user_mem [1, 2, 3]) 3 1022 (replicate 2 mydev_fresh)
      = Some (devs, off, Inr 2)"
    using mydev_write_run [OF mydevs_fresh_inv _ v user_mem_ok, of 1 "[1, 2, 3]"] n by (simp add: Let_def)
  show ?thesis using w mydev_write_read [OF mydevs_fresh_inv _ user_mem_ok v w ready_user_mem, of "[]"]
    by simp
qed

text \<open>C18: Seeking lands on the integer the arguments name, counted from the start, the current
  position or the end, exactly when it lies between 0 and 1024; else the position does not move
  and the call fails with \<open>EINVAL\<close>. Sums that wrap at 64 bits cannot slip through.\<close>

theorem mydev_llseek_exact:
  fixes whence :: int
  assumes "mydevs_inv devs" and "private_data filp = Some i" and "i < 2" and "unat (f_pos filp) \<le> 1024"
    and "\<not> intr u"
  defines "base \<equiv> (if whence = 0 then Some 0 else if whence = 1 then Some (uint (f_pos filp))
                   else if whence = 2 then Some (uint (md_len (devs ! i))) else None)"
  shows "mydev_llseek u filp off whence devs = Some (
     case base of
       None \<Rightarrow> (devs, filp, Inl EINVAL)
     | Some b \<Rightarrow>
         if 0 \<le> b + sint off \<and> b + sint off \<le> 1024
         then (devs, filp\<lparr>f_pos := word_of_int (b + sint off)\<rparr>, Inr (word_of_int (b + sint off)))
         else (devs, filp, Inl EINVAL))"
proof -
  have "seek_target filp off whence (devs ! i) = map_option (\<lambda>b. b + sint off) base"
    by (simp add: seek_target_def base_def)
  then show ?thesis using mydev_llseek_run [OF assms(1-4), of u off whence] assms(5)
    by (cases base) (auto simp: not_le not_less)
qed

theorem mydev_llseek_exact_witness:
  "mydev_llseek (user_mem []) \<lparr>private_data = Some 0, f_pos = 1000\<rparr> (- 1001) 1 (replicate 2 mydev_fresh)
     = Some (replicate 2 mydev_fresh, \<lparr>private_data = Some 0, f_pos = 1000\<rparr>, Inl EINVAL)"
  using mydev_llseek_exact [where devs = "replicate 2 mydev_fresh" and filp = "\<lparr>private_data = Some 0, f_pos = 1000\<rparr>"
      and i = 0 and u = "user_mem []" and whence = 1 and off = "- 1001"]
  mydevs_fresh_inv by simp

text \<open>Text stored through the attribute \<open>data\<close> is what the attribute shows, with a newline
  behind it, and what a read of the device returns; a text without NUL that fits the buffer.\<close>

theorem data_store_show:
  assumes "mydevs_inv devs" and "i < 2" and "emit_ok emit" and "ready u" and "length text \<le> 1024"
    and "0 \<notin> set text"
    and "data_store False (Some i) text (word_of_nat (length text)) devs = Some (devs', r)"
  shows "data_show emit False (Some i) devs' = Some (devs', text @ [10], Inr (word_of_nat (length text + 1))) \<and>
     mydev_read (Some i) u 1024 0 devs' = Some (devs', word_of_nat (length text), text, Inr (word_of_nat (length text)))"
proof -
  have n: "unat (word_of_nat (length text) :: size_t) = length text"
    using assms(5) by (intro unat_of_nat_small) simp
  then have cnt: "unat (word_of_nat (length text) :: size_t) \<le> length text" and m: "min (length text) 1024 = length text"
    using assms(5) by simp_all
  have inv: "mydevs_inv devs'"
    using data_store_good [OF assms(1,2) cnt, of False] assms(7) by auto
  have "devs' ! i = (devs ! i)\<lparr>md_buf := overlay 0 text (md_buf (devs ! i)), md_len := word_of_nat (length text)\<rparr>"
    using data_store_run [OF assms(1,2) cnt] assms(7) mydevs_inv_get(3) [OF assms(1,2)] by (auto simp: n m Let_def)
  then have c: "mydev_contents (devs' ! i) = text"
    using n by (simp add: mydev_contents_def overlay_def)
  have nul: "takeWhile (\<lambda>b. b \<noteq> 0) text = text" using assms(6) by (auto simp: takeWhile_eq_all_conv)
  have v: "vfs_ok 1024 0" by (simp add: vfs_ok_def)
  have "take (unat (1024 :: size_t)) (drop (unat (0 :: loff_t)) text) = text" using assms(5) by simp
  then have "mydev_read (Some i) u 1024 0 devs' = Some (devs', word_of_nat (length text), text, Inr (word_of_nat (length text)))"
    using mydev_rw.rd_ok [of devs' i u 1024 0] inv assms(2,4) v by (simp add: c Let_def del: unsigned_numeral)
  then show ?thesis using data_show_run [OF inv assms(2,3)] by (simp only: c nul)
qed

theorem data_store_show_witness:
  "\<exists>devs r. data_store False (Some 0) [104, 105] 2 (replicate 2 mydev_fresh) = Some (devs, r) \<and>
     data_show page_emit False (Some 0) devs = Some (devs, [104, 105, 10], Inr 3)"
proof -
  obtain devs r where s: "data_store False (Some 0) [104, 105] 2 (replicate 2 mydev_fresh) = Some (devs, r)"
    using data_store_good [OF mydevs_fresh_inv, of 0 2 "[104, 105]" False] by auto
  show ?thesis
    using data_store_show [OF mydevs_fresh_inv _ page_emit_ok ready_user_mem, of 0 "[104, 105]" devs r "[]"] s by auto
qed

text \<open>C14: Loading with a failure at any of the thirteen registrations undoes exactly what was done
  before it, through the labels of the loop body and the roll-back loop, and any sequence of loads
  and unloads leaves nothing behind.\<close>

theorem mydev_module_balanced:
  "\<exists>l. module_session mydev_init mydev_exit es (False, h) = Some (l, if l then mydev_owned @ h else h)"
  using mydev_module.session_balanced [of es False h] by simp

text \<open>A write behind the end of the data shows the old bytes of the buffer in the gap: text that
  a shorter store has replaced can be read again. (Only the attribute \<open>reset\<close> clears the
  buffer.)\<close>

theorem mydev_gap_shows_old_bytes:
  assumes "mydevs_inv devs" and "i < 2" and "uaccess_ok u" and "vfs_ok len off"
    and "mydev_write (Some i) u len off devs = Some (devs', off', Inr n)"
    and "unat (md_len (devs ! i)) \<le> j" and "j < unat off"
  shows "j < length (mydev_contents (devs' ! i)) \<and> mydev_contents (devs' ! i) ! j = md_buf (devs ! i) ! j"
proof -
  let ?d = "devs ! i" and ?k = "write_span len off"
  note run = mydev_write_run [OF assms(1,2,4,3)]
  have off: "unat off < 1024" using assms(5) run by (auto simp: not_le Let_def split: if_splits)
  have blen: "length (md_buf ?d) = 1024" using mydevs_inv_get(2) [OF assms(1,2)] mydev_okD(2) by blast
  have d: "devs' ! i = ?d\<lparr>md_buf := overlay (unat off) (snd (ucfu u ?k)) (md_buf ?d),
      md_len := max (md_len ?d) (off + word_of_nat ?k)\<rparr>"
    using assms(5) run mydevs_inv_get(3) [OF assms(1,2)] by (auto simp: Let_def split: if_splits)
  have "unat off \<le> unat (max (md_len ?d) (off + word_of_nat ?k))"
    using unat_after_write [OF off, of len] by (simp add: max_def word_le_nat_alt)
  then show ?thesis using assms(3,7) off blen write_span_bound [OF off, of len]
    by (simp add: d mydev_contents_def nth_overlay)
qed

theorem mydev_gap_shows_old_bytes_witness:
  "\<exists>devs devs' off. data_store False (Some 0) [115, 101, 99] 3 (replicate 2 mydev_fresh) = Some (devs, Inr 3) \<and>
     (\<exists>devs1. data_store False (Some 0) [120] 1 devs = Some (devs1, Inr 1) \<and>
        mydev_write (Some 0) (user_mem [33]) 1 3 devs1 = Some (devs', off, Inr 1) \<and>
        mydev_contents (devs' ! 0) ! 2 = 99)"
proof -
  obtain devs where s1: "data_store False (Some 0) [115, 101, 99] 3 (replicate 2 mydev_fresh) = Some (devs, Inr 3)"
    and d: "devs ! 0 = mydev_fresh\<lparr>md_buf := overlay 0 [115, 101, 99] (md_buf mydev_fresh), md_len := 3\<rparr>"
    and i1: "mydevs_inv devs"
    using data_store_run [OF mydevs_fresh_inv, of 0 3 "[115, 101, 99]"]
      data_store_good [OF mydevs_fresh_inv, of 0 3 "[115, 101, 99]" False] by (auto simp: Let_def)
  obtain devs1 where s2: "data_store False (Some 0) [120] 1 devs = Some (devs1, Inr 1)"
    and d1: "devs1 ! 0 = (devs ! 0)\<lparr>md_buf := overlay 0 [120] (md_buf (devs ! 0)), md_len := 1\<rparr>"
    and i2: "mydevs_inv devs1"
    using data_store_run [OF i1, of 0 1 "[120]"] mydevs_inv_get(3) [OF i1, of 0]
      data_store_good [OF i1, of 0 1 "[120]" False] by (auto simp: Let_def)
  have v: "vfs_ok 1 3" by (simp add: vfs_ok_def)
  have "write_span 1 3 = 1" by (simp add: write_span_def)
  then obtain devs' off where w: "mydev_write (Some 0) (user_mem [33]) 1 3 devs1 = Some (devs', off, Inr 1)"
    using mydev_write_run [OF i2 _ v user_mem_ok, of 0 "[33]"] by (auto simp: Let_def)
  have "mydev_contents (devs' ! 0) ! 2 = md_buf (devs1 ! 0) ! 2"
    using mydev_gap_shows_old_bytes [OF i2 _ user_mem_ok v w, of 2] by (simp add: d1)
  also have "\<dots> = 99" by (simp add: d1 d mydev_fresh_def overlay_def)
  finally show ?thesis using s1 s2 w by blast
qed

end
