(* ===== verification/MultiDevConcurrency.thy ===== *)
theory MultiDevConcurrency
  imports MultiDev LockedCalls
begin

section \<open>The two-device driver used by several processes at the same time\<close>

text \<open>
  \<open>010_multi_char_driver/driver.c\<close> again, statement by statement: reads, writes, seeks and attribute
  accesses run in any number of processes on the two devices, each of which has a mutex. Copies go
  byte by byte. Until the lock is taken a call looks only at its arguments: the device is
  \<open>NULL\<close>, or a signal comes while it waits. Between lock and unlock it executes \<open>m_body\<close>.

  The file position is an argument and a result of a call. (Whoever shares an open file waits for
  the position lock of the VFS, so no two of these calls have the same position at the same time.)
  The handlers of MultiDev are what the statements are compared with: \<open>m_call\<close> is the
  handler on an array of one device.
\<close>

datatype mreq =
    QRead uenv size_t loff_t
  | QWrite uenv size_t loff_t
  | QSeek uenv loff_t loff_t int
  | QShow emit bool
  | QStore bool "byte list" size_t
  | QStats emit bool
  | QReset bool size_t

text \<open>A call has the pointer to its device; its result is the position, the bytes delivered and the return value.\<close>

type_synonym mcall = "nat option \<times> mreq"
type_synonym mres = "loff_t \<times> byte list \<times> ret"

definition m_dev :: "mcall \<Rightarrow> nat" where
  "m_dev c = (case fst c of Some i \<Rightarrow> i | None \<Rightarrow> 0)"

fun m_pos :: "mreq \<Rightarrow> loff_t" where
  "m_pos (QRead u n pos) = pos"
| "m_pos (QWrite u n pos) = pos"
| "m_pos (QSeek u fpos off whence) = fpos"
| "m_pos _ = 0"

fun m_signal :: "mreq \<Rightarrow> bool" where
  "m_signal (QRead u n pos) = intr u"
| "m_signal (QWrite u n pos) = intr u"
| "m_signal (QSeek u fpos off whence) = intr u"
| "m_signal (QShow emit sig) = sig"
| "m_signal (QStore sig page n) = sig"
| "m_signal (QStats emit sig) = sig"
| "m_signal (QReset sig n) = sig"

definition m_early :: "mcall \<Rightarrow> mres option" where
  "m_early c =
     (if fst c = None then Some (m_pos (snd c), [], Inl EINVAL)
      else if m_signal (snd c) then Some (m_pos (snd c), [], Inl ERESTARTSYS)
      else None)"

subsection \<open>The statements between lock and unlock\<close>

datatype mstmt =
    RTest uenv size_t loff_t | RClamp uenv size_t loff_t | RCopy uenv size_t loff_t nat "byte list"
  | WTest uenv size_t loff_t | WClamp uenv size_t loff_t | WCopy uenv size_t loff_t nat
  | WLen size_t loff_t | WLenSet size_t loff_t
  | KSwitch loff_t loff_t int | KTest loff_t loff_t
  | SLen emit | SText emit int nat "byte list"
  | TClamp "byte list" size_t | TCopy "byte list" size_t nat | TLen size_t
  | PLen emit
  | ZLen size_t | ZFill size_t nat

fun m_entry_req :: "mreq \<Rightarrow> mstmt" where
  "m_entry_req (QRead u n pos) = RTest u n pos"
| "m_entry_req (QWrite u n pos) = WTest u n pos"
| "m_entry_req (QSeek u fpos off whence) = KSwitch fpos off whence"
| "m_entry_req (QShow emit sig) = SLen emit"
| "m_entry_req (QStore sig page n) = TClamp page n"
| "m_entry_req (QStats emit sig) = PLen emit"
| "m_entry_req (QReset sig n) = ZLen n"

definition m_entry :: "mcall \<Rightarrow> mstmt" where
  "m_entry c = m_entry_req (snd c)"

fun m_body :: "(mydev, mstmt, mres) body" where
  "m_body (RTest u n pos) d =
     Some (d, if md_len d \<le> pos then Ret (pos, [], Inr 0) else Goto (RClamp u n pos))"
| "m_body (RClamp u n pos) d =
     Some (d, Goto (RCopy u (if md_len d - pos < n then md_len d - pos else n) pos 0 []))"
| "m_body (RCopy u n pos k out) d =
     (if k < copied u n
      then map_option (\<lambda>b. (d, Goto (RCopy u n pos (Suc k) (out @ [b])))) (arr_get (md_buf d) (sint pos + int k))
      else Some (d, Ret (if uctu u (unat n) \<noteq> 0 then (pos, out, Inl EFAULT) else (pos + n, out, Inr n))))"
| "m_body (WTest u n pos) d =
     Some (d, if 1024 \<le> sint pos then Ret (pos, [], Inl ENOSPC) else Goto (WClamp u n pos))"
| "m_body (WClamp u n pos) d = Some (d, Goto (WCopy u (if 1024 - pos < n then 1024 - pos else n) pos 0))"
| "m_body (WCopy u n pos k) d =
     (if k < length (fetch u n)
      then map_option (\<lambda>buf. (d\<lparr>md_buf := buf\<rparr>, Goto (WCopy u n pos (Suc k))))
             (arr_set (md_buf d) (sint pos + int k) (fetch u n ! k))
      else Some (d, if fst (ucfu u (unat n)) \<noteq> 0 then Ret (pos, [], Inl EFAULT) else Goto (WLen n (pos + n))))"
| "m_body (WLen n pos) d = Some (d, if md_len d < pos then Goto (WLenSet n pos) else Ret (pos, [], Inr n))"
| "m_body (WLenSet n pos) d = Some (d\<lparr>md_len := pos\<rparr>, Ret (pos, [], Inr n))"
| "m_body (KSwitch fpos off whence) d =
     Some (d,
       if whence = 0 then Goto (KTest fpos off)
       else if whence = 1 then Goto (KTest fpos (fpos + off))
       else if whence = 2 then Goto (KTest fpos (md_len d + off))
       else Ret (fpos, [], Inl EINVAL))"
| "m_body (KTest fpos p) d =
     Some (d, Ret (if sint p < 0 \<or> 1024 < sint p then (fpos, [], Inl EINVAL) else (p, [], Inr p)))"
| "m_body (SLen emit) d = Some (d, Goto (SText emit (sint (ucast (md_len d) :: cint)) 0 []))"
| "m_body (SText emit prec k out) d =
     (let last = (let t = emit (out @ [10]) in Some (d, Ret (0, t, Inr (word_of_nat (length t))))) in
      if 0 \<le> prec \<and> prec \<le> int k then last
      else do {
        b \<leftarrow> arr_get (md_buf d) (int k);
        (if b = 0 then last else Some (d, Goto (SText emit prec (Suc k) (out @ [b]))))
      })"
| "m_body (TClamp page n) d = Some (d, Goto (TCopy page (if 1024 < n then 1024 else n) 0))"
| "m_body (TCopy page n k) d =
     (if k < unat n
      then do {
        b \<leftarrow> arr_get page (int k);
        buf \<leftarrow> arr_set (md_buf d) (int k) b;
        Some (d\<lparr>md_buf := buf\<rparr>, Goto (TCopy page n (Suc k)))
      }
      else Some (d, Goto (TLen n)))"
| "m_body (TLen n) d = Some (d\<lparr>md_len := n\<rparr>, Ret (0, [], Inr n))"
| "m_body (PLen emit) d =
     (let t = emit ([108, 101, 110, 61] @ fmt_zu (unat (md_len d)) @ [10])
      in Some (d, Ret (0, t, Inr (word_of_nat (length t)))))"
| "m_body (ZLen n) d = Some (d\<lparr>md_len := 0\<rparr>, Goto (ZFill n 0))"
| "m_body (ZFill n k) d =
     (if k < 1024
      then map_option (\<lambda>buf. (d\<lparr>md_buf := buf\<rparr>, Goto (ZFill n (Suc k)))) (arr_set (md_buf d) (int k) 0)
      else Some (d, Ret (0, [], Inr n)))"

subsection \<open>The handlers of MultiDev\<close>

definition here :: "nat option \<Rightarrow> nat option" where
  "here pd = map_option (\<lambda>i. 0) pd"

fun m_call :: "mcall \<Rightarrow> mydev \<Rightarrow> (mydev \<times> mres) option" where
  "m_call (pd, QRead u n pos) d =
     map_option (\<lambda>(devs, pos, out, r). (hd devs, pos, out, r)) (mydev_read (here pd) u n pos [d])"
| "m_call (pd, QWrite u n pos) d =
     map_option (\<lambda>(devs, pos, r). (hd devs, pos, [], r)) (mydev_write (here pd) u n pos [d])"
| "m_call (pd, QSeek u fpos off whence) d =
     map_option (\<lambda>(devs, f, r). (hd devs, f_pos f, [], r))
       (mydev_llseek u \<lparr>private_data = here pd, f_pos = fpos\<rparr> off whence [d])"
| "m_call (pd, QShow emit sig) d =
     map_option (\<lambda>(devs, out, r). (hd devs, 0, out, r)) (data_show emit sig (here pd) [d])"
| "m_call (pd, QStore sig page n) d =
     map_option (\<lambda>(devs, r). (hd devs, 0, [], r)) (data_store sig (here pd) page n [d])"
| "m_call (pd, QStats emit sig) d =
     map_option (\<lambda>(devs, out, r). (hd devs, 0, out, r)) (stats_show emit sig (here pd) [d])"
| "m_call (pd, QReset sig n) d =
     map_option (\<lambda>(devs, r). (hd devs, 0, [], r)) (reset_store sig (here pd) n [d])"

text \<open>What the kernel guarantees of a call.\<close>

fun m_req_ok :: "mreq \<Rightarrow> bool" where
  "m_req_ok (QRead u n pos) \<longleftrightarrow> uaccess_ok u \<and> vfs_ok n pos"
| "m_req_ok (QWrite u n pos) \<longleftrightarrow> uaccess_ok u \<and> vfs_ok n pos"
| "m_req_ok (QStore sig page n) \<longleftrightarrow> unat n \<le> length page"
| "m_req_ok _ = True"

definition m_call_ok :: "mcall \<Rightarrow> bool" where
  "m_call_ok c \<longleftrightarrow> m_dev c < 2 \<and> m_req_ok (snd c)"

text \<open>The rest of a handler, from a statement on, and how many statements that are at most.\<close>

definition after_write :: "uenv \<Rightarrow> size_t \<Rightarrow> loff_t \<Rightarrow> mydev \<Rightarrow> mydev \<times> mres" where
  "after_write u n pos d =
     (if fst (ucfu u (unat n)) \<noteq> 0 then (d, pos, [], Inl EFAULT)
      else (if md_len d < pos + n then d\<lparr>md_len := pos + n\<rparr> else d, pos + n, [], Inr n))"

definition emitted :: "emit \<Rightarrow> byte list \<Rightarrow> mres" where
  "emitted emit out = (let t = emit (out @ [10]) in (0, t, Inr (word_of_nat (length t))))"

definition read_rest :: "uenv \<Rightarrow> size_t \<Rightarrow> loff_t \<Rightarrow> nat \<Rightarrow> byte list \<Rightarrow> mydev \<Rightarrow> (mydev \<times> mres) option" where
  "read_rest u n pos k out d =
     map_option (\<lambda>src. (d, if uctu u (unat n) \<noteq> 0 then (pos, out @ drop k (take (copied u n) src), Inl EFAULT)
                           else (pos + n, out @ drop k src, Inr n)))
       (mem_read (md_buf d) (sint pos) (unat n))"

definition write_rest :: "uenv \<Rightarrow> size_t \<Rightarrow> loff_t \<Rightarrow> nat \<Rightarrow> mydev \<Rightarrow> (mydev \<times> mres) option" where
  "write_rest u n pos k d =
     map_option (\<lambda>buf. after_write u n pos (d\<lparr>md_buf := buf\<rparr>))
       (mem_write (md_buf d) (sint pos + int k) (drop k (fetch u n)))"

definition seek_rest :: "loff_t \<Rightarrow> loff_t \<Rightarrow> mydev \<Rightarrow> (mydev \<times> mres) option" where
  "seek_rest fpos p d = Some (d, if sint p < 0 \<or> 1024 < sint p then (fpos, [], Inl EINVAL) else (p, [], Inr p))"

definition text_rest :: "emit \<Rightarrow> int \<Rightarrow> nat \<Rightarrow> byte list \<Rightarrow> mydev \<Rightarrow> (mydev \<times> mres) option" where
  "text_rest emit prec k out d =
     (if 0 \<le> prec \<and> nat prec \<le> length (md_buf d)
      then Some (d, emitted emit (out @ takeWhile (\<lambda>b. b \<noteq> 0) (drop k (take (nat prec) (md_buf d))))) else None)"

definition store_rest :: "byte list \<Rightarrow> size_t \<Rightarrow> nat \<Rightarrow> mydev \<Rightarrow> (mydev \<times> mres) option" where
  "store_rest page n k d =
     do {
       src \<leftarrow> mem_read page 0 (unat n);
       buf \<leftarrow> mem_write (md_buf d) (int k) (drop k src);
       Some (d\<lparr>md_buf := buf, md_len := n\<rparr>, 0, [], Inr n)
     }"

definition fill_rest :: "size_t \<Rightarrow> nat \<Rightarrow> mydev \<Rightarrow> (mydev \<times> mres) option" where
  "fill_rest n k d =
     map_option (\<lambda>buf. (d\<lparr>md_buf := buf\<rparr>, 0, [], Inr n)) (mem_write (md_buf d) (int k) (replicate (1024 - k) 0))"

fun m_rest :: "mstmt \<Rightarrow> mydev \<Rightarrow> (mydev \<times> mres) option" where
  "m_rest (RTest u n pos) d =
     (if md_len d \<le> pos then Some (d, pos, [], Inr 0)
      else read_rest u (if md_len d - pos < n then md_len d - pos else n) pos 0 [] d)"
| "m_rest (RClamp u n pos) d = read_rest u (if md_len d - pos < n then md_len d - pos else n) pos 0 [] d"
| "m_rest (RCopy u n pos k out) d = read_rest u n pos k out d"
| "m_rest (WTest u n pos) d =
     (if 1024 \<le> sint pos then Some (d, pos, [], Inl ENOSPC)
      else write_rest u (if 1024 - pos < n then 1024 - pos else n) pos 0 d)"
| "m_rest (WClamp u n pos) d = write_rest u (if 1024 - pos < n then 1024 - pos else n) pos 0 d"
| "m_rest (WCopy u n pos k) d = write_rest u n pos k d"
| "m_rest (WLen n pos) d = Some (if md_len d < pos then d\<lparr>md_len := pos\<rparr> else d, pos, [], Inr n)"
| "m_rest (WLenSet n pos) d = Some (d\<lparr>md_len := pos\<rparr>, pos, [], Inr n)"
| "m_rest (KSwitch fpos off whence) d =
     (if whence = 0 then seek_rest fpos off d
      else if whence = 1 then seek_rest fpos (fpos + off) d
      else if whence = 2 then seek_rest fpos (md_len d + off) d
      else Some (d, fpos, [], Inl EINVAL))"
| "m_rest (KTest fpos p) d = seek_rest fpos p d"
| "m_rest (SLen emit) d = text_rest emit (sint (ucast (md_len d) :: cint)) 0 [] d"
| "m_rest (SText emit prec k out) d = text_rest emit prec k out d"
| "m_rest (TClamp page n) d = store_rest page (if 1024 < n then 1024 else n) 0 d"
| "m_rest (TCopy page n k) d = store_rest page n k d"
| "m_rest (TLen n) d = Some (d\<lparr>md_len := n\<rparr>, 0, [], Inr n)"
| "m_rest (PLen emit) d =
     Some (d, let t = emit ([108, 101, 110, 61] @ fmt_zu (unat (md_len d)) @ [10]) in (0, t, Inr (word_of_nat (length t))))"
| "m_rest (ZLen n) d = fill_rest n 0 (d\<lparr>md_len := 0\<rparr>)"
| "m_rest (ZFill n k) d = fill_rest n k d"

fun m_left :: "mstmt \<Rightarrow> mydev \<Rightarrow> nat" where
  "m_left (RTest u n pos) d = unat n + 3"
| "m_left (RClamp u n pos) d = unat n + 2"
| "m_left (RCopy u n pos k out) d = unat n + 1 - k"
| "m_left (WTest u n pos) d = length (fetch u (if 1024 - pos < n then 1024 - pos else n)) + 5"
| "m_left (WClamp u n pos) d = length (fetch u (if 1024 - pos < n then 1024 - pos else n)) + 4"
| "m_left (WCopy u n pos k) d = length (fetch u n) - k + 3"
| "m_left (WLen n pos) d = 2"
| "m_left (WLenSet n pos) d = 1"
| "m_left (KSwitch fpos off whence) d = 1"
| "m_left (KTest fpos p) d = 0"
| "m_left (SLen emit) d = nat (sint (ucast (md_len d) :: cint)) + 1"
| "m_left (SText emit prec k out) d = nat prec - k"
| "m_left (TClamp page n) d = unat n + 3"
| "m_left (TCopy page n k) d = unat n - k + 2"
| "m_left (TLen n) d = 1"
| "m_left (PLen emit) d = 0"
| "m_left (ZLen n) d = 1025"
| "m_left (ZFill n k) d = 1024 - k"

subsection \<open>One statement leaves over the rest\<close>

definition step_ok :: "mstmt \<Rightarrow> mydev \<Rightarrow> mydev \<times> mres \<Rightarrow> bool" where
  "step_ok pc d w \<longleftrightarrow> (\<exists>d' nx. m_body pc d = Some (d', nx) \<and>
     (case nx of Goto q \<Rightarrow> m_rest q d' = Some w \<and> m_left q d' < m_left pc d | Ret r \<Rightarrow> w = (d', r)))"

lemma RCopy_step:
  assumes "read_rest u n pos k out d = Some w"
  shows "step_ok (RCopy u n pos k out) d w"
proof -
  obtain src where src: "mem_read (md_buf d) (sint pos) (unat n) = Some src" using assms by (auto simp: read_rest_def)
  show ?thesis
    using assms src copy_out_step [OF src, of k u] copy_out_end [OF src, of k u] copied_le [of u n]
    by (cases "k < copied u n") (auto simp: step_ok_def read_rest_def)
qed

lemma WCopy_step:
  assumes "write_rest u n pos k d = Some w"
  shows "step_ok (WCopy u n pos k) d w"
proof -
  obtain buf where buf: "mem_write (md_buf d) (sint pos + int k) (drop k (fetch u n)) = Some buf"
    "w = after_write u n pos (d\<lparr>md_buf := buf\<rparr>)" using assms by (auto simp: write_rest_def)
  show ?thesis
  proof (cases "k < length (fetch u n)")
    case True
    then show ?thesis using write_step [OF buf(1)] buf(2) by (auto simp: step_ok_def write_rest_def)
  next
    case False
    then have "buf = md_buf d" using buf(1) mem_write_end by auto
    then show ?thesis using False buf(2) by (auto simp: step_ok_def after_write_def)
  qed
qed

lemma SText_step:
  assumes "text_rest emit prec k out d = Some w"
  shows "step_ok (SText emit prec k out) d w"
proof -
  let ?t = "take (nat prec) (md_buf d)"
  have p: "0 \<le> prec" "nat prec \<le> length (md_buf d)"
    and w: "w = (d, emitted emit (out @ takeWhile (\<lambda>b. b \<noteq> 0) (drop k ?t)))"
    using assms by (auto simp: text_rest_def split: if_splits)
  show ?thesis
  proof (cases "prec \<le> int k")
    case True
    then show ?thesis using p w by (simp add: step_ok_def emitted_def Let_def nat_le_iff)
  next
    case False
    then have k: "k < nat prec" "k < length ?t" using p by simp_all
    then have g: "arr_get (md_buf d) (int k) = Some (?t ! k)" using p(2) by (simp add: mem_simps)
    have d: "drop k ?t = ?t ! k # drop (Suc k) ?t" by (rule drop_step [OF k(2)])
    show ?thesis
    proof (cases "?t ! k = 0")
      case True
      then show ?thesis using False p w g d by (simp add: step_ok_def emitted_def Let_def)
    next
      case nz: False
      have "text_rest emit prec (Suc k) (out @ [?t ! k]) d = Some w"
        using p w d nz by (simp add: text_rest_def)
      then show ?thesis using False p g nz k by (simp add: step_ok_def Let_def)
    qed
  qed
qed

lemma TCopy_step:
  assumes "store_rest page n k d = Some w"
  shows "step_ok (TCopy page n k) d w"
proof -
  obtain src buf where src: "mem_read page 0 (unat n) = Some src" and buf: "mem_write (md_buf d) (int k) (drop k src) = Some buf"
    and w: "w = (d\<lparr>md_buf := buf, md_len := n\<rparr>, 0, [], Inr n)"
    using assms by (auto simp: store_rest_def bind_eq_Some_conv)
  have l: "length src = unat n" by (rule mem_read_length [OF src])
  show ?thesis
  proof (cases "k < unat n")
    case True
    have g: "arr_get page (int k) = Some (src ! k)" using read_step [OF src True] by simp
    show ?thesis using write_step [of "md_buf d" 0 k src buf] True l buf src w g
      by (auto simp: step_ok_def store_rest_def)
  next
    case False
    then have "buf = md_buf d" using buf mem_write_end l by auto
    then show ?thesis using False w by (simp add: step_ok_def)
  qed
qed

lemma ZFill_step:
  assumes "fill_rest n k d = Some w"
  shows "step_ok (ZFill n k) d w"
proof -
  obtain buf where buf: "mem_write (md_buf d) (int k) (drop k (replicate 1024 0)) = Some buf"
    and w: "w = (d\<lparr>md_buf := buf\<rparr>, 0, [], Inr n)" using assms by (auto simp: fill_rest_def)
  show ?thesis
  proof (cases "k < 1024")
    case True
    then show ?thesis using write_step [of "md_buf d" 0 k "replicate 1024 0" buf] buf w
      by (auto simp: step_ok_def fill_rest_def)
  next
    case False
    then have "buf = md_buf d" using buf mem_write_end by auto
    then show ?thesis using False w by (simp add: step_ok_def)
  qed
qed

text \<open>The lengths the clamps leave over are not greater.\<close>

lemma clamped_le: "unat (if c < n then c else n :: size_t) \<le> unat n"
  by (simp add: word_less_nat_alt)

lemma body_step:
  assumes "m_rest pc d = Some w"
  shows "step_ok pc d w"
proof (cases pc)
  case (RTest u n pos)
  then show ?thesis using assms by (auto simp: step_ok_def)
next
  case (RClamp u n pos)
  then show ?thesis using assms clamped_le [of "md_len d - pos" n] by (auto simp: step_ok_def)
next
  case (TClamp page n)
  then show ?thesis using assms clamped_le [of 1024 n] by (auto simp: step_ok_def)
qed (use assms in \<open>auto simp: RCopy_step WCopy_step SText_step TCopy_step ZFill_step\<close>,
    (auto simp: step_ok_def seek_rest_def Let_def)?)

subsection \<open>The statements from the first on are the handler\<close>

lemma one_device: "arr_get [d] 0 = Some d" "arr_set [d] 0 d' = Some [d']"
  by (simp_all add: arr_get_def arr_set_def)

lemma m_call_read:
  "\<not> md_lock d \<Longrightarrow> \<not> intr u \<Longrightarrow> m_rest (RTest u n pos) d = m_call (Some i, QRead u n pos) d"
  by (auto simp: mydev_read_def here_def one_device read_rest_def copied_def Let_def bind_eq_Some_conv
      split: bind_splits intro!: option.expand)

lemma m_call_write:
  "\<not> md_lock d \<Longrightarrow> \<not> intr u \<Longrightarrow> m_rest (WTest u n pos) d = m_call (Some i, QWrite u n pos) d"
  by (auto simp: mydev_write_def here_def one_device write_rest_def fetch_def after_write_def Let_def split: bind_splits)

lemma m_call_seek:
  "\<not> md_lock d \<Longrightarrow> \<not> intr u \<Longrightarrow> m_rest (KSwitch fpos off whence) d = m_call (Some i, QSeek u fpos off whence) d"
  by (auto simp: mydev_llseek_def here_def one_device seek_rest_def Let_def)

lemma m_call_show:
  assumes "mydev_ok d"
  shows "m_rest (SLen emit) d = m_call (Some i, QShow emit False) d"
proof -
  have l: "unat (md_len d) \<le> 1024" by (rule mydev_okD(3) [OF assms])
  have u: "unat (ucast (md_len d) :: cint) = unat (md_len d)"
    using l by (simp add: unsigned_ucast_eq unsigned_take_bit_eq take_bit_nat_eq_self)
  then have s: "sint (ucast (md_len d) :: cint) = int (unat (md_len d))"
    using l sint_of_small [of "ucast (md_len d) :: cint"] by simp
  have "0 \<le> int (unat (md_len d)) \<and> nat (int (unat (md_len d))) \<le> length (md_buf d)"
    using l mydev_okD(2) [OF assms] by simp
  then show ?thesis using mydev_okD(1) [OF assms]
    by (simp add: data_show_def here_def one_device text_rest_def emitted_def fmt_prec_s_def s Let_def del: of_nat_unat)
qed

lemma m_call_store: "\<not> md_lock d \<Longrightarrow> m_rest (TClamp page n) d = m_call (Some i, QStore False page n) d"
  by (auto simp: data_store_def here_def one_device store_rest_def Let_def split: bind_splits)

lemma m_call_stats: "\<not> md_lock d \<Longrightarrow> m_rest (PLen emit) d = m_call (Some i, QStats emit False) d"
  by (simp add: stats_show_def here_def one_device Let_def)

lemma m_call_reset: "\<not> md_lock d \<Longrightarrow> m_rest (ZLen n) d = m_call (Some i, QReset False n) d"
  by (auto simp: reset_store_def here_def one_device fill_rest_def split: bind_splits)

lemma m_entry_call:
  assumes "m_early c = None" and "mydev_ok d"
  shows "m_rest (m_entry c) d = m_call c d"
proof -
  obtain i q where c: "c = (Some i, q)" "\<not> m_signal q"
    using assms(1) by (cases c; cases "fst c") (auto simp: m_early_def split: if_splits)
  have l: "\<not> md_lock d" by (rule mydev_okD(1) [OF assms(2)])
  show ?thesis
    using c(2) l m_call_read [of d] m_call_write [of d] m_call_seek [of d] m_call_show [OF assms(2)]
      m_call_store [OF l] m_call_stats [OF l] m_call_reset [OF l]
    by (cases q) (auto simp: c(1) m_entry_def simp del: m_rest.simps m_call.simps)
qed

lemma m_early_call: "m_early c = Some r \<Longrightarrow> m_call c d = Some (d, r)"
  by (cases c; cases "fst c"; cases "snd c")
    (auto simp: m_early_def here_def mydev_read_def mydev_write_def mydev_llseek_def data_show_def data_store_def
      stats_show_def reset_store_def split: if_splits)

text \<open>On an array of devices a handler does to the device it is called for what it does to that device alone.\<close>

lemma handlers_local:
  assumes "i < length devs"
  shows "mydev_read (Some i) u n pos devs = map_option (\<lambda>(d, pos, out, r). (devs[i := d], pos, out, r)) (m_call (Some i, QRead u n pos) (devs ! i))"
    and "mydev_write (Some i) u n pos devs = map_option (\<lambda>(d, pos, out, r). (devs[i := d], pos, r)) (m_call (Some i, QWrite u n pos) (devs ! i))"
    and "data_show emit sig (Some i) devs = map_option (\<lambda>(d, pos, out, r). (devs[i := d], out, r)) (m_call (Some i, QShow emit sig) (devs ! i))"
    and "data_store sig (Some i) page n devs = map_option (\<lambda>(d, pos, out, r). (devs[i := d], r)) (m_call (Some i, QStore sig page n) (devs ! i))"
    and "stats_show emit sig (Some i) devs = map_option (\<lambda>(d, pos, out, r). (devs[i := d], out, r)) (m_call (Some i, QStats emit sig) (devs ! i))"
    and "reset_store sig (Some i) n devs = map_option (\<lambda>(d, pos, out, r). (devs[i := d], r)) (m_call (Some i, QReset sig n) (devs ! i))"
  using assms
  by (auto simp: mydev_read_def mydev_write_def data_show_def data_store_def stats_show_def reset_store_def here_def
      one_device mem_simps Let_def split: bind_splits)

text \<open>Each handler is defined and keeps the device in order.\<close>

lemma twin: "mydev_ok d \<Longrightarrow> mydevs_inv [d, d]"
  by (simp add: mydevs_inv_def)

lemma m_call_sound:
  assumes "mydev_ok d" and "m_call_ok c"
  shows "\<exists>d' r. m_call c d = Some (d', r) \<and> mydev_ok d'"
proof (cases "m_early c")
  case (Some r)
  then show ?thesis using m_early_call assms(1) by blast
next
  case None
  then obtain i q where c: "c = (Some i, q)" "\<not> m_signal q"
    by (cases c; cases "fst c") (auto simp: m_early_def split: if_splits)
  have q: "m_req_ok q" using assms(2) c(1) by (simp add: m_call_ok_def)
  note t = twin [OF assms(1)]
  have same: "m_call (Some i, q) d = m_call (Some 0, q) d" by (cases q) (simp_all add: here_def)
  note loc = handlers_local [of 0 "[d, d]"]
  have keep: "mydev_ok e" if "mydevs_inv [e, d]" for e using that by (simp add: mydevs_inv_def)
  have "\<exists>d' r. m_call (Some 0, q) d = Some (d', r) \<and> mydev_ok d'"
  proof (cases q)
    case (QRead u n pos)
    obtain pos' out r where "mydev_read (Some 0) u n pos [d, d] = Some ([d, d], pos', out, r)"
      using mydev_read_run [OF t, of 0 u n pos] by (auto simp: Let_def split: if_splits)
    then show ?thesis using loc(1) [of u n pos] assms(1) QRead
      by (auto simp del: m_call.simps)
  next
    case (QWrite u n pos)
    then obtain devs pos' r where "mydev_write (Some 0) u n pos [d, d] = Some (devs, pos', r)" "mydevs_inv devs"
      using mydev_write_run [OF t, of 0 n pos u] mydev_write_keeps [OF t, of 0 n pos u] q
      by (auto simp: Let_def split: if_splits)
    then show ?thesis using loc(2) [of u n pos] keep QWrite by (auto simp del: m_call.simps)
  next
    case (QSeek u fpos off whence)
    then show ?thesis using assms(1) mydev_okD(1) [OF assms(1)]
      by (auto simp: mydev_llseek_def here_def one_device Let_def split: option.split)
  next
    case (QShow emit sig)
    then show ?thesis using show_good(1) [OF t, of 0 emit sig] loc(3) [of emit sig] assms(1)
      by (auto simp del: m_call.simps)
  next
    case (QStore sig page n)
    then show ?thesis using data_store_good [OF t, of 0 n page sig] q loc(4) [of sig page n] keep
      by (auto simp del: m_call.simps)
  next
    case (QStats emit sig)
    then show ?thesis using show_good(2) [OF t, of 0 emit sig] loc(5) [of emit sig] assms(1)
      by (auto simp del: m_call.simps)
  next
    case (QReset sig n)
    then show ?thesis using reset_store_good [OF t, of 0 sig n] loc(6) [of sig n] keep
      by (auto simp del: m_call.simps)
  qed
  then show ?thesis by (simp add: c(1) same del: m_call.simps)
qed

interpretation mydev_calls: ending_calls m_dev m_early m_entry m_body m_call m_rest mydev_ok m_call_ok m_left
proof unfold_locales
  fix c r d pc w d' q
  show "m_early c = Some r \<Longrightarrow> m_call_ok c \<Longrightarrow> mydev_ok d \<Longrightarrow> m_call c d = Some (d, r)" by (rule m_early_call)
  show "m_early c = None \<Longrightarrow> m_call_ok c \<Longrightarrow> mydev_ok d \<Longrightarrow> m_rest (m_entry c) d = m_call c d" by (rule m_entry_call)
  show "m_rest pc d = Some w \<Longrightarrow> m_body pc d = Some (d', Goto q) \<Longrightarrow> m_rest q d' = Some w"
    and "m_rest pc d = Some w \<Longrightarrow> m_body pc d = Some (d', Ret r) \<Longrightarrow> w = (d', r)"
    and "m_rest pc d = Some w \<Longrightarrow> m_body pc d \<noteq> None"
    and "m_rest pc d = Some w \<Longrightarrow> m_body pc d = Some (d', Goto q) \<Longrightarrow> m_left q d' < m_left pc d"
    using body_step [of pc d w] by (auto simp: step_ok_def simp del: m_rest.simps m_body.simps)
  show "mydev_ok d \<Longrightarrow> m_call_ok c \<Longrightarrow> \<exists>d' r. m_call c d = Some (d', r) \<and> mydev_ok d'" by (rule m_call_sound)
qed

definition mydev_stmts :: "(nat \<Rightarrow> (mydev, mcall, mres) guarded, (mcall, mstmt, mres) gpc) stmts" where
  "mydev_stmts = guarded_stmts m_dev m_early m_entry m_body"

definition mydev_loaded :: "nat \<Rightarrow> (mydev, mcall, mres) guarded" where
  "mydev_loaded = guarded_start (\<lambda>i. mydev_fresh)"

lemma loaded_ok: "mydev_calls.all_ok (\<lambda>i. mydev_fresh)"
  by (simp add: mydev_calls.all_ok_def mydev_ok_def mydev_fresh_def)

subsection \<open>Properties\<close>

text \<open>C8: The driver is linearizable. However many processes read, write, seek and use the
  attributes of the two devices, and however their statements interleave: the calls on a device,
  in the order in which they took effect, returned exactly what the handlers return one after
  the other, starting from a fresh device; the device is then what the handlers make of it; no
  access leaves a buffer; and no two processes are between lock and unlock of the same device.\<close>

theorem mydev_linearizable:
  assumes "conc_reach mydev_stmts (gcalls m_call_ok) mydev_loaded c"
  shows "(\<exists>d. seq_run m_call (map fst (glog (sh c i))) mydev_fresh = Some (map snd (glog (sh c i)), d) \<and> mydev_ok d \<and>
       (owner (sh c i) = None \<longrightarrow> obj (sh c i) = d)) \<and>
     act mydev_stmts a c \<noteq> Crash \<and>
     \<not> (p \<noteq> p' \<and> pcs c p = Some pc \<and> pcs c p' = Some pc' \<and> in_body m_dev i pc \<and> in_body m_dev i pc')"
proof (intro conjI)
  note r = assms [unfolded mydev_stmts_def mydev_loaded_def]
  note l = mydev_calls.linearizable [OF loaded_ok r]
  show "\<exists>d. seq_run m_call (map fst (glog (sh c i))) mydev_fresh = Some (map snd (glog (sh c i)), d) \<and> mydev_ok d \<and>
      (owner (sh c i) = None \<longrightarrow> obj (sh c i) = d)"
    using l by (auto simp: mydev_calls.current_def)
  show "act mydev_stmts a c \<noteq> Crash" unfolding mydev_stmts_def using l by blast
  show "\<not> (p \<noteq> p' \<and> pcs c p = Some pc \<and> pcs c p' = Some pc' \<and> in_body m_dev i pc \<and> in_body m_dev i pc')"
    using mydev_calls.exclusion [OF loaded_ok r] by blast
qed

text \<open>A write and a read of device 0 that overlap: the read waits and gets what was written.\<close>

definition two_users :: "(mcall, mstmt, mres) gpc action list" where
  "two_users = [Call 0 (Enter (Some 0, QWrite (user_mem [7, 8]) 2 0)), Run 0, Run 0,
     Call 1 (Enter (Some 0, QRead (user_mem []) 2 0)), Run 0,
     Run 0, Run 0, Run 0, Run 0, Run 0, Run 0, Run 1, Run 1, Run 1, Run 1, Run 1, Run 1, Run 1]"

lemma two_users_run:
  "\<exists>c. schedule mydev_stmts two_users (conc_start mydev_loaded) = Some c \<and> owner (sh c 0) = None \<and>
     map snd (glog (sh c 0)) = [(2, [], Inr 2), (2, [7, 8], Inr 2)]"
  by (simp add: two_users_def mydev_stmts_def conc_start_def mydev_loaded_def guarded_start_def
      m_early_def m_entry_def m_dev_def mydev_fresh_def fetch_def copied_def arr_set_def arr_get_def)

lemma two_users_calls: "list_all (call_ok (gcalls m_call_ok)) two_users"
  by (simp add: two_users_def m_call_ok_def m_dev_def vfs_ok_def)

theorem mydev_linearizable_witness:
  "\<exists>c. conc_reach mydev_stmts (gcalls m_call_ok) mydev_loaded c \<and>
     map snd (glog (sh c 0)) = [(2, [], Inr 2), (2, [7, 8], Inr 2)] \<and> mydev_ok (obj (sh c 0)) \<and>
     (\<exists>d. seq_run m_call (map fst (glog (sh c 0))) mydev_fresh = Some (map snd (glog (sh c 0)), d))"
proof -
  obtain c where c: "schedule mydev_stmts two_users (conc_start mydev_loaded) = Some c" "owner (sh c 0) = None"
    "map snd (glog (sh c 0)) = [(2, [], Inr 2), (2, [7, 8], Inr 2)]" by (rule exE [OF two_users_run]) (elim conjE)
  have r: "conc_reach mydev_stmts (gcalls m_call_ok) mydev_loaded c"
    by (rule schedule_from_start [OF c(1) two_users_calls])
  obtain d where d: "seq_run m_call (map fst (glog (sh c 0))) mydev_fresh = Some (map snd (glog (sh c 0)), d)" "mydev_ok d"
    "obj (sh c 0) = d" using conjunct1 [OF mydev_linearizable [OF r, of 0]] c(2) by auto
  show ?thesis by (intro exI conjI) (rule r, rule c(3), use d in simp, rule d(1))
qed

text \<open>C17: Whatever the processes are doing, a call that has begun can be completed: by steps of the
  process that holds the lock it waits for, if there is one, and then of its own.\<close>

theorem mydev_calls_complete:
  assumes "conc_reach mydev_stmts (gcalls m_call_ok) mydev_loaded c" and "pcs c p \<noteq> None"
  shows "\<exists>p' n m c'. schedule mydev_stmts (replicate n (Run p') @ replicate m (Run p)) c = Some c' \<and> pcs c' p = None"
  using mydev_calls.completes [OF assms(1) [unfolded mydev_stmts_def mydev_loaded_def] loaded_ok assms(2)]
  by (simp only: mydev_stmts_def)

theorem mydev_calls_complete_witness:
  "\<exists>c p' n m c'. schedule mydev_stmts (take 5 two_users) (conc_start mydev_loaded) = Some c \<and> owner (sh c 0) = Some 0 \<and>
     schedule mydev_stmts (replicate n (Run p') @ replicate m (Run 1)) c = Some c' \<and> pcs c' 1 = None"
proof -
  have t: "take 5 two_users = [Call 0 (Enter (Some 0, QWrite (user_mem [7, 8]) 2 0)), Run 0, Run 0,
      Call 1 (Enter (Some 0, QRead (user_mem []) 2 0)), Run 0]"
    by (simp add: two_users_def)
  have "\<exists>c. schedule mydev_stmts (take 5 two_users) (conc_start mydev_loaded) = Some c \<and> owner (sh c 0) = Some 0 \<and> pcs c 1 \<noteq> None"
    unfolding t
    by (simp add: mydev_stmts_def conc_start_def mydev_loaded_def guarded_start_def m_early_def m_entry_def m_dev_def)
  then obtain c where c: "schedule mydev_stmts (take 5 two_users) (conc_start mydev_loaded) = Some c"
    "owner (sh c 0) = Some 0" "pcs c 1 \<noteq> None" by (elim exE conjE)
  have "list_all (call_ok (gcalls m_call_ok)) (take 5 two_users)"
    by (simp only: t) (simp add: m_call_ok_def m_dev_def vfs_ok_def)
  then have r: "conc_reach mydev_stmts (gcalls m_call_ok) mydev_loaded c" by (rule schedule_from_start [OF c(1)])
  obtain p' n m c' where e: "schedule mydev_stmts (replicate n (Run p') @ replicate m (Run 1)) c = Some c'" "pcs c' 1 = None"
    using mydev_calls_complete [OF r c(3)] by (elim exE conjE)
  show ?thesis by (intro exI conjI) (rule c(1), rule c(2), rule e(1), rule e(2))
qed

end
