(* ===== verification/CharSkeleton.thy ===== *)
theory CharSkeleton
  imports SeekDevice KernelResources
begin

section \<open>The skeleton driver: 011\_chrdev\_skeleton/driver.c\<close>

text \<open>
  One static buffer of 1024 bytes and its fill level, no lock. A write sets the fill level to
  the end of what it wrote, so it also truncates. The names of the code carry the suffix
  \<open>_skel\<close>.
\<close>

record skel =
  sk_buffer :: "byte list"
  sk_size :: size_t

definition my_open_skel :: "skel \<Rightarrow> skel \<times> ret" where
  "my_open_skel s = (s, Inr 0)"

definition my_release_skel :: "skel \<Rightarrow> skel \<times> ret" where
  "my_release_skel s = (s, Inr 0)"

definition my_read_skel :: "skel rd_op" where
  "my_read_skel u len pos s =
     (if sk_size s \<le> pos then Some (s, pos, [], Inr 0)
      else
        let available = sk_size s - pos;
            len = (if available < len then available else len) in
        do {
          src \<leftarrow> mem_read (sk_buffer s) (sint pos) (unat len);
          if uctu u (unat len) \<noteq> 0
          then Some (s, pos, take (unat len - uctu u (unat len)) src, Inl EFAULT)
          else Some (s, pos + len, src, Inr len)
        })"

definition my_write_skel :: "skel wr_op" where
  "my_write_skel u len pos s =
     (if 1024 \<le> sint pos then Some (s, pos, Inl ENOSPC)
      else
        let available = 1024 - pos;
            len = (if available < len then available else len) in
        do {
          buf \<leftarrow> mem_write (sk_buffer s) (sint pos) (snd (ucfu u (unat len)));
          let s = s\<lparr>sk_buffer := buf\<rparr>;
          if fst (ucfu u (unat len)) \<noteq> 0 then Some (s, pos, Inl EFAULT)
          else Some (s\<lparr>sk_size := pos + len\<rparr>, pos + len, Inr len)
        })"

subsection \<open>Module init and exit\<close>

definition dev_init_skel :: module_init where
  "dev_init_skel api h =
     (case api Region of Some e \<Rightarrow> Some (Some e, h) | None \<Rightarrow>
      let h = Region # h in
      case api (Cdev 0) of
        Some e \<Rightarrow> do { h \<leftarrow> release Region h; Some (Some e, h) }
      | None \<Rightarrow>
      let h = Cdev 0 # h in
      case api Class of
        Some e \<Rightarrow> do { h \<leftarrow> release_list [Cdev 0, Region] h; Some (Some e, h) }
      | None \<Rightarrow>
      let h = Class # h in
      case api (Device 0) of
        Some e \<Rightarrow> do { h \<leftarrow> release_list [Class, Cdev 0, Region] h; Some (Some e, h) }
      | None \<Rightarrow> Some (None, Device 0 # h))"

definition dev_exit_skel :: module_exit where
  "dev_exit_skel h = release_list [Device 0, Class, Cdev 0, Region] h"

interpretation skel_module: clean_module dev_init_skel dev_exit_skel "[Device 0, Class, Cdev 0, Region]"
  by unfold_locales (auto simp: dev_init_skel_def dev_exit_skel_def Let_def split: option.splits)

subsection \<open>Reads and writes\<close>

definition skel_inv :: "skel \<Rightarrow> bool" where
  "skel_inv s \<longleftrightarrow> length (sk_buffer s) = 1024 \<and> unat (sk_size s) \<le> 1024"

definition skel_contents :: "skel \<Rightarrow> byte list" where
  "skel_contents s = take (unat (sk_size s)) (sk_buffer s)"

definition skel_span :: "size_t \<Rightarrow> loff_t \<Rightarrow> nat" where
  "skel_span len pos = min (unat len) (1024 - unat pos)"

lemma my_read_skel_run:
  assumes "skel_inv s"
  defines "out len pos \<equiv> take (unat len) (drop (unat pos) (skel_contents s))"
  shows "my_read_skel u len pos s = Some (
     if unat (sk_size s) \<le> unat pos then (s, pos, [], Inr 0)
     else let n = length (out len pos) in
       if uctu u n \<noteq> 0 then (s, pos, take (n - uctu u n) (out len pos), Inl EFAULT)
       else (s, pos + word_of_nat n, out len pos, Inr (word_of_nat n)))"
proof (cases "unat (sk_size s) \<le> unat pos")
  case True
  then show ?thesis by (simp add: my_read_skel_def word_le_nat_alt)
next
  case False
  let ?n = "min (unat len) (unat (sk_size s) - unat pos)"
  have size: "length (sk_buffer s) = 1024" "unat (sk_size s) \<le> 1024"
    using assms(1) by (simp_all add: skel_inv_def)
  have pos: "sint pos = int (unat pos)" using False size by (intro sint_of_small) simp
  have cut: "(if sk_size s - pos < len then sk_size s - pos else len) = word_of_nat ?n"
    "unat (word_of_nat ?n :: size_t) = ?n"
    using cut_word [of pos "sk_size s" len] False by simp_all
  have out: "out len pos = take ?n (drop (unat pos) (sk_buffer s))"
    by (simp add: out_def skel_contents_def drop_take min.commute)
  then have len: "length (out len pos) = ?n" using False size by simp
  have "mem_read (sk_buffer s) (sint pos) ?n = Some (out len pos)"
    unfolding pos out using False size by (subst mem_read_in) auto
  then show ?thesis using False by (simp add: my_read_skel_def word_le_nat_alt cut len Let_def)
qed

lemma my_write_skel_run:
  assumes "skel_inv s" and "vfs_ok len pos" and "uaccess_ok u"
  defines "s' n \<equiv> s\<lparr>sk_buffer := overlay (unat pos) (snd (ucfu u n)) (sk_buffer s)\<rparr>"
  shows "my_write_skel u len pos s = Some (
     if 1024 \<le> unat pos then (s, pos, Inl ENOSPC)
     else let n = skel_span len pos in
       if fst (ucfu u n) \<noteq> 0 then (s' n, pos, Inl EFAULT)
       else ((s' n)\<lparr>sk_size := pos + word_of_nat n\<rparr>, pos + word_of_nat n, Inr (word_of_nat n)))"
proof (cases "1024 \<le> unat pos")
  case True
  then show ?thesis using assms(2) by (simp add: my_write_skel_def)
next
  case False
  let ?n = "skel_span len pos"
  have cut: "(if 1024 - pos < len then 1024 - pos else len) = word_of_nat ?n"
    "unat (word_of_nat ?n :: size_t) = ?n"
    using cut_word [of pos 1024 len] False by (simp_all add: skel_span_def)
  have "unat pos + ?n \<le> length (sk_buffer s)"
    using False assms(1) by (simp add: skel_span_def skel_inv_def)
  then have "mem_write (sk_buffer s) (sint pos) (snd (ucfu u ?n))
      = Some (overlay (unat pos) (snd (ucfu u ?n)) (sk_buffer s))"
    using assms(2,3) by (simp add: mem_write_in)
  then show ?thesis using False assms(2) by (simp add: my_write_skel_def cut Let_def s'_def)
qed

lemma skel_write_end:
  "unat pos < 1024 \<Longrightarrow> unat pos + skel_span len pos \<le> 1024"
  "unat (word_of_nat (skel_span len pos) :: size_t) = skel_span len pos"
  "unat pos < 1024 \<Longrightarrow> unat (pos + word_of_nat (skel_span len pos)) = unat pos + skel_span len pos"
  by (simp add: skel_span_def, rule unat_of_nat_small, simp add: skel_span_def,
      rule unat_add_small, simp add: skel_span_def)

interpretation skel_rw: seek_device my_read_skel my_write_skel 1024 skel_contents skel_inv
proof
  show "(1024 :: nat) < 2 ^ 31" by simp
next
  fix s assume "skel_inv s"
  then show "length (skel_contents s) \<le> 1024" by (simp add: skel_inv_def skel_contents_def)
next
  fix s u and len :: size_t and off :: loff_t
  assume a: "skel_inv s" "ready u" "vfs_ok len off"
  have "unat (sk_size s) \<le> unat off \<Longrightarrow> drop (unat off) (skel_contents s) = []"
    by (simp add: skel_contents_def)
  then show "my_read_skel u len off s =
      (let out = take (unat len) (drop (unat off) (skel_contents s))
       in Some (s, off + word_of_nat (length out), out, Inr (word_of_nat (length out))))"
    using a(2) by (simp add: my_read_skel_run [OF a(1)] Let_def ready_def del: length_take length_drop)
next
  fix s u s' n and len :: size_t and off off' :: loff_t
  assume a: "skel_inv s" "uaccess_ok u" "vfs_ok len off"
    and w: "my_write_skel u len off s = Some (s', off', Inr n)"
  let ?k = "skel_span len off"
  note run = my_write_skel_run [OF a(1,3,2)]
  have off: "unat off < 1024" using w run by (auto simp: not_le Let_def split: if_splits)
  note e = skel_write_end(1,3) [OF off, of len]
  have blen: "length (sk_buffer s) = 1024" using a(1) by (simp add: skel_inv_def)
  have ulen: "length (snd (ucfu u ?k)) = ?k" using a(2) by simp
  have s': "s' = s\<lparr>sk_buffer := overlay (unat off) (snd (ucfu u ?k)) (sk_buffer s), sk_size := off + word_of_nat ?k\<rparr>"
    and n: "n = word_of_nat ?k" and off': "off' = off + n"
    using w run by (auto simp: Let_def split: if_splits)
  have inv: "skel_inv s'" using e blen ulen by (simp add: s' skel_inv_def)
  have "take ?k (drop (unat off) (skel_contents s'))
      = take ?k (drop (unat off) (overlay (unat off) (snd (ucfu u ?k)) (sk_buffer s)))"
    using e by (simp add: s' skel_contents_def drop_take)
  also have "\<dots> = snd (ucfu u ?k)"
    using take_drop_overlay [of "unat off" "snd (ucfu u ?k)" "sk_buffer s"] ulen e blen by simp
  finally show "unat off < 1024 \<and> unat n = min (unat len) (1024 - unat off) \<and> off' = off + n \<and>
      skel_inv s' \<and> take (unat n) (drop (unat off) (skel_contents s')) = snd (ucfu u (unat n))"
    using off n off' inv skel_write_end(2) [of len off] by (simp add: skel_span_def [symmetric])
qed

subsection \<open>Property\<close>

text \<open>After a write, reading the device from the start to the end of file, in pieces of any
  size, returns the bytes of the buffer in front of the write and the written bytes, and nothing
  else: the write has cut off what was behind it.\<close>

theorem skel_write_then_read_all:
  assumes "skel_inv s" and "uaccess_ok u" and "vfs_ok len off" and "my_write_skel u len off s = Some (s', off', Inr n)"
    and "ready v" and "0 < unat chunk" and "unat chunk \<le> 2147479552" and "1024 < fuel"
  shows "read_all my_read_skel v chunk fuel 0 s'
    = Some (take (unat off) (sk_buffer s) @ snd (ucfu u (min (unat len) (1024 - unat off))))"
proof -
  let ?k = "skel_span len off"
  note run = my_write_skel_run [OF assms(1,3,2)]
  have off: "unat off < 1024" using assms(4) run by (auto simp: not_le Let_def split: if_splits)
  note e = skel_write_end(1,3) [OF off, of len]
  have s': "s' = s\<lparr>sk_buffer := overlay (unat off) (snd (ucfu u ?k)) (sk_buffer s), sk_size := off + word_of_nat ?k\<rparr>"
    using assms(4) run by (auto simp: Let_def split: if_splits)
  have ulen: "length (snd (ucfu u ?k)) = ?k" and blen: "length (sk_buffer s) = 1024"
    using assms(1,2) by (simp_all add: skel_inv_def)
  have inv: "skel_inv s'" using e blen ulen by (simp add: s' skel_inv_def)
  have "read_all my_read_skel v chunk fuel 0 s' = Some (drop (unat (0 :: loff_t)) (skel_contents s'))"
    using skel_rw.contents_cap [OF inv] assms(8)
    by (intro skel_rw.read_all_contents [OF inv assms(5-7)]) simp_all
  moreover have "skel_contents s' = take (unat off) (sk_buffer s) @ snd (ucfu u ?k)"
    using e ulen blen off by (simp add: skel_contents_def s' overlay_def)
  ultimately show ?thesis by (simp add: skel_span_def)
qed

theorem skel_write_then_read_all_witness:
  "\<exists>s' off'. my_write_skel (user_mem [7, 8]) 2 3 \<lparr>sk_buffer = replicate 1024 1, sk_size = 1024\<rparr> = Some (s', off', Inr 2) \<and>
     read_all my_read_skel (user_mem []) 4 1025 0 s' = Some [1, 1, 1, 7, 8]"
proof -
  let ?s = "\<lparr>sk_buffer = replicate 1024 1, sk_size = 1024\<rparr> :: skel"
  have inv: "skel_inv ?s" by (simp add: skel_inv_def)
  have v: "vfs_ok 2 3" by (simp add: vfs_ok_def)
  have "skel_span 2 3 = 2" by (simp add: skel_span_def)
  then obtain s' off' where w: "my_write_skel (user_mem [7, 8]) 2 3 ?s = Some (s', off', Inr 2)"
    using my_write_skel_run [OF inv v user_mem_ok, of "[7, 8]"] by (auto simp: Let_def)
  have "replicate 3 (1 :: byte) = [1, 1, 1]" by (simp add: numeral_eq_Suc)
  then show ?thesis using w skel_write_then_read_all [OF inv user_mem_ok v w ready_user_mem, of 4 1025 "[]"]
    by simp
qed

end
