(* ===== verification/DualPoll.thy ===== *)
theory DualPoll
  imports SeekDevice KernelResources
begin

section \<open>The two pollable devices: 014\_poll\_select\<close>

text \<open>
  \<open>014_poll_select/poll.c\<close>: two devices, each with a 128-byte message buffer, its fill level,
  an event flag and a wait queue. A write stores a message, raises the flag and wakes who waits;
  a read blocks until the flag is raised, and lowers it when the file position has reached the
  end of the message.

  Here the handlers are functions, for calls that come one after the other (a read that has to
  wait is cut in two). The driver takes no lock: DualRaces has its calls statement by
  statement, with the sleeping and the waking. DualApps has the three test programs.
  The names of the code carry the suffix \<open>_dual\<close>.
\<close>

record dual_dev =
  event_flag :: int
  d_buffer :: "byte list"
  d_size :: size_t
  wq_array :: "nat set" \<comment> \<open>the processes that wait in the queue and have not been woken\<close>

subsection \<open>my\_poll, my\_read and my\_write\<close>

text \<open>\<open>POLLIN | POLLRDNORM\<close> is 0x41.\<close>

definition my_poll_dual :: "nat \<Rightarrow> dual_dev list \<Rightarrow> cint option" where
  "my_poll_dual minor devs =
     do { d \<leftarrow> arr_get devs (int minor); Some (if event_flag d \<noteq> 0 then 0x41 else 0) }"

text \<open>
  A read either returns or goes to sleep in \<open>wait_event_interruptible\<close> (who waits, and in which
  steps, is in DualRaces).
\<close>

datatype 'a outcome = Returns 'a | Sleeps

text \<open>
  What runs after the wait: the return value of \<open>wait_event_interruptible\<close> is not looked
  at, so this part is the same for an event and for a signal.
\<close>

definition my_read_rest_dual ::
  "srfb \<Rightarrow> uenv \<Rightarrow> nat \<Rightarrow> size_t \<Rightarrow> loff_t \<Rightarrow> dual_dev list \<Rightarrow> (dual_dev list \<times> loff_t \<times> byte list \<times> ret) option" where
  "my_read_rest_dual srfb u minor len pos devs =
     do {
       d \<leftarrow> arr_get devs (int minor);
       (case srfb u len pos (d_buffer d) (d_size d) of
          (pos', out, ret) \<Rightarrow>
            if d_size d \<le> pos'
            then do {
              devs' \<leftarrow> arr_set devs (int minor) (d\<lparr>event_flag := 0, d_size := 0\<rparr>);
              Some (devs', pos', out, ret)
            }
            else Some (devs, pos', out, ret))
     }"

definition my_read_dual ::
  "srfb \<Rightarrow> uenv \<Rightarrow> bool \<Rightarrow> nat \<Rightarrow> size_t \<Rightarrow> loff_t \<Rightarrow> dual_dev list \<Rightarrow>
     (dual_dev list \<times> loff_t \<times> byte list \<times> ret) outcome option" where
  "my_read_dual srfb u nonblock minor len pos devs =
     do {
       d \<leftarrow> arr_get devs (int minor);
       if event_flag d = 0
       then (if nonblock then Some (Returns (devs, pos, [], Inl EAGAIN)) else Some Sleeps)
       else map_option Returns (my_read_rest_dual srfb u minor len pos devs)
     }"

text \<open>\<open>wake_up_interruptible\<close> wakes all who wait in the queue of the device.\<close>

definition my_write_dual ::
  "uenv \<Rightarrow> nat \<Rightarrow> size_t \<Rightarrow> loff_t \<Rightarrow> dual_dev list \<Rightarrow> (dual_dev list \<times> loff_t \<times> ret) option" where
  "my_write_dual u minor len pos devs =
     (let len = (if 128 < len then 128 else len) in
      do {
        d \<leftarrow> arr_get devs (int minor);
        buf \<leftarrow> mem_write (d_buffer d) 0 (snd (ucfu u (unat len)));
        if fst (ucfu u (unat len)) \<noteq> 0
        then do { devs' \<leftarrow> arr_set devs (int minor) (d\<lparr>d_buffer := buf\<rparr>); Some (devs', pos, Inl EFAULT) }
        else do {
          devs' \<leftarrow> arr_set devs (int minor) (d\<lparr>d_buffer := buf, d_size := len, event_flag := 1, wq_array := {}\<rparr>);
          Some (devs', 0, Inr len)
        }
      })"

subsection \<open>dev\_init and dev\_exit\<close>

text \<open>
  After the loop \<open>while (--i >= 0)\<close> the index is \<open>-1\<close>: \<open>PTR_ERR(my_devices[i])\<close> reads in
  front of the array.
\<close>

fun dual_destroy :: "nat \<Rightarrow> held \<Rightarrow> held option" where
  "dual_destroy 0 h = Some h"
| "dual_destroy (Suc i) h = do { h \<leftarrow> release (Device i) h; dual_destroy i h }"

fun dual_devices :: "kapi \<Rightarrow> nat \<Rightarrow> nat \<Rightarrow> errno option list \<Rightarrow> held \<Rightarrow> (errno option \<times> held) option" where
  "dual_devices api 0 i my_devices h = Some (None, h)"
| "dual_devices api (Suc k) i my_devices h =
     do {
       my_devices \<leftarrow> arr_set my_devices (int i) (api (Device i));
       (case api (Device i) of
          None \<Rightarrow> dual_devices api k (Suc i) my_devices (Device i # h)
        | Some e \<Rightarrow> do {
            h \<leftarrow> dual_destroy i h;
            h \<leftarrow> release_list [Class, Cdev 0, Region] h;
            ret \<leftarrow> arr_get my_devices (- 1);
            Some (ret, h)
          })
     }"

definition dev_init_dual :: module_init where
  "dev_init_dual api h =
     (case api Region of Some e \<Rightarrow> Some (Some e, h) | None \<Rightarrow>
      let h = Region # h in
      case api (Cdev 0) of
        Some e \<Rightarrow> do { h \<leftarrow> release Region h; Some (Some e, h) }
      | None \<Rightarrow>
      let h = Cdev 0 # h in
      case api Class of
        Some e \<Rightarrow> do { h \<leftarrow> release_list [Cdev 0, Region] h; Some (Some e, h) }
      | None \<Rightarrow> dual_devices api 2 0 [None, None] (Class # h))"

definition dev_exit_dual :: module_exit where
  "dev_exit_dual h = release_list [Device 0, Device 1, Class, Cdev 0, Region] h"

lemma dual_init_device_failure:
  assumes "api Region = None" and "api (Cdev 0) = None" and "api Class = None"
    and "api (Device 0) \<noteq> None \<or> api (Device 1) \<noteq> None"
  shows "dev_init_dual api h = None"
  using assms by (auto simp: dev_init_dual_def Let_def numeral_2_eq_2 arr_set_def arr_get_def
      split: option.splits)

lemma dual_init_good:
  assumes "api (Device 0) = None" and "api (Device 1) = None"
  shows "dev_init_dual api h =
     (if api Region \<noteq> None then Some (api Region, h)
      else if api (Cdev 0) \<noteq> None then Some (api (Cdev 0), h)
      else if api Class \<noteq> None then Some (api Class, h)
      else Some (None, [Device 1, Device 0, Class, Cdev 0, Region] @ h))"
  using assms by (auto simp: dev_init_dual_def Let_def numeral_2_eq_2 arr_set_def split: option.splits)

lemma dual_exit_good: "dev_exit_dual ([Device 1, Device 0, Class, Cdev 0, Region] @ h) = Some h"
  by (simp add: dev_exit_dual_def release_def)

subsection \<open>Invariant and what the calls do\<close>

definition dual_ok :: "dual_dev \<Rightarrow> bool" where
  "dual_ok d \<longleftrightarrow> length (d_buffer d) = 128 \<and> unat (d_size d) \<le> 128 \<and>
     (event_flag d = 0 \<or> event_flag d = 1) \<and> (event_flag d = 0 \<longrightarrow> d_size d = 0)"

definition dual_inv :: "dual_dev list \<Rightarrow> bool" where
  "dual_inv devs \<longleftrightarrow> length devs = 2 \<and> (\<forall>d \<in> set devs. dual_ok d)"

definition message :: "dual_dev \<Rightarrow> byte list" where
  "message d = take (unat (d_size d)) (d_buffer d)"

definition dual_fresh :: "dual_dev list" where
  "dual_fresh = replicate 2 \<lparr>event_flag = 0, d_buffer = replicate 128 0, d_size = 0, wq_array = {}\<rparr>"

lemma dual_fresh_inv [inv_intros]: "dual_inv dual_fresh"
  by (simp add: dual_inv_def dual_ok_def dual_fresh_def)

lemma dual_inv_get:
  assumes "dual_inv devs" and "m < 2"
  shows "arr_get devs (int m) = Some (devs ! m)" "dual_ok (devs ! m)" "arr_set devs (int m) d = Some (devs[m := d])"
    "devs[m := d] ! m = d"
  using assms by (simp_all add: dual_inv_def arr_get_def arr_set_def)

lemma dual_inv_set [inv_intros]: "dual_inv devs \<Longrightarrow> dual_ok d \<Longrightarrow> dual_inv (devs[m := d])"
  by (auto simp: dual_inv_def dest!: set_update_subset_insert [THEN subsetD])

lemma length_message: "dual_ok d \<Longrightarrow> length (message d) = unat (d_size d)"
  by (simp add: dual_ok_def message_def)

definition cleared :: "dual_dev \<Rightarrow> dual_dev" where
  "cleared d = d\<lparr>event_flag := 0, d_size := 0\<rparr>"

lemma cleared_ok [inv_intros]: "dual_ok d \<Longrightarrow> dual_ok (cleared d)"
  by (simp add: dual_ok_def cleared_def)

lemma cleared_message [simp]: "message (cleared d) = []" "event_flag (cleared d) = 0"
  by (simp_all add: message_def cleared_def)

text \<open>
  A read from position \<open>pos\<close> delivers the part of the message behind it, and clears the
  event when it has come to the end.
\<close>

lemma my_read_rest_run:
  assumes "dual_inv devs" and "m < 2" and "srfb_ok srfb" and "ready u" and "0 \<le> sint pos"
    and "unat pos + unat len < 2 ^ 63"
  defines "out \<equiv> take (unat len) (drop (unat pos) (message (devs ! m)))"
  shows "my_read_rest_dual srfb u m len pos devs = Some (
     if unat (d_size (devs ! m)) \<le> unat pos + length out then devs[m := cleared (devs ! m)] else devs,
     pos + word_of_nat (length out), out, Inr (word_of_nat (length out)))"
proof -
  note get = dual_inv_get [OF assms(1,2)]
  have "unat (d_size (devs ! m)) \<le> length (d_buffer (devs ! m))" using get(2) by (simp add: dual_ok_def)
  then have s: "srfb u len pos (d_buffer (devs ! m)) (d_size (devs ! m))
      = (pos + word_of_nat (length out), out, Inr (word_of_nat (length out)))"
    using assms(3-5) by (simp add: srfb_ok_def message_def out_def Let_def)
  have "length out \<le> unat len" by (simp add: out_def)
  then have "unat (pos + word_of_nat (length out)) = unat pos + length out"
    using assms(6) by (intro unat_add_small) simp
  then show ?thesis using get(1,3) s by (simp add: my_read_rest_dual_def cleared_def word_le_nat_alt)
qed

definition stored :: "byte list \<Rightarrow> dual_dev \<Rightarrow> dual_dev" where
  "stored bs d = d\<lparr>d_buffer := overlay 0 bs (d_buffer d), d_size := word_of_nat (length bs), event_flag := 1, wq_array := {}\<rparr>"

lemma stored_ok [inv_intros]: "dual_ok d \<Longrightarrow> length bs \<le> 128 \<Longrightarrow> dual_ok (stored bs d)"
  by (simp add: dual_ok_def stored_def unat_of_nat_small)

lemma stored_message [simp]:
  "dual_ok d \<Longrightarrow> length bs \<le> 128 \<Longrightarrow> message (stored bs d) = bs"
  "event_flag (stored bs d) = 1" "length bs \<le> 128 \<Longrightarrow> unat (d_size (stored bs d)) = length bs"
  by (simp_all add: dual_ok_def stored_def message_def overlay_def unat_of_nat_small)

lemma my_write_dual_run:
  assumes "dual_inv devs" and "m < 2" and "uaccess_ok u"
  defines "n len \<equiv> min (unat (len :: size_t)) 128"
  shows "my_write_dual u m len pos devs = Some (
     if fst (ucfu u (n len)) \<noteq> 0
     then (devs[m := (devs ! m)\<lparr>d_buffer := overlay 0 (snd (ucfu u (n len))) (d_buffer (devs ! m))\<rparr>], pos, Inl EFAULT)
     else (devs[m := stored (snd (ucfu u (n len))) (devs ! m)], 0, Inr (word_of_nat (n len))))"
proof -
  note get = dual_inv_get [OF assms(1,2)]
  have u: "unat (if 128 < len then 128 else len) = n len"
    by (simp add: word_less_nat_alt min_def n_def)
  then have w: "(if 128 < len then 128 else len) = word_of_nat (n len)" by (rule word_of_unat)
  have u': "unat (word_of_nat (n len) :: size_t) = n len" using u unfolding w .
  have l: "length (snd (ucfu u (n len))) = n len" using assms(3) by simp
  have "n len \<le> length (d_buffer (devs ! m))" using get(2) by (simp add: dual_ok_def n_def)
  then have "mem_write (d_buffer (devs ! m)) 0 (snd (ucfu u (n len)))
      = Some (overlay 0 (snd (ucfu u (n len))) (d_buffer (devs ! m)))" using l by (simp add: mem_simps)
  then show ?thesis using get(1,3) l
    by (simp add: my_write_dual_def Let_def w u' stored_def)
qed

subsection \<open>The arguments of a read\<close>

record waiter =
  w_env :: uenv
  w_minor :: nat
  w_len :: size_t
  w_pos :: loff_t

definition reader_ok :: "waiter \<Rightarrow> bool" where
  "reader_ok w \<longleftrightarrow> w_minor w < 2 \<and> ready (w_env w) \<and> vfs_ok (w_len w) (w_pos w) \<and> unat (w_pos w) < 2 ^ 62"

lemma reader_okD:
  assumes "reader_ok w"
  shows "w_minor w < 2" "ready (w_env w)" "0 \<le> sint (w_pos w)" "unat (w_pos w) + unat (w_len w) < 2 ^ 63"
proof -
  show "w_minor w < 2" and "ready (w_env w)" using assms by (simp_all add: reader_ok_def)
  have v: "vfs_ok (w_len w) (w_pos w)" and "unat (w_pos w) < 2 ^ 62" using assms by (simp_all add: reader_ok_def)
  then show "0 \<le> sint (w_pos w)" and "unat (w_pos w) + unat (w_len w) < 2 ^ 63"
    using vfs_ok_bounds [OF v] by simp_all
qed

lemma read_rest_keeps:
  assumes "dual_inv devs" and "reader_ok w" and "srfb_ok srfb"
    and "my_read_rest_dual srfb (w_env w) (w_minor w) (w_len w) (w_pos w) devs = Some (devs', pos', out, r)"
  shows "dual_inv devs'"
  using assms(1,4) my_read_rest_run [OF assms(1) reader_okD(1) [OF assms(2)] assms(3) reader_okD(2-4) [OF assms(2)]]
    dual_inv_get(2) [OF assms(1) reader_okD(1) [OF assms(2)]]
  by (auto intro!: dual_inv_set cleared_ok split: if_splits)

lemma my_read_dual_keeps:
  assumes "dual_inv devs" and "reader_ok w" and "srfb_ok srfb"
    and "my_read_dual srfb (w_env w) nb (w_minor w) (w_len w) (w_pos w) devs = Some (Returns (devs', pos', out, r))"
  shows "dual_inv devs'"
  using assms dual_inv_get(1) [OF assms(1) reader_okD(1) [OF assms(2)]]
  by (auto simp: my_read_dual_def split: if_splits intro: read_rest_keeps)

lemma my_write_dual_keeps:
  assumes "dual_inv devs" and "m < 2" and "uaccess_ok u" and "my_write_dual u m len pos devs = Some (devs', pos', r)"
  shows "dual_inv devs'"
proof -
  let ?n = "min (unat len) 128" and ?d = "devs ! m"
  have ok: "dual_ok ?d" by (rule dual_inv_get(2) [OF assms(1,2)])
  have l: "length (snd (ucfu u ?n)) = ?n" using assms(3) by simp
  then have "dual_ok (?d\<lparr>d_buffer := overlay 0 (snd (ucfu u ?n)) (d_buffer ?d)\<rparr>)"
    using ok by (simp add: dual_ok_def)
  moreover have "dual_ok (stored (snd (ucfu u ?n)) ?d)" using ok l by (intro stored_ok) simp_all
  ultimately show ?thesis using my_write_dual_run [OF assms(1-3), of len pos] assms(1,4)
    by (auto intro!: dual_inv_set split: if_splits)
qed

subsection \<open>A reader that reads until EAGAIN\<close>

fun read_until_eagain ::
  "srfb \<Rightarrow> uenv \<Rightarrow> nat \<Rightarrow> size_t \<Rightarrow> nat \<Rightarrow> loff_t \<Rightarrow> dual_dev list \<Rightarrow> (byte list \<times> dual_dev list) option" where
  "read_until_eagain srfb u m chunk 0 pos devs = None"
| "read_until_eagain srfb u m chunk (Suc fuel) pos devs =
     (case my_read_dual srfb u True m chunk pos devs of
        Some (Returns (devs', pos', out, Inr n)) \<Rightarrow>
          map_option (\<lambda>(rest, d). (out @ rest, d)) (read_until_eagain srfb u m chunk fuel pos' devs')
      | Some (Returns (devs', pos', out, Inl EAGAIN)) \<Rightarrow> Some ([], devs')
      | _ \<Rightarrow> None)"

lemma read_until_eagain_empty:
  assumes "dual_inv devs" and "m < 2" and "event_flag (devs ! m) = 0" and "0 < fuel"
  shows "read_until_eagain srfb u m chunk fuel pos devs = Some ([], devs)"
  using assms(3,4) dual_inv_get(1) [OF assms(1,2)] by (cases fuel) (simp_all add: my_read_dual_def)

lemma read_until_eagain_run:
  assumes "dual_inv devs" and "m < 2" and "srfb_ok srfb" and "ready u" and "event_flag (devs ! m) \<noteq> 0"
    and "0 < unat chunk" and "unat chunk \<le> 2147479552"
    and "unat pos \<le> unat (d_size (devs ! m))" and "unat (d_size (devs ! m)) - unat pos + 2 \<le> fuel"
  shows "read_until_eagain srfb u m chunk fuel pos devs =
    Some (drop (unat pos) (message (devs ! m)), devs[m := cleared (devs ! m)])"
  using assms(8,9)
proof (induction fuel arbitrary: pos)
  case 0
  then show ?case by simp
next
  case (Suc fuel)
  let ?d = "devs ! m"
  let ?out = "take (unat chunk) (drop (unat pos) (message ?d))"
  have ok: "dual_ok ?d" by (rule dual_inv_get(2) [OF assms(1,2)])
  then have size: "unat (d_size ?d) \<le> 128" by (simp add: dual_ok_def)
  have pos: "unat pos < 2 ^ 62" using Suc.prems(1) size by simp
  then have "0 \<le> sint pos" by (simp add: sint64_nonneg_iff)
  moreover have "unat pos + unat chunk < 2 ^ 63" using pos assms(7) by simp
  ultimately have call: "my_read_dual srfb u True m chunk pos devs = Some (Returns (
      if unat (d_size ?d) \<le> unat pos + length ?out then devs[m := cleared ?d] else devs,
      pos + word_of_nat (length ?out), ?out, Inr (word_of_nat (length ?out))))"
    using my_read_rest_run [OF assms(1-4), of pos chunk] dual_inv_get(1) [OF assms(1,2)] assms(5)
    by (simp add: my_read_dual_def del: length_take length_drop)
  have len: "length ?out = min (unat chunk) (unat (d_size ?d) - unat pos)"
    using length_message [OF ok] by simp
  show ?case
  proof (cases "unat (d_size ?d) \<le> unat pos + length ?out")
    case True
    then have "?out = drop (unat pos) (message ?d)"
      using len length_message [OF ok] by simp
    moreover have "read_until_eagain srfb u m chunk fuel (pos + word_of_nat (length ?out)) (devs[m := cleared ?d])
        = Some ([], devs[m := cleared ?d])"
      using assms(1,2) Suc.prems(2) dual_inv_get(4) [OF assms(1,2)] cleared_ok [OF ok]
      by (intro read_until_eagain_empty dual_inv_set) simp_all
    ultimately show ?thesis using True call by simp
  next
    case False
    then have l: "length ?out = unat chunk" using len by arith
    have p': "unat (pos + word_of_nat (length ?out)) = unat pos + length ?out"
      using pos assms(7) l by (intro unat_add_small) simp
    have "read_until_eagain srfb u m chunk fuel (pos + word_of_nat (length ?out)) devs
        = Some (drop (unat pos + length ?out) (message ?d), devs[m := cleared ?d])"
      using Suc.IH [of "pos + word_of_nat (length ?out)"] p' False l Suc.prems(2) assms(6) by simp
    moreover have "?out @ drop (unat pos + length ?out) (message ?d) = drop (unat pos) (message ?d)"
      unfolding l by (metis append_take_drop_id drop_drop add.commute)
    ultimately show ?thesis using False call by simp
  qed
qed

lemma my_poll_run:
  "dual_inv devs \<Longrightarrow> m < 2 \<Longrightarrow> my_poll_dual m devs = Some (if event_flag (devs ! m) \<noteq> 0 then 0x41 else 0)"
  by (simp add: my_poll_dual_def dual_inv_get(1))

lemma message_write_run:
  assumes "dual_inv devs" and "m < 2" and "length bs \<le> 128"
  shows "my_write_dual (user_mem bs) m (word_of_nat (length bs)) pos devs
    = Some (devs[m := stored bs (devs ! m)], 0, Inr (word_of_nat (length bs)))"
proof -
  have "unat (word_of_nat (length bs) :: size_t) = length bs"
    using assms(3) by (intro unat_of_nat_small) simp
  then have "min (unat (word_of_nat (length bs) :: size_t)) 128 = length bs" using assms(3) by simp
  then show ?thesis using my_write_dual_run [OF assms(1,2) user_mem_ok, of bs "word_of_nat (length bs)" pos]
    by simp
qed

lemma fresh_devices:
  "dual_fresh ! 0 = \<lparr>event_flag = 0, d_buffer = replicate 128 0, d_size = 0, wq_array = {}\<rparr>"
  "event_flag (dual_fresh ! Suc 0) = 0" "dual_ok (dual_fresh ! 0)"
  by (simp_all add: dual_fresh_def dual_ok_def)

subsection \<open>Properties\<close>

text \<open>A written message makes the device ready; a program that opens it and reads until
  \<open>EAGAIN\<close>, in pieces of any size, gets the message exactly once, and the device is not ready any
  more.\<close>

theorem dual_message_delivered:
  assumes "dual_inv devs" and "m < 2" and "srfb_ok srfb" and "ready u" and "length bs \<le> 128"
    and "0 < unat chunk" and "unat chunk \<le> 2147479552" and "length bs + 2 \<le> fuel"
  shows "\<exists>devs1 devs2. my_write_dual (user_mem bs) m (word_of_nat (length bs)) pos devs
      = Some (devs1, 0, Inr (word_of_nat (length bs))) \<and> my_poll_dual m devs1 = Some 0x41 \<and>
    read_until_eagain srfb u m chunk fuel 0 devs1 = Some (bs, devs2) \<and> my_poll_dual m devs2 = Some 0"
proof -
  let ?d = "stored bs (devs ! m)" let ?devs = "devs[m := stored bs (devs ! m)]"
  have ok: "dual_ok ?d" using dual_inv_get(2) [OF assms(1,2)] assms(5) by (rule stored_ok)
  have inv: "dual_inv ?devs" by (rule dual_inv_set [OF assms(1) ok])
  have nth: "?devs ! m = ?d" by (rule dual_inv_get(4) [OF assms(1,2)])
  have size: "unat (d_size ?d) = length bs" by (rule stored_message(3) [OF assms(5)])
  have "read_until_eagain srfb u m chunk fuel 0 ?devs
      = Some (drop (unat (0 :: loff_t)) (message (?devs ! m)), ?devs[m := cleared (?devs ! m)])"
    using assms(8) size by (intro read_until_eagain_run [OF inv assms(2-4) _ assms(6,7)]) (simp_all add: nth)
  then have "read_until_eagain srfb u m chunk fuel 0 ?devs = Some (bs, ?devs[m := cleared ?d])"
    using stored_message(1) [OF dual_inv_get(2) [OF assms(1,2)] assms(5)] by (simp add: nth)
  moreover have "my_poll_dual m (?devs[m := cleared ?d]) = Some 0"
    using my_poll_run [OF dual_inv_set [OF inv cleared_ok [OF ok], of m] assms(2)] dual_inv_get(4) [OF inv assms(2)] by simp
  ultimately show ?thesis
    using message_write_run [OF assms(1,2,5), of pos] my_poll_run [OF inv assms(2)] by (simp add: nth)
qed

theorem dual_message_delivered_witness:
  "\<exists>devs1 devs2. my_write_dual (user_mem [5, 6, 7]) 1 3 0 dual_fresh = Some (devs1, 0, Inr 3) \<and>
     read_until_eagain simple_read (user_mem []) 1 2 9 0 devs1 = Some ([5, 6, 7], devs2)"
  using dual_message_delivered [OF dual_fresh_inv _ simple_read_ok ready_user_mem, of 1 "[5, 6, 7]" 2 9 0 "[]"] by auto

text \<open>A blocking read that a signal wakes before an event does not report the interruption: with the
  flag down it returns 0 with no data, which its caller takes for the end of the file.\<close>

theorem dual_signal_is_eof:
  assumes "dual_inv devs" and "reader_ok w" and "srfb_ok srfb" and "event_flag (devs ! w_minor w) = 0"
  shows "my_read_dual srfb (w_env w) False (w_minor w) (w_len w) (w_pos w) devs = Some Sleeps \<and>
    (\<exists>devs' pos'. my_read_rest_dual srfb (w_env w) (w_minor w) (w_len w) (w_pos w) devs = Some (devs', pos', [], Inr 0))"
proof -
  note ok = reader_okD [OF assms(2)]
  have "d_size (devs ! w_minor w) = 0"
    using dual_inv_get(2) [OF assms(1) ok(1)] assms(4) by (simp add: dual_ok_def)
  then have "message (devs ! w_minor w) = []" by (simp add: message_def)
  then show ?thesis
    using my_read_rest_run [OF assms(1) ok(1) assms(3) ok(2-4)] dual_inv_get(1) [OF assms(1) ok(1)] assms(4)
    by (simp add: my_read_dual_def)
qed

theorem dual_signal_is_eof_witness:
  "\<exists>devs' pos'. my_read_rest_dual simple_read (user_mem []) 1 16 0 dual_fresh = Some (devs', pos', [], Inr 0)"
proof -
  let ?w = "\<lparr>w_env = user_mem [], w_minor = 1, w_len = 16, w_pos = 0\<rparr> :: waiter"
  have "reader_ok ?w" by (simp add: reader_ok_def vfs_ok_def)
  then show ?thesis using dual_signal_is_eof [OF dual_fresh_inv _ simple_read_ok, of ?w] fresh_devices(2) by simp
qed

text \<open>Loading the module, in full: a failure of one of the first three registrations is undone
  and reported; when a device cannot be created, the error code is read in front of the array of
  devices, which is undefined; else the five objects are held.\<close>

theorem dual_init_outcome:
  "dev_init_dual api h =
     (if api Region \<noteq> None then Some (api Region, h)
      else if api (Cdev 0) \<noteq> None then Some (api (Cdev 0), h)
      else if api Class \<noteq> None then Some (api Class, h)
      else if \<not> (api (Device 0) = None \<and> api (Device 1) = None) then None
      else Some (None, [Device 1, Device 0, Class, Cdev 0, Region] @ h))"
proof (cases "api Region = None \<and> api (Cdev 0) = None \<and> api Class = None")
  case True
  then show ?thesis using dual_init_device_failure [of api h] dual_init_good [of api h] by auto
next
  case False
  then show ?thesis by (auto simp: dev_init_dual_def Let_def)
qed

end
