(* ===== verification/DualApps.thy ===== *)
theory DualApps
  imports DualPoll
begin

section \<open>The programs that wait for the pollable devices: 014\_poll\_select\<close>

text \<open>
  \<open>poll_app.c\<close>, \<open>select_app.c\<close> and \<open>epoll_app.c\<close>, which keep both devices open and print the
  messages, each at its own file positions. Messages come between the iterations of a program.
\<close>

subsection \<open>poll\_app.c, select\_app.c and epoll\_app.c\<close>

text \<open>
  One iteration of a program's loop: it asks for the readiness of both devices, reads from
  the ready ones at its own file positions and prints what it read as a C string. The result
  adds the lines printed, with the device. \<open>poll_app\<close> hands the whole buffer to \<open>read\<close>,
  \<open>select_app\<close> keeps a byte for the NUL.
\<close>

definition poll_app_fd ::
  "srfb \<Rightarrow> bool \<Rightarrow> nat \<Rightarrow> loff_t \<Rightarrow> dual_dev list \<Rightarrow> (dual_dev list \<times> loff_t \<times> (nat \<times> byte list) list) option" where
  "poll_app_fd srfb rdy m pos devs =
     (if \<not> rdy then Some (devs, pos, [])
      else case my_read_dual srfb (user_mem []) True m 128 pos devs of
        Some (Returns (devs', pos', out, r)) \<Rightarrow>
          (case r of
             Inr n \<Rightarrow>
               if n \<noteq> 0
               then do { line \<leftarrow> c_string (overlay 0 out (replicate 128 0)); Some (devs', pos', [(m, line)]) }
               else Some (devs', pos', [])
           | Inl e \<Rightarrow> Some (devs', pos', []))
      | _ \<Rightarrow> None)"

definition select_app_fd ::
  "srfb \<Rightarrow> bool \<Rightarrow> nat \<Rightarrow> loff_t \<Rightarrow> dual_dev list \<Rightarrow> (dual_dev list \<times> loff_t \<times> (nat \<times> byte list) list) option" where
  "select_app_fd srfb rdy m pos devs =
     (if \<not> rdy then Some (devs, pos, [])
      else case my_read_dual srfb (user_mem []) True m 127 pos devs of
        Some (Returns (devs', pos', out, r)) \<Rightarrow>
          (case r of
             Inr n \<Rightarrow>
               if n \<noteq> 0
               then do {
                 buf \<leftarrow> arr_set (overlay 0 out (replicate 128 0)) (uint n) 0;
                 line \<leftarrow> c_string buf;
                 Some (devs', pos', [(m, line)])
               }
               else Some (devs', pos', [])
           | Inl e \<Rightarrow> Some (devs', pos', []))
      | _ \<Rightarrow> None)"

definition app_round ::
  "(bool \<Rightarrow> nat \<Rightarrow> loff_t \<Rightarrow> dual_dev list \<Rightarrow> (dual_dev list \<times> loff_t \<times> (nat \<times> byte list) list) option)
     \<Rightarrow> loff_t \<times> loff_t \<Rightarrow> dual_dev list \<Rightarrow> (dual_dev list \<times> (loff_t \<times> loff_t) \<times> (nat \<times> byte list) list) option" where
  "app_round rd pos devs =
     do {
       r0 \<leftarrow> my_poll_dual 0 devs;
       r1 \<leftarrow> my_poll_dual 1 devs;
       (devs, p0, l0) \<leftarrow> rd (r0 AND 1 \<noteq> 0) 0 (fst pos) devs;
       (devs, p1, l1) \<leftarrow> rd (r1 AND 1 \<noteq> 0) 1 (snd pos) devs;
       Some (devs, (p0, p1), l0 @ l1)
     }"

text \<open>
  \<open>epoll_app\<close> reads in the same way from the devices \<open>epoll_wait\<close> reports, in the order of the
  report. The order is the kernel's choice. Before its loop it opens both devices and registers them; where a call fails it
  closes what it has opened. The calls' results are arguments; the result is the exit code,
  none when the loop is reached, and the descriptors left open.
\<close>

fun epoll_events ::
  "srfb \<Rightarrow> nat list \<Rightarrow> loff_t \<times> loff_t \<Rightarrow> dual_dev list \<Rightarrow> (dual_dev list \<times> (loff_t \<times> loff_t) \<times> (nat \<times> byte list) list) option" where
  "epoll_events srfb [] pos devs = Some (devs, pos, [])"
| "epoll_events srfb (m # evs) pos devs =
     do {
       (devs, p, l) \<leftarrow> select_app_fd srfb True m (if m = 0 then fst pos else snd pos) devs;
       (devs, pos, ls) \<leftarrow> epoll_events srfb evs (if m = 0 then (p, snd pos) else (fst pos, p)) devs;
       Some (devs, pos, l @ ls)
     }"

datatype app_fd = Fd0 | Fd1 | EpFd

definition epoll_setup :: "bool \<Rightarrow> bool \<Rightarrow> bool \<Rightarrow> bool \<Rightarrow> bool \<Rightarrow> int option \<times> app_fd list" where
  "epoll_setup open0 open1 create add0 add1 =
     (if \<not> open0 then (Some 1, [])
      else if \<not> open1 then (Some 1, remove1 Fd0 [Fd0])
      else if \<not> create then (Some 1, remove1 Fd1 (remove1 Fd0 [Fd0, Fd1]))
      else if \<not> add0 then (Some 1, remove1 Fd1 (remove1 Fd0 (remove1 EpFd [Fd0, Fd1, EpFd])))
      else if \<not> add1 then (Some 1, remove1 Fd1 (remove1 Fd0 (remove1 EpFd [Fd0, Fd1, EpFd])))
      else (None, [Fd0, Fd1, EpFd]))"

lemma epoll_setup_closes:
  "epoll_setup open0 open1 create add0 add1 =
     (if open0 \<and> open1 \<and> create \<and> add0 \<and> add1 then (None, [Fd0, Fd1, EpFd]) else (Some 1, []))"
  by (simp add: epoll_setup_def)

text \<open>Somebody writes a message, the program runs an iteration, or its wait fails and it leaves the loop.\<close>

datatype app_event = Message nat "byte list" | Round | WaitFails

fun app_run ::
  "(bool \<Rightarrow> nat \<Rightarrow> loff_t \<Rightarrow> dual_dev list \<Rightarrow> (dual_dev list \<times> loff_t \<times> (nat \<times> byte list) list) option)
     \<Rightarrow> app_event list \<Rightarrow> loff_t \<times> loff_t \<Rightarrow> dual_dev list \<Rightarrow> (nat \<times> byte list) list option" where
  "app_run rd [] pos devs = Some []"
| "app_run rd (Message m bs # es) pos devs =
     do { (devs, p, r) \<leftarrow> my_write_dual (user_mem bs) m (word_of_nat (length bs)) 0 devs; app_run rd es pos devs }"
| "app_run rd (Round # es) pos devs =
     do { (devs, pos, out) \<leftarrow> app_round rd pos devs; rest \<leftarrow> app_run rd es pos devs; Some (out @ rest) }"
| "app_run rd (WaitFails # es) pos devs = Some []"

text \<open>\<open>report i devs\<close> is what the \<open>epoll_wait\<close> of iteration \<open>i\<close> reports: any order, another one in every iteration.\<close>

fun epoll_run ::
  "srfb \<Rightarrow> (nat \<Rightarrow> dual_dev list \<Rightarrow> nat list) \<Rightarrow> nat \<Rightarrow> app_event list \<Rightarrow> loff_t \<times> loff_t \<Rightarrow> dual_dev list \<Rightarrow>
     (nat \<times> byte list) list option" where
  "epoll_run srfb report i [] pos devs = Some []"
| "epoll_run srfb report i (Message m bs # es) pos devs =
     do { (devs, p, r) \<leftarrow> my_write_dual (user_mem bs) m (word_of_nat (length bs)) 0 devs; epoll_run srfb report i es pos devs }"
| "epoll_run srfb report i (Round # es) pos devs =
     do {
       (devs, pos, out) \<leftarrow> epoll_events srfb (report i devs) pos devs;
       rest \<leftarrow> epoll_run srfb report (Suc i) es pos devs;
       Some (out @ rest)
     }"
| "epoll_run srfb report i (WaitFails # es) pos devs = Some []"

text \<open>
  The whole programs: the exit code (none while the program is in its loop), the descriptors that
  are open at the end, and the lines printed. \<open>poll_app\<close> and \<open>select_app\<close> are \<open>app_main\<close> with
  their ways to read.
\<close>

definition app_main ::
  "(bool \<Rightarrow> nat \<Rightarrow> loff_t \<Rightarrow> dual_dev list \<Rightarrow> (dual_dev list \<times> loff_t \<times> (nat \<times> byte list) list) option)
     \<Rightarrow> bool \<Rightarrow> bool \<Rightarrow> app_event list \<Rightarrow> dual_dev list \<Rightarrow> (int option \<times> app_fd list \<times> (nat \<times> byte list) list) option" where
  "app_main rd open0 open1 es devs =
     (if \<not> open0 then Some (Some 1, [], [])
      else if \<not> open1 then Some (Some 1, remove1 Fd0 [Fd0], [])
      else do {
        out \<leftarrow> app_run rd es (0, 0) devs;
        Some (if WaitFails \<in> set es then (Some 0, remove1 Fd1 (remove1 Fd0 [Fd0, Fd1]), out) else (None, [Fd0, Fd1], out))
      })"

definition poll_app_main :: "srfb \<Rightarrow> bool \<Rightarrow> bool \<Rightarrow> app_event list \<Rightarrow> dual_dev list \<Rightarrow> (int option \<times> app_fd list \<times> (nat \<times> byte list) list) option" where
  "poll_app_main srfb = app_main (poll_app_fd srfb)"

definition select_app_main :: "srfb \<Rightarrow> bool \<Rightarrow> bool \<Rightarrow> app_event list \<Rightarrow> dual_dev list \<Rightarrow> (int option \<times> app_fd list \<times> (nat \<times> byte list) list) option" where
  "select_app_main srfb = app_main (select_app_fd srfb)"

definition epoll_app_main ::
  "srfb \<Rightarrow> (nat \<Rightarrow> dual_dev list \<Rightarrow> nat list) \<Rightarrow> bool \<Rightarrow> bool \<Rightarrow> bool \<Rightarrow> bool \<Rightarrow> bool \<Rightarrow> app_event list \<Rightarrow> dual_dev list \<Rightarrow>
     (int option \<times> app_fd list \<times> (nat \<times> byte list) list) option" where
  "epoll_app_main srfb report open0 open1 create add0 add1 es devs =
     (case epoll_setup open0 open1 create add0 add1 of
        (Some code, fds) \<Rightarrow> Some (Some code, fds, [])
      | (None, fds) \<Rightarrow>
          do {
            out \<leftarrow> epoll_run srfb report 0 es (0, 0) devs;
            Some (if WaitFails \<in> set es then (Some 0, remove1 Fd1 (remove1 Fd0 (remove1 EpFd fds)), out) else (None, fds, out))
          })"

subsection \<open>What an iteration does to one device\<close>

text \<open>What \<open>select_app\<close> reads at a position, and the device and the position after it.\<close>

definition shown :: "loff_t \<Rightarrow> dual_dev \<Rightarrow> byte list" where
  "shown pos d = (if event_flag d = 0 then [] else take 127 (drop (unat pos) (message d)))"

definition dev_after :: "loff_t \<Rightarrow> dual_dev \<Rightarrow> dual_dev" where
  "dev_after pos d =
     (if event_flag d \<noteq> 0 \<and> unat (d_size d) \<le> unat pos + length (shown pos d) then cleared d else d)"

definition pos_after :: "loff_t \<Rightarrow> dual_dev \<Rightarrow> loff_t" where
  "pos_after pos d = pos + word_of_nat (length (shown pos d))"

definition lines_of :: "nat \<Rightarrow> loff_t \<Rightarrow> dual_dev \<Rightarrow> (nat \<times> byte list) list" where
  "lines_of m pos d = (if shown pos d = [] then [] else [(m, takeWhile (\<lambda>b. b \<noteq> 0) (shown pos d))])"

lemma length_shown: "dual_ok d \<Longrightarrow> length (shown pos d) \<le> unat (d_size d) - unat pos"
  using length_message [of d] by (simp add: shown_def)

lemma pos_after_bound:
  assumes "dual_ok d" and "unat pos \<le> 128"
  shows "unat (pos_after pos d) = unat pos + length (shown pos d)" and "unat (pos_after pos d) \<le> 128"
proof -
  have l: "length (shown pos d) \<le> 128 - unat pos"
    using length_shown [OF assms(1), of pos] assms(1) by (auto simp: dual_ok_def)
  then show *: "unat (pos_after pos d) = unat pos + length (shown pos d)"
    using assms(2) unfolding pos_after_def by (intro unat_add_small) simp
  show "unat (pos_after pos d) \<le> 128" using l assms(2) unfolding * by simp
qed

lemma dev_after_ok [inv_intros]: "dual_ok d \<Longrightarrow> dual_ok (dev_after pos d)"
  by (simp add: dev_after_def cleared_ok)

lemma takeWhile_zeros: "takeWhile (\<lambda>b. b \<noteq> 0) (bs @ replicate k 0) = takeWhile (\<lambda>b. b \<noteq> 0) (bs :: byte list)"
  by (induction bs) (cases k; simp)+

lemma line_of_buffer:
  assumes "length out \<le> 127" and "out \<noteq> []"
  shows "do { buf \<leftarrow> arr_set (overlay 0 out (replicate 128 0)) (uint (word_of_nat (length out) :: size_t)) 0; c_string buf }
    = Some (takeWhile (\<lambda>b. b \<noteq> 0) out)"
proof -
  have u: "uint (word_of_nat (length out) :: size_t) = int (length out)"
    using assms(1) by (simp add: uint_nat unat_of_nat_small)
  have o: "overlay 0 out (replicate 128 0) = out @ replicate (128 - length out) 0"
    using assms(1) by (simp add: overlay_def)
  have z: "(replicate (128 - length out) 0)[0 := 0] = (replicate (128 - length out) 0 :: byte list)"
    using assms(1) by (cases "128 - length out") simp_all
  have "arr_set (overlay 0 out (replicate 128 0)) (int (length out)) 0 = Some (out @ replicate (128 - length out) 0)"
    using assms(1) z by (simp add: o arr_set_def list_update_append)
  moreover have "c_string (out @ replicate (128 - length out) 0) = Some (takeWhile (\<lambda>b. b \<noteq> 0) out)"
    using assms(1) by (simp add: c_string_def takeWhile_zeros)
  ultimately show ?thesis by (simp add: u)
qed

lemma select_fd_run:
  assumes "dual_inv devs" and "m < 2" and "unat pos \<le> 128" and "srfb_ok srfb" and "event_flag (devs ! m) \<noteq> 0"
  shows "select_app_fd srfb True m pos devs =
    Some (devs[m := dev_after pos (devs ! m)], pos_after pos (devs ! m), lines_of m pos (devs ! m))"
proof -
  let ?d = "devs ! m" and ?out = "shown pos (devs ! m)"
  have ok: "dual_ok ?d" by (rule dual_inv_get(2) [OF assms(1,2)])
  have s: "?out = take (unat (127 :: size_t)) (drop (unat pos) (message ?d))" using assms(5) by (simp add: shown_def)
  have "0 \<le> sint pos" and "unat pos + unat (127 :: size_t) < 2 ^ 63" using assms(3) by (simp_all add: sint64_nonneg_iff)
  note rest = my_read_rest_run [OF assms(1,2,4) ready_user_mem this, of "[]"]
  have rd: "my_read_dual srfb (user_mem []) True m 127 pos devs =
      Some (Returns (devs[m := dev_after pos ?d], pos_after pos ?d, ?out, Inr (word_of_nat (length ?out))))"
    using rest assms(5) dual_inv_get(1) [OF assms(1,2)] unfolding s [symmetric]
    by (auto simp: my_read_dual_def dev_after_def pos_after_def)
  have l: "length ?out \<le> 127" by (simp add: shown_def)
  show ?thesis
  proof (cases "?out = []")
    case True
    then show ?thesis using rd by (simp add: select_app_fd_def lines_of_def)
  next
    case False
    have "unat (word_of_nat (length ?out) :: size_t) = length ?out" using l by (intro unat_of_nat_small) simp
    then have n0: "(word_of_nat (length ?out) :: size_t) \<noteq> 0" using False by auto
    have "arr_set (overlay 0 ?out (replicate 128 0)) (uint (word_of_nat (length ?out) :: size_t)) 0 \<bind>
        (\<lambda>buf. c_string buf) = Some (takeWhile (\<lambda>b. b \<noteq> 0) ?out)"
      by (rule line_of_buffer [OF l False])
    then show ?thesis using rd n0 False
      by (auto simp: select_app_fd_def lines_of_def bind_eq_Some_conv)
  qed
qed

lemma select_idle: "select_app_fd srfb False m q ds = Some (ds, q, [])"
  by (simp add: select_app_fd_def)

lemma flag_down: "event_flag d = 0 \<Longrightarrow> dev_after pos d = d \<and> pos_after pos d = pos \<and> lines_of m pos d = []"
  by (simp add: dev_after_def pos_after_def lines_of_def shown_def)

text \<open>An iteration of \<open>select_app\<close>, and one of \<open>epoll_app\<close> for every report of the ready devices.\<close>

lemma two_devices:
  assumes "dual_inv devs"
  obtains d0 d1 where "devs = [d0, d1]" "dual_ok d0" "dual_ok d1"
  using assms by (auto simp: dual_inv_def numeral_2_eq_2 length_Suc_conv)

lemma two_inv [inv_intros]: "dual_ok d0 \<Longrightarrow> dual_ok d1 \<Longrightarrow> dual_inv [d0, d1]"
  by (simp add: dual_inv_def)

lemma fd_first:
  assumes "dual_ok d0" and "dual_ok d1" and "unat p0 \<le> 128" and "srfb_ok srfb" and "event_flag d0 \<noteq> 0"
  shows "select_app_fd srfb True 0 p0 [d0, d1] = Some ([dev_after p0 d0, d1], pos_after p0 d0, lines_of 0 p0 d0)"
  using select_fd_run [OF two_inv [OF assms(1,2)] _ assms(3,4), of 0] assms(5) by simp

lemma fd_second:
  assumes "dual_ok d0" and "dual_ok d1" and "unat p1 \<le> 128" and "srfb_ok srfb" and "event_flag d1 \<noteq> 0"
  shows "select_app_fd srfb True 1 p1 [d0, d1] = Some ([d0, dev_after p1 d1], pos_after p1 d1, lines_of 1 p1 d1)"
  using select_fd_run [OF two_inv [OF assms(1,2)] _ assms(3,4), of 1] assms(5) by simp

lemma select_round_run:
  assumes "dual_ok d0" and "dual_ok d1" and "unat p0 \<le> 128" and "unat p1 \<le> 128" and "srfb_ok srfb"
  shows "app_round (select_app_fd srfb) (p0, p1) [d0, d1] =
    Some ([dev_after p0 d0, dev_after p1 d1], (pos_after p0 d0, pos_after p1 d1), lines_of 0 p0 d0 @ lines_of 1 p1 d1)"
  using fd_first [OF assms(1,2,3,5)] fd_second [OF dev_after_ok [OF assms(1)] assms(2,4,5)] fd_second [OF assms(1,2,4,5)]
    flag_down [of d0 p0] flag_down [of d1 p1] my_poll_run [OF two_inv [OF assms(1,2)]]
  by (cases "event_flag d0 = 0"; cases "event_flag d1 = 0") (simp_all add: app_round_def select_idle)

text \<open>Reports of the ready devices, each once; they come in any order.\<close>

definition reports_ready :: "(nat \<Rightarrow> dual_dev list \<Rightarrow> nat list) \<Rightarrow> bool" where
  "reports_ready report \<longleftrightarrow> (\<forall>i ds. dual_inv ds \<longrightarrow>
     distinct (report i ds) \<and> set (report i ds) = {m. m < 2 \<and> event_flag (ds ! m) \<noteq> 0})"

lemma two_reports:
  assumes "distinct rs" and "set rs = {m. m < (2 :: nat) \<and> P m}"
  shows "rs = filter P [0, 1] \<or> rs = filter P [1, 0]"
proof -
  have sub: "set rs \<subseteq> {0, 1}" unfolding assms(2) by (auto simp: less_2_cases_iff)
  have "card (set rs) \<le> card {0 :: nat, 1}" by (rule card_mono [OF _ sub]) simp
  then have "length rs \<le> 2" unfolding distinct_card [OF assms(1)] by simp
  then consider "rs = []" | a where "rs = [a]" | a b where "rs = [a, b]"
    by (metis (no_types) le_zero_eq length_0_conv length_Suc_conv le_Suc_eq numeral_2_eq_2)
  then have "rs = [] \<or> rs = [0] \<or> rs = [1] \<or> rs = [0, 1] \<or> rs = [1, 0]"
    using assms(1) sub by cases auto
  moreover have "0 \<in> set rs \<longleftrightarrow> P 0" and "1 \<in> set rs \<longleftrightarrow> P 1" unfolding assms(2) by simp_all
  ultimately show ?thesis by auto
qed

lemma epoll_round_run:
  assumes "dual_ok d0" and "dual_ok d1" and "unat p0 \<le> 128" and "unat p1 \<le> 128" and "srfb_ok srfb"
    and "distinct rs" and "set rs = {m. m < 2 \<and> event_flag ([d0, d1] ! m) \<noteq> 0}"
  shows "\<exists>out. epoll_events srfb rs (p0, p1) [d0, d1] =
      Some ([dev_after p0 d0, dev_after p1 d1], (pos_after p0 d0, pos_after p1 d1), out) \<and>
    (out = lines_of 0 p0 d0 @ lines_of 1 p1 d1 \<or> out = lines_of 1 p1 d1 @ lines_of 0 p0 d0)"
proof -
  let ?P = "\<lambda>m. event_flag ([d0, d1] ! m) \<noteq> 0"
  note d0 = flag_down [of d0 p0 0] and d1 = flag_down [of d1 p1 1]
  note first = fd_first [OF assms(1,2,3,5)] and second = fd_second [OF assms(1,2,4,5)]
  note first' = fd_first [OF assms(1) dev_after_ok [OF assms(2)] assms(3,5)]
    and second' = fd_second [OF dev_after_ok [OF assms(1)] assms(2,4,5)]
  consider "rs = filter ?P [0, 1]" | "rs = filter ?P [1, 0]" using two_reports [OF assms(6,7)] by blast
  then show ?thesis
  proof cases
    case 1
    then show ?thesis using d0 d1 first second second'
      by (cases "event_flag d0 = 0"; cases "event_flag d1 = 0") simp_all
  next
    case 2
    then show ?thesis using d0 d1 first first' second
      by (cases "event_flag d0 = 0"; cases "event_flag d1 = 0") simp_all
  qed
qed

subsection \<open>Runs of the programs\<close>

lemma message_written:
  assumes "dual_inv devs" and "m < 2"
  obtains k p r where "k \<le> length bs" "k \<le> 128"
    "my_write_dual (user_mem bs) m (word_of_nat (length bs)) pos devs = Some (devs[m := stored (take k bs) (devs ! m)], p, r)"
proof -
  let ?k = "min (unat (word_of_nat (length bs) :: size_t)) 128"
  have k: "?k \<le> length bs" by (simp add: unat_of_nat min.coboundedI1)
  then have "ucfu (user_mem bs) ?k = (0, take ?k bs)" by (rule user_mem_simps(3))
  then show thesis
    using that [of ?k] k my_write_dual_run [OF assms user_mem_ok, of bs "word_of_nat (length bs)" pos] by simp
qed

lemma message_two:
  assumes "dual_ok d0" and "dual_ok d1" and "m < 2"
  obtains k e0 e1 p r where
    "my_write_dual (user_mem bs) m (word_of_nat (length bs)) pos [d0, d1] = Some ([e0, e1], p, r)"
    "k \<le> length bs" "k \<le> 128" "e0 = (if m = 0 then stored (take k bs) d0 else d0)"
    "e1 = (if m = 1 then stored (take k bs) d1 else d1)" "dual_ok e0" "dual_ok e1"
proof -
  obtain k p r where k: "k \<le> length bs" "k \<le> 128"
    "my_write_dual (user_mem bs) m (word_of_nat (length bs)) pos [d0, d1] = Some ([d0, d1][m := stored (take k bs) ([d0, d1] ! m)], p, r)"
    using message_written [OF two_inv [OF assms(1,2)] assms(3)] by blast
  have ok: "dual_ok (stored (take k bs) d)" if "dual_ok d" for d using that k by (intro stored_ok) simp_all
  show thesis
  proof (cases "m = 0")
    case True
    then show ?thesis using that [of _ _ p r k] k ok assms(1,2) by simp
  next
    case False
    then have "m = 1" using assms(3) by simp
    then show ?thesis using that [of _ _ p r k] k ok assms(1,2) by simp
  qed
qed

lemma filter_lines: "filter (\<lambda>l. fst l = m) (lines_of k pos d) = (if k = m then lines_of k pos d else [])"
  by (simp add: lines_of_def)

lemma epoll_run_as_select:
  assumes "srfb_ok srfb" and "reports_ready report" and "dual_ok d0" and "dual_ok d1"
    and "unat p0 \<le> 128" and "unat p1 \<le> 128" and "\<forall>m bs. Message m bs \<in> set es \<longrightarrow> m < 2"
  shows "\<exists>o1 o2. epoll_run srfb report i es (p0, p1) [d0, d1] = Some o1 \<and>
     app_run (select_app_fd srfb) es (p0, p1) [d0, d1] = Some o2 \<and>
     (\<forall>m. filter (\<lambda>l. fst l = m) o1 = filter (\<lambda>l. fst l = m) o2)"
  using assms(3-)
proof (induction es arbitrary: i p0 p1 d0 d1)
  case (Cons e es)
  have mem: "\<forall>m bs. Message m bs \<in> set es \<longrightarrow> m < 2" using Cons.prems(5) by auto
  show ?case
  proof (cases e)
    case (Message m bs)
    then have "m < 2" using Cons.prems(5) by auto
    then obtain e0 e1 p r where "my_write_dual (user_mem bs) m (word_of_nat (length bs)) 0 [d0, d1] = Some ([e0, e1], p, r)"
      "dual_ok e0" "dual_ok e1" using message_two [OF Cons.prems(1,2)] by metis
    then show ?thesis using Cons.IH [OF _ _ Cons.prems(3,4) mem, of e0 e1 i] Message by simp
  next
    case Round
    let ?e0 = "dev_after p0 d0" and ?e1 = "dev_after p1 d1" and ?q0 = "pos_after p0 d0" and ?q1 = "pos_after p1 d1"
    have r: "distinct (report i [d0, d1])" "set (report i [d0, d1]) = {m. m < 2 \<and> event_flag ([d0, d1] ! m) \<noteq> 0}"
      using assms(2) two_inv [OF Cons.prems(1,2)] by (simp_all add: reports_ready_def)
    obtain out where out: "epoll_events srfb (report i [d0, d1]) (p0, p1) [d0, d1] = Some ([?e0, ?e1], (?q0, ?q1), out)"
      "out = lines_of 0 p0 d0 @ lines_of 1 p1 d1 \<or> out = lines_of 1 p1 d1 @ lines_of 0 p0 d0"
      using epoll_round_run [OF Cons.prems(1-4) assms(1) r] by blast
    obtain o1 o2 where o: "epoll_run srfb report (Suc i) es (?q0, ?q1) [?e0, ?e1] = Some o1"
      "app_run (select_app_fd srfb) es (?q0, ?q1) [?e0, ?e1] = Some o2"
      "\<forall>m. filter (\<lambda>l. fst l = m) o1 = filter (\<lambda>l. fst l = m) o2"
      using Cons.IH [OF dev_after_ok [OF Cons.prems(1)] dev_after_ok [OF Cons.prems(2)]
          pos_after_bound(2) [OF Cons.prems(1,3)] pos_after_bound(2) [OF Cons.prems(2,4)] mem] by blast
    have f: "filter (\<lambda>l. fst l = m) out = filter (\<lambda>l. fst l = m) (lines_of 0 p0 d0 @ lines_of 1 p1 d1)" for m
      using out(2) by (auto simp: filter_lines)
    show ?thesis using Round out(1) o f select_round_run [OF Cons.prems(1-4) assms(1)]
      by (simp del: epoll_events.simps)
  qed simp
qed simp

text \<open>While no message to device \<open>m\<close> is longer than the position there, \<open>select_app\<close> prints none of them.\<close>

definition behind :: "nat \<Rightarrow> nat \<Rightarrow> loff_t \<Rightarrow> dual_dev \<Rightarrow> bool" where
  "behind n k pos d \<longleftrightarrow> (k = n \<longrightarrow> unat (d_size d) \<le> unat pos)"

lemma behind_silent:
  assumes "behind m k pos d" and "dual_ok d"
  shows "behind m k (pos_after pos d) (dev_after pos d)" and "(m, l) \<notin> set (lines_of k pos d)"
    and "k = m \<Longrightarrow> pos_after pos d = pos"
proof -
  have s: "shown pos d = []" if "k = m"
    using assms that length_message [OF assms(2)] by (simp add: shown_def behind_def)
  then show "(m, l) \<notin> set (lines_of k pos d)" and p: "k = m \<Longrightarrow> pos_after pos d = pos"
    by (auto simp: lines_of_def pos_after_def)
  show "behind m k (pos_after pos d) (dev_after pos d)"
    using assms p by (auto simp: behind_def dev_after_def cleared_def)
qed

lemma behind_message: "behind m k pos d \<Longrightarrow> n \<le> 128 \<Longrightarrow> n \<le> length bs \<Longrightarrow> (k = m \<longrightarrow> length bs \<le> unat pos) \<Longrightarrow> behind m k pos (stored (take n bs) d)"
  by (auto simp: behind_def stored_message(3))

lemma select_silent:
  assumes "srfb_ok srfb" and "dual_ok d0" and "dual_ok d1" and "unat p0 \<le> 128" and "unat p1 \<le> 128"
    and "\<forall>k bs. Message k bs \<in> set es \<longrightarrow> k < 2" and "\<forall>bs. Message m bs \<in> set es \<longrightarrow> length bs \<le> n"
    and "behind m 0 p0 d0" and "behind m 1 p1 d1" and "m = 0 \<longrightarrow> unat p0 = n" and "m = 1 \<longrightarrow> unat p1 = n"
  shows "\<exists>out. app_run (select_app_fd srfb) es (p0, p1) [d0, d1] = Some out \<and> (\<forall>l. (m, l) \<notin> set out)"
  using assms(2-)
proof (induction es arbitrary: p0 p1 d0 d1)
  case (Cons e es)
  have mem: "\<forall>k bs. Message k bs \<in> set es \<longrightarrow> k < 2" "\<forall>bs. Message m bs \<in> set es \<longrightarrow> length bs \<le> n"
    using Cons.prems(5,6) by auto
  show ?case
  proof (cases e)
    case (Message k bs)
    then have k: "k < 2" "k = m \<Longrightarrow> length bs \<le> n" using Cons.prems(5,6) by auto
    obtain j e0 e1 p r where w: "my_write_dual (user_mem bs) k (word_of_nat (length bs)) 0 [d0, d1] = Some ([e0, e1], p, r)"
      "j \<le> length bs" "j \<le> 128" "e0 = (if k = 0 then stored (take j bs) d0 else d0)"
      "e1 = (if k = 1 then stored (take j bs) d1 else d1)" "dual_ok e0" "dual_ok e1"
      using message_two [OF Cons.prems(1,2) k(1)] by metis
    have "behind m 0 p0 e0" and "behind m 1 p1 e1"
      using w(2-5) k(2) Cons.prems(7-10) behind_message [of m 0 p0 d0 j bs] behind_message [of m 1 p1 d1 j bs] by auto
    then show ?thesis using Cons.IH [OF w(6,7) Cons.prems(3,4) mem _ _ Cons.prems(9,10)] w(1) Message by simp
  next
    case Round
    note s0 = behind_silent [OF Cons.prems(7,1)] and s1 = behind_silent [OF Cons.prems(8,2)]
    have n: "m = 0 \<longrightarrow> unat (pos_after p0 d0) = n" "m = 1 \<longrightarrow> unat (pos_after p1 d1) = n"
      using s0(3) s1(3) Cons.prems(9,10) by auto
    have "\<exists>out. app_run (select_app_fd srfb) es (pos_after p0 d0, pos_after p1 d1) [dev_after p0 d0, dev_after p1 d1] = Some out \<and>
        (\<forall>l. (m, l) \<notin> set out)"
      by (rule Cons.IH [OF dev_after_ok [OF Cons.prems(1)] dev_after_ok [OF Cons.prems(2)]
          pos_after_bound(2) [OF Cons.prems(1,3)] pos_after_bound(2) [OF Cons.prems(2,4)] mem s0(1) s1(1) n])
    then show ?thesis using Round select_round_run [OF Cons.prems(1-4) assms(1)] s0(2) s1(2) by auto
  qed simp
qed simp

lemma read_whole_message:
  assumes "dual_inv devs" and "m < 2" and "srfb_ok srfb" and "event_flag (devs ! m) \<noteq> 0"
    and "unat (d_size (devs ! m)) \<le> unat len" and "unat len \<le> 128"
  shows "my_read_dual srfb (user_mem []) nb m len 0 devs
    = Some (Returns (devs[m := cleared (devs ! m)], d_size (devs ! m), message (devs ! m), Inr (d_size (devs ! m))))"
proof -
  have l: "length (message (devs ! m)) = unat (d_size (devs ! m))"
    by (rule length_message [OF dual_inv_get(2) [OF assms(1,2)]])
  then have "take (unat len) (message (devs ! m)) = message (devs ! m)" using assms(5) by simp
  then show ?thesis
    using my_read_rest_run [OF assms(1-3), of "user_mem []" 0 len] dual_inv_get(1) [OF assms(1,2)] assms(4,6) l
    by (simp add: my_read_dual_def)
qed

lemma poll_app_overrun:
  assumes "dual_inv devs" and "m < 2" and "srfb_ok srfb" and "event_flag (devs ! m) \<noteq> 0"
    and "unat (d_size (devs ! m)) = 128" and "0 \<notin> set (message (devs ! m))"
  shows "poll_app_fd srfb True m 0 devs = None"
proof -
  let ?msg = "message (devs ! m)"
  have l: "length ?msg = 128" using length_message [OF dual_inv_get(2) [OF assms(1,2)]] assms(5) by simp
  have n: "d_size (devs ! m) \<noteq> 0" using assms(5) by auto
  have "my_read_dual srfb (user_mem []) True m 128 0 devs
      = Some (Returns (devs[m := cleared (devs ! m)], d_size (devs ! m), ?msg, Inr (d_size (devs ! m))))"
    using assms(5) by (intro read_whole_message [OF assms(1-4)]) simp_all
  moreover have "overlay 0 ?msg (replicate 128 0) = ?msg" using l by (simp add: overlay_def)
  ultimately show ?thesis using n assms(6) by (simp add: poll_app_fd_def c_string_def)
qed

text \<open>The first message, from freshly loaded devices.\<close>

lemma stored_read:
  assumes "dual_ok d" and "bs \<noteq> []" and "length bs \<le> 127" and "0 \<notin> set bs"
  shows "lines_of m 0 (stored bs d) = [(m, bs)]" and "unat (pos_after 0 (stored bs d)) = length bs"
    and "unat (d_size (dev_after 0 (stored bs d))) = 0"
proof -
  have s: "shown 0 (stored bs d) = bs" using assms by (simp add: shown_def)
  then show "lines_of m 0 (stored bs d) = [(m, bs)]"
    using assms(2,4) by (auto simp: lines_of_def takeWhile_eq_all_conv)
  show "unat (pos_after 0 (stored bs d)) = length bs"
    using pos_after_bound(1) [of "stored bs d" 0] s stored_ok [OF assms(1), of bs] assms(3) by simp
  show "unat (d_size (dev_after 0 (stored bs d))) = 0"
    using s assms(3) by (simp add: dev_after_def cleared_def stored_message(3))
qed

lemma fresh_two:
  obtains d where "dual_fresh = [d, d]" "dual_ok d" "event_flag d = 0" "d_size d = 0"
  by (simp add: dual_fresh_def numeral_2_eq_2 dual_ok_def)

lemma bind_cons: "x \<bind> (\<lambda>rest. Some (a # rest)) = map_option (Cons a) x"
  by (cases x) simp_all

lemma first_message:
  assumes "srfb_ok srfb" and "m < 2" and "m1 \<noteq> []" and "length m1 \<le> 127" and "0 \<notin> set m1"
  obtains d0 d1 p0 p1 where
    "\<And>es. app_run (select_app_fd srfb) (Message m m1 # Round # es) (0, 0) dual_fresh =
       map_option (Cons (m, m1)) (app_run (select_app_fd srfb) es (p0, p1) [d0, d1])"
    "dual_ok d0" "dual_ok d1" "unat p0 \<le> 128" "unat p1 \<le> 128" "behind m 0 p0 d0" "behind m 1 p1 d1"
    "m = 0 \<longrightarrow> unat p0 = length m1" "m = 1 \<longrightarrow> unat p1 = length m1"
proof -
  obtain d where d: "dual_fresh = [d, d]" "dual_ok d" "event_flag d = 0" "d_size d = 0" by (rule fresh_two)
  let ?s = "stored m1 d"
  have ok: "dual_ok ?s" using d(2) assms(4) by (intro stored_ok) simp_all
  note idle = flag_down [OF d(3)] and read = stored_read [OF d(2) assms(3-5)]
  have w: "my_write_dual (user_mem m1) m (word_of_nat (length m1)) 0 [d, d] = Some ([d, d][m := stored m1 ([d, d] ! m)], 0, Inr (word_of_nat (length m1)))"
    using message_write_run [OF two_inv [OF d(2,2)] assms(2)] assms(4) by simp
  have b: "behind m k 0 d" for k using d(4) by (simp add: behind_def)
  consider "m = 0" | "m = 1" using assms(2) by linarith
  then show thesis
  proof cases
    case 1
    then have "my_write_dual (user_mem m1) 0 (word_of_nat (length m1)) 0 [d, d] = Some ([?s, d], 0, Inr (word_of_nat (length m1)))"
      using w by simp
    then show ?thesis
      using that [of "pos_after 0 ?s" 0 "dev_after 0 ?s" d] 1 d(1,2) select_round_run [OF ok d(2) _ _ assms(1), of 0 0]
        idle read dev_after_ok [OF ok] b assms(4)
      by (auto simp: behind_def bind_cons)
  next
    case 2
    then have "my_write_dual (user_mem m1) 1 (word_of_nat (length m1)) 0 [d, d] = Some ([d, ?s], 0, Inr (word_of_nat (length m1)))"
      using w by simp
    then show ?thesis
      using that [of 0 "pos_after 0 ?s" d "dev_after 0 ?s"] 2 d(1,2) select_round_run [OF d(2) ok _ _ assms(1), of 0 0]
        idle read dev_after_ok [OF ok] b assms(4)
      by (auto simp: behind_def bind_cons)
  qed
qed

subsection \<open>Properties\<close>

text \<open>C24: A monitoring program loses messages. It keeps the device open, so its file position stays behind
  the message it has printed. Whatever is written to the two devices from then on, and whenever
  the program looks: as long as no message to this device is longer than the first one,
  \<open>select_app\<close> prints none of them. The driver discards them when the program reads.\<close>

theorem select_app_loses_message:
  assumes "srfb_ok srfb" and "m < 2" and "m1 \<noteq> []" and "length m1 \<le> 127" and "0 \<notin> set m1"
    and "\<forall>k bs. Message k bs \<in> set es \<longrightarrow> k < 2" and "\<forall>bs. Message m bs \<in> set es \<longrightarrow> length bs \<le> length m1"
  shows "\<exists>out. app_run (select_app_fd srfb) (Message m m1 # Round # es) (0, 0) dual_fresh = Some ((m, m1) # out) \<and>
    (\<forall>l. (m, l) \<notin> set out)"
proof -
  obtain d0 d1 p0 p1 where f:
    "app_run (select_app_fd srfb) (Message m m1 # Round # es) (0, 0) dual_fresh =
       map_option (Cons (m, m1)) (app_run (select_app_fd srfb) es (p0, p1) [d0, d1])"
    "dual_ok d0" "dual_ok d1" "unat p0 \<le> 128" "unat p1 \<le> 128" "behind m 0 p0 d0" "behind m 1 p1 d1"
    "m = 0 \<longrightarrow> unat p0 = length m1" "m = 1 \<longrightarrow> unat p1 = length m1"
    using first_message [OF assms(1-5)] by metis
  show ?thesis using select_silent [OF assms(1) f(2-5) assms(6,7) f(6-9)] f(1) by auto
qed

theorem select_app_loses_message_witness:
  "\<exists>out. app_run (select_app_fd simple_read)
      [Message 1 [104, 105], Round, Message 1 [111, 107], Message 0 [33], Round, Message 1 [63], Round] (0, 0) dual_fresh
    = Some ((1, [104, 105]) # out) \<and> (1, [111, 107]) \<notin> set out \<and> (1, [63]) \<notin> set out"
  using select_app_loses_message [OF simple_read_ok, of 1 "[104, 105]"
      "[Message 1 [111, 107], Message 0 [33], Round, Message 1 [63], Round]"]
  by (auto simp del: app_run.simps)

text \<open>C26: The epoll program and the select program do the same: for every sequence of messages and
  iterations, from every well-formed state of the devices, and in whatever order each
  \<open>epoll_wait\<close> reports the ready devices, both run without an undefined step, end with the same
  code and print the same lines for each device in the same order (the lines of different
  devices may alternate differently). When one of the calls before the loop fails, the epoll
  program has closed whatever it had opened.\<close>

theorem epoll_equals_select:
  assumes "dual_inv devs" and "srfb_ok srfb" and "\<forall>m bs. Message m bs \<in> set es \<longrightarrow> m < 2"
    and "reports_ready report"
  shows "(\<exists>code fds1 fds2 out1 out2. epoll_app_main srfb report True True True True True es devs = Some (code, fds1, out1) \<and>
      select_app_main srfb True True es devs = Some (code, fds2, out2) \<and>
      (\<forall>m. filter (\<lambda>l. fst l = m) out1 = filter (\<lambda>l. fst l = m) out2)) \<and>
    (open0 \<and> open1 \<and> create \<and> add0 \<and> add1 \<or>
      epoll_app_main srfb report open0 open1 create add0 add1 es devs = Some (Some 1, [], []))"
proof -
  obtain d0 d1 where d: "devs = [d0, d1]" "dual_ok d0" "dual_ok d1" using two_devices [OF assms(1)] .
  obtain o1 o2 where o: "epoll_run srfb report 0 es (0, 0) devs = Some o1" "app_run (select_app_fd srfb) es (0, 0) devs = Some o2"
    "\<forall>m. filter (\<lambda>l. fst l = m) o1 = filter (\<lambda>l. fst l = m) o2"
    using epoll_run_as_select [OF assms(2,4) d(2,3) _ _ assms(3), of 0 0 0] d(1) by auto
  have "\<exists>code fds1 fds2. epoll_app_main srfb report True True True True True es devs = Some (code, fds1, o1) \<and>
      select_app_main srfb True True es devs = Some (code, fds2, o2)"
    using o(1,2) by (simp add: epoll_app_main_def select_app_main_def app_main_def epoll_setup_closes)
  then show ?thesis using o(3) by (auto simp: epoll_app_main_def epoll_setup_closes)
qed

text \<open>A kernel that reports the second device first in every other iteration.\<close>

definition report_turns :: "nat \<Rightarrow> dual_dev list \<Rightarrow> nat list" where
  "report_turns i ds = filter (\<lambda>m. event_flag (ds ! m) \<noteq> 0) (if even i then [1, 0] else [0, 1])"

lemma report_turns_ready: "reports_ready report_turns"
  by (auto simp: reports_ready_def report_turns_def less_2_cases_iff)

theorem epoll_equals_select_witness:
  "\<exists>fds1 fds2 out1 out2. epoll_app_main simple_read report_turns True True True True True
        [Message 0 [104, 105], Message 1 [33], Round, WaitFails] dual_fresh = Some (Some 0, fds1, out1) \<and>
     select_app_main simple_read True True [Message 0 [104, 105], Message 1 [33], Round, WaitFails] dual_fresh = Some (Some 0, fds2, out2) \<and>
     filter (\<lambda>l. fst l = 0) out1 = filter (\<lambda>l. fst l = 0) out2"
proof -
  let ?es = "[Message 0 [104, 105], Message 1 [33], Round, WaitFails]"
  have mem: "\<forall>m bs. Message m bs \<in> set ?es \<longrightarrow> m < 2" by auto
  obtain code fds1 fds2 out1 out2 where o: "epoll_app_main simple_read report_turns True True True True True ?es dual_fresh = Some (code, fds1, out1)"
    "select_app_main simple_read True True ?es dual_fresh = Some (code, fds2, out2)"
    "\<forall>m. filter (\<lambda>l. fst l = m) out1 = filter (\<lambda>l. fst l = m) out2"
    using conjunct1 [OF epoll_equals_select [OF dual_fresh_inv simple_read_ok mem report_turns_ready, of True True True True True]]
    by blast
  have "code = Some 0" using o(2) by (auto simp: select_app_main_def app_main_def simp del: app_run.simps split: bind_splits)
  then show ?thesis using o by blast
qed

end
