(* ===== verification/DualRaces.thy ===== *)
theory DualRaces
  imports DualPoll Interleaving
begin

section \<open>The pollable devices without a lock: 014\_poll\_select/poll.c by statements\<close>

text \<open>
  \<open>poll.c\<close> takes no lock, so on a machine with several processors the statements of its reads and
  writes interleave; here they do, in any number of processes. The call of
  \<open>simple_read_from_buffer\<close> (the argument \<open>srfb\<close>) and \<open>copy_from_user\<close> are one step each. The flags
  of \<open>PTest\<close> say that the file is non-blocking and that a signal will come.

  \<open>wait_event_interruptible\<close> is a loop of the kernel: enter the wait queue (\<open>PWait\<close>), look at the flag
  (\<open>PCheck\<close>; leave the queue if it is raised), sleep (\<open>PSleep\<close>), and begin again when woken. A
  sleeper is woken when \<open>wake_up_interruptible\<close> (\<open>QWake\<close>) takes it out of the queue; the flag alone
  does not wake it. A signal ends the wait.

  \<open>events\<close> has the completed calls in their order and \<open>raising\<close> the writers that have raised the flag
  of a device and not yet woken its readers; they are not variables of the code.
\<close>

datatype devent = Wrote nat "byte list" | Got nat "byte list" ret

record dual_mem =
  devs :: "dual_dev list"
  events :: "devent list"
  raising :: "(nat \<times> nat) set"

datatype dpc =
    PTest bool bool waiter | PWait bool waiter | PCheck bool waiter | PSleep bool waiter
  | PSize waiter | PCopy waiter size_t
  | PCmp nat loff_t "byte list" ret | PFlag nat "byte list" ret | PZero nat "byte list" ret
  | QCopy uenv nat size_t | QSize nat "byte list" | QFlag nat "byte list" | QWake nat "byte list"

definition my_read_stmts :: "srfb \<Rightarrow> nat \<Rightarrow> dpc \<Rightarrow> nat \<Rightarrow> dual_dev \<Rightarrow> dual_mem \<Rightarrow> (dual_mem \<times> dpc option) progress" where
  "my_read_stmts srfb p pc m d s =
     (let set = (\<lambda>d'. s\<lparr>devs := (devs s)[m := d']\<rparr>); log = (\<lambda>e s. s\<lparr>events := events s @ [e]\<rparr>) in
      case pc of
        PTest nonblock sig w \<Rightarrow>
          if event_flag d = 0 then
            (if nonblock then Next (log (Got m [] (Inl EAGAIN)) s, None) else Next (s, Some (PWait sig w)))
          else Next (s, Some (PSize w))
      | PWait sig w \<Rightarrow> Next (set (d\<lparr>wq_array := insert p (wq_array d)\<rparr>), Some (PCheck sig w))
      | PCheck sig w \<Rightarrow>
          if event_flag d \<noteq> 0 then Next (set (d\<lparr>wq_array := wq_array d - {p}\<rparr>), Some (PSize w))
          else Next (s, Some (PSleep sig w))
      | PSleep sig w \<Rightarrow>
          if p \<notin> wq_array d then Next (s, Some (PWait sig w))
          else if sig then Next (set (d\<lparr>wq_array := wq_array d - {p}\<rparr>), Some (PSize w))
          else Blocked
      | PSize w \<Rightarrow> Next (s, Some (PCopy w (d_size d)))
      | PCopy w sz \<Rightarrow>
          if length (d_buffer d) < unat sz then Crash
          else (case srfb (w_env w) (w_len w) (w_pos w) (d_buffer d) sz of
                  (pos', out, ret) \<Rightarrow> Next (s, Some (PCmp m pos' out ret)))
      | PCmp _ pos out ret \<Rightarrow>
          if d_size d \<le> pos then Next (s, Some (PFlag m out ret)) else Next (log (Got m out ret) s, None)
      | PFlag _ out ret \<Rightarrow> Next (set (d\<lparr>event_flag := 0\<rparr>), Some (PZero m out ret))
      | PZero _ out ret \<Rightarrow> Next (log (Got m out ret) (set (d\<lparr>d_size := 0\<rparr>)), None)
      | _ \<Rightarrow> Blocked)"

definition my_write_stmts :: "nat \<Rightarrow> dpc \<Rightarrow> nat \<Rightarrow> dual_dev \<Rightarrow> dual_mem \<Rightarrow> (dual_mem \<times> dpc option) progress" where
  "my_write_stmts p pc m d s =
     (let set = (\<lambda>d'. s\<lparr>devs := (devs s)[m := d']\<rparr>); log = (\<lambda>e s. s\<lparr>events := events s @ [e]\<rparr>) in
      case pc of
        QCopy u _ len \<Rightarrow>
          let len = (if 128 < len then 128 else len) in
          (case mem_write (d_buffer d) 0 (snd (ucfu u (unat len))) of
             None \<Rightarrow> Crash
           | Some buf \<Rightarrow>
               Next (set (d\<lparr>d_buffer := buf\<rparr>),
                 if fst (ucfu u (unat len)) \<noteq> 0 then None else Some (QSize m (snd (ucfu u (unat len))))))
      | QSize _ bs \<Rightarrow> Next (set (d\<lparr>d_size := word_of_nat (length bs)\<rparr>), Some (QFlag m bs))
      | QFlag _ bs \<Rightarrow>
          Next ((set (d\<lparr>event_flag := 1\<rparr>))\<lparr>raising := insert (p, m) (raising s)\<rparr>, Some (QWake m bs))
      | QWake _ bs \<Rightarrow>
          Next (log (Wrote m bs) ((set (d\<lparr>wq_array := {}\<rparr>))\<lparr>raising := raising s - {(p, m)}\<rparr>), None)
      | _ \<Rightarrow> Blocked)"

fun minor_of :: "dpc \<Rightarrow> nat" where
  "minor_of (PTest nonblock sig w) = w_minor w"
| "minor_of (PWait sig w) = w_minor w"
| "minor_of (PCheck sig w) = w_minor w"
| "minor_of (PSleep sig w) = w_minor w"
| "minor_of (PSize w) = w_minor w"
| "minor_of (PCopy w sz) = w_minor w"
| "minor_of (PCmp m pos out ret) = m"
| "minor_of (PFlag m out ret) = m"
| "minor_of (PZero m out ret) = m"
| "minor_of (QCopy u m len) = m"
| "minor_of (QSize m bs) = m"
| "minor_of (QFlag m bs) = m"
| "minor_of (QWake m bs) = m"

fun is_write :: "dpc \<Rightarrow> bool" where
  "is_write (QCopy u m len) = True"
| "is_write (QSize m bs) = True"
| "is_write (QFlag m bs) = True"
| "is_write (QWake m bs) = True"
| "is_write pc = False"

definition dual_stmts :: "srfb \<Rightarrow> (dual_mem, dpc) stmts" where
  "dual_stmts srfb p pc s =
     (case arr_get (devs s) (int (minor_of pc)) of
        None \<Rightarrow> Crash
      | Some d \<Rightarrow>
          if is_write pc then my_write_stmts p pc (minor_of pc) d s
          else my_read_stmts srfb p pc (minor_of pc) d s)"

fun dual_calls :: "dpc \<Rightarrow> bool" where
  "dual_calls (PTest nonblock sig w) = (w_minor w < 2)"
| "dual_calls (QCopy u m len) = (m < 2 \<and> uaccess_ok u)"
| "dual_calls pc = False"

definition dual_boot :: dual_mem where
  "dual_boot = \<lparr>devs = dual_fresh, events = [], raising = {}\<rparr>"

lemmas dual_stmts_simps = dual_stmts_def my_read_stmts_def my_write_stmts_def Let_def

subsection \<open>What holds in every interleaving\<close>

definition dual_shared :: "dual_mem \<Rightarrow> bool" where
  "dual_shared s \<longleftrightarrow> length (devs s) = 2 \<and> (\<forall>d \<in> set (devs s). length (d_buffer d) = 128 \<and> unat (d_size d) \<le> 128)"

definition dual_at :: "dpc \<Rightarrow> bool" where
  "dual_at pc \<longleftrightarrow> minor_of pc < 2 \<and>
     (case pc of PCopy w sz \<Rightarrow> unat sz \<le> 128 | QCopy u m len \<Rightarrow> uaccess_ok u | QSize m bs \<Rightarrow> length bs \<le> 128 | _ \<Rightarrow> True)"

lemma dual_get:
  assumes "dual_shared s" and "dual_at pc"
  obtains d where "arr_get (devs s) (int (minor_of pc)) = Some d" "length (d_buffer d) = 128" "unat (d_size d) \<le> 128"
  using assms nth_mem [of "minor_of pc" "devs s"] that by (fastforce simp: dual_shared_def dual_at_def arr_get_def)

lemma dual_shared_set:
  "dual_shared s \<Longrightarrow> length (d_buffer d) = 128 \<Longrightarrow> unat (d_size d) \<le> 128 \<Longrightarrow> dual_shared (s\<lparr>devs := (devs s)[m := d]\<rparr>)"
  by (auto simp: dual_shared_def dest!: set_update_subset_insert [THEN subsetD])

lemma dual_shared_log [simp]:
  "dual_shared (s\<lparr>events := e\<rparr>) = dual_shared s" "dual_shared (s\<lparr>raising := r\<rparr>) = dual_shared s"
  by (simp_all add: dual_shared_def)

lemma clamp_128: "unat (if 128 < len then 128 else len :: size_t) \<le> 128"
  by (simp add: word_less_nat_alt)

lemma qcopy_step:
  assumes "arr_get (devs s) (int m) = Some d"
  defines "n len \<equiv> unat (if 128 < len then 128 else len :: size_t)"
  shows "dual_stmts srfb p (QCopy u m len) s =
    (case mem_write (d_buffer d) 0 (snd (ucfu u (n len))) of
       None \<Rightarrow> Crash
     | Some buf \<Rightarrow> Next (s\<lparr>devs := (devs s)[m := d\<lparr>d_buffer := buf\<rparr>]\<rparr>,
         if fst (ucfu u (n len)) \<noteq> 0 then None else Some (QSize m (snd (ucfu u (n len))))))"
  unfolding dual_stmts_def my_write_stmts_def Let_def n_def
  by (simp only: minor_of.simps assms(1) option.case is_write.simps if_True dpc.case)

lemma dual_local_write:
  assumes "dual_shared s" and "dual_at (QCopy u m len)" and "dual_stmts srfb p (QCopy u m len) s = Next (s', pc')"
  shows "dual_shared s' \<and> (\<forall>q. pc' = Some q \<longrightarrow> dual_at q)"
proof -
  define n where "n = unat (if 128 < len then 128 else len)"
  have n: "n \<le> 128" unfolding n_def by (rule clamp_128)
  have l: "length (snd (ucfu u n)) = n" and m: "m < 2" using assms(2) by (simp_all add: dual_at_def)
  obtain d where d: "arr_get (devs s) (int m) = Some d" "length (d_buffer d) = 128" "unat (d_size d) \<le> 128"
    using dual_get [OF assms(1,2)] by auto
  have "mem_write (d_buffer d) 0 (snd (ucfu u n)) = Some (overlay 0 (snd (ucfu u n)) (d_buffer d))"
    using d(2) l n by (simp add: mem_simps)
  then have "s' = s\<lparr>devs := (devs s)[m := d\<lparr>d_buffer := overlay 0 (snd (ucfu u n)) (d_buffer d)\<rparr>]\<rparr>"
    and "pc' = (if fst (ucfu u n) \<noteq> 0 then None else Some (QSize m (snd (ucfu u n))))"
    using assms(3) unfolding qcopy_step [OF d(1)] n_def [symmetric] by simp_all
  then show ?thesis using d l n m by (auto simp: dual_at_def intro!: dual_shared_set [OF assms(1)])
qed

lemma dual_local:
  assumes "dual_shared s" and "dual_at pc" and "dual_stmts srfb p pc s = Next (s', pc')"
  shows "dual_shared s' \<and> (\<forall>q. pc' = Some q \<longrightarrow> dual_at q)"
proof -
  obtain d where d: "arr_get (devs s) (int (minor_of pc)) = Some d" "length (d_buffer d) = 128" "unat (d_size d) \<le> 128"
    using dual_get [OF assms(1,2)] .
  show ?thesis
  proof (cases pc)
    case (QCopy u m len)
    then show ?thesis using dual_local_write assms by blast
  next
    case (QSize m bs)
    then have "unat (word_of_nat (length bs) :: size_t) \<le> 128"
      using assms(2) by (simp add: dual_at_def unat_of_nat_small)
    then show ?thesis using assms d QSize
      by (auto simp: dual_stmts_simps dual_at_def intro!: dual_shared_set [OF assms(1)])
  qed (use assms d in \<open>auto simp: dual_stmts_simps dual_at_def dual_shared_set split: if_splits prod.splits\<close>)
qed

lemma dual_safe:
  assumes "dual_shared s" and "dual_at pc"
  shows "dual_stmts srfb p pc s \<noteq> Crash"
proof -
  obtain d where d: "arr_get (devs s) (int (minor_of pc)) = Some d" "length (d_buffer d) = 128"
    using dual_get [OF assms] .
  show ?thesis
  proof (cases pc)
    case (QCopy u m len)
    define n where "n = unat (if 128 < len then 128 else len)"
    have "n \<le> 128" unfolding n_def by (rule clamp_128)
    then have "mem_write (d_buffer d) 0 (snd (ucfu u n)) \<noteq> None"
      using assms(2) QCopy d(2) by (simp add: dual_at_def mem_simps)
    moreover have "arr_get (devs s) (int m) = Some d" using d(1) QCopy by simp
    ultimately show ?thesis unfolding QCopy by (auto simp: qcopy_step simp flip: n_def)
  qed (use assms(2) d in \<open>auto simp: dual_stmts_simps dual_at_def split: if_splits prod.splits\<close>)
qed

subsection \<open>No reader sleeps through an event\<close>

text \<open>
  A process in the queue of a device whose flag is raised is about to be woken: some writer has
  raised the flag and not yet called \<open>wake_up_interruptible\<close>.
\<close>

fun noticed :: "nat \<Rightarrow> dpc \<Rightarrow> dual_mem \<Rightarrow> bool" where
  "noticed p (PSleep sig w) s \<longleftrightarrow>
     (p \<in> wq_array (devs s ! w_minor w) \<and> event_flag (devs s ! w_minor w) \<noteq> 0 \<longrightarrow> (\<exists>q. (q, w_minor w) \<in> raising s))"
| "noticed p (QWake m bs) s \<longleftrightarrow> (p, m) \<in> raising s"
| "noticed p pc s \<longleftrightarrow> True"

lemma dual_get_nth:
  assumes "dual_shared s" and "dual_at pc"
  shows "arr_get (devs s) (int (minor_of pc)) = Some (devs s ! minor_of pc)" and "minor_of pc < length (devs s)"
  using assms by (simp_all add: dual_shared_def dual_at_def arr_get_def)

lemma noticed_local:
  assumes "dual_shared s" and "dual_at pc" and "dual_stmts srfb p pc s = Next (s', pc')"
  shows "\<forall>q. pc' = Some q \<longrightarrow> noticed p q s'"
proof (cases pc)
  case (QCopy u m len)
  then show ?thesis using assms(3) dual_get_nth [OF assms(1,2)] by (auto simp: qcopy_step split: option.splits if_splits)
qed (use assms(3) dual_get_nth [OF assms(1,2)] in \<open>auto simp: dual_stmts_simps split: if_splits prod.splits\<close>)

text \<open>What a step of another process can do to a waiting one.\<close>

lemma others_wait:
  assumes "dual_shared s" and "dual_at pc" and "dual_stmts srfb p pc s = Next (s', pc')" and "p' \<noteq> p" and "k < 2"
    and "p' \<in> wq_array (devs s' ! k)" and "event_flag (devs s' ! k) \<noteq> 0"
  shows "(\<exists>q. (q, k) \<in> raising s') \<or>
    (p' \<in> wq_array (devs s ! k) \<and> event_flag (devs s ! k) \<noteq> 0 \<and> (\<forall>q. (q, k) \<in> raising s \<longrightarrow> (q, k) \<in> raising s'))"
proof -
  have l: "length (devs s) = 2" using assms(1) by (simp add: dual_shared_def)
  show ?thesis
  proof (cases pc)
    case (QCopy u m len)
    then show ?thesis using assms(3-7) dual_get_nth [OF assms(1,2)] l
      by (cases "k = m") (auto simp: qcopy_step split: option.splits if_splits)
  qed (use assms(3-7) dual_get_nth [OF assms(1,2)] l in
      \<open>auto simp: dual_stmts_simps nth_list_update split: if_splits prod.splits\<close>)
qed

lemma qcopy_next:
  assumes "dual_stmts srfb p (QCopy u m len) s = Next (s', pc')"
  shows "raising s' = raising s \<and> (\<forall>q. pc' = Some q \<longrightarrow> (\<exists>bs. q = QSize m bs))"
proof (cases "arr_get (devs s) (int m)")
  case (Some d)
  then show ?thesis using assms unfolding qcopy_step [OF Some] by (auto split: option.splits if_splits)
qed (use assms in \<open>simp add: dual_stmts_def\<close>)

lemma raising_others:
  assumes "dual_stmts srfb p pc s = Next (s', pc')" and "p' \<noteq> p"
  shows "(p', m) \<in> raising s' \<longleftrightarrow> (p', m) \<in> raising s"
proof (cases pc)
  case (QCopy u k len)
  then show ?thesis using assms(1) qcopy_next by auto
qed (use assms in \<open>auto simp: dual_stmts_simps split: option.splits if_splits prod.splits\<close>)

lemma noticed_interference:
  assumes "dual_shared s" and "dual_at pc" and "dual_at q" and "noticed p' q s" and "p \<noteq> p'"
    and "dual_stmts srfb p pc s = Next (s', pc')"
  shows "noticed p' q s'"
proof (cases q)
  case (PSleep sig w)
  then have m: "w_minor w < 2" using assms(3) by (simp add: dual_at_def)
  show ?thesis using others_wait [OF assms(1,2,6) assms(5) [symmetric] m] assms(4) unfolding PSleep noticed.simps by blast
next
  case (QWake m bs)
  then show ?thesis using raising_others [OF assms(6)] assms(4,5) by simp
qed simp_all

interpretation unlocked_devices: owicki_gries "dual_stmts srfb" dual_calls dual_shared "\<lambda>p pc s. dual_at pc \<and> noticed p pc s" for srfb
proof unfold_locales
  fix pc s p s' pc' p' q
  show "dual_calls pc \<Longrightarrow> dual_shared s \<Longrightarrow> dual_at pc \<and> noticed p pc s" by (cases pc) (simp_all add: dual_at_def)
  show "dual_shared s \<Longrightarrow> dual_at pc \<and> noticed p pc s \<Longrightarrow> dual_stmts srfb p pc s = Next (s', pc') \<Longrightarrow>
      dual_shared s' \<and> (\<forall>q. pc' = Some q \<longrightarrow> dual_at q \<and> noticed p q s')"
    using dual_local [of s pc srfb p s' pc'] noticed_local [of s pc srfb p s' pc'] by simp
  show "dual_shared s \<Longrightarrow> dual_at pc \<and> noticed p pc s \<Longrightarrow> dual_at q \<and> noticed p' q s \<Longrightarrow> p \<noteq> p' \<Longrightarrow>
      dual_stmts srfb p pc s = Next (s', pc') \<Longrightarrow> dual_at q \<and> noticed p' q s'"
    using noticed_interference [of s pc q p' p srfb s' pc'] by simp
  show "dual_shared s \<Longrightarrow> dual_at pc \<and> noticed p pc s \<Longrightarrow> dual_stmts srfb p pc s \<noteq> Crash" using dual_safe by blast
qed

lemma boot_shared: "dual_shared dual_boot"
  by (simp add: dual_shared_def dual_boot_def dual_fresh_def)

text \<open>A writer that has raised a flag is on its way to wake the readers.\<close>

lemma raising_runs:
  assumes "conc_reach (dual_stmts srfb) dual_calls dual_boot c" and "(q, m) \<in> raising (sh c)"
  shows "\<exists>bs. pcs c q = Some (QWake m bs)"
  using assms
proof (induction rule: conc_reach.induct)
  case start
  then show ?case by (simp add: conc_start_def dual_boot_def)
next
  case (call c pc p c')
  then show ?case by (auto split: if_splits)
next
  case (run c p c')
  then obtain pc s' pc' where r: "pcs c p = Some pc" "dual_stmts srfb p pc (sh c) = Next (s', pc')"
    "c' = \<lparr>sh = s', pcs = (pcs c)(p := pc')\<rparr>" unfolding run_next by blast
  show ?case
  proof (cases "q = p")
    case False
    then show ?thesis using run.IH run.prems raising_others [OF r(2) False] by (simp add: r(3))
  next
    case True
    have "(p, m) \<in> raising s'" using run.prems True by (simp add: r(3))
    then have "(\<exists>bs. pc' = Some (QWake m bs)) \<or> (p, m) \<in> raising (sh c) \<and> \<not> (\<exists>bs. pc = QWake m bs)"
    proof (cases pc)
      case (QCopy u k len)
      then show ?thesis using r(2) \<open>(p, m) \<in> raising s'\<close> qcopy_next by auto
    qed (use r(2) \<open>(p, m) \<in> raising s'\<close> in \<open>auto simp: dual_stmts_simps split: option.splits if_splits prod.splits\<close>)
    then show ?thesis using run.IH r(1) True by (auto simp: r(3))
  qed
qed

subsection \<open>A read that is woken comes to its end\<close>

lemma run_one:
  assumes "pcs c p = Some pc" and "code p pc (sh c) = Next (s', pc')"
  shows "schedule code (Run p # as) c = schedule code as \<lparr>sh = s', pcs = (pcs c)(p := pc')\<rparr>"
  using assms by simp

definition read_part :: "dual_mem \<Rightarrow> waiter \<Rightarrow> byte list" where
  "read_part s w = take (unat (w_len w)) (drop (unat (w_pos w)) (message (devs s ! w_minor w)))"

definition got :: "dual_mem \<Rightarrow> waiter \<Rightarrow> devent" where
  "got s w = Got (w_minor w) (read_part s w) (Inr (word_of_nat (length (read_part s w))))"

lemma read_from_size:
  assumes "dual_shared (sh c)" and "reader_ok w" and "srfb_ok srfb" and "pcs c p = Some (PSize w)"
  shows "\<exists>n c'. schedule (dual_stmts srfb) (replicate n (Run p)) c = Some c' \<and> pcs c' p = None \<and>
    events (sh c') = events (sh c) @ [got (sh c) w]"
proof -
  let ?s = "sh c" and ?m = "w_minor w"
  let ?d = "devs ?s ! ?m" and ?code = "dual_stmts srfb"
  note w = reader_okD [OF assms(2)]
  have m: "?m < length (devs ?s)" using assms(1) w(1) by (simp add: dual_shared_def)
  then have get: "arr_get (devs ?s) (int ?m) = Some ?d" by (simp add: arr_get_def)
  have b: "unat (d_size ?d) \<le> length (d_buffer ?d)" using assms(1) nth_mem [OF m] by (auto simp: dual_shared_def)
  let ?out = "read_part ?s w"
  have r: "srfb (w_env w) (w_len w) (w_pos w) (d_buffer ?d) (d_size ?d)
      = (w_pos w + word_of_nat (length ?out), ?out, Inr (word_of_nat (length ?out)))"
    using assms(3) w(2,3) b by (simp add: srfb_ok_def Let_def read_part_def message_def)
  let ?c2 = "\<lparr>sh = ?s, pcs = (pcs c)(p \<mapsto> PCmp ?m (w_pos w + word_of_nat (length ?out)) ?out (Inr (word_of_nat (length ?out))))\<rparr>"
  have to_copy: "schedule ?code (Run p # Run p # as) c = schedule ?code as ?c2" for as
    using assms(4) get b r by (simp add: dual_stmts_simps)
  show ?thesis
  proof (cases "d_size ?d \<le> w_pos w + word_of_nat (length ?out)")
    case True
    then have "\<exists>c'. schedule ?code (replicate 3 (Run p)) ?c2 = Some c' \<and> pcs c' p = None \<and> events (sh c') = events ?s @ [got ?s w]"
      using get m by (simp add: dual_stmts_simps replicate_numeral arr_get_def got_def)
    then show ?thesis by (intro exI [of _ "Suc (Suc 3)"]) (simp only: replicate_Suc to_copy)
  next
    case False
    then have "\<exists>c'. schedule ?code (replicate 1 (Run p)) ?c2 = Some c' \<and> pcs c' p = None \<and> events (sh c') = events ?s @ [got ?s w]"
      using get by (simp add: dual_stmts_simps got_def)
    then show ?thesis by (intro exI [of _ "Suc (Suc 1)"]) (simp only: replicate_Suc to_copy)
  qed
qed

text \<open>A sleeper that has been taken out of the queue of a device with a raised flag reads on.\<close>

lemma woken_reads:
  assumes "dual_shared (sh c)" and "reader_ok w" and "srfb_ok srfb" and "pcs c p = Some (PSleep sig w)"
    and "p \<notin> wq_array (devs (sh c) ! w_minor w)" and "event_flag (devs (sh c) ! w_minor w) \<noteq> 0"
  shows "\<exists>n c'. schedule (dual_stmts srfb) (replicate n (Run p)) c = Some c' \<and> pcs c' p = None \<and>
    events (sh c') = events (sh c) @ [got (sh c) w]"
proof -
  let ?s = "sh c" and ?m = "w_minor w"
  let ?d = "devs ?s ! ?m" and ?code = "dual_stmts srfb"
  have m: "?m < length (devs ?s)" using assms(1) reader_okD(1) [OF assms(2)] by (simp add: dual_shared_def)
  then have get: "arr_get (devs ?s) (int ?m) = Some ?d" by (simp add: arr_get_def)
  let ?c' = "\<lparr>sh = ?s, pcs = (pcs c)(p \<mapsto> PSize w)\<rparr>"
  have "?d\<lparr>wq_array := wq_array ?d - {p}\<rparr> = ?d" using assms(5) by simp
  then have s: "schedule ?code (Run p # Run p # Run p # as) c = schedule ?code as ?c'" for as
    using assms(4-6) get m by (simp add: dual_stmts_simps arr_get_def)
  obtain n c' where "schedule ?code (replicate n (Run p)) ?c' = Some c'" "pcs c' p = None" "events (sh c') = events ?s @ [got ?s w]"
    using read_from_size [of ?c' w srfb p] assms(1-3) by auto
  then show ?thesis by (intro exI [of _ "Suc (Suc (Suc n))"] exI [of _ c']) (simp only: replicate_Suc s)
qed

text \<open>The statement of \<open>wake_up_interruptible\<close> empties the queue and leaves the message.\<close>

lemma wake_step:
  assumes "dual_shared (sh c)" and "m < 2" and "pcs c q = Some (QWake m bs)" and "q \<noteq> p"
  shows "\<exists>c'. schedule (dual_stmts srfb) [Run q] c = Some c' \<and> dual_shared (sh c') \<and> pcs c' p = pcs c p \<and>
    wq_array (devs (sh c') ! m) = {} \<and> event_flag (devs (sh c') ! m) = event_flag (devs (sh c) ! m) \<and>
    message (devs (sh c') ! m) = message (devs (sh c) ! m)"
proof -
  let ?d = "devs (sh c) ! m"
  have m: "m < length (devs (sh c))" using assms(1,2) by (simp add: dual_shared_def)
  have "dual_shared ((sh c)\<lparr>devs := (devs (sh c))[m := ?d\<lparr>wq_array := {}\<rparr>]\<rparr>)"
    using nth_mem [OF m] assms(1) by (intro dual_shared_set [OF assms(1)]) (auto simp: dual_shared_def)
  then show ?thesis using assms(3,4) m by (simp add: dual_stmts_simps arr_get_def message_def dual_shared_def)
qed

lemma sleeper_reads:
  assumes "conc_reach (dual_stmts srfb) dual_calls dual_boot c" and "pcs c p = Some (PSleep sig w)" and "reader_ok w"
    and "srfb_ok srfb" and "event_flag (devs (sh c) ! w_minor w) \<noteq> 0"
  shows "\<exists>waking n c'. schedule (dual_stmts srfb) (waking @ replicate n (Run p)) c = Some c' \<and>
     waking \<in> (if p \<in> wq_array (devs (sh c) ! w_minor w)
                then {[Run q] | q. \<exists>bs. pcs c q = Some (QWake (w_minor w) bs)} else {[]}) \<and>
     pcs c' p = None \<and> last (events (sh c')) = got (sh c) w"
proof -
  have inv: "dual_shared (sh c)" and n: "noticed p (PSleep sig w) (sh c)"
    using unlocked_devices.reach_inv [OF assms(1) boot_shared] assms(2) by blast+
  show ?thesis
  proof (cases "p \<in> wq_array (devs (sh c) ! w_minor w)")
    case False
    obtain n c' where "schedule (dual_stmts srfb) (replicate n (Run p)) c = Some c'" "pcs c' p = None"
      "events (sh c') = events (sh c) @ [got (sh c) w]"
      using woken_reads [OF inv assms(3,4,2) False assms(5)] by blast
    then show ?thesis using False by (intro exI [of _ "[]"] exI [of _ n] exI [of _ c']) simp
  next
    case True
    then obtain q where "(q, w_minor w) \<in> raising (sh c)" using n assms(5) by auto
    then obtain bs where q: "pcs c q = Some (QWake (w_minor w) bs)" using raising_runs [OF assms(1)] by blast
    then have "q \<noteq> p" using assms(2) by auto
    then obtain c1 where c1: "schedule (dual_stmts srfb) [Run q] c = Some c1" "dual_shared (sh c1)" "pcs c1 p = pcs c p"
      "wq_array (devs (sh c1) ! w_minor w) = {}" "event_flag (devs (sh c1) ! w_minor w) = event_flag (devs (sh c) ! w_minor w)"
      "message (devs (sh c1) ! w_minor w) = message (devs (sh c) ! w_minor w)"
      using wake_step [OF inv reader_okD(1) [OF assms(3)] q] by blast
    obtain n c' where c': "schedule (dual_stmts srfb) (replicate n (Run p)) c1 = Some c'" "pcs c' p = None"
      "events (sh c') = events (sh c1) @ [got (sh c1) w]"
      using woken_reads [OF c1(2) assms(3,4), of p sig] assms(2,5) c1(3-5) by auto
    have "schedule (dual_stmts srfb) ([Run q] @ replicate n (Run p)) c = Some c'"
      unfolding schedule_append c1(1) using c'(1) by simp
    moreover have "last (events (sh c')) = got (sh c) w" using c'(3) c1(6) by (simp add: got_def read_part_def)
    moreover have "[Run q] \<in> (if p \<in> wq_array (devs (sh c) ! w_minor w)
                then {[Run q] | q. \<exists>bs. pcs c q = Some (QWake (w_minor w) bs)} else {[]})" using True q by auto
    ultimately show ?thesis using c'(2) by blast
  qed
qed

subsection \<open>Properties\<close>

text \<open>In every interleaving of any number of reads and writes, whatever
  \<open>simple_read_from_buffer\<close> does, no access leaves the buffers: the fill level is at most 128
  between any two statements.\<close>

theorem dual_statements_safe:
  assumes "conc_reach (dual_stmts srfb) dual_calls dual_boot c"
  shows "act (dual_stmts srfb) a c \<noteq> Crash \<and> length (devs (sh c)) = 2 \<and>
     unat (d_size (devs (sh c) ! 0)) \<le> 128 \<and> unat (d_size (devs (sh c) ! 1)) \<le> 128"
proof -
  have "dual_shared (sh c)" using unlocked_devices.reach_inv [OF assms boot_shared] by blast
  then show ?thesis using unlocked_devices.reach_safe [OF assms boot_shared] by (auto simp: dual_shared_def)
qed

text \<open>A reader at position 0 (process \<open>p\<close>), a writer, and a write between the last three statements
  of the read: before the flag is lowered, or after it.\<close>

definition reader0 :: "nat \<Rightarrow> dpc action" where
  "reader0 p = Call p (PTest True False \<lparr>w_env = user_mem [], w_minor = 0, w_len = 16, w_pos = 0\<rparr>)"

definition writer0 :: "byte list \<Rightarrow> dpc action list" where
  "writer0 msg = [Call 0 (QCopy (user_mem msg) 0 (word_of_nat (length msg))), Run 0, Run 0, Run 0, Run 0]"

definition lost :: "dpc action list" where
  "lost = writer0 [97] @ reader0 1 # replicate 4 (Run 1) @ writer0 [98] @ replicate 2 (Run 1)"

definition flagged_empty :: "dpc action list" where
  "flagged_empty = writer0 [97] @ reader0 1 # replicate 5 (Run 1) @ writer0 [98] @ Run 1 # reader0 2 # replicate 6 (Run 2)"

lemmas dual_eval = replicate_numeral conc_start_def dual_boot_def dual_fresh_def reader0_def writer0_def
  dual_stmts_simps arr_get_def mem_write_def user_mem_def simple_read_def overlay_def word_le_nat_alt

lemma lost_run:
  "\<exists>c. schedule (dual_stmts simple_read) lost (conc_start dual_boot) = Some c \<and>
     (\<forall>p. pcs c p = None) \<and> events (sh c) = [Wrote 0 [97], Wrote 0 [98], Got 0 [97] (Inr 1)] \<and>
     my_poll_dual 0 (devs (sh c)) = Some 0"
  by (simp add: lost_def dual_eval my_poll_dual_def)

lemma flagged_empty_run:
  "\<exists>c. schedule (dual_stmts simple_read) flagged_empty (conc_start dual_boot) = Some c \<and>
     events (sh c) = [Wrote 0 [97], Wrote 0 [98], Got 0 [97] (Inr 1), Got 0 [] (Inr 0)]"
  by (simp add: flagged_empty_def dual_eval)

lemma lost_calls: "list_all (call_ok dual_calls) lost" "list_all (call_ok dual_calls) flagged_empty"
  by (simp_all add: lost_def flagged_empty_def reader0_def writer0_def replicate_numeral)

theorem dual_statements_safe_witness:
  "\<exists>c. conc_reach (dual_stmts simple_read) dual_calls dual_boot c \<and> length (events (sh c)) = 3 \<and>
     unat (d_size (devs (sh c) ! 0)) \<le> 128"
proof -
  obtain c where c: "schedule (dual_stmts simple_read) lost (conc_start dual_boot) = Some c" "length (events (sh c)) = 3"
    using lost_run by force
  have r: "conc_reach (dual_stmts simple_read) dual_calls dual_boot c" by (rule schedule_from_start [OF c(1) lost_calls(1)])
  show ?thesis using dual_statements_safe [OF r] r c(2) by blast
qed

text \<open>C20: The two pollable devices are never read or written out of bounds, and no reader sleeps
  through an event, in any interleaving of the statements of any number of reads and writes
  (without a lock), signals included. In every reachable state no statement is undefined and the
  fill levels are at most 128. If a process sleeps in a read of a device whose event flag is raised,
  then it has been woken or some writer is just about to call \<open>wake_up_interruptible\<close>; and after
  that call, if it is still to come, the reader's own steps take it to the end of its read, which
  returns the part of the device's message behind its file position and the count of it.\<close>

theorem dual_no_lost_wakeup:
  assumes "conc_reach (dual_stmts srfb) dual_calls dual_boot c" and "srfb_ok srfb"
  shows "act (dual_stmts srfb) a c \<noteq> Crash \<and>
    unat (d_size (devs (sh c) ! 0)) \<le> 128 \<and> unat (d_size (devs (sh c) ! 1)) \<le> 128 \<and>
    (\<forall>p sig w. pcs c p = Some (PSleep sig w) \<and> reader_ok w \<and> event_flag (devs (sh c) ! w_minor w) \<noteq> 0 \<longrightarrow>
       (\<exists>waking n c'. schedule (dual_stmts srfb) (waking @ replicate n (Run p)) c = Some c' \<and>
          waking \<in> (if p \<in> wq_array (devs (sh c) ! w_minor w)
                     then {[Run q] | q. \<exists>bs. pcs c q = Some (QWake (w_minor w) bs)} else {[]}) \<and>
          pcs c' p = None \<and>
          (let out = take (unat (w_len w)) (drop (unat (w_pos w)) (message (devs (sh c) ! w_minor w))) in
           last (events (sh c')) = Got (w_minor w) out (Inr (word_of_nat (length out))))))"
proof (intro conjI allI impI)
  show "act (dual_stmts srfb) a c \<noteq> Crash" and "unat (d_size (devs (sh c) ! 0)) \<le> 128"
    and "unat (d_size (devs (sh c) ! 1)) \<le> 128" using dual_statements_safe [OF assms(1)] by blast+
  fix p sig w
  assume *: "pcs c p = Some (PSleep sig w) \<and> reader_ok w \<and> event_flag (devs (sh c) ! w_minor w) \<noteq> 0"
  show "\<exists>waking n c'. schedule (dual_stmts srfb) (waking @ replicate n (Run p)) c = Some c' \<and>
          waking \<in> (if p \<in> wq_array (devs (sh c) ! w_minor w)
                     then {[Run q] | q. \<exists>bs. pcs c q = Some (QWake (w_minor w) bs)} else {[]}) \<and>
          pcs c' p = None \<and>
          (let out = take (unat (w_len w)) (drop (unat (w_pos w)) (message (devs (sh c) ! w_minor w))) in
           last (events (sh c')) = Got (w_minor w) out (Inr (word_of_nat (length out))))"
    using sleeper_reads [OF assms(1) _ _ assms(2), of p sig w] * by (simp add: got_def read_part_def Let_def)
qed

text \<open>A reader asleep on device 0 in its queue, and a writer that has raised the flag.\<close>

definition asleep :: "dpc action list" where
  "asleep = Call 1 (PTest False False \<lparr>w_env = user_mem [], w_minor = 0, w_len = 16, w_pos = 0\<rparr>) # replicate 3 (Run 1)
     @ take 4 (writer0 [104, 105])"

lemma asleep_run:
  "\<exists>c. schedule (dual_stmts simple_read) asleep (conc_start dual_boot) = Some c \<and>
     pcs c 1 = Some (PSleep False \<lparr>w_env = user_mem [], w_minor = 0, w_len = 16, w_pos = 0\<rparr>) \<and>
     act (dual_stmts simple_read) (Run 1) c = Blocked \<and> 1 \<in> wq_array (devs (sh c) ! 0) \<and>
     event_flag (devs (sh c) ! 0) \<noteq> 0 \<and> message (devs (sh c) ! 0) = [104, 105]"
  by (simp add: asleep_def dual_eval message_def)

lemma asleep_calls: "list_all (call_ok dual_calls) asleep"
  by (simp add: asleep_def writer0_def replicate_numeral)

theorem dual_no_lost_wakeup_witness:
  "\<exists>c as c'. conc_reach (dual_stmts simple_read) dual_calls dual_boot c \<and> act (dual_stmts simple_read) (Run 1) c = Blocked \<and>
     schedule (dual_stmts simple_read) as c = Some c' \<and> last (events (sh c')) = Got 0 [104, 105] (Inr 2)"
proof -
  let ?w = "\<lparr>w_env = user_mem [], w_minor = 0, w_len = 16, w_pos = 0\<rparr>"
  obtain c where c: "schedule (dual_stmts simple_read) asleep (conc_start dual_boot) = Some c"
    "pcs c 1 = Some (PSleep False ?w)" "act (dual_stmts simple_read) (Run 1) c = Blocked"
    "event_flag (devs (sh c) ! 0) \<noteq> 0" "message (devs (sh c) ! 0) = [104, 105]" using asleep_run by blast
  have r: "conc_reach (dual_stmts simple_read) dual_calls dual_boot c" by (rule schedule_from_start [OF c(1) asleep_calls])
  have "reader_ok ?w" by (simp add: reader_ok_def ready_user_mem vfs_ok_def)
  then have "\<exists>as c'. schedule (dual_stmts simple_read) as c = Some c' \<and> last (events (sh c')) = Got 0 [104, 105] (Inr 2)"
    using conjunct2 [OF conjunct2 [OF conjunct2 [OF dual_no_lost_wakeup [OF r simple_read_ok]]], rule_format, of 1 False ?w] c
    by (auto simp: Let_def)
  then show ?thesis using r c(3) by blast
qed

text \<open>Without a lock a message can be lost whose write succeeded. A read that has found the end of
  the old message lowers the flag and the fill level although a new message has come between:
  nobody is told of it any more. If it comes between these two statements, poll reports an
  event, and the read that follows finds the end of the file.\<close>

theorem dual_write_lost:
  "(\<exists>c. conc_reach (dual_stmts simple_read) dual_calls dual_boot c \<and> (\<forall>p. pcs c p = None) \<and>
     events (sh c) = [Wrote 0 [97], Wrote 0 [98], Got 0 [97] (Inr 1)] \<and> my_poll_dual 0 (devs (sh c)) = Some 0) \<and>
   (\<exists>c. conc_reach (dual_stmts simple_read) dual_calls dual_boot c \<and>
     events (sh c) = [Wrote 0 [97], Wrote 0 [98], Got 0 [97] (Inr 1), Got 0 [] (Inr 0)])"
proof
  obtain c where c: "schedule (dual_stmts simple_read) lost (conc_start dual_boot) = Some c" "\<forall>p. pcs c p = None"
    "events (sh c) = [Wrote 0 [97], Wrote 0 [98], Got 0 [97] (Inr 1)]" "my_poll_dual 0 (devs (sh c)) = Some 0"
    using lost_run by blast
  have "conc_reach (dual_stmts simple_read) dual_calls dual_boot c" by (rule schedule_from_start [OF c(1) lost_calls(1)])
  then show "\<exists>c. conc_reach (dual_stmts simple_read) dual_calls dual_boot c \<and> (\<forall>p. pcs c p = None) \<and>
     events (sh c) = [Wrote 0 [97], Wrote 0 [98], Got 0 [97] (Inr 1)] \<and> my_poll_dual 0 (devs (sh c)) = Some 0"
    using c(2-4) by (intro exI conjI)
next
  obtain c where c: "schedule (dual_stmts simple_read) flagged_empty (conc_start dual_boot) = Some c"
    "events (sh c) = [Wrote 0 [97], Wrote 0 [98], Got 0 [97] (Inr 1), Got 0 [] (Inr 0)]" using flagged_empty_run by blast
  have "conc_reach (dual_stmts simple_read) dual_calls dual_boot c" by (rule schedule_from_start [OF c(1) lost_calls(2)])
  then show "\<exists>c. conc_reach (dual_stmts simple_read) dual_calls dual_boot c \<and>
     events (sh c) = [Wrote 0 [97], Wrote 0 [98], Got 0 [97] (Inr 1), Got 0 [] (Inr 0)]"
    using c(2) by (intro exI conjI)
qed

end
