(* ===== verification/LightDevice.thy ===== *)
theory LightDevice
  imports KernelResources
begin

section \<open>The light: 005\_atomic\_light\<close>

text \<open>
  \<open>light_kernel.c\<close> keeps three atomic integers; \<open>read\<close> and \<open>write\<close> move them through the packed
  struct \<open>lightStatus\<close> of three bytes, the ioctls through an \<open>int\<close>. \<open>light_user.c\<close> is the test
  program. A result is the state, the bytes delivered to the caller and the return value.
\<close>

record light =
  g_state :: cint
  g_brightness :: cint
  g_temperature :: cint

definition light_initial :: light where
  "light_initial = \<lparr>g_state = 0, g_brightness = 0, g_temperature = 25\<rparr>"

definition LED_ON :: cint where "LED_ON = 0x4100"
definition LED_OFF :: cint where "LED_OFF = 0x4201"
definition LED_SET_BRIGHTNESS :: cint where "LED_SET_BRIGHTNESS = 0x40044302"
definition LED_GET_STATE :: cint where "LED_GET_STATE = 0x80044403"
definition LED_GET_BRIGHTNESS :: cint where "LED_GET_BRIGHTNESS = 0x80044504"

text \<open>
  Storing an \<open>int\<close> in a \<open>_Bool\<close> gives 0 or 1; the other two members take the low byte. The
  handlers do not look at \<open>length\<close>.
\<close>

definition light_status :: "light \<Rightarrow> byte list" where
  "light_status s = [if g_state s \<noteq> 0 then 1 else 0, ucast (g_brightness s), ucast (g_temperature s)]"

definition light_read :: "uenv \<Rightarrow> size_t \<Rightarrow> light \<Rightarrow> light \<times> byte list \<times> ret" where
  "light_read u len s =
     (if uctu u 3 \<noteq> 0 then (s, take (3 - uctu u 3) (light_status s), Inl EFAULT)
      else (s, light_status s, Inr 3))"

text \<open>
  The struct comes from the user byte by byte; reading a \<open>_Bool\<close> whose byte is neither 0 nor
  1 is undefined.
\<close>

definition light_write :: "uenv \<Rightarrow> size_t \<Rightarrow> light \<Rightarrow> (light \<times> ret) option" where
  "light_write u len s =
     (case ucfu u 3 of
        (left, bs) \<Rightarrow>
          if left \<noteq> 0 then Some (s, Inl EFAULT)
          else do {
            b \<leftarrow> arr_get bs 0;
            state \<leftarrow> (if b = 0 \<or> b = 1 then Some b else None);
            br \<leftarrow> arr_get bs 1;
            te \<leftarrow> arr_get bs 2;
            Some (s\<lparr>g_state := ucast state, g_brightness := ucast br, g_temperature := ucast te\<rparr>, Inr 3)
          })"

text \<open>Opening and closing only log.\<close>

definition light_open :: "light \<Rightarrow> light \<times> ret" where
  "light_open s = (s, Inr 0)"

definition light_release :: "light \<Rightarrow> light \<times> ret" where
  "light_release s = (s, Inr 0)"

definition light_ioctl :: "uenv \<Rightarrow> cint \<Rightarrow> light \<Rightarrow> light \<times> byte list \<times> ret" where
  "light_ioctl u cmd s =
     (if cmd = LED_ON then (s\<lparr>g_state := 1\<rparr>, [], Inr 0)
      else if cmd = LED_OFF then (s\<lparr>g_state := 0\<rparr>, [], Inr 0)
      else if cmd = LED_SET_BRIGHTNESS then
        (case ucfu u 4 of
           (left, bs) \<Rightarrow>
             if left \<noteq> 0 then (s, [], Inl EFAULT)
             else (s\<lparr>g_brightness := int_of_bytes bs\<rparr>, [], Inr 0))
      else if cmd = LED_GET_STATE then
        (let out = bytes_of_int (g_state s) in
         if uctu u 4 \<noteq> 0 then (s, take (4 - uctu u 4) out, Inl EFAULT) else (s, out, Inr 0))
      else if cmd = LED_GET_BRIGHTNESS then
        (let out = bytes_of_int (g_brightness s) in
         if uctu u 4 \<noteq> 0 then (s, take (4 - uctu u 4) out, Inl EFAULT) else (s, out, Inr 0))
      else (s, [], Inl EINVAL))"

lemmas led_cmd_defs =
  LED_ON_def LED_OFF_def LED_SET_BRIGHTNESS_def LED_GET_STATE_def LED_GET_BRIGHTNESS_def

text \<open>No result of the registration is looked at.\<close>

definition light_driver_init :: module_init where
  "light_driver_init api h =
     Some (None, acquire api (Device 0) (acquire api Class (acquire api (Cdev 0) (acquire api Region h))))"

definition light_driver_exit :: module_exit where
  "light_driver_exit h = release_list [Device 0, Class, Cdev 0, Region] h"

subsection \<open>light\_user.c\<close>

text \<open>
  The program prints the status it reads, writes one, switches the LED on, sets and gets the
  brightness, gets the state and switches off. The log holds the printed numbers in order;
  \<open>state0\<close> is the indeterminate value of its local \<open>state\<close>.
\<close>

definition light_user_main :: "int \<Rightarrow> cint \<Rightarrow> light \<Rightarrow> (int list \<times> int \<times> light) option" where
  "light_user_main fd state0 s =
     (if fd < 0 then Some ([], 1, s)
      else
        let (s, out, r) = light_read (user_mem []) 3 s;
            status = overlay 0 out [0, 0, 0];
            log1 = (case r of Inr n \<Rightarrow> if 0 < sint n then map uint status else [] | Inl e \<Rightarrow> [])
        in do {
          (s, w) \<leftarrow> light_write (user_mem [1, 50, 25]) 3 s;
          let (s, o1, r1) = light_ioctl (user_mem []) LED_ON s;
          let (s, o2, r2) = light_ioctl (user_mem (bytes_of_int 100)) LED_SET_BRIGHTNESS s;
          let (s, o3, r3) = light_ioctl (user_mem []) LED_GET_STATE s;
          let state = int_of_bytes (overlay 0 o3 (bytes_of_int state0));
          let log2 = (if r3 = Inr 0 then [sint state] else []);
          let (s, o4, r4) = light_ioctl (user_mem []) LED_GET_BRIGHTNESS s;
          let brightness = int_of_bytes (overlay 0 o4 (bytes_of_int 100));
          let log3 = (if r4 = Inr 0 then [sint brightness] else []);
          let (s, o5, r5) = light_ioctl (user_mem []) LED_OFF s;
          Some (log1 @ log2 @ log3, 0, s)
        })"

subsection \<open>What the calls do\<close>

lemma light_write_run:
  assumes "b = 0 \<or> b = 1"
  shows "light_write (user_mem [b, br, te]) len s
    = Some (s\<lparr>g_state := ucast b, g_brightness := ucast br, g_temperature := ucast te\<rparr>, Inr 3)"
  using assms by (auto simp: light_write_def arr_get_def numeral_eq_Suc)

lemma light_write_trap:
  assumes "b \<noteq> 0" and "b \<noteq> 1"
  shows "light_write (user_mem [b, br, te]) len s = None"
  using assms by (simp add: light_write_def arr_get_def numeral_eq_Suc)

lemma light_read_run: "light_read (user_mem d) len s = (s, light_status s, Inr 3)"
  by (simp add: light_read_def)

lemma overlay_bytes_of_int [simp]: "overlay 0 (bytes_of_int v) (bytes_of_int w) = bytes_of_int v"
  by (simp add: overlay_def)

lemma light_ioctl_runs [simp]:
  "light_ioctl u LED_ON s = (s\<lparr>g_state := 1\<rparr>, [], Inr 0)"
  "light_ioctl u LED_OFF s = (s\<lparr>g_state := 0\<rparr>, [], Inr 0)"
  "light_ioctl (user_mem (bytes_of_int v)) LED_SET_BRIGHTNESS s = (s\<lparr>g_brightness := v\<rparr>, [], Inr 0)"
  "light_ioctl (user_mem d) LED_GET_STATE s = (s, bytes_of_int (g_state s), Inr 0)"
  "light_ioctl (user_mem d) LED_GET_BRIGHTNESS s = (s, bytes_of_int (g_brightness s), Inr 0)"
  by (simp_all add: light_ioctl_def led_cmd_defs Let_def)

text \<open>Loading with any failed registration and unloading gives back something not held.\<close>

lemma unchecked_init_exit:
  assumes "\<exists>r \<in> {Device 0, Class, Cdev 0, Region}. api r \<noteq> None"
  shows "light_driver_exit (snd (the (light_driver_init api []))) = None"
  using assms by (auto simp: light_driver_init_def light_driver_exit_def acquire_def release_def)

subsection \<open>Property\<close>

text \<open>A status written is the status read back, when its first byte is 0 or 1; any other first
  byte makes the write undefined. A brightness set by ioctl comes back whole through the get
  ioctl, but a status read shows only its low byte.\<close>

theorem light_round_trip:
  "(case light_write (user_mem [b, br, te]) len s of
      None \<Rightarrow> b \<noteq> 0 \<and> b \<noteq> 1
    | Some (s', r) \<Rightarrow> (b = 0 \<or> b = 1) \<and> r = Inr 3 \<and>
        light_read (user_mem d) len' s' = (s', [b, br, te], Inr 3)) \<and>
   (let s1 = fst (light_ioctl (user_mem (bytes_of_int v)) LED_SET_BRIGHTNESS s) in
      light_ioctl (user_mem d) LED_GET_BRIGHTNESS s1 = (s1, bytes_of_int v, Inr 0) \<and>
      (\<exists>st te'. light_read (user_mem d) len' s1 = (s1, [st, ucast v, te'], Inr 3)))"
proof -
  have "ucast (ucast x :: cint) = x" for x :: byte
    by (rule bit_word_eqI) (simp add: bit_simps)
  moreover have "(ucast b :: cint) = 0 \<longleftrightarrow> b = 0"
    by (metis ucast_0 calculation)
  ultimately show ?thesis
    using light_write_run [of b br te len s] light_write_trap [of b br te len s]
    by (cases "b = 0 \<or> b = 1") (auto simp: light_read_run light_status_def Let_def)
qed

end
