(* ===== verification/TempSensor.thy ===== *)
theory TempSensor
  imports KernelResources
begin

section \<open>The temperature sensor: 004\_temp\_sens\_atomic\<close>

text \<open>
  \<open>temp_kernel.c\<close> keeps the current temperature, two thresholds and a count of alerts in
  atomic integers. A write sets the temperature and counts an alert when it is outside the
  thresholds; the ioctls set the thresholds and read the temperature and the count.
  \<open>temp_user.c\<close> is the test program. Names that the code shares with other modules carry
  the suffix \<open>_sens\<close>.
\<close>

record temp_sensor =
  current_temp :: cint
  high_threshold :: cint
  low_threshold :: cint
  alert_count :: cint

definition temp_initial :: temp_sensor where
  "temp_initial = \<lparr>current_temp = 25, high_threshold = 30, low_threshold = 20, alert_count = 0\<rparr>"

definition TEMP_SET_HIGH :: cint where "TEMP_SET_HIGH = 0x40044101"
definition TEMP_SET_LOW :: cint where "TEMP_SET_LOW = 0x40044202"
definition TEMP_GET_CURRENT :: cint where "TEMP_GET_CURRENT = 0x80044303"
definition TEMP_GET_ALERTS :: cint where "TEMP_GET_ALERTS = 0x80044404"

definition temp_ioctl :: "uenv \<Rightarrow> cint \<Rightarrow> temp_sensor \<Rightarrow> temp_sensor \<times> byte list \<times> ret" where
  "temp_ioctl u cmd s =
     (if cmd = TEMP_SET_HIGH then
        (case ucfu u 4 of
           (left, bs) \<Rightarrow>
             if left \<noteq> 0 then (s, [], Inl EFAULT)
             else (s\<lparr>high_threshold := int_of_bytes bs\<rparr>, [], Inr 0))
      else if cmd = TEMP_SET_LOW then
        (case ucfu u 4 of
           (left, bs) \<Rightarrow>
             if left \<noteq> 0 then (s, [], Inl EFAULT)
             else (s\<lparr>low_threshold := int_of_bytes bs\<rparr>, [], Inr 0))
      else if cmd = TEMP_GET_CURRENT then
        (let out = bytes_of_int (current_temp s) in
         if uctu u 4 \<noteq> 0 then (s, take (4 - uctu u 4) out, Inl EFAULT) else (s, out, Inr 0))
      else if cmd = TEMP_GET_ALERTS then
        (let out = bytes_of_int (alert_count s) in
         if uctu u 4 \<noteq> 0 then (s, take (4 - uctu u 4) out, Inl EFAULT) else (s, out, Inr 0))
      else (s, [], Inl EINVAL))"

text \<open>The comparisons are signed; \<open>atomic_inc\<close> wraps.\<close>

definition temp_write_sens :: "uenv \<Rightarrow> size_t \<Rightarrow> temp_sensor \<Rightarrow> temp_sensor \<times> ret" where
  "temp_write_sens u len s =
     (case ucfu u 4 of
        (left, bs) \<Rightarrow>
          if left \<noteq> 0 then (s, Inl EFAULT)
          else
            let new_temp = int_of_bytes bs;
                s = s\<lparr>current_temp := new_temp\<rparr>
            in (if sint (high_threshold s) < sint new_temp \<or> sint new_temp < sint (low_threshold s)
                then s\<lparr>alert_count := alert_count s + 1\<rparr> else s,
                Inr 4))"

definition temp_init_sens :: "kapi \<Rightarrow> held \<Rightarrow> temp_sensor \<Rightarrow> ((errno option \<times> held) option) \<times> temp_sensor" where
  "temp_init_sens api h s =
     (Some (None, acquire api (Device 0) (acquire api Class (acquire api (Cdev 0) (acquire api Region h)))),
      s\<lparr>current_temp := 25, high_threshold := 30, low_threshold := 20, alert_count := 0\<rparr>)"

definition temp_exit_sens :: module_exit where
  "temp_exit_sens h = release_list [Device 0, Class, Cdev 0, Region] h"

lemmas temp_cmd_defs = TEMP_SET_HIGH_def TEMP_SET_LOW_def TEMP_GET_CURRENT_def TEMP_GET_ALERTS_def

subsection \<open>temp\_user.c\<close>

text \<open>
  The log holds the printed numbers; \<open>cur0\<close> and \<open>al0\<close> are the indeterminate values of the
  locals \<open>current\<close> and \<open>alerts\<close>.
\<close>

definition temp_user_main :: "int \<Rightarrow> cint \<Rightarrow> cint \<Rightarrow> temp_sensor \<Rightarrow> int list \<times> int \<times> temp_sensor" where
  "temp_user_main fd cur0 al0 s =
     (if fd < 0 then ([], 1, s)
      else
        let (s, o1, r1) = temp_ioctl (user_mem (bytes_of_int 30)) TEMP_SET_HIGH s;
            (s, o2, r2) = temp_ioctl (user_mem (bytes_of_int 20)) TEMP_SET_LOW s;
            (s, w) = temp_write_sens (user_mem (bytes_of_int 32)) 4 s;
            (s, o3, r3) = temp_ioctl (user_mem []) TEMP_GET_CURRENT s;
            log1 = (if r3 = Inr 0 then [sint (int_of_bytes (overlay 0 o3 (bytes_of_int cur0)))] else []);
            (s, o4, r4) = temp_ioctl (user_mem []) TEMP_GET_ALERTS s;
            log2 = (if r4 = Inr 0 then [sint (int_of_bytes (overlay 0 o4 (bytes_of_int al0)))] else [])
        in (log1 @ log2, 0, s))"

subsection \<open>Sequences of calls and the number of alerts\<close>

datatype temp_op = TWrite uenv size_t | TIoctl uenv cint

fun temp_step :: "temp_op \<Rightarrow> temp_sensor \<Rightarrow> temp_sensor" where
  "temp_step (TWrite u len) s = fst (temp_write_sens u len s)"
| "temp_step (TIoctl u cmd) s = fst (temp_ioctl u cmd s)"

definition temp_run :: "temp_op list \<Rightarrow> temp_sensor \<Rightarrow> temp_sensor" where
  "temp_run ops s = fold temp_step ops s"

text \<open>
  What the count stands for: the thresholds in force at a write are those the last
  successful ioctls before it set, and a write that could be fetched and lies outside of them
  counts.
\<close>

definition fetched :: "uenv \<Rightarrow> int option" where
  "fetched u = (if fst (ucfu u 4) = 0 then Some (sint (int_of_bytes (snd (ucfu u 4)))) else None)"

fun alerts_of :: "int \<Rightarrow> int \<Rightarrow> temp_op list \<Rightarrow> nat" where
  "alerts_of lo hi [] = 0"
| "alerts_of lo hi (TWrite u len # ops) =
     (case fetched u of
        Some t \<Rightarrow> (if lo \<le> t \<and> t \<le> hi then 0 else 1)
      | None \<Rightarrow> 0) + alerts_of lo hi ops"
| "alerts_of lo hi (TIoctl u cmd # ops) =
     alerts_of
       (if cmd = TEMP_SET_LOW then (case fetched u of Some t \<Rightarrow> t | None \<Rightarrow> lo) else lo)
       (if cmd = TEMP_SET_HIGH then (case fetched u of Some t \<Rightarrow> t | None \<Rightarrow> hi) else hi) ops"

lemma temp_ioctl_effect:
  "alert_count (fst (temp_ioctl u cmd s)) = alert_count s"
  "sint (low_threshold (fst (temp_ioctl u cmd s))) =
     (if cmd = TEMP_SET_LOW then (case fetched u of Some t \<Rightarrow> t | None \<Rightarrow> sint (low_threshold s))
      else sint (low_threshold s))"
  "sint (high_threshold (fst (temp_ioctl u cmd s))) =
     (if cmd = TEMP_SET_HIGH then (case fetched u of Some t \<Rightarrow> t | None \<Rightarrow> sint (high_threshold s))
      else sint (high_threshold s))"
  by (auto simp: temp_ioctl_def temp_cmd_defs fetched_def Let_def split: prod.splits)

lemma temp_write_effect:
  "low_threshold (fst (temp_write_sens u len s)) = low_threshold s"
  "high_threshold (fst (temp_write_sens u len s)) = high_threshold s"
  "alert_count (fst (temp_write_sens u len s)) = alert_count s +
     of_nat (case fetched u of
        Some t \<Rightarrow> (if sint (low_threshold s) \<le> t \<and> t \<le> sint (high_threshold s) then 0 else 1) | None \<Rightarrow> 0)"
  by (auto simp: temp_write_sens_def fetched_def Let_def split: prod.splits)

lemma alerts_counted:
  "alert_count (temp_run ops s) =
     alert_count s + of_nat (alerts_of (sint (low_threshold s)) (sint (high_threshold s)) ops)"
proof (induction ops arbitrary: s)
  case Nil
  then show ?case by (simp add: temp_run_def)
next
  case (Cons c ops)
  have run: "temp_run (c # ops) s = temp_run ops (temp_step c s)" by (simp add: temp_run_def)
  show ?case
  proof (cases c)
    case (TWrite u len)
    then show ?thesis unfolding run using Cons.IH [of "temp_step c s"]
      by (simp add: temp_write_effect)
  next
    case (TIoctl u cmd)
    then show ?thesis unfolding run using Cons.IH [of "temp_step c s"]
      by (simp add: temp_ioctl_effect)
  qed
qed

subsection \<open>Property\<close>

text \<open>After any sequence of writes and ioctls the alert count is the count before plus the
  number of writes that lay outside the thresholds in force at the time, modulo \<open>2^32\<close>.\<close>

theorem alert_count_exact:
  "alert_count (temp_run ops s) =
     alert_count s + of_nat (alerts_of (sint (low_threshold s)) (sint (high_threshold s)) ops)"
  by (rule alerts_counted)

end
