(* ===== verification/LedSysfs.thy ===== *)
theory LedSysfs
  imports CText KernelResources
begin

section \<open>The RGB LED attributes: 006\_led\_sysfs\_attr\<close>

text \<open>
  \<open>led_rgb_sysfs_attr.c\<close>: the static variables \<open>color\<close> (ten characters), \<open>brightness\<close> and
  \<open>power\<close> behind three sysfs attributes. \<open>kstrtoint\<close> is kernel code and an argument: the
  parsed number or an error; it writes its result only on success. A page handed to a store
  routine holds \<open>count\<close> characters and a NUL behind them. (Line 61 of the file names the power
  attribute with a row of backquotes, which no compiler accepts; the model has the handlers.)
\<close>

record led =
  color :: "byte list"
  brightness :: cint
  power :: cint

definition led_initial :: led where
  "led_initial = \<lparr>color = [114, 101, 100] @ replicate 7 0, brightness = 50, power = 1\<rparr>"

type_synonym kstrtoint = "byte list \<Rightarrow> errno + cint"

text \<open>What the attributes rely on: a decimal number, with a newline or without, is read.\<close>

definition kstrtoint_ok :: "kstrtoint \<Rightarrow> bool" where
  "kstrtoint_ok k \<longleftrightarrow> (\<forall>n < 2 ^ 31. k (fmt_zu n) = Inr (word_of_nat n) \<and> k (fmt_zu n @ [10]) = Inr (word_of_nat n))"

definition decimal_kstrtoint :: kstrtoint where
  "decimal_kstrtoint s =
     (let ds = (if s \<noteq> [] \<and> last s = 10 then butlast s else s) in
      if ds = [] \<or> (\<exists>d \<in> set ds. unat d < 48 \<or> 57 < unat d) then Inl EINVAL
      else if 2 ^ 31 \<le> digits_value ds then Inl (KErr 34)
      else Inr (word_of_nat (digits_value ds)))"

lemma decimal_kstrtoint_ok: "kstrtoint_ok decimal_kstrtoint"
proof -
  have "last (fmt_zu n) \<noteq> 10" for n
    using fmt_zu_digits [of "last (fmt_zu n)" n] last_in_set [of "fmt_zu n"] by auto
  moreover have "\<not> (\<exists>d \<in> set (fmt_zu n). unat d < 48 \<or> 57 < unat d)" for n
    using fmt_zu_digits [of _ n] by fastforce
  ultimately show ?thesis by (simp add: kstrtoint_ok_def decimal_kstrtoint_def digits_value_fmt_zu)
qed

subsection \<open>The show and store routines\<close>

definition color_show :: "led \<Rightarrow> (byte list \<times> ret) option" where
  "color_show s = do { t \<leftarrow> c_string (color s); Some (t @ [10], Inr (word_of_nat (length t + 1))) }"

definition brightness_show :: "led \<Rightarrow> byte list \<times> ret" where
  "brightness_show s =
     (let t = fmt_d (brightness s) @ [10] in (t, Inr (word_of_nat (length t))))"

definition power_show :: "led \<Rightarrow> byte list \<times> ret" where
  "power_show s = (let t = fmt_d (power s) @ [10] in (t, Inr (word_of_nat (length t))))"

definition color_store :: "byte list \<Rightarrow> size_t \<Rightarrow> led \<Rightarrow> (led \<times> ret) option" where
  "color_store page count s =
     (if 10 < count then Some (s, Inl EINVAL)
      else do {
        c \<leftarrow> mem_write (color s) 0 (strncpy page (unat count));
        c \<leftarrow> arr_set c (uint count) 0;
        t \<leftarrow> c_string c;
        Some (s\<lparr>color := c\<rparr>, Inr count)
      })"

definition brightness_store :: "kstrtoint \<Rightarrow> byte list \<Rightarrow> size_t \<Rightarrow> led \<Rightarrow> led \<times> ret" where
  "brightness_store kstrtoint page count s =
     (case kstrtoint page of Inl e \<Rightarrow> (s, Inl e) | Inr v \<Rightarrow> (s\<lparr>brightness := v\<rparr>, Inr count))"

definition power_store :: "kstrtoint \<Rightarrow> byte list \<Rightarrow> size_t \<Rightarrow> led \<Rightarrow> led \<times> ret" where
  "power_store kstrtoint page count s =
     (case kstrtoint page of Inl e \<Rightarrow> (s, Inl e) | Inr v \<Rightarrow> (s\<lparr>power := v\<rparr>, Inr count))"

subsection \<open>Module init and exit\<close>

definition led_rgb_init :: module_init where
  "led_rgb_init api h =
     (case api Kobject of
        Some e \<Rightarrow> Some (Some ENOMEM, h)
      | None \<Rightarrow>
      let h = Kobject # h in
      case api SysfsGroup of
        Some e \<Rightarrow> Some (Some e, h)
      | None \<Rightarrow> Some (None, SysfsGroup # h))"

text \<open>\<open>kobject_put\<close> takes the directory away with the group in it.\<close>

definition led_rgb_exit :: module_exit where
  "led_rgb_exit h = release_list [SysfsGroup, Kobject] h"

subsection \<open>What the routines do\<close>

definition led_inv :: "led \<Rightarrow> bool" where
  "led_inv s \<longleftrightarrow> length (color s) = 10 \<and> 0 \<in> set (color s)"

lemma led_initial_inv [inv_intros]: "led_inv led_initial"
  by (simp add: led_inv_def led_initial_def)

definition stored_text :: "byte list \<Rightarrow> size_t \<Rightarrow> byte list" where
  "stored_text page count = takeWhile (\<lambda>b. b \<noteq> 0) (take (unat count) page)"

lemma strncpy_then_nul:
  assumes "n < length c"
  shows "c_string ((overlay 0 (strncpy page n) c)[n := 0]) = Some (takeWhile (\<lambda>b. b \<noteq> 0) (take n page))"
proof -
  let ?t = "takeWhile (\<lambda>b. b \<noteq> 0) (take n page)"
  have l: "length ?t \<le> n" by (rule order_trans [OF length_takeWhile_le]) simp
  have nz: "\<forall>b \<in> set ?t. b \<noteq> 0" by (auto dest: set_takeWhileD)
  obtain d ds where d: "drop n c = d # ds" using assms by (metis Cons_nth_drop_Suc)
  have "(overlay 0 (strncpy page n) c)[n := 0] = ?t @ replicate (n - length ?t) 0 @ 0 # ds"
    using l d by (simp add: overlay_def strncpy_def Let_def list_update_append)
  moreover have "takeWhile (\<lambda>b. b \<noteq> 0) (?t @ replicate (n - length ?t) 0 @ 0 # ds) = ?t"
    using nz by (cases "n - length ?t") (simp_all add: takeWhile_append2)
  ultimately show ?thesis by (simp add: c_string_def)
qed

lemma color_store_run:
  assumes "length (color s) = 10"
  shows "color_store page count s =
     (if 10 < unat count then Some (s, Inl EINVAL)
      else if unat count = 10 then None
      else Some (s\<lparr>color := (overlay 0 (strncpy page (unat count)) (color s))[unat count := 0]\<rparr>, Inr count))"
proof -
  have n: "nat (uint count) = unat count" and nn: "0 \<le> uint count" by (simp_all add: nat_uint_eq)
  consider "10 < unat count" | "unat count = 10" | "unat count < 10" by linarith
  then show ?thesis
  proof cases
    case 1
    then show ?thesis by (simp add: color_store_def word_less_nat_alt)
  next
    case 2
    then show ?thesis using assms n by (simp add: color_store_def word_less_nat_alt mem_simps arr_set_def)
  next
    case 3
    have "c_string ((overlay 0 (strncpy page (unat count)) (color s))[unat count := 0]) \<noteq> None"
      using strncpy_then_nul [of "unat count" "color s" page] 3 assms by simp
    then show ?thesis using 3 assms n nn
      by (auto simp: color_store_def word_less_nat_alt mem_simps)
  qed
qed

lemma color_store_keeps:
  assumes "led_inv s" and "color_store page count s = Some (s', r)"
  shows "led_inv s'"
proof -
  have l: "length (color s) = 10" using assms(1) by (simp add: led_inv_def)
  have "s' = s \<or> (unat count < 10 \<and> color s' = (overlay 0 (strncpy page (unat count)) (color s))[unat count := 0])"
    using assms(2) color_store_run [OF l, of page count] by (auto split: if_splits)
  then show ?thesis using assms(1) l strncpy_then_nul [of "unat count" "color s" page]
    by (auto simp: led_inv_def c_string_def split: if_splits)
qed

subsection \<open>Property\<close>

text \<open>Storing a color, for every count: more than ten characters are refused; up to nine are
  stored, and \<open>color_show\<close> then prints them (up to a NUL) and a newline; with exactly ten the
  terminating NUL is written behind the array.\<close>

theorem color_store_outcome:
  assumes "led_inv s"
  shows "(if 10 < unat count then color_store page count s = Some (s, Inl EINVAL)
     else if unat count = 10 then color_store page count s = None
     else \<exists>s'. color_store page count s = Some (s', Inr count) \<and> led_inv s' \<and>
       color_show s' = Some (stored_text page count @ [10], Inr (word_of_nat (length (stored_text page count) + 1))))"
proof -
  have l: "length (color s) = 10" using assms by (simp add: led_inv_def)
  show ?thesis
  proof (cases "unat count < 10")
    case False
    then show ?thesis using color_store_run [OF l, of page count] by simp
  next
    case True
    let ?s = "s\<lparr>color := (overlay 0 (strncpy page (unat count)) (color s))[unat count := 0]\<rparr>"
    have st: "color_store page count s = Some (?s, Inr count)" using color_store_run [OF l, of page count] True by simp
    have "c_string (color ?s) = Some (stored_text page count)"
      using strncpy_then_nul [of "unat count" "color s" page] True l by (simp add: stored_text_def)
    then have "color_show ?s = Some (stored_text page count @ [10], Inr (word_of_nat (length (stored_text page count) + 1)))"
      by (simp add: color_show_def)
    then show ?thesis using True st color_store_keeps [OF assms st] by simp
  qed
qed

theorem color_store_outcome_witness:
  "color_store (replicate 10 120) 10 led_initial = None"
  using color_store_outcome [OF led_initial_inv, of 10 "replicate 10 120"] by simp

end
