(* ===== verification/TempLog.thy ===== *)
theory TempLog
  imports KernelResources
begin

section \<open>The temperature log: 001\_temp\_log\<close>

text \<open>
  \<open>helper.c\<close> exports the module parameter \<open>temp\<close>; \<open>driver.c\<close> keeps a copy of it and two
  thresholds, and its ioctl reports where the copy lies; \<open>user_app.c\<close> prints the report. (Line
  30 of \<open>driver.c\<close> lacks a closing parenthesis; the model has it where it belongs. Everything
  else is as in the file, the nesting of \<open>if\<close> and \<open>else\<close> included: an \<open>else\<close> belongs to the
  nearest \<open>if\<close>, against the indentation.) Names shared with other modules carry the suffix
  \<open>_log\<close>.
\<close>

record templog =
  helper_temp :: cint
  temp :: cint
  threshold_high :: cint
  threshold_low :: cint

definition th_high :: cint where "th_high = 0x22"
definition th_low :: cint where "th_low = 0x33"
definition th_with_limit :: cint where "th_with_limit = 0x44"

definition get_temp_val :: "templog \<Rightarrow> cint" where
  "get_temp_val s = helper_temp s"

text \<open>Opening and closing only log.\<close>

definition device_open_log :: "templog \<Rightarrow> templog \<times> ret" where
  "device_open_log s = (s, Inr 0)"

definition device_release_log :: "templog \<Rightarrow> templog \<times> ret" where
  "device_release_log s = (s, Inr 0)"

definition device_read_log :: "uenv \<Rightarrow> size_t \<Rightarrow> templog \<Rightarrow> templog \<times> byte list \<times> ret" where
  "device_read_log u len s =
     (let s = s\<lparr>temp := get_temp_val s\<rparr>; out = bytes_of_int (temp s) in
      if uctu u 4 \<noteq> 0 then (s, take (4 - uctu u 4) out, Inl EFAULT) else (s, out, Inr 1))"

definition device_write_log :: "uenv \<Rightarrow> size_t \<Rightarrow> templog \<Rightarrow> templog \<times> ret" where
  "device_write_log u len s = (s, Inr 0)"

text \<open>\<open>_IOWR('a', 0x11, int)\<close>. The caller's \<open>int\<close> is handed in and out as its four bytes.\<close>

definition THRESHOLD_CHECK :: cint where
  "THRESHOLD_CHECK = 0xC0046111"

definition put_int :: "uenv \<Rightarrow> cint \<Rightarrow> byte list \<Rightarrow> byte list" where
  "put_int u v arg = overlay 0 (take (4 - uctu u 4) (bytes_of_int v)) arg"

definition device_ioctl_log :: "uenv \<Rightarrow> cint \<Rightarrow> byte list \<Rightarrow> templog \<Rightarrow> byte list \<times> ret" where
  "device_ioctl_log u cmd arg s =
     (if cmd = THRESHOLD_CHECK then
        (if sint (threshold_high s) < sint (temp s) then
           (let arg = put_int u th_high arg in
            if uctu u 4 \<noteq> 0 then (arg, Inl EFAULT)
            else if sint (temp s) < sint (threshold_low s) then
              (let arg = put_int u th_low arg in
               if uctu u 4 \<noteq> 0 then (arg, Inl EFAULT)
               else
                 (let arg = put_int u th_with_limit arg in
                  if uctu u 4 \<noteq> 0 then (arg, Inl EFAULT) else (arg, Inr 0)))
            else (arg, Inr 0))
         else (arg, Inr 0))
      else (arg, Inr 0))"

definition temp_init_log :: module_init where
  "temp_init_log api h =
     (let h = acquire api Class h in
      if api Region = None
      then Some (None, acquire api (Device 0) (acquire api (Cdev 0) (acquire api Region h)))
      else Some (None, h))"

definition temp_exit_log :: module_exit where
  "temp_exit_log h = release_list [Device 0, Class, Cdev 0, Region] h"

subsection \<open>user\_app.c\<close>

datatype verdict = Higher | Lower | WithinLimit

text \<open>The temperature printed, the verdict printed (if any) and the exit code.\<close>

definition log_user_main :: "int \<Rightarrow> templog \<Rightarrow> ((int \<times> verdict option) option \<times> int \<times> templog)" where
  "log_user_main fd s =
     (if fd = - 1 then (None, - 1, s)
      else
        let (s, out, r) = device_read_log (user_mem []) 4 s;
            t = int_of_bytes (overlay 0 out (bytes_of_int 0));
            (arg, c) = device_ioctl_log (user_mem []) THRESHOLD_CHECK (bytes_of_int 0) s;
            v = int_of_bytes arg
        in (Some (sint t, if v = 0x22 then Some Higher else if v = 0x33 then Some Lower
                          else if v = 0x44 then Some WithinLimit else None), 0, s))"

lemma put_int_full [simp]: "uctu u 4 = 0 \<Longrightarrow> put_int u v (bytes_of_int w) = bytes_of_int v"
  by (simp add: put_int_def overlay_def)

lemma log_user_main_run:
  assumes "fd \<noteq> - 1"
  shows "log_user_main fd s = (Some (sint (helper_temp s),
      if sint (helper_temp s) \<le> sint (threshold_high s) then None
      else if sint (helper_temp s) < sint (threshold_low s) then Some WithinLimit
      else Some Higher), 0, s\<lparr>temp := helper_temp s\<rparr>)"
  using assms by (auto simp: log_user_main_def device_read_log_def device_ioctl_log_def get_temp_val_def
      Let_def overlay_def th_high_def th_low_def th_with_limit_def)

subsection \<open>Property\<close>

text \<open>What the test program says. It prints the helper's temperature. It says \<open>higher\<close> when that
  is above the high threshold (and not below the low one); at or below the high threshold it
  says nothing: a temperature that is too low, or within the limits, is never reported as such.\<close>

theorem log_verdict:
  assumes "fd \<noteq> - 1"
  shows "\<exists>verdict s'. log_user_main fd s = (Some (sint (helper_temp s), verdict), 0, s') \<and>
    (verdict = Some Higher \<longleftrightarrow> sint (threshold_high s) < sint (helper_temp s) \<and> sint (threshold_low s) \<le> sint (helper_temp s)) \<and>
    (verdict = None \<longleftrightarrow> sint (helper_temp s) \<le> sint (threshold_high s)) \<and> verdict \<noteq> Some Lower"
  using log_user_main_run [OF assms, of s] by (auto simp: not_le not_less)

theorem log_verdict_witness:
  "\<exists>s'. log_user_main 3 \<lparr>helper_temp = 5, temp = 0, threshold_high = 30, threshold_low = 10\<rparr> = (Some (5, None), 0, s')"
  using log_verdict [of 3 "\<lparr>helper_temp = 5, temp = 0, threshold_high = 30, threshold_low = 10\<rparr>"] by auto

end
