(* ===== verification/MiscDevice.thy ===== *)
theory MiscDevice
  imports SeekDevice KernelResources
begin

section \<open>The misc device: 001\_driver\_misc/misc.c\<close>

text \<open>
  A string buffer of 256 bytes that is read as a C string and replaced by a write.
  \<open>access_ok\<close> and \<open>simple_read_from_buffer\<close> are kernel code: the first is the flag \<open>acc\<close> of a
  call, the second the argument \<open>srfb\<close>. A write does not look at the file position.
\<close>

record misc =
  kernel_buffer :: "byte list"

definition misc_initial :: misc where
  "misc_initial = \<lparr>kernel_buffer =
     [72, 101, 108, 108, 111, 32, 73, 110, 100, 105, 97, 10] @ replicate 244 0\<rparr>"

definition misc_read ::
  "srfb \<Rightarrow> bool \<Rightarrow> uenv \<Rightarrow> size_t \<Rightarrow> loff_t \<Rightarrow> misc \<Rightarrow> (misc \<times> loff_t \<times> byte list \<times> ret) option" where
  "misc_read srfb acc u count ppos s =
     (if \<not> acc then Some (s, ppos, [], Inl EFAULT)
      else do {
        str \<leftarrow> c_string (kernel_buffer s);
        (case srfb u count ppos (kernel_buffer s) (word_of_nat (length str)) of
           (ppos', out, r) \<Rightarrow> Some (s, ppos', out, r))
      })"

definition misc_write :: "bool \<Rightarrow> uenv \<Rightarrow> size_t \<Rightarrow> loff_t \<Rightarrow> misc \<Rightarrow> (misc \<times> loff_t \<times> ret) option" where
  "misc_write acc u count ppos s =
     (if 255 < count then Some (s, ppos, Inl EINVAL)
      else if \<not> acc then Some (s, ppos, Inl EFAULT)
      else do {
        b \<leftarrow> mem_write (kernel_buffer s) 0 (snd (ucfu u (unat count)));
        if fst (ucfu u (unat count)) \<noteq> 0 then Some (s\<lparr>kernel_buffer := b\<rparr>, ppos, Inl EFAULT)
        else do {
          b \<leftarrow> arr_set b (uint count) 0;
          Some (s\<lparr>kernel_buffer := b\<rparr>, ppos, Inr count)
        }
      })"

text \<open>\<open>misc_register\<close> creates the device node; \<open>Device 0\<close> stands for it.\<close>

definition misc_init :: module_init where
  "misc_init api h = (case api (Device 0) of Some e \<Rightarrow> Some (Some e, h) | None \<Rightarrow> Some (None, Device 0 # h))"

definition misc_exit :: module_exit where
  "misc_exit h = release (Device 0) h"

interpretation misc_module: clean_module misc_init misc_exit "[Device 0]"
  by unfold_locales (auto simp: misc_init_def misc_exit_def split: option.splits)

subsection \<open>Invariant and what the calls do\<close>

text \<open>The last byte is written only with NUL: the buffer always holds a C string.\<close>

definition misc_inv :: "misc \<Rightarrow> bool" where
  "misc_inv s \<longleftrightarrow> length (kernel_buffer s) = 256 \<and> kernel_buffer s ! 255 = 0"

lemma misc_initial_inv [inv_intros]: "misc_inv misc_initial"
  by (simp add: misc_inv_def misc_initial_def nth_append)

definition misc_text :: "misc \<Rightarrow> byte list" where
  "misc_text s = takeWhile (\<lambda>b. b \<noteq> 0) (kernel_buffer s)"

lemma misc_c_string:
  assumes "misc_inv s"
  shows "c_string (kernel_buffer s) = Some (misc_text s)" "length (misc_text s) < 256"
    "take (length (misc_text s)) (kernel_buffer s) = misc_text s"
proof -
  have "0 \<in> set (kernel_buffer s)"
    using assms nth_mem [of 255 "kernel_buffer s"] by (simp add: misc_inv_def)
  then show "c_string (kernel_buffer s) = Some (misc_text s)" by (simp add: c_string_def misc_text_def)
  have "misc_text s \<noteq> kernel_buffer s"
    using \<open>0 \<in> set (kernel_buffer s)\<close> by (auto simp: misc_text_def takeWhile_eq_all_conv)
  then have "length (misc_text s) \<noteq> length (kernel_buffer s)"
    by (metis misc_text_def takeWhile_eq_take take_all order_refl)
  then show "length (misc_text s) < 256"
    using assms length_takeWhile_le [of "\<lambda>b. b \<noteq> 0" "kernel_buffer s"] by (simp add: misc_inv_def misc_text_def)
  show "take (length (misc_text s)) (kernel_buffer s) = misc_text s"
    by (simp add: misc_text_def takeWhile_eq_take [symmetric])
qed

lemma misc_read_run:
  assumes "misc_inv s" and "srfb_ok srfb" and "ready u" and "0 \<le> sint ppos"
  shows "misc_read srfb True u count ppos s =
    (let out = take (unat count) (drop (unat ppos) (misc_text s)) in
     Some (s, ppos + word_of_nat (length out), out, Inr (word_of_nat (length out))))"
proof -
  note t = misc_c_string [OF assms(1)]
  have n: "unat (word_of_nat (length (misc_text s)) :: size_t) = length (misc_text s)"
    using t(2) by (intro unat_of_nat_small) simp
  then have "srfb u count ppos (kernel_buffer s) (word_of_nat (length (misc_text s)))
      = (let out = take (unat count) (drop (unat ppos) (misc_text s)) in
         (ppos + word_of_nat (length out), out, Inr (word_of_nat (length out))))"
    using assms(1-4) t(2,3) by (simp add: srfb_ok_def misc_inv_def)
  then show ?thesis using t(1) by (simp add: misc_read_def Let_def)
qed

lemma misc_write_run:
  assumes "misc_inv s" and "uaccess_ok u"
  defines "b n \<equiv> overlay 0 (snd (ucfu u n)) (kernel_buffer s)"
  shows "misc_write acc u count ppos s = Some (
     if 255 < unat count then (s, ppos, Inl EINVAL)
     else if \<not> acc then (s, ppos, Inl EFAULT)
     else if fst (ucfu u (unat count)) \<noteq> 0 then (s\<lparr>kernel_buffer := b (unat count)\<rparr>, ppos, Inl EFAULT)
     else (s\<lparr>kernel_buffer := (b (unat count))[unat count := 0]\<rparr>, ppos, Inr count))"
proof (cases "255 < unat count")
  case True
  then show ?thesis by (simp add: misc_write_def word_less_nat_alt)
next
  case False
  have n: "nat (uint count) = unat count" "0 \<le> uint count" by (simp_all add: nat_uint_eq)
  have "mem_write (kernel_buffer s) 0 (snd (ucfu u (unat count))) = Some (b (unat count))"
    using False assms(1,2) by (simp add: mem_simps misc_inv_def b_def)
  moreover have "arr_set (b (unat count)) (uint count) 0 = Some ((b (unat count))[unat count := 0])"
    using False assms(1,2) n by (simp add: arr_set_def misc_inv_def b_def)
  ultimately show ?thesis using False by (simp add: misc_write_def word_less_nat_alt)
qed

lemma misc_write_keeps:
  assumes "misc_inv s" and "uaccess_ok u" and "misc_write acc u count ppos s = Some (s', p, r)"
  shows "misc_inv s'"
proof -
  let ?b = "overlay 0 (snd (ucfu u (unat count))) (kernel_buffer s)"
  have b: "misc_inv (s\<lparr>kernel_buffer := ?b\<rparr>)" "misc_inv (s\<lparr>kernel_buffer := ?b[unat count := 0]\<rparr>)"
    if "unat count \<le> 255"
    using that assms(1,2) by (auto simp: misc_inv_def nth_overlay nth_list_update)
  show ?thesis using misc_write_run [OF assms(1,2), of acc count ppos] assms(1,3) b
    by (auto split: if_splits)
qed

lemma misc_write_text:
  assumes "misc_inv s" and "uaccess_ok u" and "misc_write acc u count ppos s = Some (s', p, Inr n)"
  shows "n = count \<and> misc_text s' = takeWhile (\<lambda>b. b \<noteq> 0) (snd (ucfu u (unat count)))"
proof -
  let ?bs = "snd (ucfu u (unat count))"
  have le: "unat count \<le> 255" and n: "n = count"
    and s': "s' = s\<lparr>kernel_buffer := (overlay 0 ?bs (kernel_buffer s))[unat count := 0]\<rparr>"
    using misc_write_run [OF assms(1,2), of acc count ppos] assms(3) by (auto simp: not_less split: if_splits)
  have l: "length ?bs = unat count" using assms(2) by simp
  have "unat count < length (kernel_buffer s)" using le assms(1) by (simp add: misc_inv_def)
  then obtain d ds where "drop (unat count) (kernel_buffer s) = d # ds" by (metis Cons_nth_drop_Suc)
  then have "kernel_buffer s' = ?bs @ 0 # ds"
    using l by (simp add: s' overlay_def list_update_append)
  then show ?thesis using n by (simp add: misc_text_def takeWhile_tail)
qed

subsection \<open>Property\<close>

text \<open>After a write that succeeds, a read at any position returns the part of the written text
  behind it, where the text ends at the first NUL written; and the buffer ends with a NUL after
  every write, successful or not.\<close>

theorem misc_write_read:
  assumes "misc_inv s" and "uaccess_ok u" and "misc_write acc u count ppos s = Some (s', p, r)"
    and "srfb_ok srfb" and "ready v" and "0 \<le> sint pos"
  shows "misc_inv s' \<and> (\<forall>n. r = Inr n \<longrightarrow>
    (let out = take (unat len) (drop (unat pos) (takeWhile (\<lambda>b. b \<noteq> 0) (snd (ucfu u (unat count))))) in
     misc_read srfb True v len pos s' = Some (s', pos + word_of_nat (length out), out, Inr (word_of_nat (length out)))))"
proof -
  have inv: "misc_inv s'" by (rule misc_write_keeps [OF assms(1-3)])
  show ?thesis using inv misc_read_run [OF inv assms(4-6), of len] misc_write_text [OF assms(1,2), of acc count ppos s' p] assms(3)
    by auto
qed

theorem misc_write_read_witness:
  "\<exists>s'. misc_write True (user_mem [72, 105, 0, 33]) 4 0 misc_initial = Some (s', 0, Inr 4) \<and>
     misc_read simple_read True (user_mem []) 100 0 s' = Some (s', 2, [72, 105], Inr 2)"
proof -
  obtain s' where w: "misc_write True (user_mem [72, 105, 0, 33]) 4 0 misc_initial = Some (s', 0, Inr 4)"
    using misc_write_run [OF misc_initial_inv user_mem_ok [of "[72, 105, 0, 33]"], where acc = True and count = 4 and ppos = 0]
    by simp
  show ?thesis using misc_write_read [OF misc_initial_inv user_mem_ok w simple_read_ok ready_user_mem [of "[]"], where pos = 0 and len = 100] w
    by (simp add: Let_def)
qed

end
