(* ===== verification/MultiReader.thy ===== *)
theory MultiReader
  imports SeekDevice KernelResources
begin

section \<open>One writer, several readers: 012\_multi\_reader\_wait\<close>

text \<open>
  \<open>driver.c\<close>: a write stores a string and raises \<open>data_ready\<close>; readers wait for it, with a
  timeout of five seconds, and the second one to have read lowers it again. \<open>app.c\<close> starts two
  readers and a writer. The result of the wait is the argument \<open>w\<close> of a read; what follows the
  wait runs to the end. Names shared with other modules carry the suffix \<open>_mr\<close>.
\<close>

record mreader =
  mr_data :: "byte list"
  data_ready :: int
  readers_count :: int

definition mr_initial :: mreader where
  "mr_initial = \<lparr>mr_data = replicate 256 0, data_ready = 0, readers_count = 0\<rparr>"

definition total_readers :: int where "total_readers = 2"

datatype wait_result = Interrupted | TimedOut | Woken

text \<open>
  The user's \<open>len\<close> is overwritten with the length of the string before it is used.
\<close>

definition my_read_mr ::
  "uenv \<Rightarrow> wait_result \<Rightarrow> size_t \<Rightarrow> mreader \<Rightarrow> (mreader \<times> byte list \<times> ret) option" where
  "my_read_mr u w len s =
     (case w of
        Interrupted \<Rightarrow> Some (s, [], Inl ERESTARTSYS)
      | TimedOut \<Rightarrow> Some (s, [], Inl ETIMEDOUT)
      | Woken \<Rightarrow>
          do {
            str \<leftarrow> c_string (mr_data s);
            let n = length str;
            if uctu u n \<noteq> 0 then Some (s, take (n - uctu u n) str, Inl EFAULT)
            else
              let s = s\<lparr>readers_count := readers_count s + 1\<rparr>;
                  s = (if total_readers \<le> readers_count s then s\<lparr>readers_count := 0, data_ready := 0\<rparr> else s)
              in Some (s, str, Inr (word_of_nat n))
          })"

definition my_write_mr :: "uenv \<Rightarrow> size_t \<Rightarrow> mreader \<Rightarrow> (mreader \<times> ret) option" where
  "my_write_mr u len s =
     (let len = (if 255 < len then 255 else len) in
      do {
        d \<leftarrow> mem_write (mr_data s) 0 (snd (ucfu u (unat len)));
        if fst (ucfu u (unat len)) \<noteq> 0 then Some (s\<lparr>mr_data := d\<rparr>, Inl EFAULT)
        else do {
          d \<leftarrow> arr_set d (uint len) 0;
          Some (s\<lparr>mr_data := d, data_ready := 1, readers_count := 0\<rparr>, Inr len)
        }
      })"

text \<open>Only the device number region is checked.\<close>

definition dev_init_mr :: module_init where
  "dev_init_mr api h =
     (case api Region of Some e \<Rightarrow> Some (Some e, h) | None \<Rightarrow>
      Some (None, acquire api (Device 0) (acquire api Class (acquire api (Cdev 0) (Region # h)))))"

definition dev_exit_mr :: module_exit where
  "dev_exit_mr h = release_list [Device 0, Class, Cdev 0, Region] h"

subsection \<open>Calls of several processes\<close>

text \<open>
  The order in which the calls come to an end. A read returns from its wait because the flag
  is raised; while it is not, because of a signal or of the timeout.
\<close>

datatype mr_op = MrRead uenv size_t bool | MrWrite uenv size_t

definition wait_mr :: "bool \<Rightarrow> mreader \<Rightarrow> wait_result" where
  "wait_mr signal s = (if data_ready s \<noteq> 0 then Woken else if signal then Interrupted else TimedOut)"

fun mr_step :: "mr_op \<Rightarrow> mreader \<Rightarrow> (mreader \<times> byte list \<times> ret) option" where
  "mr_step (MrRead u len signal) s = my_read_mr u (wait_mr signal s) len s"
| "mr_step (MrWrite u len) s = map_option (\<lambda>(s', r). (s', [], r)) (my_write_mr u len s)"

fun mr_run :: "mr_op list \<Rightarrow> mreader \<Rightarrow> (mreader \<times> (byte list \<times> ret) list) option" where
  "mr_run [] s = Some (s, [])"
| "mr_run (c # cs) s =
     do { (s1, out, r) \<leftarrow> mr_step c s; (s2, rs) \<leftarrow> mr_run cs s1; Some (s2, (out, r) # rs) }"

fun mr_op_ok :: "mr_op \<Rightarrow> bool" where
  "mr_op_ok (MrRead u len signal) = uaccess_ok u"
| "mr_op_ok (MrWrite u len) = uaccess_ok u"

definition mr_inv :: "mreader \<Rightarrow> bool" where
  "mr_inv s \<longleftrightarrow> length (mr_data s) = 256 \<and> mr_data s ! 255 = 0 \<and>
     (data_ready s = 0 \<or> data_ready s = 1) \<and> 0 \<le> readers_count s \<and> readers_count s < total_readers"

lemma mr_initial_inv [inv_intros]: "mr_inv mr_initial"
  by (simp add: mr_inv_def mr_initial_def total_readers_def)

definition mr_text :: "mreader \<Rightarrow> byte list" where
  "mr_text s = takeWhile (\<lambda>b. b \<noteq> 0) (mr_data s)"

lemma mr_c_string: "mr_inv s \<Longrightarrow> c_string (mr_data s) = Some (mr_text s)"
  using nth_mem [of 255 "mr_data s"] by (simp add: mr_inv_def c_string_def mr_text_def)

lemma my_read_mr_run:
  assumes "mr_inv s"
  defines "n \<equiv> length (mr_text s)"
  shows "my_read_mr u Woken len s = Some (
     if uctu u n \<noteq> 0 then (s, take (n - uctu u n) (mr_text s), Inl EFAULT)
     else if readers_count s = 1 then (s\<lparr>readers_count := 0, data_ready := 0\<rparr>, mr_text s, Inr (word_of_nat n))
     else (s\<lparr>readers_count := 1\<rparr>, mr_text s, Inr (word_of_nat n)))"
proof -
  have "readers_count s = 0 \<or> readers_count s = 1"
    using assms(1) by (auto simp: mr_inv_def total_readers_def)
  then show ?thesis using mr_c_string [OF assms(1)]
    by (auto simp: my_read_mr_def n_def total_readers_def Let_def)
qed

lemma my_write_mr_run:
  assumes "mr_inv s" and "uaccess_ok u"
  defines "n len \<equiv> min (unat (len :: size_t)) 255"
    and "d k \<equiv> overlay 0 (snd (ucfu u k)) (mr_data s)"
  shows "my_write_mr u len s = Some (
     if fst (ucfu u (n len)) \<noteq> 0 then (s\<lparr>mr_data := d (n len)\<rparr>, Inl EFAULT)
     else (s\<lparr>mr_data := (d (n len))[n len := 0], data_ready := 1, readers_count := 0\<rparr>, Inr (word_of_nat (n len))))"
proof -
  have u: "unat (if 255 < len then 255 else len) = n len"
    by (simp add: word_less_nat_alt min_def n_def)
  then have w: "(if 255 < len then 255 else len) = word_of_nat (n len)" by (rule word_of_unat)
  have u': "unat (word_of_nat (n len) :: size_t) = n len" using u unfolding w .
  have nu: "nat (uint (word_of_nat (n len) :: size_t)) = n len" by (simp only: nat_uint_eq u')
  have le: "n len \<le> 255" by (simp add: n_def)
  have l: "length (mr_data s) = 256" using assms(1) by (simp add: mr_inv_def)
  have "mem_write (mr_data s) 0 (snd (ucfu u (n len))) = Some (d (n len))"
    using le l assms(2) by (simp add: mem_simps d_def)
  moreover have "arr_set (d (n len)) (uint (word_of_nat (n len) :: size_t)) 0 = Some ((d (n len))[n len := 0])"
    using le l assms(2) nu by (simp add: arr_set_def d_def)
  ultimately show ?thesis by (simp add: my_write_mr_def Let_def w u')
qed

lemma mr_write_keeps:
  assumes "mr_inv s" and "uaccess_ok u" and "my_write_mr u len s = Some (s', r)"
  shows "mr_inv s'"
proof -
  let ?n = "min (unat len) 255" let ?d = "overlay 0 (snd (ucfu u ?n)) (mr_data s)"
  have "length ?d = 256 \<and> ?d ! 255 = 0" and "length (?d[?n := 0]) = 256 \<and> ?d[?n := 0] ! 255 = 0"
    using assms(1,2) by (auto simp: mr_inv_def nth_overlay nth_list_update)
  then show ?thesis using my_write_mr_run [OF assms(1,2), of len] assms(1,3)
    by (auto simp: mr_inv_def total_readers_def split: if_splits)
qed

lemma mr_step_total:
  assumes "mr_inv s" and "mr_op_ok c"
  shows "\<exists>s' out r. mr_step c s = Some (s', out, r) \<and> mr_inv s'"
proof (cases c)
  case (MrRead u len signal)
  show ?thesis
  proof (cases "data_ready s = 0")
    case True
    then show ?thesis using MrRead assms(1) by (cases signal) (auto simp: wait_mr_def my_read_mr_def)
  next
    case False
    then show ?thesis using MrRead assms(1) my_read_mr_run [OF assms(1), of u len]
      by (auto simp: wait_mr_def mr_inv_def total_readers_def)
  qed
next
  case (MrWrite u len)
  then have "my_write_mr u len s \<noteq> None"
    using my_write_mr_run [OF assms(1), of u len] assms(2) by simp
  then obtain s' r where "my_write_mr u len s = Some (s', r)" by fast
  then show ?thesis using MrWrite mr_write_keeps [OF assms(1), of u len] assms(2) by auto
qed

lemma mr_run_total_aux: "mr_inv s \<Longrightarrow> list_all mr_op_ok cs \<Longrightarrow> \<exists>s' rs. mr_run cs s = Some (s', rs) \<and> mr_inv s'"
proof (induction cs arbitrary: s)
  case Nil
  then show ?case by simp
next
  case (Cons c cs)
  then obtain s1 out r where 1: "mr_step c s = Some (s1, out, r)" "mr_inv s1"
    using mr_step_total [of s c] by auto
  obtain s2 rs where "mr_run cs s1 = Some (s2, rs)" "mr_inv s2"
    using Cons.IH [OF 1(2)] Cons.prems(2) by auto
  then show ?case using 1(1) by simp
qed

text \<open>A message without NUL, written by a program.\<close>

lemma mr_write_message:
  assumes "mr_inv s" and "length msg \<le> 255" and "0 \<notin> set msg"
  shows "\<exists>s'. my_write_mr (user_mem msg) (word_of_nat (length msg)) s = Some (s', Inr (word_of_nat (length msg))) \<and>
    mr_inv s' \<and> mr_text s' = msg \<and> data_ready s' = 1 \<and> readers_count s' = 0"
proof -
  have u: "unat (word_of_nat (length msg) :: size_t) = length msg"
    using assms(2) by (intro unat_of_nat_small) simp
  then have n: "min (unat (word_of_nat (length msg) :: size_t)) 255 = length msg" using assms(2) by simp
  let ?s = "s\<lparr>mr_data := (overlay 0 msg (mr_data s))[length msg := 0], data_ready := 1, readers_count := 0\<rparr>"
  have w: "my_write_mr (user_mem msg) (word_of_nat (length msg)) s = Some (?s, Inr (word_of_nat (length msg)))"
    using my_write_mr_run [OF assms(1) user_mem_ok, of msg "word_of_nat (length msg)"] unfolding n by simp
  have "length msg < length (mr_data s)" using assms(1,2) by (simp add: mr_inv_def)
  then obtain d ds where "drop (length msg) (mr_data s) = d # ds" by (metis Cons_nth_drop_Suc)
  then have "mr_data ?s = msg @ 0 # ds" by (simp add: overlay_def list_update_append)
  moreover have "\<forall>x \<in> set msg. x \<noteq> 0" using assms(3) by metis
  ultimately have "mr_text ?s = msg" by (simp add: mr_text_def takeWhile_tail takeWhile_eq_all_conv)
  then show ?thesis using w mr_write_keeps [OF assms(1) user_mem_ok w] by auto
qed

subsection \<open>\<open>app.c\<close>\<close>

text \<open>
  A reader thread's read, into a zeroed buffer of 256 characters, printed as a string; the writer;
  and the program: the results of its three \<open>open\<close> calls are arguments. The readers return from
  their waits after the write, one after the other; without data they time out.
\<close>

definition reader_thread :: "mreader \<Rightarrow> (mreader \<times> byte list option) option" where
  "reader_thread s =
     do {
       (s, out, r) \<leftarrow> my_read_mr (user_mem []) (wait_mr False s) 255 s;
       (case r of
          Inl e \<Rightarrow> Some (s, None)
        | Inr ret \<Rightarrow>
            if ret = 0 then Some (s, None)
            else do {
              buffer \<leftarrow> mem_write (replicate 256 0) 0 out;
              buffer \<leftarrow> arr_set buffer (uint ret) 0;
              line \<leftarrow> c_string buffer;
              Some (s, Some line)
            })
     }"

definition writer_func :: "bool \<Rightarrow> byte list \<Rightarrow> mreader \<Rightarrow> (mreader \<times> ret option) option" where
  "writer_func opened message s =
     (if \<not> opened then Some (s, None)
      else do { (s, r) \<leftarrow> my_write_mr (user_mem message) (word_of_nat (length message)) s; Some (s, Some r) })"

definition test_message :: "byte list" where
  "test_message = [72, 101, 108, 108, 111, 32, 87, 111, 114, 108, 100]"

definition mr_app_main :: "bool \<Rightarrow> bool \<Rightarrow> bool \<Rightarrow> mreader \<Rightarrow> (int \<times> byte list option list \<times> mreader) option" where
  "mr_app_main open1 open2 open3 s =
     (if \<not> open1 then Some (1, [], s)
      else if \<not> open2 then Some (1, [], s)
      else do {
        (s, w) \<leftarrow> writer_func open3 test_message s;
        (s, l1) \<leftarrow> reader_thread s;
        (s, l2) \<leftarrow> reader_thread s;
        Some (0, [l1, l2], s)
      })"

lemma reader_thread_run:
  assumes "mr_inv s" and "mr_text s \<noteq> []" and "data_ready s \<noteq> 0"
  shows "\<exists>s'. reader_thread s = Some (s', Some (mr_text s)) \<and> mr_inv s' \<and> mr_text s' = mr_text s \<and>
    (readers_count s = 0 \<longrightarrow> data_ready s' = data_ready s)"
proof -
  let ?t = "mr_text s"
  have l: "length ?t < 256"
  proof (rule ccontr)
    assume "\<not> length ?t < 256"
    then have "takeWhile (\<lambda>b. b \<noteq> 0) (mr_data s) = mr_data s"
      using assms(1) length_takeWhile_le [of "\<lambda>b. b \<noteq> 0" "mr_data s"]
      by (metis mr_inv_def mr_text_def not_less takeWhile_eq_take take_all)
    moreover have "0 \<in> set (mr_data s)" using assms(1) nth_mem [of 255 "mr_data s"] by (simp add: mr_inv_def)
    ultimately show False by (metis set_takeWhileD)
  qed
  have u: "unat (word_of_nat (length ?t) :: size_t) = length ?t" using l by (intro unat_of_nat_small) simp
  then have n: "nat (uint (word_of_nat (length ?t) :: size_t)) = length ?t" by (simp only: nat_uint_eq)
  have nz: "(word_of_nat (length ?t) :: size_t) \<noteq> 0" using u assms(2) by (metis length_0_conv unat_0)
  have t0: "\<forall>b \<in> set ?t. b \<noteq> 0" by (auto simp: mr_text_def dest: set_takeWhileD)
  obtain s' where s': "my_read_mr (user_mem []) Woken 255 s = Some (s', ?t, Inr (word_of_nat (length ?t)))"
    "mr_inv s'" "mr_text s' = ?t" "readers_count s = 0 \<longrightarrow> data_ready s' = data_ready s"
    using my_read_mr_run [OF assms(1), of "user_mem []" 255] assms(1)
    by (cases "readers_count s = 1") (auto simp: mr_inv_def mr_text_def total_readers_def)
  have b: "mem_write (replicate 256 0) 0 ?t = Some (?t @ replicate (256 - length ?t) 0)"
    using l by (simp add: mem_simps overlay_def)
  have z: "(?t @ replicate (256 - length ?t) 0)[length ?t := 0] = ?t @ replicate (256 - length ?t) 0"
    using l by (cases "256 - length ?t") (simp_all add: list_update_append)
  have "arr_set (?t @ replicate (256 - length ?t) 0) (uint (word_of_nat (length ?t) :: size_t)) 0
      = Some (?t @ replicate (256 - length ?t) 0)"
    using l z n by (simp add: arr_set_def)
  moreover have "c_string (?t @ replicate (256 - length ?t) 0) = Some ?t"
    using l t0 by (auto simp: c_string_def takeWhile_append takeWhile_eq_all_conv)
  ultimately show ?thesis using s' b nz assms(3) by (simp add: reader_thread_def wait_mr_def)
qed

text \<open>Both readers print the message; the driver is as it was before, ready for the next one.\<close>

lemma mr_app_main_run:
  assumes "mr_inv s"
  shows "\<exists>s'. mr_app_main True True True s = Some (0, [Some test_message, Some test_message], s') \<and> mr_inv s'"
proof -
  have "0 \<notin> set test_message" and "length test_message \<le> 255" and ne: "test_message \<noteq> []"
    by (simp_all add: test_message_def)
  then obtain s1 where 1: "my_write_mr (user_mem test_message) (word_of_nat (length test_message)) s
      = Some (s1, Inr (word_of_nat (length test_message)))" "mr_inv s1" "mr_text s1 = test_message"
    "data_ready s1 = 1" "readers_count s1 = 0"
    using mr_write_message [OF assms, of test_message] by blast
  obtain s2 where 2: "reader_thread s1 = Some (s2, Some test_message)" "mr_inv s2" "mr_text s2 = test_message" "data_ready s2 = 1"
    using reader_thread_run [OF 1(2)] 1(3-5) ne by auto
  obtain s3 where "reader_thread s2 = Some (s3, Some test_message)" "mr_inv s3"
    using reader_thread_run [OF 2(2)] 2(3,4) ne by auto
  then show ?thesis using 1(1) 2(1) by (simp add: mr_app_main_def writer_func_def)
qed

subsection \<open>Properties\<close>

text \<open>Every sequence of reads and writes by any number of processes is defined: the string in
  the buffer always ends inside it, and the count of readers stays below the number expected.\<close>

theorem mr_run_safe:
  assumes "mr_inv s" and "list_all mr_op_ok cs"
  shows "\<exists>s' rs. mr_run cs s = Some (s', rs) \<and> mr_inv s'"
  by (rule mr_run_total_aux [OF assms])

theorem mr_run_safe_witness:
  "\<exists>s' rs. mr_run [MrWrite (user_mem (replicate 300 65)) 300, MrRead (user_mem []) 10 False] mr_initial = Some (s', rs) \<and> mr_inv s'"
  by (rule mr_run_safe [OF mr_initial_inv]) simp

text \<open>A message is delivered to exactly two reads. Each of them gets the whole of it, whatever
  the length it asked for, also when that is shorter than the message; the read after them finds
  nothing and ends with its signal or its timeout.\<close>

theorem mr_two_readers:
  assumes "mr_inv s" and "length msg \<le> 255" and "0 \<notin> set msg"
    and "ready u1" and "ready u2"
  shows "\<exists>s'. mr_run [MrWrite (user_mem msg) (word_of_nat (length msg)), MrRead u1 l1 g1, MrRead u2 l2 g2, MrRead u3 l3 g3] s
     = Some (s', [([], Inr (word_of_nat (length msg))), (msg, Inr (word_of_nat (length msg))),
                  (msg, Inr (word_of_nat (length msg))), ([], Inl (if g3 then ERESTARTSYS else ETIMEDOUT))]) \<and> mr_inv s'"
proof -
  obtain s1 where 1: "my_write_mr (user_mem msg) (word_of_nat (length msg)) s = Some (s1, Inr (word_of_nat (length msg)))"
    "mr_inv s1" "mr_text s1 = msg" "data_ready s1 = 1" "readers_count s1 = 0"
    using mr_write_message [OF assms(1-3)] by blast
  let ?s2 = "s1\<lparr>readers_count := 1\<rparr>" let ?s3 = "?s2\<lparr>readers_count := 0, data_ready := 0\<rparr>"
  have inv: "mr_inv ?s2" "mr_inv ?s3" using 1(2) by (simp_all add: mr_inv_def total_readers_def)
  have ms: "mr_text ?s2 = msg" using 1(3) by (simp add: mr_text_def)
  have "my_read_mr u1 Woken l1 s1 = Some (?s2, msg, Inr (word_of_nat (length msg)))"
    using my_read_mr_run [OF 1(2), of u1 l1] 1(3,5) assms(4) by (simp add: ready_def)
  moreover have "my_read_mr u2 Woken l2 ?s2 = Some (?s3, msg, Inr (word_of_nat (length msg)))"
    using my_read_mr_run [OF inv(1), of u2 l2] ms assms(5) by (simp add: ready_def)
  ultimately show ?thesis using 1(1,4) inv(2)
    by (simp add: wait_mr_def my_read_mr_def [of u3])
qed

theorem mr_two_readers_witness:
  "\<exists>s'. mr_run [MrWrite (user_mem [72, 105]) 2, MrRead (user_mem []) 1 False, MrRead (user_mem []) 1 False,
       MrRead (user_mem []) 1 False] mr_initial
     = Some (s', [([], Inr 2), ([72, 105], Inr 2), ([72, 105], Inr 2), ([], Inl ETIMEDOUT)])"
  using mr_two_readers [OF mr_initial_inv, of "[72, 105]" "user_mem []" "user_mem []" 1 False 1 False "user_mem []" 1 False]
  by auto

end
