(* ===== verification/MultiReaderRaces.thy ===== *)
theory MultiReaderRaces
  imports MultiReader Interleaving
begin

section \<open>The reader and writer driver without a lock: 012\_multi\_reader\_wait/driver.c by statements\<close>

text \<open>
  \<open>driver.c\<close> takes no lock. Here its \<open>my_read\<close> and \<open>my_write\<close> run statement by statement, the
  copies and \<open>strlen\<close> byte by byte, in any number of processes. A reader that will give up (signal,
  timeout) has the flag of \<open>RWait\<close>. \<open>served\<close> has what the completed reads delivered; it is not a
  variable of the code.
\<close>

record mr_sys = mreader +
  served :: "byte list list"

datatype mpc =
    RWait bool uenv | RLen uenv nat | RCopy uenv nat "byte list" | RCount "byte list"
  | RCountSet "byte list" int | RTest "byte list" | RZero "byte list" | RReady "byte list"
  | WBegin size_t uenv | WCopy "byte list" nat nat | WNul nat | WReady | WZero

definition read_stmts :: "mpc \<Rightarrow> mr_sys \<Rightarrow> (mr_sys \<times> mpc option) progress" where
  "read_stmts pc s =
     (case pc of
        RWait gives_up u \<Rightarrow>
          if data_ready s \<noteq> 0 then Next (s, Some (RLen u 0)) else if gives_up then Next (s, None) else Blocked
      | RLen u i \<Rightarrow>
          (case arr_get (mr_data s) (int i) of
             None \<Rightarrow> Crash
           | Some b \<Rightarrow> Next (s, Some (if b = 0 then RCopy u i [] else RLen u (i + 1))))
      | RCopy u n out \<Rightarrow>
          if length out < n - uctu u n then
            (case arr_get (mr_data s) (int (length out)) of
               None \<Rightarrow> Crash
             | Some b \<Rightarrow> Next (s, Some (RCopy u n (out @ [b]))))
          else Next (s, if uctu u n \<noteq> 0 then None else Some (RCount out))
      | RCount out \<Rightarrow> Next (s, Some (RCountSet out (readers_count s)))
      | RCountSet out c \<Rightarrow> Next (s\<lparr>readers_count := c + 1\<rparr>, Some (RTest out))
      | RTest out \<Rightarrow>
          if total_readers \<le> readers_count s then Next (s, Some (RZero out))
          else Next (s\<lparr>served := served s @ [out]\<rparr>, None)
      | RZero out \<Rightarrow> Next (s\<lparr>readers_count := 0\<rparr>, Some (RReady out))
      | RReady out \<Rightarrow> Next (s\<lparr>data_ready := 0, served := served s @ [out]\<rparr>, None)
      | _ \<Rightarrow> Blocked)"

definition write_stmts :: "mpc \<Rightarrow> mr_sys \<Rightarrow> (mr_sys \<times> mpc option) progress" where
  "write_stmts pc s =
     (case pc of
        WBegin len u \<Rightarrow>
          let len = (if 255 < len then 255 else len); (left, bs) = ucfu u (unat len) in
          Next (s, Some (WCopy bs 0 left))
      | WCopy bs i left \<Rightarrow>
          if i < length bs then
            (case arr_set (mr_data s) (int i) (bs ! i) of
               None \<Rightarrow> Crash
             | Some d \<Rightarrow> Next (s\<lparr>mr_data := d\<rparr>, Some (WCopy bs (i + 1) left)))
          else Next (s, if left \<noteq> 0 then None else Some (WNul (length bs)))
      | WNul n \<Rightarrow>
          (case arr_set (mr_data s) (int n) 0 of None \<Rightarrow> Crash | Some d \<Rightarrow> Next (s\<lparr>mr_data := d\<rparr>, Some WReady))
      | WReady \<Rightarrow> Next (s\<lparr>data_ready := 1\<rparr>, Some WZero)
      | WZero \<Rightarrow> Next (s\<lparr>readers_count := 0\<rparr>, None)
      | _ \<Rightarrow> Blocked)"

fun is_writer :: "mpc \<Rightarrow> bool" where
  "is_writer (WBegin len u) = True"
| "is_writer (WCopy bs i left) = True"
| "is_writer (WNul n) = True"
| "is_writer WReady = True"
| "is_writer WZero = True"
| "is_writer pc = False"

definition mr_stmts :: "(mr_sys, mpc) stmts" where
  "mr_stmts p pc s = (if is_writer pc then write_stmts pc s else read_stmts pc s)"

fun mr_calls :: "mpc \<Rightarrow> bool" where
  "mr_calls (RWait gives_up u) = uaccess_ok u"
| "mr_calls (WBegin len u) = uaccess_ok u"
| "mr_calls pc = False"

definition mr_from :: "byte list \<Rightarrow> mr_sys" where
  "mr_from d = \<lparr>mr_data = d, data_ready = 0, readers_count = 0, served = []\<rparr>"

definition mr_start :: mr_sys where
  "mr_start = mr_from (replicate 256 0)"

lemmas mr_stmts_simps = mr_stmts_def read_stmts_def write_stmts_def Let_def

subsection \<open>What holds in every interleaving\<close>

definition mr_shared :: "mr_sys \<Rightarrow> bool" where
  "mr_shared s \<longleftrightarrow> length (mr_data s) = 256 \<and> mr_data s ! 255 = 0 \<and> data_ready s \<in> {0, 1} \<and>
     0 \<le> readers_count s \<and> (\<forall>out \<in> set (served s). length out \<le> 255)"

text \<open>The assertions speak of the process alone, so no other process can destroy them.\<close>

fun mr_at :: "mpc \<Rightarrow> bool" where
  "mr_at (RWait g u) = uaccess_ok u"
| "mr_at (RLen u i) = (i \<le> 255)"
| "mr_at (RCopy u n out) = (n \<le> 255 \<and> length out \<le> n)"
| "mr_at (RCount out) = (length out \<le> 255)"
| "mr_at (RCountSet out c) = (length out \<le> 255 \<and> 0 \<le> c)"
| "mr_at (RTest out) = (length out \<le> 255)"
| "mr_at (RZero out) = (length out \<le> 255)"
| "mr_at (RReady out) = (length out \<le> 255)"
| "mr_at (WBegin len u) = uaccess_ok u"
| "mr_at (WCopy bs i left) = (length bs \<le> 255)"
| "mr_at (WNul n) = (n \<le> 255)"
| "mr_at WReady = True"
| "mr_at WZero = True"

lemma clamp_255: "unat (if 255 < len then 255 else len :: size_t) \<le> 255"
  by (simp add: word_less_nat_alt)

lemma wbegin_step:
  "mr_stmts p (WBegin len u) s =
     Next (s, Some (WCopy (snd (ucfu u (unat (if 255 < len then 255 else len)))) 0
       (fst (ucfu u (unat (if 255 < len then 255 else len))))))"
  by (simp add: mr_stmts_simps case_prod_unfold)

lemma mr_local:
  assumes "mr_shared s" and "mr_at pc" and "mr_stmts p pc s = Next (s', pc')"
  shows "mr_shared s' \<and> (\<forall>q. pc' = Some q \<longrightarrow> mr_at q)"
proof (cases pc)
  case (RLen u i)
  then have "i \<le> 254 \<or> mr_data s ! i = 0"
    using assms(1,2) by (cases "i = 255") (auto simp: mr_shared_def)
  then show ?thesis using assms RLen
    by (auto simp: mr_stmts_simps arr_get_def split: if_splits)
next
  case (WBegin len u)
  define n where "n = unat (if 255 < len then 255 else len)"
  have e: "s' = s" "pc' = Some (WCopy (snd (ucfu u n)) 0 (fst (ucfu u n)))"
    using assms(3) WBegin by (simp_all add: wbegin_step n_def)
  have "length (snd (ucfu u n)) \<le> 255" using assms(2) WBegin clamp_255 [of len] by (simp add: n_def)
  then show ?thesis using e assms(1) by simp
next
  case (WCopy bs i left)
  then show ?thesis using assms
    by (auto simp: mr_stmts_simps mr_shared_def arr_set_def split: if_splits)
next
  case (WNul n)
  then show ?thesis using assms
    by (auto simp: mr_stmts_simps mr_shared_def arr_set_def nth_list_update split: if_splits)
qed (use assms in \<open>auto simp: mr_stmts_simps mr_shared_def split: if_splits option.splits\<close>)

lemma mr_safe:
  assumes "mr_shared s" and "mr_at pc"
  shows "mr_stmts p pc s \<noteq> Crash"
  using assms
  by (cases pc) (auto simp: mr_stmts_simps mr_shared_def arr_get_def arr_set_def split: if_splits prod.splits)

interpretation unlocked_readers: process_local mr_stmts mr_calls mr_shared mr_at
proof unfold_locales
  fix pc s p s' pc'
  show "mr_calls pc \<Longrightarrow> mr_at pc" by (cases pc) simp_all
  show "mr_shared s \<Longrightarrow> mr_at pc \<Longrightarrow> mr_stmts p pc s = Next (s', pc') \<Longrightarrow>
      mr_shared s' \<and> (\<forall>q. pc' = Some q \<longrightarrow> mr_at q)" by (rule mr_local)
  show "mr_shared s \<Longrightarrow> mr_at pc \<Longrightarrow> mr_stmts p pc s \<noteq> Crash" by (rule mr_safe)
qed

subsection \<open>Properties\<close>

text \<open>In every interleaving of reads and writes no access leaves the array: \<open>strlen\<close> finds a NUL,
  because no write ever changes the last byte, and a read delivers at most 255 bytes.\<close>

theorem mr_statements_safe:
  assumes "conc_reach mr_stmts mr_calls mr_start c"
  shows "act mr_stmts a c \<noteq> Crash \<and> Max (insert 0 (length ` set (served (sh c)))) \<le> 255 \<and>
     0 \<le> readers_count (sh c)"
proof -
  have i: "mr_shared mr_start" by (simp add: mr_shared_def mr_start_def mr_from_def)
  have "mr_shared (sh c)" using unlocked_readers.reach_inv [OF assms i] by blast
  then show ?thesis using unlocked_readers.reach_safe [OF assms i] by (auto simp: mr_shared_def)
qed

text \<open>A write of two bytes by process 0, and reads by the processes 1 to 3.\<close>

definition mr_write_run :: "nat \<Rightarrow> byte list \<Rightarrow> mpc action list" where
  "mr_write_run p msg = Call p (WBegin (word_of_nat (length msg)) (user_mem msg)) # replicate (length msg + 5) (Run p)"

definition mr_read_begin :: "nat \<Rightarrow> mpc action" where
  "mr_read_begin p = Call p (RWait False (user_mem []))"

text \<open>One read overtakes a write.\<close>

definition torn :: "mpc action list" where
  "torn = mr_write_run 0 [97, 97] @ mr_read_begin 1 # replicate 5 (Run 1) @ mr_write_run 0 [98, 98] @ replicate 5 (Run 1)"

text \<open>Two reads count at the same time; a third one asks for the next message.\<close>

definition twice :: "mpc action list" where
  "twice = mr_write_run 0 [97, 97] @ mr_read_begin 1 # replicate 8 (Run 1) @ mr_read_begin 2 # replicate 8 (Run 2) @
     replicate 2 (Run 1) @ replicate 2 (Run 2) @ mr_read_begin 3 # replicate 12 (Run 3)"

lemmas mr_eval = replicate_numeral conc_start_def mr_write_run_def mr_read_begin_def mr_stmts_simps
  arr_get_def arr_set_def total_readers_def user_mem_def

lemma torn_run:
  assumes "length d = 256"
  shows "\<exists>c. schedule mr_stmts torn (conc_start (mr_from d)) = Some c \<and> served (sh c) = [[97, 98]]"
  using assms by (simp add: torn_def mr_eval mr_from_def)

lemma twice_run:
  assumes "length d = 256"
  shows "\<exists>c. schedule mr_stmts twice (conc_start (mr_from d)) = Some c \<and> served (sh c) = [[97, 97], [97, 97], [97, 97]]"
  using assms by (simp add: twice_def mr_eval mr_from_def)

lemma races_calls: "list_all (call_ok mr_calls) torn" "list_all (call_ok mr_calls) twice"
  by (simp_all add: torn_def twice_def mr_write_run_def mr_read_begin_def replicate_numeral)

text \<open>The messages that the calls of a schedule send.\<close>

fun sent :: "mpc action list \<Rightarrow> byte list list" where
  "sent [] = []"
| "sent (Call p (WBegin len u) # as) = snd (ucfu u (min 255 (unat len))) # sent as"
| "sent (a # as) = sent as"

lemma races_sent: "sent torn = [[97, 97], [98, 98]]" "sent twice = [[97, 97]]"
  by (simp_all add: torn_def twice_def mr_write_run_def mr_read_begin_def replicate_numeral user_mem_def)

lemma races_reach:
  assumes "schedule mr_stmts as (conc_start (mr_from d)) = Some c \<and> served (sh c) = outs"
    and "list_all (call_ok mr_calls) as" and "mr_from d = mr_start"
  shows "conc_reach mr_stmts mr_calls mr_start c \<and> served (sh c) = outs"
  using assms schedule_from_start [of mr_stmts as "mr_from d" c mr_calls] by simp

theorem mr_statements_safe_witness:
  "\<exists>c. conc_reach mr_stmts mr_calls mr_start c \<and> served (sh c) = [[97, 98]] \<and> 0 \<le> readers_count (sh c)"
proof -
  obtain c where "conc_reach mr_stmts mr_calls mr_start c" "served (sh c) = [[97, 98]]"
    using torn_run [of "replicate 256 0"] races_reach [OF _ races_calls(1)] mr_start_def by (metis length_replicate)
  then show ?thesis using mr_statements_safe by blast
qed

text \<open>C33: Without a lock a message may be delivered torn, or too often. A schedule whose only writes send
  \<open>aa\<close> and \<open>bb\<close> has a read that delivers \<open>ab\<close>, which nobody sent. And in a schedule with one write, of
  \<open>aa\<close>, three readers get it although it is meant for two: two reads that count at the same time
  count as one.\<close>

theorem mr_unlocked_races:
  "(\<exists>as c. schedule mr_stmts as (conc_start mr_start) = Some c \<and> list_all (call_ok mr_calls) as \<and>
      sent as = [[97, 97], [98, 98]] \<and> served (sh c) = [[97, 98]]) \<and>
   (\<exists>as c. schedule mr_stmts as (conc_start mr_start) = Some c \<and> list_all (call_ok mr_calls) as \<and>
      sent as = [[97, 97]] \<and> total_readers = 2 \<and> served (sh c) = [[97, 97], [97, 97], [97, 97]])"
proof
  obtain c where "schedule mr_stmts torn (conc_start mr_start) = Some c" "served (sh c) = [[97, 98]]"
    using torn_run [of "replicate 256 0"] unfolding mr_start_def by auto
  then show "\<exists>as c. schedule mr_stmts as (conc_start mr_start) = Some c \<and> list_all (call_ok mr_calls) as \<and>
      sent as = [[97, 97], [98, 98]] \<and> served (sh c) = [[97, 98]]"
    using races_calls(1) races_sent(1) by blast
  obtain c where "schedule mr_stmts twice (conc_start mr_start) = Some c" "served (sh c) = [[97, 97], [97, 97], [97, 97]]"
    using twice_run [of "replicate 256 0"] unfolding mr_start_def by auto
  then show "\<exists>as c. schedule mr_stmts as (conc_start mr_start) = Some c \<and> list_all (call_ok mr_calls) as \<and>
      sent as = [[97, 97]] \<and> total_readers = 2 \<and> served (sh c) = [[97, 97], [97, 97], [97, 97]]"
    using races_calls(2) races_sent(2) total_readers_def by blast
qed

end
