(* ===== verification/IrqDemo.thy ===== *)
theory IrqDemo
  imports CText KernelResources
begin

section \<open>The interrupt demonstration: 021\_interrupt\_handler/irq\_handler\_kernel.c\<close>

text \<open>
  Three counters, a tasklet and a work item. \<open>tasklet_schedule\<close> and \<open>schedule_work\<close> mark
  their item as pending (a pending item is not queued twice); the kernel later runs its
  function, which counts. The character device prints the counters and takes one-letter
  commands, the attributes do the same through sysfs.
\<close>

record irqd =
  interrupt_count :: size_t
  tasklet_count :: size_t
  work_queue_count :: size_t
  irq_number :: cint
  tasklet_pending :: bool
  work_pending :: bool

definition irqd_initial :: irqd where
  "irqd_initial = \<lparr>interrupt_count = 0, tasklet_count = 0, work_queue_count = 0, irq_number = 0,
     tasklet_pending = False, work_pending = False\<rparr>"

definition irq_handler :: "irqd \<Rightarrow> irqd" where
  "irq_handler s = s\<lparr>interrupt_count := interrupt_count s + 1, tasklet_pending := True\<rparr>"

definition tasklet_func :: "irqd \<Rightarrow> irqd" where
  "tasklet_func s = s\<lparr>tasklet_count := tasklet_count s + 1\<rparr>"

definition work_func :: "irqd \<Rightarrow> irqd" where
  "work_func s = s\<lparr>work_queue_count := work_queue_count s + 1\<rparr>"

definition lu :: "size_t \<Rightarrow> byte list" where
  "lu w = fmt_zu (unat w)"

definition irq_count_show :: "irqd \<Rightarrow> byte list \<times> ret" where
  "irq_count_show s =
     (let t = ascii ''IRQ Count: '' @ lu (interrupt_count s) @ [10] @
              ascii ''Tasklet Count: '' @ lu (tasklet_count s) @ [10] @
              ascii ''Work Queue Count: '' @ lu (work_queue_count s) @ [10]
      in (t, Inr (word_of_nat (length t))))"

definition irq_info_show :: "irqd \<Rightarrow> byte list \<times> ret" where
  "irq_info_show s =
     (let t = (if 0 < sint (irq_number s)
               then ascii ''Registered IRQ: '' @ fmt_d (irq_number s) @ [10] @ ascii ''IRQ Handler: irq_handler'' @ [10]
               else ascii ''No IRQ registered'' @ [10])
      in (t, Inr (word_of_nat (length t))))"

definition trigger_work_store :: "size_t \<Rightarrow> irqd \<Rightarrow> irqd \<times> ret" where
  "trigger_work_store count s = (s\<lparr>work_pending := True\<rparr>, Inr count)"

definition trigger_tasklet_store :: "size_t \<Rightarrow> irqd \<Rightarrow> irqd \<times> ret" where
  "trigger_tasklet_store count s = (s\<lparr>tasklet_pending := True\<rparr>, Inr count)"

definition reset_counts :: "irqd \<Rightarrow> irqd" where
  "reset_counts s = s\<lparr>interrupt_count := 0, tasklet_count := 0, work_queue_count := 0\<rparr>"

definition reset_count_store :: "size_t \<Rightarrow> irqd \<Rightarrow> irqd \<times> ret" where
  "reset_count_store count s = (reset_counts s, Inr count)"

text \<open>
  \<open>sprintf\<close> writes the text and a NUL into the local array \<open>msg[256]\<close>, whose first contents
  are the argument \<open>msg\<close>. \<open>size\<close> and the offset are not looked at.
\<close>

definition irq_report :: "irqd \<Rightarrow> byte list" where
  "irq_report s =
     ascii ''Interrupt Statistics:'' @ [10] @
     ascii ''IRQ Interrupts: '' @ lu (interrupt_count s) @ [10] @
     ascii ''Tasklet Executions: '' @ lu (tasklet_count s) @ [10] @
     ascii ''Work Queue Executions: '' @ lu (work_queue_count s) @ [10] @
     ascii ''Total Events: '' @ lu (interrupt_count s + tasklet_count s + work_queue_count s) @ [10]"

definition irq_read :: "uenv \<Rightarrow> byte list \<Rightarrow> size_t \<Rightarrow> irqd \<Rightarrow> (byte list \<times> ret) option" where
  "irq_read u msg sz s =
     do {
       let len = length (irq_report s);
       msg \<leftarrow> mem_write msg 0 (irq_report s @ [0]);
       src \<leftarrow> mem_read msg 0 len;
       if uctu u len \<noteq> 0 then Some (take (len - uctu u len) src, Inl EFAULT)
       else Some (src, Inr (word_of_nat len))
     }"

text \<open>\<open>get_user\<close> fetches one byte, also when \<open>size\<close> is 0.\<close>

definition irq_write :: "uenv \<Rightarrow> size_t \<Rightarrow> irqd \<Rightarrow> (irqd \<times> ret) option" where
  "irq_write u sz s =
     (case ucfu u 1 of
        (left, bs) \<Rightarrow>
          if left \<noteq> 0 then Some (s, Inl EFAULT)
          else do {
            command \<leftarrow> arr_get bs 0;
            Some (if command = 84 then s\<lparr>tasklet_pending := True\<rparr>
                  else if command = 87 then s\<lparr>work_pending := True\<rparr>
                  else if command = 82 then reset_counts s
                  else s, Inr sz)
          })"

subsection \<open>Module init and exit\<close>

definition irq_init :: module_init where
  "irq_init api h =
     (case api Region of Some e \<Rightarrow> Some (Some e, h) | None \<Rightarrow>
      let h = Region # h in
      case api (Cdev 0) of
        Some e \<Rightarrow> do { h \<leftarrow> release Region h; Some (Some e, h) }
      | None \<Rightarrow>
      let h = Cdev 0 # h in
      case api Class of
        Some e \<Rightarrow> do { h \<leftarrow> release_list [Cdev 0, Region] h; Some (Some e, h) }
      | None \<Rightarrow>
      let h = Class # h in
      case api (Device 0) of
        Some e \<Rightarrow> do { h \<leftarrow> release_list [Class, Cdev 0, Region] h; Some (Some e, h) }
      | None \<Rightarrow>
      let h = Device 0 # h in
      case api SysfsGroup of
        Some e \<Rightarrow> do { h \<leftarrow> release_list [Device 0, Class, Cdev 0, Region] h; Some (Some e, h) }
      | None \<Rightarrow> Some (None, SysfsGroup # h))"

definition irq_exit :: module_exit where
  "irq_exit h = release_list [SysfsGroup, Device 0, Class, Cdev 0, Region] h"

interpretation irq_module: clean_module irq_init irq_exit "[SysfsGroup, Device 0, Class, Cdev 0, Region]"
  by unfold_locales (auto simp: irq_init_def irq_exit_def Let_def split: option.splits)

subsection \<open>Deferred work as events\<close>

text \<open>
  What can happen, in the order it happens. The kernel runs a pending item when it likes;
  running the function of an unloaded module is \<open>None\<close>. \<open>irq_exit\<close> neither kills the tasklet
  nor cancels the work item.
\<close>

datatype irq_event =
    Irq
  | RunTasklet
  | RunWork
  | IWrite uenv size_t
  | TriggerWork size_t
  | TriggerTasklet size_t
  | ResetCount size_t
  | Unload

record irq_sys =
  idev :: irqd
  iloaded :: bool

fun irq_step :: "irq_event \<Rightarrow> irq_sys \<Rightarrow> irq_sys option" where
  "irq_step Irq st = (if iloaded st then Some (st\<lparr>idev := irq_handler (idev st)\<rparr>) else Some st)"
| "irq_step RunTasklet st =
     (if \<not> tasklet_pending (idev st) then Some st
      else if \<not> iloaded st then None
      else Some (st\<lparr>idev := tasklet_func ((idev st)\<lparr>tasklet_pending := False\<rparr>)\<rparr>))"
| "irq_step RunWork st =
     (if \<not> work_pending (idev st) then Some st
      else if \<not> iloaded st then None
      else Some (st\<lparr>idev := work_func ((idev st)\<lparr>work_pending := False\<rparr>)\<rparr>))"
| "irq_step (IWrite u sz) st =
     (if iloaded st then map_option (\<lambda>(d, r). st\<lparr>idev := d\<rparr>) (irq_write u sz (idev st)) else Some st)"
| "irq_step (TriggerWork n) st =
     (if iloaded st then Some (st\<lparr>idev := fst (trigger_work_store n (idev st))\<rparr>) else Some st)"
| "irq_step (TriggerTasklet n) st =
     (if iloaded st then Some (st\<lparr>idev := fst (trigger_tasklet_store n (idev st))\<rparr>) else Some st)"
| "irq_step (ResetCount n) st =
     (if iloaded st then Some (st\<lparr>idev := fst (reset_count_store n (idev st))\<rparr>) else Some st)"
| "irq_step Unload st = Some (st\<lparr>iloaded := False\<rparr>)"

fun irq_run :: "irq_event list \<Rightarrow> irq_sys \<Rightarrow> irq_sys option" where
  "irq_run [] st = Some st"
| "irq_run (e # es) st = do { st' \<leftarrow> irq_step e st; irq_run es st' }"

text \<open>The events that ask for the tasklet, and those that set the counters back.\<close>

fun asks_tasklet :: "irq_event \<Rightarrow> bool" where
  "asks_tasklet Irq = True"
| "asks_tasklet (TriggerTasklet n) = True"
| "asks_tasklet (IWrite u sz) \<longleftrightarrow> fst (ucfu u 1) = 0 \<and> hd (snd (ucfu u 1)) = 84"
| "asks_tasklet _ = False"

fun plain_event :: "irq_event \<Rightarrow> bool" where
  "plain_event (IWrite u sz) \<longleftrightarrow> uaccess_ok u \<and> hd (snd (ucfu u 1)) \<noteq> 82"
| "plain_event (ResetCount n) = False"
| "plain_event Unload = False"
| "plain_event _ = True"

lemma irq_write_run:
  assumes "uaccess_ok u"
  shows "irq_write u sz s = Some (
     if fst (ucfu u 1) \<noteq> 0 then (s, Inl EFAULT)
     else (if hd (snd (ucfu u 1)) = 84 then s\<lparr>tasklet_pending := True\<rparr>
           else if hd (snd (ucfu u 1)) = 87 then s\<lparr>work_pending := True\<rparr>
           else if hd (snd (ucfu u 1)) = 82 then reset_counts s
           else s, Inr sz))"
proof -
  obtain left bs where u: "ucfu u 1 = (left, bs)" by fastforce
  then have "length bs = 1" using uaccess_ok_length [OF assms, of 1] by simp
  then obtain v where "bs = [v]" by (auto simp: length_Suc_conv)
  then show ?thesis using u by (simp add: irq_write_def arr_get_def)
qed

text \<open>One event: the tasklet runs only when pending, and a request makes it pending.\<close>

lemma irq_step_tasklet:
  assumes "iloaded st" and "plain_event e"
  shows "\<exists>st' k. irq_step e st = Some st' \<and> iloaded st' \<and> tasklet_count (idev st') = tasklet_count (idev st) + of_nat k \<and>
    k + of_bool (tasklet_pending (idev st')) \<le> of_bool (asks_tasklet e) + of_bool (tasklet_pending (idev st)) \<and>
    (tasklet_pending (idev st) \<or> asks_tasklet e \<longrightarrow> 0 < k \<or> tasklet_pending (idev st'))"
proof (cases e)
  case RunTasklet
  show ?thesis
  proof (cases "tasklet_pending (idev st)")
    case True
    then show ?thesis using RunTasklet assms
      by (intro exI [of _ "st\<lparr>idev := tasklet_func ((idev st)\<lparr>tasklet_pending := False\<rparr>)\<rparr>"] exI [of _ 1])
        (simp add: tasklet_func_def)
  next
    case False
    then show ?thesis using RunTasklet assms by (intro exI [of _ st] exI [of _ 0]) simp
  qed
next
  case (IWrite u sz)
  then show ?thesis using assms irq_write_run [of u sz "idev st"]
    by (intro exI [of _ "the (irq_step e st)"] exI [of _ 0]) auto
qed (use assms in \<open>auto simp: irq_handler_def trigger_work_store_def trigger_tasklet_store_def work_func_def
      intro!: exI [of _ "0 :: nat"]\<close>)

lemma irq_run_tasklet_aux:
  assumes "iloaded st" and "list_all plain_event es"
  shows "\<exists>st' k. irq_run es st = Some st' \<and> iloaded st' \<and> tasklet_count (idev st') = tasklet_count (idev st) + of_nat k \<and>
    k + of_bool (tasklet_pending (idev st')) \<le> length (filter asks_tasklet es) + of_bool (tasklet_pending (idev st)) \<and>
    (tasklet_pending (idev st) \<or> (\<exists>e \<in> set es. asks_tasklet e) \<longrightarrow> 0 < k \<or> tasklet_pending (idev st'))"
  using assms
proof (induction es arbitrary: st)
  case Nil
  then show ?case by (intro exI [of _ st] exI [of _ 0]) simp
next
  case (Cons e es)
  obtain st1 k1 where 1: "irq_step e st = Some st1" "iloaded st1"
    "tasklet_count (idev st1) = tasklet_count (idev st) + of_nat k1"
    "k1 + of_bool (tasklet_pending (idev st1)) \<le> of_bool (asks_tasklet e) + of_bool (tasklet_pending (idev st))"
    "tasklet_pending (idev st) \<or> asks_tasklet e \<longrightarrow> 0 < k1 \<or> tasklet_pending (idev st1)"
    using irq_step_tasklet [OF Cons.prems(1), of e] Cons.prems(2) by auto
  obtain st2 k2 where 2: "irq_run es st1 = Some st2" "iloaded st2"
    "tasklet_count (idev st2) = tasklet_count (idev st1) + of_nat k2"
    "k2 + of_bool (tasklet_pending (idev st2)) \<le> length (filter asks_tasklet es) + of_bool (tasklet_pending (idev st1))"
    "tasklet_pending (idev st1) \<or> (\<exists>e \<in> set es. asks_tasklet e) \<longrightarrow> 0 < k2 \<or> tasklet_pending (idev st2)"
    using Cons.IH [OF 1(2)] Cons.prems(2) by auto
  have "k1 + k2 + of_bool (tasklet_pending (idev st2)) \<le>
      length (filter asks_tasklet (e # es)) + of_bool (tasklet_pending (idev st))"
    using 1(4) 2(4) by (cases "asks_tasklet e") simp_all
  moreover have "tasklet_count (idev st2) = tasklet_count (idev st) + of_nat (k1 + k2)"
    using 1(3) 2(3) by simp
  moreover have "tasklet_pending (idev st) \<or> (\<exists>e \<in> set (e # es). asks_tasklet e) \<longrightarrow>
      0 < k1 + k2 \<or> tasklet_pending (idev st2)"
    using 1(5) 2(5) by auto
  moreover have "irq_run (e # es) st = Some st2" using 1(1) 2(1) by simp
  ultimately show ?case using 2(2) by blast
qed

text \<open>The report fits the array whatever the counters are.\<close>

lemma length_irq_report: "0 < length (irq_report s)" "length (irq_report s) < 256"
  using length_fmt_lu [of "interrupt_count s"] length_fmt_lu [of "tasklet_count s"]
    length_fmt_lu [of "work_queue_count s"]
    length_fmt_lu [of "interrupt_count s + tasklet_count s + work_queue_count s"]
  by (simp_all add: irq_report_def lu_def)

lemma irq_read_run:
  assumes "length msg = 256"
  shows "irq_read u msg sz s = Some (
     if uctu u (length (irq_report s)) \<noteq> 0
     then (take (length (irq_report s) - uctu u (length (irq_report s))) (irq_report s), Inl EFAULT)
     else (irq_report s, Inr (word_of_nat (length (irq_report s)))))"
proof -
  have "mem_write msg 0 (irq_report s @ [0]) = Some (overlay 0 (irq_report s @ [0]) msg)"
    using assms length_irq_report(2) [of s] by (simp add: mem_simps)
  moreover have "mem_read (overlay 0 (irq_report s @ [0]) msg) 0 (length (irq_report s)) = Some (irq_report s)"
    using assms length_irq_report(2) [of s] by (simp add: mem_read_def overlay_def)
  ultimately show ?thesis by (simp add: irq_read_def Let_def)
qed

subsection \<open>\<open>irq_handler_user.c\<close>\<close>

text \<open>
  \<open>buffer[512]\<close> is not initialised: \<open>stack\<close> is what it holds at first. A read that succeeds
  puts the report at its start, without a NUL, and the program prints the buffer as a string. What
  the kernel does between two calls of the program is a list of events; \<open>write\<close> with its
  pause is \<open>say\<close>.
\<close>

definition print_report :: "byte list \<Rightarrow> irq_sys \<Rightarrow> (byte list \<times> byte list) option" where
  "print_report buffer st =
     do {
       (out, r) \<leftarrow> irq_read (user_mem []) (replicate 256 0) 512 (idev st);
       (case r of
          Inl e \<Rightarrow> Some (buffer, [])
        | Inr n \<Rightarrow>
            if n = 0 then Some (buffer, [])
            else do { buffer \<leftarrow> mem_write buffer 0 out; line \<leftarrow> c_string buffer; Some (buffer, line) })
     }"

definition say :: "byte \<Rightarrow> irq_event list \<Rightarrow> irq_sys \<Rightarrow> irq_sys option" where
  "say c es st = irq_run (IWrite (user_mem [c]) 1 # es) st"

fun say_all :: "(byte \<times> irq_event list) list \<Rightarrow> irq_sys \<Rightarrow> irq_sys option" where
  "say_all [] st = Some st"
| "say_all ((c, es) # cs) st = do { st \<leftarrow> say c es st; say_all cs st }"

text \<open>The five texts printed. The pauses are: after T, after W, the six of the loop, after R.\<close>

definition irq_user_main ::
  "byte list \<Rightarrow> irq_event list \<Rightarrow> irq_event list \<Rightarrow> irq_event list list \<Rightarrow> irq_event list \<Rightarrow> irq_sys \<Rightarrow>
     (int \<times> byte list list \<times> irq_sys) option" where
  "irq_user_main stack p1 p2 ps p3 st =
     do {
       (b, t1) \<leftarrow> print_report stack st;
       st \<leftarrow> say 84 p1 st;
       (b, t2) \<leftarrow> print_report b st;
       st \<leftarrow> say 87 p2 st;
       (b, t3) \<leftarrow> print_report b st;
       st \<leftarrow> say_all (zip [84, 87, 84, 87, 84, 87] ps) st;
       (b, t4) \<leftarrow> print_report b st;
       st \<leftarrow> say 82 p3 st;
       (b, t5) \<leftarrow> print_report b st;
       Some (0, [t1, t2, t3, t4, t5], st)
     }"

lemma irq_report_nonzero: "0 \<notin> set (irq_report s)"
proof -
  have "0 \<notin> set (lu w)" for w by (auto simp: lu_def dest: fmt_zu_digits)
  then show ?thesis by (simp add: irq_report_def ascii_def)
qed

text \<open>
  What is printed runs on into the rest of the buffer: without a NUL there, behind its end; else
  with what an earlier, longer report has left there.
\<close>

lemma print_report_run:
  fixes st :: irq_sys
  assumes "length buffer = 512"
  defines "rest \<equiv> drop (length (irq_report (idev st))) buffer"
  shows "print_report buffer st =
     (if 0 \<in> set rest
      then Some (irq_report (idev st) @ rest, irq_report (idev st) @ takeWhile (\<lambda>b. b \<noteq> 0) rest) else None)"
proof -
  let ?r = "irq_report (idev st)"
  have l: "length ?r < 256" "0 < length ?r" using length_irq_report by simp_all
  have "unat (word_of_nat (length ?r) :: size_t) = length ?r" using l by (intro unat_of_nat_small) simp
  then have nz: "(word_of_nat (length ?r) :: size_t) \<noteq> 0" using l(2) by (metis less_numeral_extra(3) unat_0)
  have "mem_write buffer 0 ?r = Some (?r @ rest)"
    using l assms(1) by (simp add: mem_simps overlay_def rest_def)
  moreover have "c_string (?r @ rest) = (if 0 \<in> set rest then Some (?r @ takeWhile (\<lambda>b. b \<noteq> 0) rest) else None)"
    using irq_report_nonzero [of "idev st"] by (auto simp: c_string_def takeWhile_append)
  ultimately show ?thesis using irq_read_run [of "replicate 256 0" "user_mem []" 512 "idev st"] nz
    by (simp add: print_report_def)
qed

subsection \<open>Properties\<close>

text \<open>Unloading the module with the tasklet pending: its function runs when it is gone.\<close>

lemma irq_unload_pending:
  "irq_run [IWrite (user_mem [84]) 1, Unload, RunTasklet] \<lparr>idev = irqd_initial, iloaded = True\<rparr> = None"
  by (simp add: irq_write_def arr_get_def irqd_initial_def)

text \<open>C36: The deferred work is accounted for: while the module is loaded and nobody resets the
  counters, the tasklet runs at most once per request and at least once after any request unless
  it is still pending, and the counter grows by exactly the number of its runs.\<close>

theorem tasklet_accounting:
  assumes "iloaded st" and "list_all plain_event es"
  shows "\<exists>st' k. irq_run es st = Some st' \<and> tasklet_count (idev st') = tasklet_count (idev st) + of_nat k \<and>
    k + of_bool (tasklet_pending (idev st')) \<le> length (filter asks_tasklet es) + of_bool (tasklet_pending (idev st)) \<and>
    (tasklet_pending (idev st) \<or> (\<exists>e \<in> set es. asks_tasklet e) \<longrightarrow> 0 < k \<or> tasklet_pending (idev st'))"
  using irq_run_tasklet_aux [OF assms] by blast

theorem tasklet_accounting_witness:
  "\<exists>st' k. irq_run [Irq, Irq, RunTasklet] \<lparr>idev = irqd_initial, iloaded = True\<rparr> = Some st' \<and>
     tasklet_count (idev st') = of_nat k \<and> k + of_bool (tasklet_pending (idev st')) \<le> 2"
  using tasklet_accounting [of "\<lparr>idev = irqd_initial, iloaded = True\<rparr>" "[Irq, Irq, RunTasklet]"]
  by (auto simp: irqd_initial_def irq_handler_def tasklet_func_def)

text \<open>The test program prints past its data: the driver sends its report without a NUL. On a
  stack without one behind the report the first print already leaves the array; and a report
  that is shorter than the one before is printed with the end of that.\<close>

theorem irq_user_overreads:
  assumes "length stack = 512" and "0 \<notin> set stack"
  shows "irq_user_main stack p1 p2 ps p3 st = None \<and>
     (length old = 512 \<and> 0 \<in> set (drop (length (irq_report (idev st))) old) \<longrightarrow>
        map_option snd (print_report old st) =
          Some (irq_report (idev st) @ takeWhile (\<lambda>b. b \<noteq> 0) (drop (length (irq_report (idev st))) old)))"
proof (intro conjI impI)
  have "0 \<notin> set (drop (length (irq_report (idev st))) stack)" using assms(2) in_set_dropD by metis
  then show "irq_user_main stack p1 p2 ps p3 st = None"
    using print_report_run [OF assms(1), of st] by (simp add: irq_user_main_def)
next
  assume "length old = 512 \<and> 0 \<in> set (drop (length (irq_report (idev st))) old)"
  then show "map_option snd (print_report old st) =
      Some (irq_report (idev st) @ takeWhile (\<lambda>b. b \<noteq> 0) (drop (length (irq_report (idev st))) old))"
    using print_report_run [of old st] by simp
qed

theorem irq_user_overreads_witness:
  "irq_user_main (replicate 512 255) [RunTasklet] [RunWork] [[], [], [], [], [], [RunTasklet]] []
     \<lparr>idev = irqd_initial, iloaded = True\<rparr> = None"
proof -
  have "length (replicate 512 (255 :: byte)) = 512" and "0 \<notin> set (replicate 512 (255 :: byte))" by simp_all
  from irq_user_overreads [OF this] show ?thesis by blast
qed

end
