(* ===== verification/IrqRaces.thy ===== *)
theory IrqRaces
  imports IrqDemo Interleaving
begin

section \<open>The interrupt demonstration, statement by statement\<close>

text \<open>
  \<open>021_interrupt_handler/irq_handler_kernel.c\<close> again: \<open>count++\<close> is a load and a store, a reset is three
  stores, a report three loads, and all of these may run at the same time. The kernel starts a
  tasklet that is scheduled, on one processor at a time, and likewise the work item:
  \<open>tasklet_on\<close> and \<open>work_on\<close> are the processes that run them. \<open>tasklet_runs\<close> and \<open>work_runs\<close> count the
  completed runs, \<open>reports\<close> has what was shown; neither is a variable of the code. (No interrupt line
  is requested anywhere in the module, so its handler does not run.)
\<close>

record irqc =
  irqs :: irqd
  tasklet_on :: "nat option"
  work_on :: "nat option"
  tasklet_runs :: nat
  work_runs :: nat
  reports :: "(size_t \<times> size_t \<times> size_t) list"

datatype ipc =
    TBegin | TLoad | TStore size_t
  | QBegin | QLoad | QStore size_t
  | AskTasklet | AskWork
  | ResetIrq | ResetTasklet | ResetWork
  | ShowIrq | ShowTasklet size_t | ShowWork size_t size_t

fun irq_stmts :: "(irqc, ipc) stmts" where
  "irq_stmts p TBegin s =
     (if tasklet_pending (irqs s) \<and> tasklet_on s = None
      then Next (s\<lparr>irqs := (irqs s)\<lparr>tasklet_pending := False\<rparr>, tasklet_on := Some p\<rparr>, Some TLoad) else Blocked)"
| "irq_stmts p TLoad s = Next (s, Some (TStore (tasklet_count (irqs s))))"
| "irq_stmts p (TStore n) s =
     Next (s\<lparr>irqs := (irqs s)\<lparr>tasklet_count := n + 1\<rparr>, tasklet_on := None, tasklet_runs := tasklet_runs s + 1\<rparr>, None)"
| "irq_stmts p QBegin s =
     (if work_pending (irqs s) \<and> work_on s = None
      then Next (s\<lparr>irqs := (irqs s)\<lparr>work_pending := False\<rparr>, work_on := Some p\<rparr>, Some QLoad) else Blocked)"
| "irq_stmts p QLoad s = Next (s, Some (QStore (work_queue_count (irqs s))))"
| "irq_stmts p (QStore n) s =
     Next (s\<lparr>irqs := (irqs s)\<lparr>work_queue_count := n + 1\<rparr>, work_on := None, work_runs := work_runs s + 1\<rparr>, None)"
| "irq_stmts p AskTasklet s = Next (s\<lparr>irqs := (irqs s)\<lparr>tasklet_pending := True\<rparr>\<rparr>, None)"
| "irq_stmts p AskWork s = Next (s\<lparr>irqs := (irqs s)\<lparr>work_pending := True\<rparr>\<rparr>, None)"
| "irq_stmts p ResetIrq s = Next (s\<lparr>irqs := (irqs s)\<lparr>interrupt_count := 0\<rparr>\<rparr>, Some ResetTasklet)"
| "irq_stmts p ResetTasklet s = Next (s\<lparr>irqs := (irqs s)\<lparr>tasklet_count := 0\<rparr>\<rparr>, Some ResetWork)"
| "irq_stmts p ResetWork s = Next (s\<lparr>irqs := (irqs s)\<lparr>work_queue_count := 0\<rparr>\<rparr>, None)"
| "irq_stmts p ShowIrq s = Next (s, Some (ShowTasklet (interrupt_count (irqs s))))"
| "irq_stmts p (ShowTasklet i) s = Next (s, Some (ShowWork i (tasklet_count (irqs s))))"
| "irq_stmts p (ShowWork i t) s = Next (s\<lparr>reports := reports s @ [(i, t, work_queue_count (irqs s))]\<rparr>, None)"

fun irq_calls :: "ipc \<Rightarrow> bool" where
  "irq_calls pc \<longleftrightarrow> pc \<in> {TBegin, QBegin, AskTasklet, AskWork, ResetIrq, ShowIrq}"

fun calls_no_reset :: "ipc \<Rightarrow> bool" where
  "calls_no_reset pc \<longleftrightarrow> pc \<in> {TBegin, QBegin, AskTasklet, AskWork, ShowIrq}"

definition irqc_start :: irqc where
  "irqc_start = \<lparr>irqs = irqd_initial, tasklet_on = None, work_on = None, tasklet_runs = 0, work_runs = 0, reports = []\<rparr>"

subsection \<open>Without a reset the counters are exact\<close>

definition counts_inv :: "irqc \<Rightarrow> bool" where
  "counts_inv s \<longleftrightarrow> tasklet_count (irqs s) = of_nat (tasklet_runs s) \<and> work_queue_count (irqs s) = of_nat (work_runs s) \<and>
     (\<forall>r \<in> set (reports s). \<exists>t w. r = (0, of_nat t, of_nat w) \<and> t \<le> tasklet_runs s \<and> w \<le> work_runs s) \<and>
     interrupt_count (irqs s) = 0"

fun counts_at :: "nat \<Rightarrow> ipc \<Rightarrow> irqc \<Rightarrow> bool" where
  "counts_at p TLoad s \<longleftrightarrow> tasklet_on s = Some p"
| "counts_at p (TStore n) s \<longleftrightarrow> tasklet_on s = Some p \<and> n = tasklet_count (irqs s)"
| "counts_at p QLoad s \<longleftrightarrow> work_on s = Some p"
| "counts_at p (QStore n) s \<longleftrightarrow> work_on s = Some p \<and> n = work_queue_count (irqs s)"
| "counts_at p ResetIrq s = False"
| "counts_at p ResetTasklet s = False"
| "counts_at p ResetWork s = False"
| "counts_at p (ShowTasklet i) s \<longleftrightarrow> i = 0"
| "counts_at p (ShowWork i t) s \<longleftrightarrow> i = 0 \<and> (\<exists>n. t = of_nat n \<and> n \<le> tasklet_runs s)"
| "counts_at p pc s = True"

interpretation exact_counts: owicki_gries irq_stmts calls_no_reset counts_inv counts_at
proof unfold_locales
  fix pc s p p' q s' pc'
  show "calls_no_reset pc \<Longrightarrow> counts_inv s \<Longrightarrow> counts_at p pc s" by auto
  show "counts_inv s \<Longrightarrow> counts_at p pc s \<Longrightarrow> irq_stmts p pc s = Next (s', pc') \<Longrightarrow>
      counts_inv s' \<and> (\<forall>q. pc' = Some q \<longrightarrow> counts_at p q s')"
    by (cases pc) (fastforce simp: counts_inv_def split: if_splits)+
  show "counts_inv s \<Longrightarrow> counts_at p pc s \<Longrightarrow> counts_at p' q s \<Longrightarrow> p \<noteq> p' \<Longrightarrow> irq_stmts p pc s = Next (s', pc') \<Longrightarrow> counts_at p' q s'"
    by (cases pc; cases q) (auto split: if_splits)
  show "counts_inv s \<Longrightarrow> counts_at p pc s \<Longrightarrow> irq_stmts p pc s \<noteq> Crash" by (cases pc) auto
qed

lemma counts_start: "counts_inv irqc_start"
  by (simp add: counts_inv_def irqc_start_def irqd_initial_def)

subsection \<open>Properties\<close>

text \<open>Without resets no increment is lost in any interleaving of tasklet, work item, requests and
  reports: the counters are the numbers of completed runs, modulo \<open>2^64\<close>, and a report shows numbers
  that the counters have had.\<close>

theorem irq_counts_exact:
  assumes "conc_reach irq_stmts calls_no_reset irqc_start c"
  shows "tasklet_count (irqs (sh c)) = of_nat (tasklet_runs (sh c)) \<and>
     work_queue_count (irqs (sh c)) = of_nat (work_runs (sh c)) \<and>
     (\<forall>r \<in> set (reports (sh c)). \<exists>t w. r = (0, of_nat t, of_nat w) \<and> t \<le> tasklet_runs (sh c) \<and> w \<le> work_runs (sh c))"
  using exact_counts.reach_inv [OF assms counts_start] by (simp add: counts_inv_def)

text \<open>A tasklet run of which the reset sees the load, not the store.\<close>

definition reset_race :: "ipc action list" where
  "reset_race = [Call 0 AskTasklet, Run 0, Call 0 TBegin, Run 0, Run 0, Run 0, Call 0 AskTasklet, Run 0,
     Call 0 TBegin, Run 0, Run 0, Call 1 ResetIrq, Run 1, Run 1, Run 1, Run 0, Call 1 ShowIrq, Run 1, Run 1, Run 1]"

text \<open>A reset can be lost: it returns while the tasklet is between load and store, and afterwards
  the counter goes on from its old value as if there had been no reset; the report shows it.\<close>

theorem irq_reset_lost:
  "\<exists>c. conc_reach irq_stmts irq_calls irqc_start c \<and> (\<forall>p. pcs c p = None) \<and>
     tasklet_runs (sh c) = 2 \<and> tasklet_count (irqs (sh c)) = 2 \<and> reports (sh c) = [(0, 2, 0)]"
proof -
  have "\<exists>c. schedule irq_stmts reset_race (conc_start irqc_start) = Some c \<and> (\<forall>p. pcs c p = None) \<and>
      tasklet_runs (sh c) = 2 \<and> tasklet_count (irqs (sh c)) = 2 \<and> reports (sh c) = [(0, 2, 0)]"
    by (simp add: reset_race_def conc_start_def irqc_start_def irqd_initial_def)
  then obtain c where c: "schedule irq_stmts reset_race (conc_start irqc_start) = Some c" "\<forall>p. pcs c p = None"
    "tasklet_runs (sh c) = 2" "tasklet_count (irqs (sh c)) = 2" "reports (sh c) = [(0, 2, 0)]" by (elim exE conjE)
  have "list_all (call_ok irq_calls) reset_race" by (simp add: reset_race_def)
  then have "conc_reach irq_stmts irq_calls irqc_start c" by (rule schedule_from_start [OF c(1)])
  then show ?thesis using c(2-5) by (intro exI conjI)
qed

end
