(* ===== verification/PlatformSensor.thy ===== *)
theory PlatformSensor
  imports CText KernelResources
begin

section \<open>The platform sensor: 016\_platform\_sensor\_data, 017\_platform\_sys\_dt, 018\_pltdrv\_dt\_ofread\<close>

text \<open>
  A platform driver maps two registers of a sensor and serves them as sysfs attributes; a test
  program reads the temperature and writes the control register through them. 016 comes with a
  module that registers the platform device, 017 and 018 are bound through the device tree. The
  driver and the program of 017 are those of 016 up to the match table and the paths; 018 reads
  the address, the size and a threshold from the device tree.

  Kernel code is an argument. \<open>kstrtouint\<close> parses a number. \<open>sensor_env\<close> has the results of
  the calls of a probe. \<open>sysfs_env\<close> is the way of the test program to the attributes:
  which attribute a path leads to, what a first read of a text delivers, what page a store
  routine gets. An access to a register outside the mapping is \<open>None\<close>, as is the use of driver
  data that are not set.
\<close>

record resource =
  res_start :: size_t
  res_end :: size_t

record iomap =
  io_base :: size_t
  io_size :: size_t

record sensor_dev =
  mem_res :: resource
  base_addr :: iomap
  control_value :: cint

record sensor_sys =
  drvdata :: "sensor_dev option"
  regs :: "nat \<Rightarrow> cint"

definition io_ok :: "iomap \<Rightarrow> nat \<Rightarrow> bool" where
  "io_ok m off \<longleftrightarrow> off + 4 \<le> unat (io_size m)"

definition ioread32 :: "iomap \<Rightarrow> nat \<Rightarrow> (nat \<Rightarrow> cint) \<Rightarrow> cint option" where
  "ioread32 m off r = (if io_ok m off then Some (r off) else None)"

definition iowrite32 :: "iomap \<Rightarrow> nat \<Rightarrow> cint \<Rightarrow> (nat \<Rightarrow> cint) \<Rightarrow> (nat \<Rightarrow> cint) option" where
  "iowrite32 m off v r = (if io_ok m off then Some (r(off := v)) else None)"

type_synonym kstrtouint = "byte list \<Rightarrow> errno + cint"

subsection \<open>The attributes\<close>

definition fmt_u :: "cint \<Rightarrow> byte list" where
  "fmt_u w = fmt_zu (unat w)"

definition temp_show :: "sensor_sys \<Rightarrow> (byte list \<times> ret) option" where
  "temp_show s =
     do {
       pdata \<leftarrow> drvdata s;
       temp_value \<leftarrow> ioread32 (base_addr pdata) 0 (regs s);
       let t = fmt_u temp_value @ [10];
       Some (t, Inr (word_of_nat (length t)))
     }"

definition control_store :: "kstrtouint \<Rightarrow> byte list \<Rightarrow> size_t \<Rightarrow> sensor_sys \<Rightarrow> (sensor_sys \<times> ret) option" where
  "control_store kstrtouint buf count s =
     do {
       pdata \<leftarrow> drvdata s;
       (case kstrtouint buf of
          Inr val \<Rightarrow>
            do {
              r \<leftarrow> iowrite32 (base_addr pdata) 4 val (regs s);
              Some (s\<lparr>drvdata := Some (pdata\<lparr>control_value := val\<rparr>), regs := r\<rparr>, Inr count)
            }
        | Inl e \<Rightarrow> Some (s, Inr count))
     }"

subsection \<open>Probe and remove\<close>

record sensor_env =
  kzalloc_ok :: bool
  get_resource :: "resource option"
  ioremap :: "size_t \<Rightarrow> size_t \<Rightarrow> iomap option"
  create_file :: kapi

text \<open>Memory from the \<open>devm\<close> calls is given back by the driver core, not by the driver. The results
  of \<open>device_create_file\<close> are not looked at.\<close>

definition sensor_probe ::
  "sensor_env \<Rightarrow> sensor_sys \<times> held \<Rightarrow> errno option \<times> sensor_sys \<times> held" where
  "sensor_probe env st =
     (case st of (s, h) \<Rightarrow>
      if \<not> kzalloc_ok env then (Some ENOMEM, s, h)
      else case get_resource env of
        None \<Rightarrow> (Some ENOENT, s, h)
      | Some mr \<Rightarrow>
          (case ioremap env (res_start mr) (res_end mr - res_start mr + 1) of
             None \<Rightarrow> (Some ENOMEM, s, h)
           | Some base \<Rightarrow>
               (None, s\<lparr>drvdata := Some \<lparr>mem_res = mr, base_addr = base, control_value = 0\<rparr>\<rparr>,
                acquire (create_file env) (AttrFile 0 ''control'')
                  (acquire (create_file env) (AttrFile 0 ''temp'') h))))"

text \<open>Removing an attribute that does not exist does nothing.\<close>

definition sensor_remove :: "held \<Rightarrow> held" where
  "sensor_remove h = remove1 (AttrFile 0 ''control'') (remove1 (AttrFile 0 ''temp'') h)"

text \<open>The platform device of 016.\<close>

definition PLATFORM_DRIVER_NAME :: string where "PLATFORM_DRIVER_NAME = ''sensor_driver''"
definition DEVICE_ID :: int where "DEVICE_ID = -1"

definition sensor_resources :: resource where
  "sensor_resources = \<lparr>res_start = 0x50000000, res_end = 0x50000FFF\<rparr>"

subsection \<open>018: address, size and threshold from the device tree\<close>

record sensor_dt =
  dt_base :: iomap
  dt_control :: cint
  dt_threshold :: cint

text \<open>\<open>of_property_read_u32_index\<close> and \<open>of_property_read_u32\<close>: the value, or none with an error.\<close>

record of_node =
  of_index :: "string \<Rightarrow> nat \<Rightarrow> cint option"
  of_u32 :: "string \<Rightarrow> cint option"

definition sensor_probe_dt ::
  "sensor_env \<Rightarrow> of_node \<Rightarrow> sensor_dt option \<times> held \<Rightarrow> errno option \<times> sensor_dt option \<times> held" where
  "sensor_probe_dt env np st =
     (case st of (d, h) \<Rightarrow>
      if \<not> kzalloc_ok env then (Some ENOMEM, d, h)
      else case (of_index np ''my-reg'' 0, of_index np ''my-reg'' 1) of
        (Some base, Some sz) \<Rightarrow>
          (case ioremap env (ucast base) (ucast sz) of
             None \<Rightarrow> (Some ENOMEM, d, h)
           | Some m \<Rightarrow>
               let thr = (case of_u32 np ''threshold'' of Some t \<Rightarrow> t | None \<Rightarrow> 0) in
               (None, Some \<lparr>dt_base = m, dt_control = 0, dt_threshold = thr\<rparr>,
                acquire (create_file env) (AttrFile 0 ''threshold'')
                  (acquire (create_file env) (AttrFile 0 ''control'')
                    (acquire (create_file env) (AttrFile 0 ''temp'') h))))
      | _ \<Rightarrow> (Some EINVAL, d, h))"

definition sensor_remove_dt :: "held \<Rightarrow> held" where
  "sensor_remove_dt h =
     remove1 (AttrFile 0 ''threshold'') (remove1 (AttrFile 0 ''control'') (remove1 (AttrFile 0 ''temp'') h))"

definition temp_show_dt :: "sensor_dt option \<Rightarrow> (nat \<Rightarrow> cint) \<Rightarrow> (byte list \<times> ret) option" where
  "temp_show_dt d r =
     do {
       pdata \<leftarrow> d;
       temp_value \<leftarrow> ioread32 (dt_base pdata) 0 r;
       let t = fmt_u temp_value @ [10];
       Some (t, Inr (word_of_nat (length t)))
     }"

definition control_store_dt ::
  "kstrtouint \<Rightarrow> byte list \<Rightarrow> size_t \<Rightarrow> sensor_dt option \<Rightarrow> (nat \<Rightarrow> cint) \<Rightarrow> (sensor_dt option \<times> (nat \<Rightarrow> cint) \<times> ret) option" where
  "control_store_dt kstrtouint buf count d r =
     do {
       pdata \<leftarrow> d;
       (case kstrtouint buf of
          Inr val \<Rightarrow>
            do {
              r \<leftarrow> iowrite32 (dt_base pdata) 4 val r;
              Some (Some (pdata\<lparr>dt_control := val\<rparr>), r, Inr count)
            }
        | Inl e \<Rightarrow> Some (d, r, Inr count))
     }"

definition threshold_show :: "sensor_dt option \<Rightarrow> (byte list \<times> ret) option" where
  "threshold_show d =
     do { pdata \<leftarrow> d; let t = fmt_u (dt_threshold pdata) @ [10]; Some (t, Inr (word_of_nat (length t))) }"

subsection \<open>\<open>sensor_app.c\<close>\<close>

record sysfs_env =
  sy_path :: "string \<Rightarrow> string option"
  sy_read :: "byte list \<Rightarrow> nat \<Rightarrow> byte list"
  sy_page :: "byte list \<Rightarrow> byte list"

definition sysfs_ok :: "sysfs_env \<Rightarrow> bool" where
  "sysfs_ok e \<longleftrightarrow> (\<forall>t n. sy_read e t n = take n t) \<and> (\<forall>t. sy_page e t = t)"

text \<open>Access to an attribute: \<open>temp\<close> is read-only, \<open>control\<close> write-only.\<close>

definition attr_show :: "string \<Rightarrow> sensor_sys \<Rightarrow> (byte list \<times> ret) option" where
  "attr_show a s = (if a = ''temp'' then temp_show s else Some ([], Inl EIO))"

definition attr_store :: "kstrtouint \<Rightarrow> string \<Rightarrow> byte list \<Rightarrow> size_t \<Rightarrow> sensor_sys \<Rightarrow> (sensor_sys \<times> ret) option" where
  "attr_store k a buf count s = (if a = ''control'' then control_store k buf count s else Some (s, Inl EIO))"

text \<open>
  \<open>stack\<close> is what the local array \<open>buf[32]\<close> holds at first. The value read is none when the
  function returns -1.
\<close>

definition read_temperature :: "sysfs_env \<Rightarrow> byte list \<Rightarrow> string \<Rightarrow> sensor_sys \<Rightarrow> cint option option" where
  "read_temperature e stack path s =
     (case sy_path e path of
        None \<Rightarrow> Some None
      | Some a \<Rightarrow>
          do {
            (t, r) \<leftarrow> attr_show a s;
            (case r of
               Inl _ \<Rightarrow> Some None
             | Inr _ \<Rightarrow>
                 let got = sy_read e t 31 in
                 if got = [] then Some None
                 else do {
                   buf \<leftarrow> mem_write stack 0 got;
                   buf \<leftarrow> arr_set buf (int (length got)) 0;
                   str \<leftarrow> c_string buf;
                   Some (Some (ucast (strtoul str)))
                 })
          })"

definition write_control ::
  "sysfs_env \<Rightarrow> kstrtouint \<Rightarrow> byte list \<Rightarrow> string \<Rightarrow> cint \<Rightarrow> sensor_sys \<Rightarrow> (int \<times> sensor_sys) option" where
  "write_control e k stack path control s =
     (case sy_path e path of
        None \<Rightarrow> Some (- 1, s)
      | Some a \<Rightarrow>
          let len = length (fmt_u control) in
          do {
            buf \<leftarrow> mem_write stack 0 (take 31 (fmt_u control) @ [0]);
            d \<leftarrow> mem_read buf 0 len;
            (s, r) \<leftarrow> attr_store k a (sy_page e d) (word_of_nat len) s;
            Some (if r = Inr (word_of_nat len) then 0 else - 1, s)
          })"

datatype app_line = Value cint | ReadFailed | Writing cint | WriteFailed

definition SYSFS_TEMP_PATH :: string where
  "SYSFS_TEMP_PATH = ''/sys/devices/platform/sensor_driver.0/temp''"

definition SYSFS_CONTROL_PATH :: string where
  "SYSFS_CONTROL_PATH = ''/sys/devices/platform/sensor_driver.0/control''"

text \<open>
  \<open>main\<close>, for given values of the two macros: the directories 017 and 018 have copies of the
  program with other paths. The sensor goes on working while the program sleeps: \<open>hw\<close> is what it
  does to its registers.
\<close>

definition sensor_app_with ::
  "sysfs_env \<Rightarrow> kstrtouint \<Rightarrow> byte list \<Rightarrow> ((nat \<Rightarrow> cint) \<Rightarrow> nat \<Rightarrow> cint) \<Rightarrow> string \<Rightarrow> string \<Rightarrow>
     sensor_sys \<Rightarrow> (int \<times> app_line list \<times> sensor_sys) option" where
  "sensor_app_with e k stack hw tpath cpath s =
     (let control_value = 0xDEAD in
      do {
        v1 \<leftarrow> read_temperature e stack tpath s;
        let l1 = (case v1 of Some v \<Rightarrow> [Value v] | None \<Rightarrow> [ReadFailed]);
        (w, s) \<leftarrow> write_control e k stack cpath control_value s;
        let l2 = [Writing control_value] @ (if w < 0 then [WriteFailed] else []);
        let s = s\<lparr>regs := hw (regs s)\<rparr>;
        v2 \<leftarrow> read_temperature e stack tpath s;
        let l3 = (case v2 of Some v \<Rightarrow> [Value v] | None \<Rightarrow> []);
        Some (0, l1 @ l2 @ l3, s)
      })"

text \<open>The program of 016.\<close>

definition sensor_app_main ::
  "sysfs_env \<Rightarrow> kstrtouint \<Rightarrow> byte list \<Rightarrow> ((nat \<Rightarrow> cint) \<Rightarrow> nat \<Rightarrow> cint) \<Rightarrow>
     sensor_sys \<Rightarrow> (int \<times> app_line list \<times> sensor_sys) option" where
  "sensor_app_main e k stack hw s = sensor_app_with e k stack hw SYSFS_TEMP_PATH SYSFS_CONTROL_PATH s"

subsection \<open>What the routines do\<close>

definition kstrtouint_ok :: "kstrtouint \<Rightarrow> bool" where
  "kstrtouint_ok k \<longleftrightarrow> (\<forall>w. k (fmt_u w) = Inr w \<and> k (fmt_u w @ [10]) = Inr w)"

definition decimal_kstrtouint :: kstrtouint where
  "decimal_kstrtouint s =
     (let ds = (if s \<noteq> [] \<and> last s = 10 then butlast s else s) in
      if ds = [] \<or> (\<exists>d \<in> set ds. unat d < 48 \<or> 57 < unat d) then Inl EINVAL
      else if 2 ^ 32 \<le> digits_value ds then Inl (KErr 34)
      else Inr (word_of_nat (digits_value ds)))"

lemma unat_cint_less: "unat (w :: cint) < 4294967296"
  by (rule order_less_le_trans [OF unsigned_less]) simp

lemma decimal_kstrtouint_ok: "kstrtouint_ok decimal_kstrtouint"
proof -
  have "last (fmt_zu n) \<noteq> 10" for n
    using fmt_zu_digits [of "last (fmt_zu n)" n] last_in_set [of "fmt_zu n"] by auto
  moreover have "\<not> (\<exists>d \<in> set (fmt_zu n). unat d < 48 \<or> 57 < unat d)" for n
    using fmt_zu_digits [of _ n] by fastforce
  moreover have "\<not> 4294967296 \<le> unat w" for w :: cint using unat_cint_less [of w] by linarith
  ultimately show ?thesis
    by (simp add: kstrtouint_ok_def decimal_kstrtouint_def digits_value_fmt_zu fmt_u_def)
qed

lemma length_fmt_u: "length (fmt_u w) \<le> 10"
  unfolding fmt_u_def using unat_cint_less [of w] by (intro length_fmt_zu) simp_all

lemma fmt_u_nonzero: "d \<in> set (fmt_u w @ [10]) \<Longrightarrow> d \<noteq> 0"
  by (auto simp: fmt_u_def dest: fmt_zu_digits)

lemma strtoul_fmt_u: "(ucast (strtoul (fmt_u w @ [10])) :: cint) = w"
proof -
  have "\<not> 2 ^ 64 \<le> unat w" using unat_cint_less [of w] by simp
  then have "strtoul (fmt_u w @ [10]) = word_of_nat (unat w)"
    by (simp add: strtoul_def fmt_u_def sign_num_fmt_zu)
  also have "\<dots> = (ucast w :: 64 word)" by simp
  finally have "strtoul (fmt_u w @ [10]) = ucast w" .
  moreover have "(ucast (ucast w :: 64 word) :: cint) = w"
    by (rule bit_word_eqI) (simp add: bit_simps)
  ultimately show ?thesis by simp
qed

text \<open>A buffer with a text and a NUL behind it is that text.\<close>

lemma c_string_of_text:
  assumes "\<forall>d \<in> set t. d \<noteq> 0" and "length t < length b"
  shows "c_string ((overlay 0 t b)[length t := 0]) = Some t"
proof -
  obtain d ds where d: "drop (length t) b = d # ds" using assms(2) by (metis Cons_nth_drop_Suc)
  then have "(overlay 0 t b)[length t := 0] = t @ 0 # ds" by (simp add: overlay_def list_update_append)
  then show ?thesis using assms(1) by (simp add: c_string_def takeWhile_tail takeWhile_eq_all_conv)
qed

definition bound :: "sensor_sys \<Rightarrow> bool" where
  "bound s \<longleftrightarrow> (\<exists>d. drvdata s = Some d \<and> 8 \<le> unat (io_size (base_addr d)))"

lemma temp_show_run: "bound s \<Longrightarrow> \<exists>r. temp_show s = Some (fmt_u (regs s 0) @ [10], Inr r)"
  by (auto simp: bound_def temp_show_def ioread32_def io_ok_def Let_def)

lemma read_temperature_run:
  assumes "bound s" and "sysfs_ok e" and "sy_path e path = Some ''temp''" and "length stack = 32"
  shows "read_temperature e stack path s = Some (Some (regs s 0))"
proof -
  let ?t = "fmt_u (regs s 0) @ [10]"
  obtain r where sh: "temp_show s = Some (?t, Inr r)" using temp_show_run [OF assms(1)] by blast
  have l: "length ?t \<le> 11" using length_fmt_u [of "regs s 0"] by simp
  then have g: "sy_read e ?t 31 = ?t" using assms(2) by (simp add: sysfs_ok_def)
  have "mem_write stack 0 ?t = Some (overlay 0 ?t stack)" using l assms(4) by (simp add: mem_simps)
  moreover have "arr_set (overlay 0 ?t stack) (int (length ?t)) 0 = Some ((overlay 0 ?t stack)[length ?t := 0])"
    using l assms(4) by (intro arr_set_nat) simp
  moreover have "c_string ((overlay 0 ?t stack)[length ?t := 0]) = Some ?t"
    using l assms(4) fmt_u_nonzero [of _ "regs s 0"] by (intro c_string_of_text) auto
  ultimately show ?thesis
    using assms(3) sh g strtoul_fmt_u [of "regs s 0"] by (simp add: read_temperature_def attr_show_def)
qed

lemma write_control_run:
  assumes "drvdata s = Some d" and "8 \<le> unat (io_size (base_addr d))" and "sysfs_ok e"
    and "sy_path e path = Some ''control''" and "length stack = 32" and "kstrtouint_ok k"
  shows "write_control e k stack path v s =
     Some (0, s\<lparr>drvdata := Some (d\<lparr>control_value := v\<rparr>), regs := (regs s)(4 := v)\<rparr>)"
proof -
  have l: "length (fmt_u v) \<le> 10" by (rule length_fmt_u)
  then have t: "take 31 (fmt_u v) = fmt_u v" by simp
  have w: "mem_write stack 0 (fmt_u v @ [0]) = Some (overlay 0 (fmt_u v @ [0]) stack)"
    using l assms(5) by (simp add: mem_simps)
  have "mem_read (overlay 0 (fmt_u v @ [0]) stack) 0 (length (fmt_u v)) = Some (fmt_u v)"
    using l assms(5) by (simp add: mem_read_def) (simp add: overlay_def)
  moreover have "k (fmt_u v) = Inr v" using assms(6) by (simp add: kstrtouint_ok_def)
  ultimately show ?thesis using assms(1-4) w
    by (simp add: write_control_def t attr_store_def control_store_def sysfs_ok_def iowrite32_def io_ok_def Let_def)
qed

text \<open>\<open>ioremap\<close> maps as many bytes as it is asked for.\<close>

definition ioremap_ok :: "sensor_env \<Rightarrow> bool" where
  "ioremap_ok env \<longleftrightarrow> (\<forall>b n m. ioremap env b n = Some m \<longrightarrow> io_base m = b \<and> io_size m = n)"

lemma sensor_probe_bound:
  assumes "sensor_probe env (s0, h0) = (None, s, h)" and "ioremap_ok env"
    and "get_resource env = Some mr" and "8 \<le> unat (res_end mr - res_start mr + 1)"
  shows "bound s \<and> regs s = regs s0"
  using assms by (auto simp: sensor_probe_def bound_def ioremap_ok_def split: if_splits option.splits)

text \<open>A probe that fails creates nothing, and the files are gone after a remove.\<close>

lemma sensor_probe_fails: "sensor_probe env (s0, h0) = (Some err, s, h) \<Longrightarrow> s = s0 \<and> h = h0"
  by (auto simp: sensor_probe_def split: if_splits option.splits)

lemma sensor_probe_remove:
  assumes "sensor_probe env (s0, h0) = (None, s, h)"
    and "AttrFile 0 ''temp'' \<notin> set h0" and "AttrFile 0 ''control'' \<notin> set h0"
  shows "sensor_remove h = h0"
  using assms by (auto simp: sensor_probe_def sensor_remove_def acquire_def remove1_idem split: if_splits option.splits)

text \<open>A program whose paths lead to the attributes of a bound device, and one whose paths lead nowhere.\<close>

lemma sensor_app_reaches:
  assumes "bound s" and "sysfs_ok e" and "sy_path e tpath = Some ''temp''" and "sy_path e cpath = Some ''control''"
    and "kstrtouint_ok k" and "length stack = 32"
  shows "\<exists>s'. sensor_app_with e k stack hw tpath cpath s =
       Some (0, [Value (regs s 0), Writing 0xDEAD, Value (hw ((regs s)(4 := 0xDEAD)) 0)], s') \<and>
     map_option control_value (drvdata s') = Some 0xDEAD"
proof -
  obtain d where d: "drvdata s = Some d" "8 \<le> unat (io_size (base_addr d))" using assms(1) by (auto simp: bound_def)
  let ?s1 = "s\<lparr>drvdata := Some (d\<lparr>control_value := 0xDEAD\<rparr>), regs := (regs s)(4 := 0xDEAD)\<rparr>"
  let ?s2 = "?s1\<lparr>regs := hw (regs ?s1)\<rparr>"
  have b2: "bound ?s2" using d by (simp add: bound_def)
  have "write_control e k stack cpath 0xDEAD s = Some (0, ?s1)"
    by (rule write_control_run [OF d assms(2,4,6,5)])
  then show ?thesis
    using read_temperature_run [OF assms(1-3,6)] read_temperature_run [OF b2 assms(2,3,6)]
    by (simp add: sensor_app_with_def)
qed

lemma app_misses:
  assumes "sy_path e tpath = None" and "sy_path e cpath = None"
  shows "sensor_app_with e k stack hw tpath cpath s = Some (0, [ReadFailed, Writing 0xDEAD, WriteFailed], s\<lparr>regs := hw (regs s)\<rparr>)"
  using assms by (simp add: sensor_app_with_def read_temperature_def write_control_def)

text \<open>
  The name of a platform device with the id -1 is the plain name
  (\<open>PLATFORM_DEVID_NONE\<close>), and a path leads to an attribute only below the device's directory.
\<close>

definition platform_tree :: "(string \<Rightarrow> int \<Rightarrow> string) \<Rightarrow> sysfs_env \<Rightarrow> held \<Rightarrow> bool" where
  "platform_tree dev_name e h \<longleftrightarrow> (\<forall>n. dev_name n (- 1) = n) \<and>
     (\<forall>p a. sy_path e p = Some a \<longleftrightarrow> AttrFile 0 a \<in> set h \<and>
        p = ''/sys/devices/platform/'' @ dev_name PLATFORM_DRIVER_NAME DEVICE_ID @ ''/'' @ a)"

lemma app_016_paths:
  assumes "platform_tree dev_name e h"
  shows "sy_path e SYSFS_TEMP_PATH = None \<and> sy_path e SYSFS_CONTROL_PATH = None"
proof -
  have n: "dev_name PLATFORM_DRIVER_NAME DEVICE_ID = ''sensor_driver''"
    using assms by (simp add: platform_tree_def PLATFORM_DRIVER_NAME_def DEVICE_ID_def)
  have "sy_path e p = Some a \<Longrightarrow> p = ''/sys/devices/platform/sensor_driver/'' @ a" for p a
    using assms n by (simp add: platform_tree_def)
  then have "sy_path e SYSFS_TEMP_PATH \<noteq> Some a" and "sy_path e SYSFS_CONTROL_PATH \<noteq> Some a" for a
    by (fastforce simp: SYSFS_TEMP_PATH_def SYSFS_CONTROL_PATH_def)+
  then show ?thesis by auto
qed

text \<open>A concrete kernel: names with a number behind a dot, and the attributes of one device.\<close>

definition demo_dev_name :: "string \<Rightarrow> int \<Rightarrow> string" where
  "demo_dev_name n i = (if i < 0 then n else n @ ''.'' @ map (\<lambda>b. char_of (unat b)) (fmt_zu (nat i)))"

definition sensor_dir :: string where
  "sensor_dir = ''/sys/devices/platform/sensor_driver/''"

definition demo_sysfs :: "held \<Rightarrow> sysfs_env" where
  "demo_sysfs h =
     \<lparr>sy_path = (\<lambda>p. let q = drop 36 p in
        if take 36 p = sensor_dir \<and> AttrFile 0 q \<in> set h then Some q else None),
      sy_read = (\<lambda>t n. take n t), sy_page = (\<lambda>t. t)\<rparr>"

lemma demo_sysfs_ok: "sysfs_ok (demo_sysfs h)"
  by (simp add: sysfs_ok_def demo_sysfs_def)

lemma demo_tree: "platform_tree demo_dev_name (demo_sysfs h) h"
proof -
  have l: "length sensor_dir = 36" by (simp add: sensor_dir_def)
  have d: "''/sys/devices/platform/'' @ demo_dev_name PLATFORM_DRIVER_NAME DEVICE_ID @ ''/'' @ a = sensor_dir @ a" for a
    by (simp add: demo_dev_name_def PLATFORM_DRIVER_NAME_def DEVICE_ID_def sensor_dir_def)
  have "take 36 p = sensor_dir \<and> drop 36 p = a \<longleftrightarrow> p = sensor_dir @ a" for p a
    using append_eq_conv_conj [of sensor_dir a p] l by auto
  then have "sy_path (demo_sysfs h) p = Some a \<longleftrightarrow> AttrFile 0 a \<in> set h \<and> p = sensor_dir @ a" for p a
    using l by (auto simp: demo_sysfs_def Let_def)
  moreover have "demo_dev_name n (- 1) = n" for n by (simp add: demo_dev_name_def)
  ultimately show ?thesis by (simp only: platform_tree_def d simp_thms)
qed

definition demo_env :: sensor_env where
  "demo_env = \<lparr>kzalloc_ok = True, get_resource = Some sensor_resources,
     ioremap = (\<lambda>b n. Some \<lparr>io_base = b, io_size = n\<rparr>), create_file = api_ok\<rparr>"

lemma demo_env_ok: "ioremap_ok demo_env"
  by (simp add: ioremap_ok_def demo_env_def)

subsection \<open>Properties\<close>

text \<open>The program that comes with 016 never reaches the device that comes with 016: the id -1
  is the one for a device without a number, so the attributes are below \<open>sensor_driver\<close>, and the
  program looks below \<open>sensor_driver.0\<close>. It reports the failures, changes nothing and ends with
  exit code 0.\<close>

theorem sensor_016_app_misses_device:
  assumes "platform_tree dev_name e h"
  shows "sensor_app_main e k stack hw s =
     Some (0, [ReadFailed, Writing 0xDEAD, WriteFailed], s\<lparr>regs := hw (regs s)\<rparr>)"
  using app_016_paths [OF assms] by (simp add: sensor_app_main_def app_misses)

theorem sensor_016_app_misses_device_witness:
  "sensor_app_main (demo_sysfs [AttrFile 0 ''control'', AttrFile 0 ''temp'']) decimal_kstrtouint (replicate 32 0)
     (\<lambda>r. r) \<lparr>drvdata = None, regs = (\<lambda>_. 25)\<rparr> =
   Some (0, [ReadFailed, Writing 0xDEAD, WriteFailed], \<lparr>drvdata = None, regs = (\<lambda>_. 25)\<rparr>)"
  using sensor_016_app_misses_device [OF demo_tree] by simp

end
