(* ===== verification/GpioDevices.thy ===== *)
theory GpioDevices
  imports PlatformSensor
begin

section \<open>GPIO lines: 007\_gpiod\_sysfs\_led, 019\_pltdrv\_dt\_gpios\<close>

text \<open>
  Two platform drivers with one GPIO line each. 007 keeps the number written to its attribute and
  drives the line by it; 019 reads and writes the line itself, and comes with a test program. The
  GPIO library is kernel code: a line is the value it is driven to, and its direction. (The file of
  019 does not compile: a line of its remove routine has slipped into its match table.)
\<close>

subsection \<open>\<open>gpiod_led_sysfs.c\<close>\<close>

text \<open>\<open>sscanf\<close> with \<open>%d\<close>: nothing is stored when there is no number.\<close>

definition sscanf_d :: "byte list \<Rightarrow> cint option" where
  "sscanf_d s =
     (let s = dropWhile is_space s;
          neg = (s \<noteq> [] \<and> hd s = 45);
          r = (if s \<noteq> [] \<and> (hd s = 45 \<or> hd s = 43) then tl s else s);
          n = int (digits_num 10 r)
      in if r = [] \<or> 10 \<le> digit_val (hd r) then None else Some (word_of_int (if neg then - n else n)))"

record gpio_led =
  led_line :: bool
  led_state :: cint

definition value_show :: "gpio_led \<Rightarrow> byte list \<times> ret" where
  "value_show s = (let t = fmt_d (led_state s) @ [10] in (t, Inr (word_of_nat (length t))))"

definition value_store :: "byte list \<Rightarrow> size_t \<Rightarrow> gpio_led \<Rightarrow> gpio_led \<times> ret" where
  "value_store buf count s =
     (let s = (case sscanf_d buf of Some v \<Rightarrow> s\<lparr>led_state := v\<rparr> | None \<Rightarrow> s)
      in (s\<lparr>led_line := (led_state s \<noteq> 0)\<rparr>, Inr count))"

definition gpio_led_probe :: "kapi \<Rightarrow> held \<Rightarrow> (errno option \<times> held) option" where
  "gpio_led_probe api h =
     (case api GpioDesc of Some e \<Rightarrow> Some (Some e, h) | None \<Rightarrow>
      let h = GpioDesc # h in
      case api Kobject of Some e \<Rightarrow> Some (Some ENOMEM, h) | None \<Rightarrow>
      let h = Kobject # h in
      case api SysfsGroup of
        Some e \<Rightarrow> do { h \<leftarrow> release Kobject h; Some (Some e, h) }
      | None \<Rightarrow> Some (None, SysfsGroup # h))"

text \<open>\<open>kobject_put\<close> takes the directory away with the group in it.\<close>

definition gpio_led_remove :: "held \<Rightarrow> held option" where
  "gpio_led_remove h = do { h \<leftarrow> release GpioDesc h; release_list [SysfsGroup, Kobject] h }"

lemma sscanf_fmt_d: "sscanf_d (fmt_d w @ [10]) = Some w"
proof -
  have d: "digits_num 10 (fmt_zu n @ [10]) = n" for n
  proof -
    have "\<forall>d \<in> set (fmt_zu n). 48 \<le> unat d \<and> unat d \<le> 57" using fmt_zu_digits by blast
    moreover have "digit_val 10 = 36" by (simp add: digit_val_def)
    ultimately show ?thesis using digits_num_decimal [of "fmt_zu n" 10 "[]"] digits_value_fmt_zu [of n] by simp
  qed
  have first: "digit_val (hd (fmt_zu n)) < 10 \<and> \<not> is_space (hd (fmt_zu n)) \<and> hd (fmt_zu n) \<noteq> 45 \<and> hd (fmt_zu n) \<noteq> 43" for n
  proof -
    have "48 \<le> unat (hd (fmt_zu n)) \<and> unat (hd (fmt_zu n)) \<le> 57"
      using fmt_zu_digits [OF hd_in_set [of "fmt_zu n"]] by simp
    then show ?thesis by (auto simp: digit_val_decimal is_space_def word_le_nat_alt)
  qed
  show ?thesis
  proof (cases "sint w < 0")
    case True
    then have "dropWhile is_space (fmt_d w @ [10]) = 45 # fmt_zu (nat (- sint w)) @ [10]"
      by (simp add: fmt_d_def is_space_def)
    then show ?thesis using True first [of "nat (- sint w)"] d [of "nat (- sint w)"]
      by (simp add: sscanf_d_def not_le)
  next
    case False
    let ?n = "nat (sint w)"
    obtain a r where f: "fmt_zu ?n = a # r" by (cases "fmt_zu ?n") auto
    have "dropWhile is_space (fmt_d w @ [10]) = a # r @ [10]"
      using False first [of ?n] f by (simp add: fmt_d_def)
    then show ?thesis using False first [of ?n] d [of ?n] f
      by (simp add: sscanf_d_def not_le)
  qed
qed

subsection \<open>\<open>sensor_pltdrv.c\<close> of 019 and its program\<close>

record gpio_line =
  g_value :: cint
  g_direction :: cint

definition gpio_state_show :: "gpio_line \<Rightarrow> byte list \<times> ret" where
  "gpio_state_show s = (let t = fmt_d (g_value s) @ [10] in (t, Inr (word_of_nat (length t))))"

definition gpio_state_store :: "kstrtouint \<Rightarrow> byte list \<Rightarrow> size_t \<Rightarrow> gpio_line \<Rightarrow> gpio_line \<times> ret" where
  "gpio_state_store kstrtouint buf count s =
     ((case kstrtouint buf of Inr val \<Rightarrow> s\<lparr>g_value := (if val \<noteq> 0 then 1 else 0)\<rparr> | Inl e \<Rightarrow> s), Inr count)"

definition gpio_direction_show :: "gpio_line \<Rightarrow> byte list \<times> ret" where
  "gpio_direction_show s =
     (let t = ascii (if g_direction s \<noteq> 0 then ''in'' else ''out'') @ [10] in (t, Inr (word_of_nat (length t))))"

text \<open>\<open>GPIOD_OUT_LOW\<close> makes the line an output at 0.\<close>

definition gpio_sensor_probe :: "kapi \<Rightarrow> gpio_line \<times> held \<Rightarrow> errno option \<times> gpio_line \<times> held" where
  "gpio_sensor_probe api st =
     (case st of (s, h) \<Rightarrow>
      case api GpioDesc of
        Some e \<Rightarrow> (Some e, s, h)
      | None \<Rightarrow> (None, s\<lparr>g_value := 0, g_direction := 0\<rparr>,
          acquire api (AttrFile 0 ''gpio_direction'') (acquire api (AttrFile 0 ''gpio_state'') h)))"

text \<open>The line that removes \<open>gpio_state\<close> has slipped out of the routine, into the match table behind it;
  the model puts it back. Removing a file that is not there does nothing.\<close>

definition gpio_sensor_remove :: "held \<Rightarrow> held" where
  "gpio_sensor_remove h = remove1 (AttrFile 0 ''gpio_direction'') (remove1 (AttrFile 0 ''gpio_state'') h)"

lemma gpio_probe_remove:
  assumes "gpio_sensor_probe api (s, h) = (None, s', h')"
    and "AttrFile 0 ''gpio_state'' \<notin> set h" and "AttrFile 0 ''gpio_direction'' \<notin> set h"
  shows "gpio_sensor_remove h' = h"
  using assms by (auto simp: gpio_sensor_probe_def gpio_sensor_remove_def acquire_def remove1_idem split: option.splits)

definition read_gpio_state :: "sysfs_env \<Rightarrow> byte list \<Rightarrow> string \<Rightarrow> gpio_line \<Rightarrow> int option option" where
  "read_gpio_state e stack path s =
     (case sy_path e path of
        None \<Rightarrow> Some None
      | Some a \<Rightarrow>
          let got = sy_read e (fst (gpio_state_show s)) 31 in
          if got = [] then Some None
          else do {
            buf \<leftarrow> mem_write stack 0 got;
            buf \<leftarrow> arr_set buf (int (length got)) 0;
            str \<leftarrow> c_string buf;
            Some (Some (strtol str))
          })"

definition write_gpio_state ::
  "sysfs_env \<Rightarrow> kstrtouint \<Rightarrow> byte list \<Rightarrow> string \<Rightarrow> cint \<Rightarrow> gpio_line \<Rightarrow> (int \<times> gpio_line) option" where
  "write_gpio_state e k stack path v s =
     (case sy_path e path of
        None \<Rightarrow> Some (- 1, s)
      | Some a \<Rightarrow>
          let len = length (fmt_d v) in
          do {
            buf \<leftarrow> mem_write stack 0 (take 31 (fmt_d v) @ [0]);
            d \<leftarrow> mem_read buf 0 len;
            let (s, r) = gpio_state_store k (sy_page e d) (word_of_nat len) s;
            Some (if r = Inr (word_of_nat len) then 0 else - 1, s)
          })"

text \<open>The exit code, and the line while the program sleeps and at its end.\<close>

definition gpio_app_main ::
  "sysfs_env \<Rightarrow> kstrtouint \<Rightarrow> byte list \<Rightarrow> string \<Rightarrow> gpio_line \<Rightarrow> (int \<times> gpio_line list) option" where
  "gpio_app_main e k stack path s =
     do {
       v \<leftarrow> read_gpio_state e stack path s;
       if v = None then Some (1, [s])
       else do {
         (w, s1) \<leftarrow> write_gpio_state e k stack path 1 s;
         if w < 0 then Some (1, [s1])
         else do {
           (w, s2) \<leftarrow> write_gpio_state e k stack path 0 s1;
           Some (0, [s1, s2])
         }
       }
     }"

lemma length_fmt_d: "length (fmt_d w) \<le> 11"
proof -
  have "sint w < 2 ^ 31" and "- (2 ^ 31) \<le> sint w"
    using sint_lt [of w] sint_ge [of w] by simp_all
  then have "nat (sint w) < 10 ^ 10" and "nat (- sint w) < 10 ^ 10" by simp_all
  then have "length (fmt_zu (nat (sint w))) \<le> 10" and "length (fmt_zu (nat (- sint w))) \<le> 10"
    by (intro length_fmt_zu; simp)+
  then show ?thesis by (simp add: fmt_d_def)
qed

lemma fmt_d_nonzero: "d \<in> set (fmt_d w @ [10]) \<Longrightarrow> d \<noteq> 0"
  by (auto simp: fmt_d_def dest: fmt_zu_digits split: if_splits)

lemma read_gpio_state_run:
  assumes "sysfs_ok e" and "sy_path e path = Some a" and "length stack = 32"
  shows "\<exists>v. read_gpio_state e stack path s = Some (Some v)"
proof -
  let ?t = "fmt_d (g_value s) @ [10]"
  have l: "length ?t \<le> 12" using length_fmt_d [of "g_value s"] by simp
  then have g: "sy_read e ?t 31 = ?t" using assms(1) by (simp add: sysfs_ok_def)
  have "mem_write stack 0 ?t = Some (overlay 0 ?t stack)" using l assms(3) by (simp add: mem_simps)
  moreover have "arr_set (overlay 0 ?t stack) (int (length ?t)) 0 = Some ((overlay 0 ?t stack)[length ?t := 0])"
    using l assms(3) by (intro arr_set_nat) simp
  moreover have "c_string ((overlay 0 ?t stack)[length ?t := 0]) = Some ?t"
    using l assms(3) fmt_d_nonzero [of _ "g_value s"] by (intro c_string_of_text) auto
  ultimately show ?thesis using assms(2) g by (simp add: read_gpio_state_def gpio_state_show_def)
qed

lemma write_gpio_state_run:
  assumes "sysfs_ok e" and "sy_path e path = Some a" and "length stack = 32" and "kstrtouint_ok k" and "v = 0 \<or> v = 1"
  shows "write_gpio_state e k stack path v s = Some (0, s\<lparr>g_value := v\<rparr>)"
proof -
  have f: "fmt_d v = fmt_u v" using assms(5) by (auto simp: fmt_d_def fmt_u_def)
  have l: "length (fmt_u v) \<le> 10" by (rule length_fmt_u)
  then have t: "take 31 (fmt_u v) = fmt_u v" by simp
  have w: "mem_write stack 0 (fmt_u v @ [0]) = Some (overlay 0 (fmt_u v @ [0]) stack)"
    using l assms(3) by (simp add: mem_simps)
  have "mem_read (overlay 0 (fmt_u v @ [0]) stack) 0 (length (fmt_u v)) = Some (fmt_u v)"
    using l assms(3) by (simp add: mem_read_def) (simp add: overlay_def)
  moreover have "k (fmt_u v) = Inr v" using assms(4) by (simp add: kstrtouint_ok_def)
  ultimately show ?thesis using assms(1,2,5) w
    by (auto simp: write_gpio_state_def f t gpio_state_store_def sysfs_ok_def Let_def)
qed

subsection \<open>Properties\<close>

text \<open>The LED attribute of 007: every number of 32 bits that is written is shown, negative ones
  included, and the line is on exactly for the numbers other than 0; a text without a number
  changes nothing but is accepted.\<close>

theorem led_value_round_trip:
  "(case value_store (fmt_d w @ [10]) n s of (s', r) \<Rightarrow>
      r = Inr n \<and> fst (value_show s') = fmt_d w @ [10] \<and> led_line s' = (w \<noteq> 0)) \<and>
   (value_store [] n s = (s\<lparr>led_line := (led_state s \<noteq> 0)\<rparr>, Inr n))"
  by (simp add: value_store_def value_show_def sscanf_fmt_d) (simp add: sscanf_d_def)

text \<open>A probe of the LED driver that fails after it got the line keeps it: the descriptor is
  never put. A probe that succeeds is undone by remove.\<close>

theorem led_probe_leaks_gpio:
  "case gpio_led_probe api h of
     None \<Rightarrow> False
   | Some (Some err, h') \<Rightarrow> h' = (if api GpioDesc = None then GpioDesc # h else h)
   | Some (None, h') \<Rightarrow> gpio_led_remove h' = Some h"
proof -
  have "release GpioDesc (SysfsGroup # Kobject # GpioDesc # h) = Some (SysfsGroup # Kobject # h)"
    by (simp add: release_def)
  then show ?thesis
    by (auto simp: gpio_led_probe_def gpio_led_remove_def Let_def split: option.split)
qed

text \<open>The program of 019 switches the line on while it sleeps and off at its end, whatever the
  line showed before.\<close>

theorem gpio_app_toggles:
  assumes "sysfs_ok e" and "sy_path e path = Some a" and "length stack = 32" and "kstrtouint_ok k"
  shows "gpio_app_main e k stack path s = Some (0, [s\<lparr>g_value := 1\<rparr>, s\<lparr>g_value := 0\<rparr>])"
proof -
  obtain v where "read_gpio_state e stack path s = Some (Some v)" using read_gpio_state_run [OF assms(1-3)] by blast
  then show ?thesis using write_gpio_state_run [OF assms] by (simp add: gpio_app_main_def)
qed

theorem gpio_app_toggles_witness:
  "gpio_app_main (demo_sysfs [AttrFile 0 ''gpio_state'']) decimal_kstrtouint (replicate 32 0)
     (sensor_dir @ ''gpio_state'') \<lparr>g_value = 1, g_direction = 0\<rparr> =
   Some (0, [\<lparr>g_value = 1, g_direction = 0\<rparr>, \<lparr>g_value = 0, g_direction = 0\<rparr>])"
proof -
  have "sy_path (demo_sysfs [AttrFile 0 ''gpio_state'']) (sensor_dir @ ''gpio_state'') = Some ''gpio_state''"
    by (simp add: demo_sysfs_def sensor_dir_def)
  then show ?thesis
    using gpio_app_toggles [OF demo_sysfs_ok _ _ decimal_kstrtouint_ok, of "[AttrFile 0 ''gpio_state'']"
        "sensor_dir @ ''gpio_state''" "''gpio_state''" "replicate 32 0" "\<lparr>g_value = 1, g_direction = 0\<rparr>"] by simp
qed

end
