(* ===== verification/PowerMgmt.thy ===== *)
theory PowerMgmt
  imports CText KernelResources
begin

section \<open>Power management: 020\_power\_management\<close>

text \<open>
  \<open>power_mgmt_kernel.c\<close>: a platform driver with suspend and resume callbacks and an attribute
  \<open>state\<close>; \<open>power_mgmt_user.c\<close> reads the attribute once and then writes \<open>0\<close> and \<open>1\<close> to it in
  turn. The runtime power management core is kernel code: what the driver does with it is the
  list \<open>pm_calls\<close>, and what it calls back are events. A page handed to the store routine has a
  NUL behind its characters.
\<close>

datatype pm_call = PutSync | GetSync

record power =
  device_state :: int
  pm_enabled :: bool
  pm_calls :: "pm_call list"

definition power_initial :: power where
  "power_initial = \<lparr>device_state = 1, pm_enabled = False, pm_calls = []\<rparr>"

definition power_suspend :: "power \<Rightarrow> power \<times> int" where
  "power_suspend s = (s\<lparr>device_state := 0\<rparr>, 0)"

definition power_resume :: "power \<Rightarrow> power \<times> int" where
  "power_resume s = (s\<lparr>device_state := 1\<rparr>, 0)"

definition power_runtime_suspend :: "power \<Rightarrow> power \<times> int" where "power_runtime_suspend s = (s, 0)"
definition power_runtime_resume :: "power \<Rightarrow> power \<times> int" where "power_runtime_resume s = (s, 0)"
definition power_freeze :: "power \<Rightarrow> power \<times> int" where "power_freeze s = (s, 0)"
definition power_thaw :: "power \<Rightarrow> power \<times> int" where "power_thaw s = (s, 0)"

definition state_show :: "power \<Rightarrow> byte list \<times> ret" where
  "state_show s =
     (let t = ascii ''Device State: '' @ ascii (if device_state s \<noteq> 0 then ''Active'' else ''Suspended'') @ [10]
      in (t, Inr (word_of_nat (length t))))"

definition state_store :: "byte list \<Rightarrow> size_t \<Rightarrow> power \<Rightarrow> (power \<times> ret) option" where
  "state_store page count s =
     do {
       c \<leftarrow> arr_get (page @ [0]) 0;
       Some (if c = 48 then s\<lparr>pm_calls := pm_calls s @ [PutSync]\<rparr>
             else if c = 49 then s\<lparr>pm_calls := pm_calls s @ [GetSync]\<rparr>
             else s, Inr count)
     }"

definition power_probe :: "kapi \<Rightarrow> power \<times> held \<Rightarrow> errno option \<times> power \<times> held" where
  "power_probe api st =
     (case st of (s, h) \<Rightarrow>
      case api SysfsGroup of
        Some e \<Rightarrow> (Some e, s, h)
      | None \<Rightarrow> (None, s\<lparr>pm_enabled := True\<rparr>, SysfsGroup # h))"

definition power_remove :: "power \<times> held \<Rightarrow> (power \<times> held) option" where
  "power_remove st =
     (case st of (s, h) \<Rightarrow> do { h \<leftarrow> release SysfsGroup h; Some (s\<lparr>pm_enabled := False\<rparr>, h) })"

text \<open>
  The driver is registered by its name; the kernel compares it with the name of the device that
  there is, if any (\<open>dev\<close>; the repository registers none), and probes for it. A failing probe is not an
  error of the registration. The second result is whether the device got bound. Unregistering the
  driver removes it from the device it is bound to.
\<close>

definition power_driver_name :: string where
  "power_driver_name = ''power_mgmt_demo''"

definition power_init ::
  "(string \<Rightarrow> string \<Rightarrow> bool) \<Rightarrow> errno option \<Rightarrow> kapi \<Rightarrow> string option \<Rightarrow> power \<times> held \<Rightarrow> errno option \<times> bool \<times> power \<times> held" where
  "power_init matches reg api dev st =
     (case reg of
        Some e \<Rightarrow> (Some e, False, st)
      | None \<Rightarrow>
          if (case dev of Some d \<Rightarrow> matches power_driver_name d | None \<Rightarrow> False)
          then (case power_probe api st of (r, st) \<Rightarrow> (None, r = None, st))
          else (None, False, st))"

definition power_exit :: "bool \<Rightarrow> power \<times> held \<Rightarrow> (power \<times> held) option" where
  "power_exit is_bound st = (if is_bound then power_remove st else Some st)"

subsection \<open>\<open>power_mgmt_user.c\<close>\<close>

text \<open>
  The results of the nine \<open>fopen\<close> calls are an argument. The first is checked; \<open>fprintf\<close> to the
  result of a later one that failed is \<open>None\<close>. \<open>fgets\<close> reads a line of at most 63 characters;
  \<open>fclose\<close> writes the text out, which calls the store routine.
\<close>

definition fgets_line :: "nat \<Rightarrow> byte list \<Rightarrow> byte list" where
  "fgets_line n t = (let l = takeWhile (\<lambda>c. c \<noteq> 10) (take (n - 1) t) in
     if length l < min (n - 1) (length t) then l @ [10] else l)"

fun write_all :: "(bool \<times> byte) list \<Rightarrow> power \<Rightarrow> power option" where
  "write_all [] s = Some s"
| "write_all ((opened, c) # ws) s =
     (if opened then do { (s, r) \<leftarrow> state_store [c] 1 s; write_all ws s } else None)"

definition power_user_main :: "bool list \<Rightarrow> power \<Rightarrow> (int \<times> byte list \<times> power) option" where
  "power_user_main opens s =
     (case opens of
        [] \<Rightarrow> None
      | False # _ \<Rightarrow> Some (1, [], s)
      | True # ops \<Rightarrow>
          do {
            let out = fgets_line 64 (fst (state_show s));
            s \<leftarrow> write_all (zip ops [48, 49, 48, 49, 48, 49, 48, 49]) s;
            Some (0, out, s)
          })"

subsection \<open>Events\<close>

text \<open>The callbacks of the driver as its table \<open>power_pm_ops\<close> gives them to the kernel.\<close>

datatype pm_op = Suspend | Resume | Freeze | Thaw | RuntimeSuspend | RuntimeResume

fun power_pm_ops :: "pm_op \<Rightarrow> power \<Rightarrow> power \<times> int" where
  "power_pm_ops Suspend = power_suspend"
| "power_pm_ops Resume = power_resume"
| "power_pm_ops Freeze = power_freeze"
| "power_pm_ops Thaw = power_thaw"
| "power_pm_ops RuntimeSuspend = power_runtime_suspend"
| "power_pm_ops RuntimeResume = power_runtime_resume"

datatype pm_event = Callback pm_op | Store "byte list" size_t

fun pm_step :: "pm_event \<Rightarrow> power \<Rightarrow> power option" where
  "pm_step (Callback c) s = Some (fst (power_pm_ops c s))"
| "pm_step (Store page n) s = map_option fst (state_store page n s)"

fun pm_run :: "pm_event list \<Rightarrow> power \<Rightarrow> power option" where
  "pm_run [] s = Some s"
| "pm_run (e # es) s = do { s \<leftarrow> pm_step e s; pm_run es s }"

text \<open>The last system suspend or resume decides.\<close>

fun awake :: "bool \<Rightarrow> pm_event list \<Rightarrow> bool" where
  "awake b [] = b"
| "awake b (Callback Suspend # es) = awake False es"
| "awake b (Callback Resume # es) = awake True es"
| "awake b (_ # es) = awake b es"

lemma state_store_run: "\<exists>s'. state_store page n s = Some (s', Inr n) \<and> device_state s' = device_state s"
  by (cases page) (auto simp: state_store_def arr_get_def)

lemmas power_callbacks = power_suspend_def power_resume_def power_runtime_suspend_def power_runtime_resume_def
  power_freeze_def power_thaw_def

lemma pm_run_awake:
  "\<exists>s'. pm_run es s = Some s' \<and> (device_state s' \<noteq> 0 \<longleftrightarrow> awake (device_state s \<noteq> 0) es)"
proof (induction es arbitrary: s)
  case (Cons e es)
  show ?case
  proof (cases e)
    case (Store page n)
    obtain s1 where "state_store page n s = Some (s1, Inr n)" "device_state s1 = device_state s"
      using state_store_run by blast
    then show ?thesis using Store Cons.IH [of s1] by simp
  next
    case (Callback c)
    show ?thesis using Cons.IH [of "fst (power_pm_ops c s)"]
      by (cases c) (simp_all add: Callback power_callbacks)
  qed
qed simp

lemma fgets_state: "fgets_line 64 (fst (state_show s)) = fst (state_show s)"
  by (simp add: fgets_line_def state_show_def ascii_def Let_def)

lemma probe_remove: "power_probe api (s, h) = (None, s', h') \<Longrightarrow> power_remove (s', h') = Some (s'\<lparr>pm_enabled := False\<rparr>, h)"
  by (auto simp: power_probe_def power_remove_def split: option.splits)

text \<open>Loading and unloading, with whatever fails, gives back what was created and leaves runtime power
  management off.\<close>

lemma power_load_unload:
  assumes "power_init matches reg api dev (s, h) = (r, b, s', h')" and "\<not> pm_enabled s"
  shows "\<exists>s''. power_exit b (s', h') = Some (s'', h) \<and> \<not> pm_enabled s''"
  using assms probe_remove [of api s h]
  by (auto simp: power_init_def power_exit_def power_probe_def split: option.splits if_splits)

subsection \<open>Properties\<close>

text \<open>The state shown follows the system's suspend and resume alone: after any events it is
  \<open>Active\<close> exactly if the last of these was a resume, or there was none and it was before.
  Whatever is written to the attribute, and whatever runtime power management does, it shows
  the same.\<close>

theorem power_state_follows_system:
  "\<exists>s'. pm_run es s = Some s' \<and>
     fst (state_show s') = ascii (if awake (device_state s \<noteq> 0) es then ''Device State: Active'' else ''Device State: Suspended'') @ [10]"
proof -
  obtain s' where "pm_run es s = Some s'" "device_state s' \<noteq> 0 \<longleftrightarrow> awake (device_state s \<noteq> 0) es"
    using pm_run_awake by blast
  then show ?thesis by (auto simp: state_show_def ascii_def Let_def)
qed

text \<open>The test program prints the state and makes four puts and four gets, in turn, put first:
  its first call gives back a reference that was never taken. It ends with exit code 0 only if
  every file could be opened; if a later one cannot, it writes through a null pointer.\<close>

theorem power_user_calls:
  assumes "length ops = 8"
  shows "power_user_main (True # ops) s =
     (if ops = replicate 8 True
      then Some (0, fst (state_show s), s\<lparr>pm_calls := pm_calls s @ concat (replicate 4 [PutSync, GetSync])\<rparr>)
      else None)"
proof -
  have r: "replicate 8 True = [True, True, True, True, True, True, True, True]"
    "concat (replicate 4 [PutSync, GetSync]) = [PutSync, GetSync, PutSync, GetSync, PutSync, GetSync, PutSync, GetSync]"
    by (simp_all add: numeral_eq_Suc)
  obtain a b c d e f g h where "ops = [a, b, c, d, e, f, g, h]"
    using assms by (auto simp: numeral_eq_Suc length_Suc_conv)
  then show ?thesis
    by (simp add: power_user_main_def fgets_state state_store_def arr_get_def r)
qed

theorem power_user_calls_witness:
  "power_user_main [True, True, True, False, True, True, True, True, True] power_initial = None"
  using power_user_calls [of "[True, True, False, True, True, True, True, True]" power_initial]
  by (simp add: numeral_eq_Suc)

end
