(* ===== verification/SharedIrq.thy ===== *)
theory SharedIrq
  imports KernelResources
begin

section \<open>Handlers on shared interrupt lines: 022\_keyboard\_interrupt, 027\_sig\_send\<close>

subsection \<open>\<open>keyb_driver_isr.c\<close>\<close>

text \<open>
  The actions registered on interrupt lines are pairs of the line and the cookie \<open>dev_id\<close>.
  \<open>free_irq\<close> takes off the action with the given line and cookie, and nothing when there is
  none. The module registers with the address of its work item and unregisters with the
  address of its handler. Running a handler or a work function of a module that is not loaded
  is \<open>None\<close>.
\<close>

datatype dev_id = KbWork | IrqHandler

record keyb =
  actions :: "(int \<times> dev_id) list"
  kb_pending :: bool
  kb_loaded :: bool

definition KEYBOARD_IRQ :: int where "KEYBOARD_IRQ = 39"

definition kb_work_fn :: "keyb \<Rightarrow> keyb" where
  "kb_work_fn s = s"

datatype irqreturn = IRQ_NONE | IRQ_HANDLED

definition keyboard_irq_handler :: "keyb \<Rightarrow> keyb \<times> irqreturn" where
  "keyboard_irq_handler s = (s\<lparr>kb_pending := True\<rparr>, IRQ_NONE)"

text \<open>\<open>r\<close> is the result of \<open>request_irq\<close>; the routine returns -1 for any error, the number of \<open>EPERM\<close>.\<close>

definition keyboard_driver_init :: "errno option \<Rightarrow> keyb \<Rightarrow> errno option \<times> keyb" where
  "keyboard_driver_init r s =
     (let s = s\<lparr>kb_pending := False\<rparr> in
      if r \<noteq> None then (Some EPERM, s) else (None, s\<lparr>actions := actions s @ [(KEYBOARD_IRQ, KbWork)]\<rparr>))"

definition free_irq :: "int \<Rightarrow> dev_id \<Rightarrow> keyb \<Rightarrow> keyb" where
  "free_irq irq d s = s\<lparr>actions := remove1 (irq, d) (actions s)\<rparr>"

definition keyboard_driver_exit :: "keyb \<Rightarrow> keyb" where
  "keyboard_driver_exit s = free_irq KEYBOARD_IRQ IrqHandler s"

datatype kb_event = KLoad "errno option" | KUnload | KIrq | KWork

fun kb_step :: "kb_event \<Rightarrow> keyb \<Rightarrow> keyb option" where
  "kb_step (KLoad r) s =
     (if kb_loaded s then Some s
      else Some (case keyboard_driver_init r s of (e, s) \<Rightarrow> s\<lparr>kb_loaded := (e = None)\<rparr>))"
| "kb_step KUnload s = (if kb_loaded s then Some ((keyboard_driver_exit s)\<lparr>kb_loaded := False\<rparr>) else Some s)"
| "kb_step KIrq s =
     (if KEYBOARD_IRQ \<in> fst ` set (actions s)
      then if kb_loaded s then Some (fst (keyboard_irq_handler s)) else None
      else Some s)"
| "kb_step KWork s =
     (if kb_pending s
      then if kb_loaded s then Some (kb_work_fn (s\<lparr>kb_pending := False\<rparr>)) else None
      else Some s)"

fun kb_run :: "kb_event list \<Rightarrow> keyb \<Rightarrow> keyb option" where
  "kb_run [] s = Some s"
| "kb_run (e # es) s = do { s \<leftarrow> kb_step e s; kb_run es s }"

definition kb_fresh :: keyb where
  "kb_fresh = \<lparr>actions = [], kb_pending = False, kb_loaded = False\<rparr>"

text \<open>An action once registered stays.\<close>

definition registered :: "keyb \<Rightarrow> bool" where
  "registered s \<longleftrightarrow> (KEYBOARD_IRQ, KbWork) \<in> set (actions s)"

lemma registered_stays: "kb_step e s = Some s' \<Longrightarrow> registered s \<Longrightarrow> registered s'"
  by (cases e) (auto simp: registered_def keyboard_driver_init_def keyboard_driver_exit_def free_irq_def
      keyboard_irq_handler_def kb_work_fn_def Let_def split: if_splits)

lemma loaded_registered:
  "kb_step e s = Some s' \<Longrightarrow> (kb_loaded s \<Longrightarrow> registered s) \<Longrightarrow> kb_loaded s' \<or> e = KLoad None \<Longrightarrow> registered s'"
  by (cases e) (auto simp: registered_def keyboard_driver_init_def keyboard_driver_exit_def free_irq_def
      keyboard_irq_handler_def kb_work_fn_def Let_def split: if_splits)

lemma kb_run_registered:
  "kb_run es s = Some s' \<Longrightarrow> (kb_loaded s \<Longrightarrow> registered s) \<Longrightarrow> registered s \<or> KLoad None \<in> set es \<Longrightarrow> registered s'"
proof (induction es arbitrary: s)
  case (Cons e es)
  obtain s1 where s1: "kb_step e s = Some s1" "kb_run es s1 = Some s'"
    using Cons.prems(1) by (auto simp: bind_eq_Some_conv)
  show ?case
    using Cons.IH [OF s1(2)] loaded_registered [OF s1(1) Cons.prems(2)] registered_stays [OF s1(1)] Cons.prems(3)
    by auto
qed simp

subsection \<open>\<open>sigdrv.c\<close> and \<open>sigusr.c\<close>\<close>

text \<open>
  The driver remembers the process that asked for signals and sends it one at each interrupt.
  Around it: which processes live, and for each open file which processes hold it (a fork
  shares all files). The kernel calls \<open>release\<close> when the last holder closes a file, in the
  process that does so; an exiting process closes its files. Sending a signal to a process
  that is gone is a use of freed memory, \<open>None\<close>.
\<close>

record sigdrv =
  task :: "nat option"
  living :: "nat set"
  holders :: "nat list list"
  signals :: "(nat \<times> int) list"

text \<open>\<open>_IOW('a', 'a', int32_t *)\<close>; the number of the signal is 44, the value sent with it 1.\<close>

definition REG_CURRENT_TASK :: cint where "REG_CURRENT_TASK = 0x40086161"
definition SIGETX :: nat where "SIGETX = 44"

definition etx_irq_handler :: "sigdrv \<Rightarrow> (sigdrv \<times> irqreturn) option" where
  "etx_irq_handler s =
     (case task s of
        None \<Rightarrow> Some (s, IRQ_HANDLED)
      | Some p \<Rightarrow> if p \<in> living s then Some (s\<lparr>signals := signals s @ [(p, 1)]\<rparr>, IRQ_HANDLED) else None)"

definition etx_ioctl :: "nat \<Rightarrow> cint \<Rightarrow> sigdrv \<Rightarrow> sigdrv \<times> ret" where
  "etx_ioctl current cmd s = ((if cmd = REG_CURRENT_TASK then s\<lparr>task := Some current\<rparr> else s), Inr 0)"

definition etx_release :: "nat \<Rightarrow> sigdrv \<Rightarrow> sigdrv \<times> ret" where
  "etx_release current s = ((if task s = Some current then s\<lparr>task := None\<rparr> else s), Inr 0)"

text \<open>No result is looked at.\<close>

definition etx_driver_init :: module_init where
  "etx_driver_init api h =
     Some (None, acquire api IrqLine (acquire api (Device 0) (acquire api Class
       (acquire api (Cdev 0) (acquire api Region h)))))"

definition etx_driver_exit :: module_exit where
  "etx_driver_exit h = release_list [IrqLine, Device 0, Class, Cdev 0, Region] h"

definition close_file :: "nat \<Rightarrow> nat \<Rightarrow> sigdrv \<Rightarrow> sigdrv" where
  "close_file p f s =
     (if f < length (holders s) \<and> p \<in> set (holders s ! f)
      then
        let hs = removeAll p (holders s ! f); s = s\<lparr>holders := (holders s)[f := hs]\<rparr>
        in if hs = [] then fst (etx_release p s) else s
      else s)"

datatype sig_event =
    SOpen nat | SIoctl nat nat cint | SClose nat nat | SFork nat nat | SExit nat | SIrq

fun sig_step :: "sig_event \<Rightarrow> sigdrv \<Rightarrow> sigdrv option" where
  "sig_step (SOpen p) s = Some (if p \<in> living s then s\<lparr>holders := holders s @ [[p]]\<rparr> else s)"
| "sig_step (SIoctl p f cmd) s =
     Some (if p \<in> living s \<and> f < length (holders s) \<and> p \<in> set (holders s ! f) then fst (etx_ioctl p cmd s) else s)"
| "sig_step (SClose p f) s = Some (if p \<in> living s then close_file p f s else s)"
| "sig_step (SFork p c) s =
     Some (if p \<in> living s \<and> c \<notin> living s
           then s\<lparr>living := insert c (living s), holders := map (\<lambda>hs. if p \<in> set hs then c # hs else hs) (holders s)\<rparr>
           else s)"
| "sig_step (SExit p) s =
     Some (if p \<in> living s
           then (fold (close_file p) [0..<length (holders s)] s)\<lparr>living := living s - {p}\<rparr> else s)"
| "sig_step SIrq s = map_option fst (etx_irq_handler s)"

fun sig_run :: "sig_event list \<Rightarrow> sigdrv \<Rightarrow> sigdrv option" where
  "sig_run [] s = Some s"
| "sig_run (e # es) s = do { s \<leftarrow> sig_step e s; sig_run es s }"

fun is_fork :: "sig_event \<Rightarrow> bool" where
  "is_fork (SFork p c) = True"
| "is_fork _ = False"

definition sig_fresh :: "nat set \<Rightarrow> sigdrv" where
  "sig_fresh ps = \<lparr>task = None, living = ps, holders = [], signals = []\<rparr>"

text \<open>Without forks a file has one holder at most, and the registered process has a file open.\<close>

definition sig_inv :: "sigdrv \<Rightarrow> bool" where
  "sig_inv s \<longleftrightarrow> (\<forall>hs \<in> set (holders s). hs = [] \<or> (\<exists>p. hs = [p])) \<and>
     (\<forall>p. task s = Some p \<longrightarrow> p \<in> living s \<and> [p] \<in> set (holders s))"

lemma close_file_run:
  assumes "sig_inv s"
  shows "close_file p f s =
     (if f < length (holders s) \<and> holders s ! f = [p]
      then s\<lparr>holders := (holders s)[f := []], task := (if task s = Some p then None else task s)\<rparr> else s)"
proof (cases "f < length (holders s)")
  case True
  then have "holders s ! f = [] \<or> (\<exists>q. holders s ! f = [q])" using assms by (simp add: sig_inv_def)
  then show ?thesis by (auto simp: close_file_def etx_release_def Let_def)
qed (simp add: close_file_def)

lemma close_file_inv:
  assumes "sig_inv s"
  shows "sig_inv (close_file p f s) \<and> length (holders (close_file p f s)) = length (holders s) \<and>
    living (close_file p f s) = living s \<and>
    (\<forall>g < length (holders s). holders (close_file p f s) ! g = (if g = f \<and> holders s ! g = [p] then [] else holders s ! g))"
proof (cases "f < length (holders s) \<and> holders s ! f = [p]")
  case True
  have "[q] \<in> set ((holders s)[f := []])" if "task s = Some q" "q \<noteq> p" for q
  proof -
    obtain g where "g < length (holders s)" "holders s ! g = [q]"
      using assms \<open>task s = Some q\<close> by (metis sig_inv_def in_set_conv_nth)
    then show ?thesis using True \<open>q \<noteq> p\<close> by (metis in_set_conv_nth length_list_update list.inject nth_list_update_neq)
  qed
  then show ?thesis using assms True set_update_subset_insert [of "holders s" f "[]"]
    by (auto simp: close_file_run sig_inv_def nth_list_update split: if_splits)
qed (use assms in \<open>auto simp: close_file_run\<close>)

lemma close_all_inv:
  assumes "sig_inv s" and "\<forall>f \<in> set fs. f < length (holders s)"
  shows "sig_inv (fold (close_file p) fs s) \<and>
    length (holders (fold (close_file p) fs s)) = length (holders s) \<and>
    living (fold (close_file p) fs s) = living s \<and>
    (\<forall>g < length (holders s). holders (fold (close_file p) fs s) ! g =
       (if g \<in> set fs \<and> holders s ! g = [p] then [] else holders s ! g))"
  using assms
proof (induction fs arbitrary: s)
  case (Cons f fs)
  note c = close_file_inv [OF Cons.prems(1), of p f]
  then have "\<forall>g \<in> set fs. g < length (holders (close_file p f s))" using Cons.prems(2) by simp
  then show ?case using Cons.IH [of "close_file p f s"] c by auto
qed simp

lemma sig_step_inv:
  assumes "sig_inv s" and "\<not> is_fork e"
  shows "\<exists>s'. sig_step e s = Some s' \<and> sig_inv s'"
proof (cases e)
  case (SExit p)
  show ?thesis
  proof (cases "p \<in> living s")
    case True
    let ?s = "fold (close_file p) [0..<length (holders s)] s"
    have c: "sig_inv ?s" "length (holders ?s) = length (holders s)" "living ?s = living s"
      "\<forall>g < length (holders s). holders ?s ! g = (if holders s ! g = [p] then [] else holders s ! g)"
      using close_all_inv [OF assms(1), of "[0..<length (holders s)]" p] by auto
    have "[p] \<notin> set (holders ?s)" using c(2,4) by (auto simp: in_set_conv_nth)
    then have "sig_inv (?s\<lparr>living := living s - {p}\<rparr>)" using c(1,3) by (auto simp: sig_inv_def)
    then show ?thesis using SExit True by simp
  qed (use SExit assms(1) in simp)
next
  case (SIoctl p f cmd)
  show ?thesis
  proof (cases "p \<in> living s \<and> f < length (holders s) \<and> p \<in> set (holders s ! f)")
    case True
    then have m: "holders s ! f \<in> set (holders s)" by simp
    then have "holders s ! f = [] \<or> (\<exists>q. holders s ! f = [q])" using assms(1) by (simp only: sig_inv_def)
    then have "holders s ! f = [p]" using True by auto
    then have "[p] \<in> set (holders s)" using m by simp
    then show ?thesis using SIoctl True assms(1) by (auto simp: etx_ioctl_def sig_inv_def)
  qed (use SIoctl assms(1) in auto)
next
  case SIrq
  then show ?thesis using assms(1) by (auto simp: etx_irq_handler_def sig_inv_def split: option.split)
next
  case (SOpen p)
  then show ?thesis using assms(1) by (auto simp: sig_inv_def)
next
  case (SClose p f)
  then show ?thesis using assms(1) close_file_inv [OF assms(1), of p f] by auto
next
  case (SFork p c)
  then show ?thesis using assms(2) by simp
qed

lemma sig_run_inv: "sig_inv s \<Longrightarrow> \<forall>e \<in> set es. \<not> is_fork e \<Longrightarrow> \<exists>s'. sig_run es s = Some s' \<and> sig_inv s'"
proof (induction es arbitrary: s)
  case (Cons e es)
  then obtain s1 where "sig_step e s = Some s1" "sig_inv s1" using sig_step_inv [of s e] by auto
  then show ?case using Cons.IH [of s1] Cons.prems(2) by simp
qed simp

subsection \<open>The program \<open>sigusr.c\<close>\<close>

text \<open>
  The program opens the device, registers and waits; its handler prints the value of each
  signal. It never leaves the loop by itself. The result is its exit code, if it has ended, and
  the driver. Signal 44 is a real-time signal: none that is sent gets lost.
\<close>

definition sig_event_handler :: "nat \<Rightarrow> int \<Rightarrow> int list \<Rightarrow> int list" where
  "sig_event_handler signo si_int out = (if signo = SIGETX then out @ [si_int] else out)"

definition sigusr_main :: "nat \<Rightarrow> bool \<Rightarrow> sigdrv \<Rightarrow> (int option \<times> sigdrv) option" where
  "sigusr_main p open_ok s =
     (if \<not> open_ok then Some (Some (- 1), s)
      else do {
        let fd = length (holders s);
        s \<leftarrow> sig_step (SOpen p) s;
        s \<leftarrow> sig_step (SIoctl p fd REG_CURRENT_TASK) s;
        Some (None, s)
      })"

definition sigusr_printed :: "nat \<Rightarrow> sigdrv \<Rightarrow> int list" where
  "sigusr_printed p s = fold (\<lambda>(q, v) out. if q = p then sig_event_handler SIGETX v out else out) (signals s) []"

text \<open>What other processes and the interrupt line do meanwhile: they may not fork or register.\<close>

fun bystander :: "nat \<Rightarrow> sig_event \<Rightarrow> bool" where
  "bystander p (SOpen q) = (q \<noteq> p)"
| "bystander p (SIoctl q f cmd) = (q \<noteq> p \<and> cmd \<noteq> REG_CURRENT_TASK)"
| "bystander p (SClose q f) = (q \<noteq> p)"
| "bystander p (SFork q c) = False"
| "bystander p (SExit q) = (q \<noteq> p)"
| "bystander p SIrq = True"

lemma close_file_other:
  assumes "task s = Some p" and "q \<noteq> p"
  shows "task (close_file q f s) = Some p \<and> signals (close_file q f s) = signals s \<and> living (close_file q f s) = living s"
  using assms by (simp add: close_file_def etx_release_def Let_def)

lemma close_all_other:
  assumes "task s = Some p" and "q \<noteq> p"
  shows "task (fold (close_file q) fs s) = Some p \<and> signals (fold (close_file q) fs s) = signals s \<and>
    living (fold (close_file q) fs s) = living s"
  using assms(1) by (induction fs arbitrary: s) (simp_all add: close_file_other [OF _ assms(2)])

lemma bystander_step:
  assumes "bystander p e" and "task s = Some p" and "p \<in> living s"
  shows "\<exists>s'. sig_step e s = Some s' \<and> task s' = Some p \<and> p \<in> living s' \<and>
    signals s' = signals s @ (if e = SIrq then [(p, 1)] else [])"
  using assms close_file_other [OF assms(2)] close_all_other [OF assms(2)]
  by (cases e) (auto simp: etx_irq_handler_def etx_ioctl_def)

lemma bystander_run:
  assumes "\<forall>e \<in> set es. bystander p e" and "task s = Some p" and "p \<in> living s"
  shows "\<exists>s'. sig_run es s = Some s' \<and> signals s' = signals s @ replicate (count_list es SIrq) (p, 1)"
  using assms
proof (induction es arbitrary: s)
  case (Cons e es)
  then obtain s1 where s1: "sig_step e s = Some s1" "task s1 = Some p" "p \<in> living s1"
    "signals s1 = signals s @ (if e = SIrq then [(p, 1)] else [])" using bystander_step [of p e s] by auto
  obtain s' where "sig_run es s1 = Some s'" "signals s' = signals s1 @ replicate (count_list es SIrq) (p, 1)"
    using Cons.IH [OF _ s1(2,3)] Cons.prems(1) by auto
  then show ?case using s1(1,4) by simp
qed simp

lemma printed_replicate: "signals s = replicate n (p, v) \<Longrightarrow> sigusr_printed p s = replicate n v"
proof -
  have "fold (\<lambda>(q, v) out. if q = p then sig_event_handler SIGETX v out else out) (replicate n (p, v)) out = out @ replicate n v" for out
    by (induction n arbitrary: out) (simp_all add: sig_event_handler_def)
  then show "signals s = replicate n (p, v) \<Longrightarrow> ?thesis" by (simp add: sigusr_printed_def)
qed

subsection \<open>Properties\<close>

text \<open>Unloading the keyboard module leaves its handler on the interrupt line, because the
  cookie given to \<open>free_irq\<close> is not the one given to \<open>request_irq\<close>. Whatever happened before, once
  a load has succeeded, an interrupt that comes while the module is not loaded runs into its
  freed code.\<close>

theorem keyb_unload_dangling:
  assumes "kb_run es kb_fresh = Some s" and "KLoad None \<in> set es" and "\<not> kb_loaded s"
  shows "kb_step KIrq s = None"
proof -
  have "registered s" using kb_run_registered [OF assms(1)] assms(2) by (simp add: kb_fresh_def)
  then have "KEYBOARD_IRQ \<in> fst ` set (actions s)" by (force simp: registered_def)
  then show ?thesis using assms(3) by simp
qed

theorem keyb_unload_dangling_witness:
  "\<exists>s. kb_run [KLoad None, KIrq, KWork, KUnload] kb_fresh = Some s \<and> kb_step KIrq s = None"
proof -
  obtain s where s: "kb_run [KLoad None, KIrq, KWork, KUnload] kb_fresh = Some s" "\<not> kb_loaded s"
    by (simp add: kb_fresh_def keyboard_driver_init_def keyboard_irq_handler_def kb_work_fn_def Let_def)
  then show ?thesis using keyb_unload_dangling [OF s(1) _ s(2)] by auto
qed

text \<open>C39: As long as no process forks, every signal goes to a process that lives: opens, ioctls,
  closes, exits and interrupts, in any order and by any processes, are defined, and the process
  registered lives and has the device open.\<close>

theorem signals_reach_living:
  assumes "\<forall>e \<in> set es. \<not> is_fork e"
  shows "\<exists>s. sig_run es (sig_fresh ps) = Some s \<and> sig_inv s"
  using sig_run_inv [OF _ assms] by (simp add: sig_fresh_def sig_inv_def)

theorem signals_reach_living_witness:
  "\<exists>s. sig_run [SOpen 1, SIoctl 1 0 REG_CURRENT_TASK, SIrq, SExit 1, SIrq] (sig_fresh {1, 2}) = Some s \<and> sig_inv s"
  using signals_reach_living [of "[SOpen 1, SIoctl 1 0 REG_CURRENT_TASK, SIrq, SExit 1, SIrq]" "{1, 2}"] by simp

text \<open>With a fork it can be otherwise: a child that shares the file keeps it open when the
  registered process exits, so \<open>release\<close> is not called, and the next interrupt signals a process
  that is gone.\<close>

theorem signal_after_fork_dangles:
  assumes "p \<in> ps" and "c \<notin> ps"
  shows "sig_run [SOpen p, SIoctl p 0 REG_CURRENT_TASK, SFork p c, SExit p, SIrq] (sig_fresh ps) = None"
proof -
  have "p \<noteq> c" using assms by auto
  then show ?thesis using assms
    by (simp add: sig_fresh_def etx_ioctl_def close_file_def etx_irq_handler_def Let_def)
qed

theorem signal_after_fork_dangles_witness:
  "sig_run [SOpen 7, SIoctl 7 0 REG_CURRENT_TASK, SFork 7 8, SExit 7, SIrq] (sig_fresh {7}) = None"
  by (rule signal_after_fork_dangles) simp_all

text \<open>The program prints one line \<open>value=1\<close> for every interrupt after its registration, whatever
  processes open, close and exit meanwhile (without a fork or another registration). If it
  cannot open the device it ends with exit code -1.\<close>

theorem sigusr_counts_interrupts:
  assumes "p \<in> ps" and "\<forall>e \<in> set es. bystander p e"
  shows "\<exists>s s'. sigusr_main p True (sig_fresh ps) = Some (None, s) \<and> sig_run es s = Some s' \<and>
     sigusr_printed p s' = replicate (count_list es SIrq) 1 \<and>
     sigusr_main p False (sig_fresh ps) = Some (Some (- 1), sig_fresh ps)"
proof -
  let ?s = "\<lparr>task = Some p, living = ps, holders = [[p]], signals = []\<rparr>"
  have "sigusr_main p True (sig_fresh ps) = Some (None, ?s)"
    using assms(1) by (simp add: sigusr_main_def sig_fresh_def etx_ioctl_def)
  moreover obtain s' where "sig_run es ?s = Some s'" "signals s' = replicate (count_list es SIrq) (p, 1)"
    using bystander_run [OF assms(2), of ?s] assms(1) by auto
  ultimately show ?thesis using printed_replicate [of s'] by (auto simp: sigusr_main_def)
qed

theorem sigusr_counts_interrupts_witness:
  "\<exists>s s'. sigusr_main 1 True (sig_fresh {1, 2}) = Some (None, s) \<and>
     sig_run [SIrq, SOpen 2, SIrq, SExit 2, SIrq] s = Some s' \<and> sigusr_printed 1 s' = [1, 1, 1]"
proof -
  have "count_list [SIrq, SOpen 2, SIrq, SExit 2, SIrq] SIrq = 3" by simp
  then show ?thesis
    using sigusr_counts_interrupts [of 1 "{1, 2}" "[SIrq, SOpen 2, SIrq, SExit 2, SIrq]"] by (auto simp: numeral_3_eq_3)
qed

end
