(* ===== verification/KthreadDemo.thy ===== *)
theory KthreadDemo
  imports LddPrelude
begin

section \<open>Two kernel threads: 026\_kthread, 023\_katomic, 001\_driver\_misc/kThread.c\<close>

text \<open>
  Three modules start two threads when they are loaded and stop them when they are unloaded.
  A thread runs in steps between which others run; its program counter is a datatype of its own,
  and its code is a function from the stop flag, the shared variables and the counter to the next
  ones (none when it has to wait). \<open>kthread_create\<close> and \<open>kthread_run\<close> return a task or an error
  pointer, as an argument says; using an error pointer as a task is \<open>None\<close>. \<open>kthread_stop\<close> raises
  the flag and waits until the thread has returned. A task that was woken has not yet called its
  function: it first looks at the flag, and when it is asked to stop by then, it ends without the
  call (documented at \<open>kthread_stop\<close> in the kernel).
\<close>

datatype tptr = Null | ErrPtr errno | Task

datatype 'p thread = Unborn | Fresh 'p | At 'p | Exited

definition alive :: "'p thread \<Rightarrow> bool" where
  "alive t \<longleftrightarrow> (case t of Fresh _ \<Rightarrow> True | At _ \<Rightarrow> True | _ \<Rightarrow> False)"

lemma alive_simps [simp]: "alive (Fresh p)" "alive (At p)" "\<not> alive Unborn" "\<not> alive Exited"
  by (simp_all add: alive_def)

datatype phase = Unloaded | Loaded | Stopping nat | Gone

record ('s, 'p) ksys =
  shared :: 's
  thr :: "nat \<Rightarrow> 'p thread"
  should_stop :: "nat \<Rightarrow> bool"
  tp :: "nat \<Rightarrow> tptr"
  phase :: phase

definition is_err :: "tptr \<Rightarrow> bool" where
  "is_err t \<longleftrightarrow> (case t of ErrPtr _ \<Rightarrow> True | _ \<Rightarrow> False)"

definition kthread_create :: "nat \<Rightarrow> errno option \<Rightarrow> ('s, 'p) ksys \<Rightarrow> ('s, 'p) ksys" where
  "kthread_create i r st = st\<lparr>tp := (tp st)(i := (case r of Some e \<Rightarrow> ErrPtr e | None \<Rightarrow> Task))\<rparr>"

definition wake_up_process :: "'p \<Rightarrow> nat \<Rightarrow> ('s, 'p) ksys \<Rightarrow> ('s, 'p) ksys option" where
  "wake_up_process p i st = (if tp st i = Task then Some (st\<lparr>thr := (thr st)(i := Fresh p)\<rparr>) else None)"

definition kthread_run :: "'p \<Rightarrow> nat \<Rightarrow> errno option \<Rightarrow> ('s, 'p) ksys \<Rightarrow> ('s, 'p) ksys" where
  "kthread_run p i r st =
     (let st = kthread_create i r st in if r = None then st\<lparr>thr := (thr st)(i := Fresh p)\<rparr> else st)"

text \<open>
  The three exit routines are alike: for each of the two pointers that is not \<open>NULL\<close>, stop the
  thread. The phase tells which thread is waited for.
\<close>

definition stop_next :: "nat \<Rightarrow> ('s, 'p) ksys \<Rightarrow> ('s, 'p) ksys option \<Rightarrow> ('s, 'p) ksys option" where
  "stop_next i st rest =
     (case tp st i of
        Null \<Rightarrow> rest
      | ErrPtr _ \<Rightarrow> None
      | Task \<Rightarrow> Some (st\<lparr>should_stop := (should_stop st)(i := True), phase := Stopping i\<rparr>))"

definition stop_from :: "nat \<Rightarrow> ('s, 'p) ksys \<Rightarrow> ('s, 'p) ksys option" where
  "stop_from i st =
     (let done = Some (st\<lparr>phase := Gone\<rparr>) in
      if i = 0 then stop_next 0 st (stop_next 1 st done)
      else if i = 1 then stop_next 1 st done else done)"

text \<open>The first step of a woken task.\<close>

definition begin_thread :: "nat \<Rightarrow> 'p \<Rightarrow> ('s, 'p) ksys \<Rightarrow> ('s, 'p) ksys" where
  "begin_thread i p st = st\<lparr>thr := (thr st)(i := (if should_stop st i then Exited else At p))\<rparr>"

text \<open>What can happen next; \<open>None\<close> is a crash.\<close>

type_synonym ('s, 'p) code = "nat \<Rightarrow> bool \<Rightarrow> 's \<Rightarrow> 'p \<Rightarrow> ('s \<times> 'p thread) option"
type_synonym ('s, 'p) kinit = "errno option \<Rightarrow> errno option \<Rightarrow> ('s, 'p) ksys \<Rightarrow> ('s, 'p) ksys option"

inductive kstep :: "('s, 'p) kinit \<Rightarrow> ('s, 'p) code \<Rightarrow> ('s, 'p) ksys \<Rightarrow> ('s, 'p) ksys option \<Rightarrow> bool"
  for ini code where
    load: "phase st = Unloaded \<Longrightarrow> kstep ini code st (ini r1 r2 st)"
  | first: "thr st i = Fresh p \<Longrightarrow> kstep ini code st (Some (begin_thread i p st))"
  | run: "thr st i = At p \<Longrightarrow> code i (should_stop st i) (shared st) p = Some (s', q) \<Longrightarrow>
      kstep ini code st (Some (st\<lparr>shared := s', thr := (thr st)(i := q)\<rparr>))"
  | unload: "phase st = Loaded \<Longrightarrow> kstep ini code st (stop_from 0 st)"
  | joined: "phase st = Stopping i \<Longrightarrow> thr st i = Exited \<Longrightarrow> kstep ini code st (stop_from (Suc i) st)"

inductive kreach :: "('s, 'p) kinit \<Rightarrow> ('s, 'p) code \<Rightarrow> ('s, 'p) ksys \<Rightarrow> ('s, 'p) ksys \<Rightarrow> bool"
  for ini code st0 where
    start: "kreach ini code st0 st0"
  | step: "kreach ini code st0 st \<Longrightarrow> kstep ini code st (Some st') \<Longrightarrow> kreach ini code st0 st'"


definition kboot :: "'s \<Rightarrow> ('s, 'p) ksys" where
  "kboot s = \<lparr>shared = s, thr = (\<lambda>_. Unborn), should_stop = (\<lambda>_. False), tp = (\<lambda>_. Null), phase = Unloaded\<rparr>"

subsection \<open>The modules\<close>

text \<open>026: one thread created and woken, one run; a failed one is remembered as \<open>NULL\<close>.\<close>

datatype tpc = TStart | TTest | TPrint | TSleep
datatype tmsg = Started | Running | StopMsg

definition thread_fn :: "(tmsg list \<times> tmsg list, tpc) code" where
  "thread_fn i stop s p =
     (let say = (\<lambda>m. if i = 0 then (fst s @ [m], snd s) else (fst s, snd s @ [m])) in
      Some (case p of
        TStart \<Rightarrow> (say Started, At TTest)
      | TTest \<Rightarrow> if stop then (say StopMsg, Exited) else (s, At TPrint)
      | TPrint \<Rightarrow> (say Running, At TSleep)
      | TSleep \<Rightarrow> (s, At TTest)))"

definition thread_init :: "(tmsg list \<times> tmsg list, tpc) kinit" where
  "thread_init r1 r2 st =
     do {
       let st = kthread_create 0 r1 st;
       st \<leftarrow> (if \<not> is_err (tp st 0) then wake_up_process TStart 0 st
             else Some (st\<lparr>tp := (tp st)(0 := Null)\<rparr>));
       let st = kthread_run TStart 1 r2 st;
       let st = (if is_err (tp st 1) then st\<lparr>tp := (tp st)(1 := Null)\<rparr> else st);
       Some (st\<lparr>phase := Loaded\<rparr>)
     }"

text \<open>023: one thread adds, one subtracts; the result of the atomic operation is printed after it.\<close>

datatype apc = ATest | ABody | APrint cint | ASleep

record katom =
  counter :: cint
  inc_log :: "cint list"
  dec_log :: "cint list"

definition inc_thread :: "bool \<Rightarrow> katom \<Rightarrow> apc \<Rightarrow> katom \<times> apc thread" where
  "inc_thread stop s p =
     (case p of
        ATest \<Rightarrow> (s, if stop then Exited else At ABody)
      | ABody \<Rightarrow> (s\<lparr>counter := counter s + 1\<rparr>, At (APrint (counter s + 1)))
      | APrint val \<Rightarrow> (s\<lparr>inc_log := inc_log s @ [val]\<rparr>, At ASleep)
      | ASleep \<Rightarrow> (s, At ATest))"

definition dec_thread :: "bool \<Rightarrow> katom \<Rightarrow> apc \<Rightarrow> katom \<times> apc thread" where
  "dec_thread stop s p =
     (case p of
        ATest \<Rightarrow> (s, if stop then Exited else At ABody)
      | ABody \<Rightarrow> (s\<lparr>counter := counter s - 1\<rparr>, At (APrint (counter s - 1)))
      | APrint val \<Rightarrow> (s\<lparr>dec_log := dec_log s @ [val]\<rparr>, At ASleep)
      | ASleep \<Rightarrow> (s, At ATest))"

definition atomic_code :: "(katom, apc) code" where
  "atomic_code i stop s p = Some (if i = 0 then inc_thread stop s p else dec_thread stop s p)"

definition atomic_init :: "(katom, apc) kinit" where
  "atomic_init r1 r2 st =
     (let st = st\<lparr>shared := (shared st)\<lparr>counter := 0\<rparr>\<rparr>;
          st = kthread_run ATest 0 r1 st;
          st = kthread_run ATest 1 r2 st
      in Some (st\<lparr>phase := Loaded\<rparr>))"

text \<open>
  001: both threads run the same worker. \<open>counter++\<close> is a read and a write; \<open>WWrite c\<close> holds the
  value read. The lock is the number of the thread that holds it. What is printed is read
  outside the lock.
\<close>

datatype wpc = WTest | WLock | WRead | WWrite cint | WUnlock | WPrint | WSleep

record kwork =
  wcounter :: cint
  wlock :: "nat option"
  wlog :: "cint list"

definition worker :: "(kwork, wpc) code" where
  "worker i stop s p =
     (case p of
        WTest \<Rightarrow> Some (s, if stop then Exited else At WLock)
      | WLock \<Rightarrow> if wlock s = None then Some (s\<lparr>wlock := Some i\<rparr>, At WRead) else None
      | WRead \<Rightarrow> Some (s, At (WWrite (wcounter s)))
      | WWrite c \<Rightarrow> Some (s\<lparr>wcounter := c + 1\<rparr>, At WUnlock)
      | WUnlock \<Rightarrow> Some (s\<lparr>wlock := None\<rparr>, At WPrint)
      | WPrint \<Rightarrow> Some (s\<lparr>wlog := wlog s @ [wcounter s]\<rparr>, At WSleep)
      | WSleep \<Rightarrow> Some (s, At WTest))"

definition kThread_init :: "(kwork, wpc) kinit" where
  "kThread_init r1 r2 st =
     do {
       st \<leftarrow> wake_up_process WTest 0 (kthread_create 0 r1 st);
       Some ((kthread_run WTest 1 r2 st)\<lparr>phase := Loaded\<rparr>)
     }"

subsection \<open>The life of the threads, for all three modules\<close>

text \<open>What an init routine promises: it wakes threads 0 and 1 only, at the beginning of
  their function, and has the task of each it wakes. A thread that runs does not become new again.\<close>

locale two_threads =
  fixes ini :: "('s, 'p) kinit" and code :: "('s, 'p) code" and entry :: 'p
  assumes ini_loaded: "ini r1 r2 (kboot s) = Some st \<Longrightarrow> phase st = Loaded"
    and ini_threads: "ini r1 r2 (kboot s) = Some st \<Longrightarrow>
      thr st i = Unborn \<or> i < 2 \<and> tp st i = Task \<and> thr st i = Fresh entry"
    and code_old: "code i stop sh p = Some (sh', q) \<Longrightarrow> q \<noteq> Fresh p'"
begin

definition life :: "'s \<Rightarrow> ('s, 'p) ksys \<Rightarrow> bool" where
  "life s st \<longleftrightarrow>
     (\<forall>i p. thr st i = Fresh p \<longrightarrow> p = entry) \<and>
     (case phase st of
        Unloaded \<Rightarrow> st = kboot s
      | Loaded \<Rightarrow> \<forall>i. alive (thr st i) \<longrightarrow> i < 2 \<and> tp st i = Task
      | Stopping k \<Rightarrow> k < 2 \<and> tp st k = Task \<and> (\<forall>i. alive (thr st i) \<longrightarrow> k \<le> i \<and> i < 2 \<and> tp st i = Task)
      | Gone \<Rightarrow> \<forall>i. \<not> alive (thr st i))"

lemma less2: "i < (2 :: nat) \<longleftrightarrow> i = 0 \<or> i = 1"
  by auto

lemma stop_from_life:
  assumes "stop_from k st = Some st'" and "\<forall>i. alive (thr st i) \<longrightarrow> k \<le> i \<and> i < 2 \<and> tp st i = Task"
    and "\<forall>i p. thr st i = Fresh p \<longrightarrow> p = entry"
  shows "life s st'"
proof -
  have "\<not> alive (thr st i)" if "tp st i = Null" for i using assms(2) that by fastforce
  moreover have "i = 0 \<or> i = 1" if "alive (thr st i)" for i using assms(2) that less2 by blast
  ultimately show ?thesis using assms
    by (fastforce simp: stop_from_def stop_next_def Let_def life_def split: if_splits tptr.splits)
qed

text \<open>A step of a thread that is alive changes nothing but the shared variables and that thread.\<close>

lemma thread_step_life:
  assumes "life s st" and "alive (thr st i)" and "\<And>p. q \<noteq> Fresh p"
  shows "life s (st\<lparr>shared := s', thr := (thr st)(i := q)\<rparr>)"
  using assms by (cases "phase st") (auto simp: life_def kboot_def split: if_splits)

lemma step_life:
  assumes "kstep ini code st (Some st')" and "life s st"
  shows "life s st'"
  using assms(1)
proof (cases rule: kstep.cases)
  case (load r1 r2)
  then have i: "ini r1 r2 (kboot s) = Some st'" using assms(2) by (simp add: life_def)
  have "thr st' j = Unborn \<or> j < 2 \<and> tp st' j = Task \<and> thr st' j = Fresh entry" for j by (rule ini_threads [OF i])
  then have "(\<forall>j p. thr st' j = Fresh p \<longrightarrow> p = entry) \<and> (\<forall>j. alive (thr st' j) \<longrightarrow> j < 2 \<and> tp st' j = Task)"
    by (metis alive_simps(3) thread.distinct(1) thread.inject(1))
  then show ?thesis using ini_loaded [OF i] by (simp add: life_def)
next
  case (first i p)
  then show ?thesis using thread_step_life [OF assms(2), of i "if should_stop st i then Exited else At p" "shared st"]
    by (simp add: begin_thread_def split: if_splits)
next
  case (run i p s' q)
  then show ?thesis using thread_step_life [OF assms(2)] code_old by simp
next
  case unload
  then show ?thesis using assms(2) stop_from_life [of 0 st st'] by (simp add: life_def)
next
  case (joined i)
  then have "\<forall>j. alive (thr st j) \<longrightarrow> Suc i \<le> j \<and> j < 2 \<and> tp st j = Task"
    using assms(2) by (auto simp: life_def Suc_le_eq le_less)
  then show ?thesis using joined(1) assms(2) stop_from_life [of "Suc i" st st'] by (simp add: life_def)
qed

lemma reach_life: "kreach ini code (kboot s) st \<Longrightarrow> life s st"
  by (induction rule: kreach.induct) (auto simp: step_life, simp add: life_def kboot_def)

text \<open>Once the module is gone, none of its code runs.\<close>

lemma gone_quiet: "kreach ini code (kboot s) st \<Longrightarrow> phase st = Gone \<Longrightarrow> \<not> alive (thr st i)"
  using reach_life [of s st] by (simp add: life_def)

lemma running_less: "kreach ini code (kboot s) st \<Longrightarrow> alive (thr st i) \<Longrightarrow> i < 2"
  using reach_life [of s st] by (cases "phase st") (auto simp: life_def kboot_def)

lemma fresh_entry: "kreach ini code (kboot s) st \<Longrightarrow> thr st i = Fresh p \<Longrightarrow> p = entry"
  using reach_life [of s st] by (simp add: life_def)

text \<open>
  An invariant of the shared variables and the threads needs to be shown for the state before
  loading, after loading, and over the steps of threads 0 and 1.
\<close>

lemma reach_invariant:
  assumes "kreach ini code (kboot s) st"
    and "I s (\<lambda>_. Unborn)"
    and "\<And>r1 r2 st. ini r1 r2 (kboot s) = Some st \<Longrightarrow> I (shared st) (thr st)"
    and "\<And>i sh th q. i < 2 \<Longrightarrow> th i = Fresh entry \<Longrightarrow> q = At entry \<or> q = Exited \<Longrightarrow> I sh th \<Longrightarrow> I sh (th(i := q))"
    and "\<And>i p stop sh th s' q. i < 2 \<Longrightarrow> th i = At p \<Longrightarrow> code i stop sh p = Some (s', q) \<Longrightarrow> I sh th \<Longrightarrow> I s' (th(i := q))"
  shows "I (shared st) (thr st)"
  using assms(1)
proof (induction rule: kreach.induct)
  case start
  then show ?case using assms(2) by (simp add: kboot_def)
next
  case (step st st')
  have same: "stop_from k st = Some st' \<Longrightarrow> I (shared st') (thr st')" for k
    using step.IH by (auto simp: stop_from_def stop_next_def Let_def split: if_splits tptr.splits)
  from step.hyps(2) show ?case
  proof (cases rule: kstep.cases)
    case (load r1 r2)
    then have "st = kboot s" using reach_life [OF step.hyps(1)] by (simp add: life_def)
    then show ?thesis using load assms(3) by simp
  next
    case (first i p)
    then have "i < 2" "p = entry"
      using running_less [OF step.hyps(1), of i] fresh_entry [OF step.hyps(1)] by simp_all
    then show ?thesis using first assms(4) [OF _ _ _ step.IH, of i] by (simp add: begin_thread_def fun_upd_def)
  next
    case (run i p s' q)
    then have "i < 2" using running_less [OF step.hyps(1), of i] by simp
    then show ?thesis using run assms(5) [OF _ run(2,3) step.IH] by (simp add: fun_upd_def)
  qed (use same in auto)
qed

end

interpretation demo026: two_threads thread_init thread_fn TStart
  by unfold_locales (auto simp: thread_init_def kthread_create_def kthread_run_def wake_up_process_def kboot_def
      is_err_def thread_fn_def Let_def split: if_splits option.splits tptr.splits tpc.splits)

interpretation atomics: two_threads atomic_init atomic_code ATest
  by unfold_locales (auto simp: atomic_init_def kthread_create_def kthread_run_def kboot_def
      atomic_code_def inc_thread_def dec_thread_def Let_def split: if_splits option.splits apc.splits)

interpretation workers: two_threads kThread_init worker WTest
  by unfold_locales (auto simp: kThread_init_def kthread_create_def kthread_run_def wake_up_process_def kboot_def
      worker_def Let_def split: if_splits option.splits wpc.splits)

subsection \<open>Schedules\<close>

text \<open>A schedule says which event comes next; an event that is not possible ends it.\<close>

datatype kevent = Load "errno option" "errno option" | RunThread nat | Unload | Join

fun kexec :: "('s, 'p) kinit \<Rightarrow> ('s, 'p) code \<Rightarrow> kevent \<Rightarrow> ('s, 'p) ksys \<Rightarrow> ('s, 'p) ksys option" where
  "kexec ini code (Load r1 r2) st = (if phase st = Unloaded then ini r1 r2 st else None)"
| "kexec ini code (RunThread i) st =
     (case thr st i of
        Fresh p \<Rightarrow> Some (begin_thread i p st)
      | At p \<Rightarrow> map_option (\<lambda>(s', q). st\<lparr>shared := s', thr := (thr st)(i := q)\<rparr>) (code i (should_stop st i) (shared st) p)
      | _ \<Rightarrow> None)"
| "kexec ini code Unload st = (if phase st = Loaded then stop_from 0 st else None)"
| "kexec ini code Join st =
     (case phase st of Stopping i \<Rightarrow> (if thr st i = Exited then stop_from (Suc i) st else None) | _ \<Rightarrow> None)"

fun krun :: "('s, 'p) kinit \<Rightarrow> ('s, 'p) code \<Rightarrow> kevent list \<Rightarrow> ('s, 'p) ksys \<Rightarrow> ('s, 'p) ksys option" where
  "krun ini code [] st = Some st"
| "krun ini code (e # es) st = do { st' \<leftarrow> kexec ini code e st; krun ini code es st' }"

lemma kexec_step: "kexec ini code e st = Some st' \<Longrightarrow> kstep ini code st (Some st')"
  by (cases e) (auto split: if_splits thread.splits phase.splits intro: kstep.intros,
      (metis kstep.load kstep.unload kstep.joined)+)

lemma krun_reach: "krun ini code es st = Some st' \<Longrightarrow> kreach ini code st0 st \<Longrightarrow> kreach ini code st0 st'"
  by (induction es arbitrary: st) (auto simp: bind_eq_Some_conv dest: kexec_step intro: kreach.step)

subsection \<open>Invariants of the three modules\<close>

definition said :: "tmsg list \<Rightarrow> tpc thread \<Rightarrow> bool" where
  "said l t \<longleftrightarrow>
     (case t of
        Unborn \<Rightarrow> l = []
      | Fresh p \<Rightarrow> l = []
      | At p \<Rightarrow> if p = TStart then l = [] else \<exists>n. l = Started # replicate n Running
      | Exited \<Rightarrow> l = [] \<or> (\<exists>n. l = Started # replicate n Running @ [StopMsg]))"

lemma replicate_snoc: "replicate n x @ [x] = replicate (Suc n) x"
  by (simp add: replicate_append_same)

lemma thread_fn_said:
  assumes "thread_fn i stop s p = Some (s', q)" and "said (if i = 0 then fst s else snd s) (At p)"
  shows "said (if i = 0 then fst s' else snd s') q \<and> (if i = 0 then snd s' = snd s else fst s' = fst s)"
proof -
  have "\<exists>m. Started # replicate n Running @ [Running] = Started # replicate m Running" for n
    by (rule exI [of _ "Suc n"]) (simp add: replicate_append_same)
  then show ?thesis using assms
    by (cases p) (auto simp: thread_fn_def said_def Let_def split: if_splits intro: exI [of _ "0 :: nat"])
qed

definition msgs_inv :: "tmsg list \<times> tmsg list \<Rightarrow> (nat \<Rightarrow> tpc thread) \<Rightarrow> bool" where
  "msgs_inv s th \<longleftrightarrow> said (fst s) (th 0) \<and> said (snd s) (th 1)"

lemma thread_init_said: "thread_init r1 r2 (kboot ([], [])) = Some st \<Longrightarrow> msgs_inv (shared st) (thr st)"
  by (auto simp: thread_init_def kthread_create_def kthread_run_def wake_up_process_def kboot_def msgs_inv_def said_def
      is_err_def Let_def split: if_splits option.splits tptr.splits)

lemma demo026_msgs:
  assumes "kreach thread_init thread_fn (kboot ([], [])) st"
  shows "msgs_inv (shared st) (thr st)"
proof (rule demo026.reach_invariant [OF assms])
  fix i p stop sh th s' q
  assume a: "i < 2" "th i = At p" "thread_fn i stop sh p = Some (s', q)" "msgs_inv sh th"
  have "i = 0 \<or> i = 1" using a(1) by auto
  then show "msgs_inv s' (th(i := q))"
    using thread_fn_said [OF a(3)] a(2,4) by (auto simp: msgs_inv_def)
qed (simp add: msgs_inv_def said_def, erule thread_init_said, auto simp: msgs_inv_def said_def less_2_cases_iff)

text \<open>026 remembers no error pointer, so it never crashes.\<close>

lemma demo026_no_err:
  assumes "kreach thread_init thread_fn (kboot s) st"
  shows "\<not> is_err (tp st i)"
  using assms
proof (induction arbitrary: i rule: kreach.induct)
  case start
  then show ?case by (simp add: kboot_def is_err_def)
next
  case (step st st')
  from step.hyps(2) show ?case
  proof (cases rule: kstep.cases)
    case (load r1 r2)
    then show ?thesis using step.IH
      by (auto simp: thread_init_def kthread_create_def kthread_run_def wake_up_process_def is_err_def Let_def
          split: if_splits option.splits tptr.splits)
  qed (use step.IH in \<open>auto simp: begin_thread_def stop_from_def stop_next_def Let_def split: if_splits tptr.splits\<close>)
qed

lemma stop_from_no_crash: "\<forall>i. \<not> is_err (tp st i) \<Longrightarrow> stop_from k st \<noteq> None"
  by (auto simp: stop_from_def stop_next_def is_err_def Let_def split: tptr.splits)

lemma thread_init_no_crash: "thread_init r1 r2 st \<noteq> None"
  by (auto simp: thread_init_def kthread_create_def wake_up_process_def is_err_def Let_def split: option.splits)

lemma demo026_no_crash:
  assumes "kreach thread_init thread_fn (kboot s) st"
  shows "\<not> kstep thread_init thread_fn st None"
proof
  assume "kstep thread_init thread_fn st None"
  then consider r1 r2 where "thread_init r1 r2 st = None" | k where "stop_from k st = None"
    by (cases rule: kstep.cases) metis+
  then show False using stop_from_no_crash [of st] demo026_no_err [OF assms] thread_init_no_crash
    by cases blast+
qed

definition flight :: "apc thread \<Rightarrow> nat" where
  "flight t = (case t of At (APrint v) \<Rightarrow> 1 | _ \<Rightarrow> 0)"

lemma flight_simps [simp]:
  "flight (At (APrint v)) = 1" "flight (At ATest) = 0" "flight (At ABody) = 0" "flight (At ASleep) = 0"
  "flight Exited = 0" "flight Unborn = 0" "flight (Fresh p) = 0"
  by (simp_all add: flight_def)

definition counted :: "katom \<Rightarrow> (nat \<Rightarrow> apc thread) \<Rightarrow> bool" where
  "counted s th \<longleftrightarrow>
     counter s = of_nat (length (inc_log s) + flight (th 0)) - of_nat (length (dec_log s) + flight (th 1))"

lemma atomics_counted:
  assumes "kreach atomic_init atomic_code (kboot \<lparr>counter = 0, inc_log = [], dec_log = []\<rparr>) st"
  shows "counted (shared st) (thr st)"
proof (rule atomics.reach_invariant [OF assms])
  fix i p stop sh th s' q
  assume a: "i < 2" "th i = At p" "atomic_code i stop sh p = Some (s', q)" "counted sh th"
  have "i = 0 \<or> i = 1" using a(1) by auto
  then show "counted s' (th(i := q))"
    using a(2-4) by (cases p) (auto simp: atomic_code_def inc_thread_def dec_thread_def counted_def algebra_simps split: if_splits)
qed (auto simp: counted_def less_2_cases_iff atomic_init_def kthread_create_def kthread_run_def kboot_def Let_def)

text \<open>The critical section of the worker, and an increment that is not printed yet.\<close>

definition in_cs :: "wpc thread \<Rightarrow> bool" where
  "in_cs t \<longleftrightarrow> (case t of At p \<Rightarrow> (case p of WRead \<Rightarrow> True | WWrite c \<Rightarrow> True | WUnlock \<Rightarrow> True | _ \<Rightarrow> False) | _ \<Rightarrow> False)"

definition pend :: "wpc thread \<Rightarrow> nat" where
  "pend t = (if t = At WUnlock \<or> t = At WPrint then 1 else 0)"

lemma in_cs_simps [simp]:
  "in_cs (At WRead)" "in_cs (At (WWrite c))" "in_cs (At WUnlock)" "\<not> in_cs (At WTest)" "\<not> in_cs (At WLock)"
  "\<not> in_cs (At WPrint)" "\<not> in_cs (At WSleep)" "\<not> in_cs Exited" "\<not> in_cs Unborn" "\<not> in_cs (Fresh p)"
  by (simp_all add: in_cs_def)

lemma in_cs_alive: "in_cs t \<Longrightarrow> alive t"
  by (cases t) simp_all

lemma pend_simps [simp]:
  "pend (At WUnlock) = 1" "pend (At WPrint) = 1" "pend (At WTest) = 0" "pend (At WLock) = 0" "pend (At WRead) = 0"
  "pend (At (WWrite c)) = 0" "pend (At WSleep) = 0" "pend Exited = 0" "pend Unborn = 0" "pend (Fresh p) = 0"
  by (simp_all add: pend_def)

definition locked_work :: "kwork \<Rightarrow> (nat \<Rightarrow> wpc thread) \<Rightarrow> bool" where
  "locked_work s th \<longleftrightarrow>
     (in_cs (th 0) \<longleftrightarrow> wlock s = Some 0) \<and> (in_cs (th 1) \<longleftrightarrow> wlock s = Some 1) \<and>
     (wlock s = None \<or> wlock s = Some 0 \<or> wlock s = Some 1) \<and>
     (\<forall>c. th 0 = At (WWrite c) \<longrightarrow> wcounter s = c) \<and> (\<forall>c. th 1 = At (WWrite c) \<longrightarrow> wcounter s = c) \<and>
     wcounter s = of_nat (length (wlog s) + pend (th 0) + pend (th 1))"

lemma workers_locked:
  assumes "kreach kThread_init worker (kboot \<lparr>wcounter = 0, wlock = None, wlog = []\<rparr>) st"
  shows "locked_work (shared st) (thr st)"
proof (rule workers.reach_invariant [OF assms])
  fix i p stop sh th s' q
  assume a: "i < 2" "th i = At p" "worker i stop sh p = Some (s', q)" "locked_work sh th"
  have cs: "th j = At (WWrite c) \<Longrightarrow> in_cs (th j)" for j c by simp
  consider "i = 0" | "i = 1" using a(1) by linarith
  then show "locked_work s' (th(i := q))"
  proof cases
    case 1
    then show ?thesis using a(2-4) cs [of 1]
      by (cases p) (auto simp: worker_def locked_work_def split: if_splits)
  next
    case 2
    then show ?thesis using a(2-4) cs [of 0]
      by (cases p) (auto simp: worker_def locked_work_def split: if_splits)
  qed
qed (auto simp: locked_work_def less_2_cases_iff kThread_init_def kthread_create_def kthread_run_def wake_up_process_def
    kboot_def Let_def split: if_splits)

subsection \<open>Unloading the workers comes to an end\<close>

text \<open>Schedules one after the other, and several steps of one thread.\<close>

lemma krun_append: "krun ini code (es @ fs) st = krun ini code es st \<bind> krun ini code fs"
  by (induction es arbitrary: st) (simp_all split: bind_splits)

text \<open>
  A thread that holds the lock gives it back within three steps of its own, and one that is
  asked to stop returns within seven, if the lock is free. The rest of the state stays.
\<close>

lemma worker_unlocks:
  assumes "in_cs (thr st i)"
  shows "\<exists>es st'. krun kThread_init worker es st = Some st' \<and> wlock (shared st') = None \<and>
    phase st' = phase st \<and> should_stop st' = should_stop st \<and> tp st' = tp st \<and>
    thr st' i = At WPrint \<and> (\<forall>j. j \<noteq> i \<longrightarrow> thr st' j = thr st j)"
proof -
  obtain p where p: "thr st i = At p" "p = WRead \<or> (\<exists>c. p = WWrite c) \<or> p = WUnlock"
    using assms by (auto simp: in_cs_def split: thread.splits wpc.splits)
  then consider "p = WRead" | c where "p = WWrite c" | "p = WUnlock" by blast
  then show ?thesis
  proof cases
    case 1
    then show ?thesis using p(1) by (intro exI [of _ "[RunThread i, RunThread i, RunThread i]"]) (simp add: worker_def)
  next
    case 2
    then show ?thesis using p(1) by (intro exI [of _ "[RunThread i, RunThread i]"]) (simp add: worker_def)
  next
    case 3
    then show ?thesis using p(1) by (intro exI [of _ "[RunThread i]"]) (simp add: worker_def)
  qed
qed

lemma worker_exits_from_print:
  assumes "thr st i = At WPrint" and "should_stop st i"
  shows "\<exists>st'. krun kThread_init worker [RunThread i, RunThread i, RunThread i] st = Some st' \<and> thr st' i = Exited \<and>
    wlock (shared st') = wlock (shared st) \<and> phase st' = phase st \<and> should_stop st' = should_stop st \<and> tp st' = tp st \<and>
    (\<forall>j. j \<noteq> i \<longrightarrow> thr st' j = thr st j)"
  using assms by (simp add: worker_def)

lemma worker_exits:
  assumes "thr st i = At p" and "should_stop st i" and "p = WLock \<longrightarrow> wlock (shared st) = None"
  shows "\<exists>es st'. krun kThread_init worker es st = Some st' \<and> thr st' i = Exited \<and>
    (wlock (shared st) = None \<or> in_cs (At p) \<longrightarrow> wlock (shared st') = None) \<and>
    phase st' = phase st \<and> should_stop st' = should_stop st \<and> tp st' = tp st \<and>
    (\<forall>j. j \<noteq> i \<longrightarrow> thr st' j = thr st j)"
proof -
  have from_print: ?thesis if 1: "krun kThread_init worker es st = Some st1" "thr st1 i = At WPrint"
    "wlock (shared st) = None \<or> in_cs (At p) \<longrightarrow> wlock (shared st1) = None"
    "phase st1 = phase st" "should_stop st1 = should_stop st" "tp st1 = tp st" "\<forall>j. j \<noteq> i \<longrightarrow> thr st1 j = thr st j"
    for es st1
  proof -
    have "should_stop st1 i" using 1(5) assms(2) by simp
    from worker_exits_from_print [OF 1(2) this] obtain st2 where
      "krun kThread_init worker [RunThread i, RunThread i, RunThread i] st1 = Some st2" "thr st2 i = Exited"
      "wlock (shared st2) = wlock (shared st1)" "phase st2 = phase st1" "should_stop st2 = should_stop st1" "tp st2 = tp st1"
      "\<forall>j. j \<noteq> i \<longrightarrow> thr st2 j = thr st1 j" by blast
    then show ?thesis using 1
      by (intro exI [of _ "es @ [RunThread i, RunThread i, RunThread i]"] exI [of _ st2]) (simp add: krun_append)
  qed
  show ?thesis
  proof (cases "in_cs (At p)")
    case True
    then obtain es st1 where "krun kThread_init worker es st = Some st1" "wlock (shared st1) = None"
      "phase st1 = phase st" "should_stop st1 = should_stop st" "tp st1 = tp st" "thr st1 i = At WPrint"
      "\<forall>j. j \<noteq> i \<longrightarrow> thr st1 j = thr st j"
      using worker_unlocks [of st i] assms(1) by auto
    then show ?thesis by (intro from_print) auto
  next
    case False
    then consider "p = WTest" | "p = WLock" | "p = WPrint" | "p = WSleep" by (cases p) simp_all
    then show ?thesis
    proof cases
      case 1
      then show ?thesis using assms(1,2) by (intro exI [of _ "[RunThread i]"]) (simp add: worker_def)
    next
      case 2
      let ?es = "[RunThread i, RunThread i, RunThread i, RunThread i]"
      have "\<exists>st1. krun kThread_init worker ?es st = Some st1 \<and> thr st1 i = At WPrint \<and> wlock (shared st1) = None \<and>
          phase st1 = phase st \<and> should_stop st1 = should_stop st \<and> tp st1 = tp st \<and> (\<forall>j. j \<noteq> i \<longrightarrow> thr st1 j = thr st j)"
        using assms(1,3) 2 by (simp add: worker_def)
      then show ?thesis using from_print by blast
    next
      case 3
      then show ?thesis using assms(1) from_print [of "[]" st] by simp
    next
      case 4
      then show ?thesis using assms(1,2) by (intro exI [of _ "[RunThread i, RunThread i]"]) (simp add: worker_def)
    qed
  qed
qed

definition work_boot :: "(kwork, wpc) ksys" where
  "work_boot = kboot \<lparr>wcounter = 0, wlock = None, wlog = []\<rparr>"

lemma workers_started:
  assumes "kreach kThread_init worker work_boot st"
  shows "(phase st = Unloaded \<or> (\<forall>i < 2. tp st i = Task \<longrightarrow> thr st i \<noteq> Unborn)) \<and>
    (\<forall>k. phase st = Stopping k \<longrightarrow> should_stop st k \<and> tp st k = Task)"
  using assms
proof (induction rule: kreach.induct)
  case start
  then show ?case by (simp add: work_boot_def kboot_def)
next
  case (step st st')
  from step.hyps(2) show ?case
  proof (cases rule: kstep.cases)
    case (load r1 r2)
    then show ?thesis
      by (auto simp: kThread_init_def kthread_create_def kthread_run_def wake_up_process_def Let_def less_2_cases_iff
          split: if_splits option.splits)
  next
    case (first i p)
    have "phase st \<noteq> Unloaded"
      using workers.reach_life [of "\<lparr>wcounter = 0, wlock = None, wlog = []\<rparr>" st] step.hyps(1) first(2)
      by (auto simp: work_boot_def workers.life_def kboot_def)
    then show ?thesis using step.IH first by (simp add: begin_thread_def)
  next
    case (run i p s' q)
    then have "q \<noteq> Unborn" by (cases p) (auto simp: worker_def split: if_splits)
    moreover have "phase st \<noteq> Unloaded"
      using workers.reach_life [of "\<lparr>wcounter = 0, wlock = None, wlog = []\<rparr>" st] step.hyps(1) run(2)
      by (auto simp: work_boot_def workers.life_def kboot_def)
    ultimately show ?thesis using step.IH run by auto
  qed (use step.IH in \<open>auto simp: stop_from_def stop_next_def Let_def split: if_splits tptr.splits\<close>)
qed

lemma workers_facts:
  assumes "kreach kThread_init worker work_boot st" and "phase st = Stopping k"
  shows "k < 2 \<and> should_stop st k \<and> tp st k = Task \<and> thr st k \<noteq> Unborn \<and> (\<forall>i. alive (thr st i) \<longrightarrow> k \<le> i) \<and>
    locked_work (shared st) (thr st)"
  using workers_started [OF assms(1)] workers_locked [of st] assms
    workers.reach_life [of "\<lparr>wcounter = 0, wlock = None, wlog = []\<rparr>" st]
  by (auto simp: work_boot_def workers.life_def)

lemma fresh_exits:
  assumes "thr st i = Fresh p" and "should_stop st i"
  shows "\<exists>es st'. krun kThread_init worker es st = Some st' \<and> thr st' i = Exited \<and> phase st' = phase st \<and> tp st' = tp st"
  using assms by (intro exI [of _ "[RunThread i]"]) (simp add: begin_thread_def)

lemma join_second:
  "phase st = Stopping 1 \<Longrightarrow> thr st 1 = Exited \<Longrightarrow> krun kThread_init worker [Join] st = Some (st\<lparr>phase := Gone\<rparr>)"
  by (simp add: stop_from_def Let_def)

lemma unload_second:
  assumes "kreach kThread_init worker work_boot st" and "phase st = Stopping 1"
  shows "\<exists>es st'. krun kThread_init worker es st = Some st' \<and> phase st' = Gone"
proof -
  note f = workers_facts [OF assms]
  show ?thesis
  proof (cases "thr st 1")
    case (At p)
    have "\<not> in_cs (thr st 0)" using f in_cs_alive [of "thr st 0"] by auto
    then have "p = WLock \<longrightarrow> wlock (shared st) = None" using f At by (auto simp: locked_work_def)
    then obtain es st1 where "krun kThread_init worker es st = Some st1" "thr st1 1 = Exited" "phase st1 = Stopping 1"
      using worker_exits [OF At] f assms(2) by metis
    then show ?thesis using join_second [of st1]
      by (intro exI [of _ "es @ [Join]"]) (simp add: krun_append)
  next
    case (Fresh p)
    then obtain es st1 where "krun kThread_init worker es st = Some st1" "thr st1 1 = Exited" "phase st1 = Stopping 1"
      using fresh_exits [OF Fresh] f assms(2) by metis
    then show ?thesis using join_second [of st1]
      by (intro exI [of _ "es @ [Join]"]) (simp add: krun_append)
  next
    case Exited
    then show ?thesis using join_second [of st] assms(2) by (intro exI [of _ "[Join]"]) simp
  qed (use f in simp)
qed

text \<open>The first thread stopped: its exit, after the other one has left the critical section.\<close>

lemma first_exits:
  assumes "kreach kThread_init worker work_boot st" and "phase st = Stopping 0"
  shows "\<exists>es st'. krun kThread_init worker es st = Some st' \<and> thr st' 0 = Exited \<and> phase st' = Stopping 0 \<and> tp st' = tp st"
proof -
  note f = workers_facts [OF assms]
  show ?thesis
  proof (cases "thr st 0")
    case (At p)
    show ?thesis
    proof (cases "p = WLock \<longrightarrow> wlock (shared st) = None")
      case True
      then show ?thesis using worker_exits [OF At _ True] f assms(2) by metis
    next
      case False
      then have "wlock (shared st) = Some 1" using f At by (auto simp: locked_work_def)
      then have "in_cs (thr st 1)" using f by (simp add: locked_work_def)
      then obtain es st1 where 1: "krun kThread_init worker es st = Some st1" "wlock (shared st1) = None"
        "phase st1 = Stopping 0" "should_stop st1 0" "tp st1 = tp st" "thr st1 0 = At p"
        using worker_unlocks [of st 1] f At assms(2) by auto
      obtain es' st2 where "krun kThread_init worker es' st1 = Some st2" "thr st2 0 = Exited"
        "phase st2 = Stopping 0" "tp st2 = tp st"
        using worker_exits [OF 1(6,4)] 1(2,3,5) by metis
      then show ?thesis using 1(1) by (intro exI [of _ "es @ es'"]) (simp add: krun_append)
    qed
  next
    case (Fresh p)
    then show ?thesis using fresh_exits [OF Fresh] f assms(2) by metis
  next
    case Exited
    then show ?thesis using assms(2) by (intro exI [of _ "[]"]) simp
  qed (use f in simp)
qed

lemma unload_first:
  assumes "kreach kThread_init worker work_boot st" and "phase st = Stopping 0" and "\<not> is_err (tp st 1)"
  shows "\<exists>es st'. krun kThread_init worker es st = Some st' \<and> phase st' = Gone"
proof -
  obtain es st1 where 1: "krun kThread_init worker es st = Some st1" "thr st1 0 = Exited" "phase st1 = Stopping 0" "tp st1 = tp st"
    using first_exits [OF assms(1,2)] by blast
  obtain st2 where 2: "krun kThread_init worker [Join] st1 = Some st2" "phase st2 = Gone \<or> phase st2 = Stopping 1"
    using 1(2-4) assms(3) by (cases "tp st 1") (auto simp: stop_from_def stop_next_def is_err_def Let_def)
  have run: "krun kThread_init worker (es @ [Join]) st = Some st2" using 1(1) 2(1) by (simp add: krun_append)
  show ?thesis
  proof (cases "phase st2 = Gone")
    case False
    then obtain fs st3 where "krun kThread_init worker fs st2 = Some st3" "phase st3 = Gone"
      using unload_second [OF krun_reach [OF run assms(1)]] 2(2) by blast
    then show ?thesis using run by (intro exI [of _ "(es @ [Join]) @ fs"]) (simp only: krun_append bind.bind_lunit, simp)
  qed (use run in blast)
qed

text \<open>If the second pointer is an error pointer, the unload uses it once the first thread is joined.\<close>

lemma unload_error:
  assumes "kreach kThread_init worker work_boot st" and "phase st = Stopping 0" and "is_err (tp st 1)"
  shows "\<exists>es st'. krun kThread_init worker es st = Some st' \<and> thr st' 0 = Exited \<and> kstep kThread_init worker st' None"
proof -
  obtain es st1 where 1: "krun kThread_init worker es st = Some st1" "thr st1 0 = Exited" "phase st1 = Stopping 0" "tp st1 = tp st"
    using first_exits [OF assms(1,2)] by blast
  have "stop_from (Suc 0) st1 = None"
    using assms(3) 1(4) by (cases "tp st 1") (simp_all add: stop_from_def stop_next_def is_err_def)
  then show ?thesis using 1 kstep.joined [of st1 0 kThread_init worker] by auto
qed

subsection \<open>Properties\<close>

text \<open>The threads of 026 end with the module: in every reachable state nothing crashes, also
  when a thread could not be created, and after unloading no thread is left. Each has by then
  said that it started, then any number of times that it runs, then that it stops; or nothing
  (it could not be created, or was asked to stop before its first step).\<close>

theorem threads_end_with_module:
  assumes "kreach thread_init thread_fn (kboot ([], [])) st"
  shows "\<not> kstep thread_init thread_fn st None \<and>
     (phase st = Gone \<longrightarrow> (\<forall>i. \<not> alive (thr st i)) \<and>
       (fst (shared st) = [] \<or> (\<exists>n. fst (shared st) = Started # replicate n Running @ [StopMsg])) \<and>
       (snd (shared st) = [] \<or> (\<exists>n. snd (shared st) = Started # replicate n Running @ [StopMsg])))"
proof (intro conjI impI)
  show "\<not> kstep thread_init thread_fn st None" by (rule demo026_no_crash [OF assms])
next
  assume "phase st = Gone"
  then have q: "\<forall>i. \<not> alive (thr st i)" using demo026.gone_quiet [OF assms] by blast
  then show "\<forall>i. \<not> alive (thr st i)" .
  show "fst (shared st) = [] \<or> (\<exists>n. fst (shared st) = Started # replicate n Running @ [StopMsg])"
    using demo026_msgs [OF assms] spec [OF q, of 0] by (cases "thr st 0") (auto simp: msgs_inv_def said_def)
  show "snd (shared st) = [] \<or> (\<exists>n. snd (shared st) = Started # replicate n Running @ [StopMsg])"
    using demo026_msgs [OF assms] spec [OF q, of 1] by (cases "thr st 1") (auto simp: msgs_inv_def said_def)
qed

text \<open>A schedule in which the second thread cannot be created.\<close>

theorem threads_end_with_module_witness:
  "\<exists>st. krun thread_init thread_fn [Load None (Some ENOMEM), RunThread 0, RunThread 0, Unload, RunThread 0, Join] (kboot ([], [])) = Some st \<and>
     phase st = Gone \<and> (\<forall>i. \<not> alive (thr st i))"
proof -
  let ?es = "[Load None (Some ENOMEM), RunThread 0, RunThread 0, Unload, RunThread 0, Join]"
  have "\<exists>st. krun thread_init thread_fn ?es (kboot ([], [])) = Some st \<and> phase st = Gone"
    by (simp add: kboot_def thread_init_def kthread_create_def kthread_run_def wake_up_process_def is_err_def
        begin_thread_def thread_fn_def stop_from_def stop_next_def Let_def)
  then obtain st where st: "krun thread_init thread_fn ?es (kboot ([], [])) = Some st" "phase st = Gone" by blast
  then show ?thesis using threads_end_with_module [OF krun_reach [OF st(1) kreach.start]] by blast
qed

text \<open>No operation on the atomic counter is lost, whatever the interleaving: the counter is the
  number of increments printed or about to be, less that of the decrements, modulo \<open>2^32\<close>. When
  the module is gone, it is the difference of the numbers of lines printed.\<close>

theorem atomic_counter_exact:
  assumes "kreach atomic_init atomic_code (kboot \<lparr>counter = 0, inc_log = [], dec_log = []\<rparr>) st"
  shows "counter (shared st) =
       of_nat (length (inc_log (shared st)) + flight (thr st 0)) - of_nat (length (dec_log (shared st)) + flight (thr st 1)) \<and>
     (phase st = Gone \<longrightarrow> counter (shared st) =
       of_nat (length (inc_log (shared st))) - of_nat (length (dec_log (shared st))))"
proof (intro conjI impI)
  show c: "counter (shared st) =
       of_nat (length (inc_log (shared st)) + flight (thr st 0)) - of_nat (length (dec_log (shared st)) + flight (thr st 1))"
    using atomics_counted [OF assms] by (simp add: counted_def)
  assume "phase st = Gone"
  then have q: "\<not> alive (thr st i)" for i by (rule atomics.gone_quiet [OF assms])
  have f: "flight (thr st i) = 0" for i using q [of i] by (cases "thr st i") simp_all
  show "counter (shared st) = of_nat (length (inc_log (shared st))) - of_nat (length (dec_log (shared st)))"
    using c by (simp add: f)
qed

theorem atomic_counter_exact_witness:
  "\<exists>st. krun atomic_init atomic_code [Load None None, RunThread 1, RunThread 0, RunThread 1, RunThread 0, RunThread 1, RunThread 1]
      (kboot \<lparr>counter = 0, inc_log = [], dec_log = []\<rparr>) = Some st \<and> counter (shared st) = - 1 \<and> dec_log (shared st) = [- 1]"
proof -
  let ?es = "[Load None None, RunThread 1, RunThread 0, RunThread 1, RunThread 0, RunThread 1, RunThread 1]"
  let ?k = "kboot \<lparr>counter = 0, inc_log = [], dec_log = []\<rparr>"
  have "\<exists>st. krun atomic_init atomic_code ?es ?k = Some st \<and>
      inc_log (shared st) = [] \<and> dec_log (shared st) = [- 1] \<and> thr st 0 = At ABody \<and> thr st 1 = At ASleep"
    by (simp add: kboot_def atomic_init_def kthread_create_def kthread_run_def begin_thread_def atomic_code_def inc_thread_def
        dec_thread_def Let_def)
  then obtain st where st: "krun atomic_init atomic_code ?es ?k = Some st"
    "inc_log (shared st) = []" "dec_log (shared st) = [- 1]" "thr st 0 = At ABody" "thr st 1 = At ASleep" by blast
  then show ?thesis using atomic_counter_exact [OF krun_reach [OF st(1) kreach.start]] by simp
qed

text \<open>C16: The workers of 001 exclude each other and lose no increment: never are both between
  \<open>mutex_lock\<close> and \<open>mutex_unlock\<close>, and the counter is the number of lines printed or about to be.\<close>

theorem worker_mutual_exclusion:
  assumes "kreach kThread_init worker (kboot \<lparr>wcounter = 0, wlock = None, wlog = []\<rparr>) st"
  shows "\<not> (in_cs (thr st 0) \<and> in_cs (thr st 1)) \<and>
     wcounter (shared st) = of_nat (length (wlog (shared st)) + pend (thr st 0) + pend (thr st 1)) \<and>
     (phase st = Gone \<longrightarrow> wcounter (shared st) = of_nat (length (wlog (shared st))))"
proof -
  have l: "locked_work (shared st) (thr st)" by (rule workers_locked [OF assms])
  have "pend (thr st i) = 0" if "phase st = Gone" for i
    using workers.gone_quiet [OF assms that, of i] by (cases "thr st i") simp_all
  then show ?thesis using l by (auto simp: locked_work_def)
qed

theorem worker_mutual_exclusion_witness:
  "\<exists>st. krun kThread_init worker [Load None None, RunThread 0, RunThread 1, RunThread 0, RunThread 1, RunThread 1, RunThread 1, RunThread 1]
      (kboot \<lparr>wcounter = 0, wlock = None, wlog = []\<rparr>) = Some st \<and> in_cs (thr st 1) \<and> \<not> in_cs (thr st 0) \<and>
      wcounter (shared st) = 1"
proof -
  let ?es = "[Load None None, RunThread 0, RunThread 1, RunThread 0, RunThread 1, RunThread 1, RunThread 1, RunThread 1]"
  let ?k = "kboot \<lparr>wcounter = 0, wlock = None, wlog = []\<rparr>"
  have "\<exists>st. krun kThread_init worker ?es ?k = Some st \<and>
      wlog (shared st) = [] \<and> thr st 0 = At WLock \<and> thr st 1 = At WUnlock"
    by (simp add: kboot_def kThread_init_def kthread_create_def kthread_run_def wake_up_process_def worker_def begin_thread_def Let_def)
  then obtain st where st: "krun kThread_init worker ?es ?k = Some st"
    "wlog (shared st) = []" "thr st 0 = At WLock" "thr st 1 = At WUnlock" by blast
  then show ?thesis using worker_mutual_exclusion [OF krun_reach [OF st(1) kreach.start]]
    by (simp add: in_cs_def pend_def)
qed

text \<open>C25: Unloading the workers can always come to its end: from every reachable state in which the
  unload waits for a thread, whatever the two threads are doing and whoever holds the lock,
  steps of the threads lead to the state in which the module is gone. The one exception is a
  second thread that could not be created: there the steps lead to the use of the error pointer
  that stands for it, after the first thread has ended.\<close>

theorem unload_workers_completes:
  assumes "kreach kThread_init worker work_boot st" and "phase st = Stopping k"
  shows "if is_err (tp st 1)
    then \<exists>es st'. krun kThread_init worker es st = Some st' \<and> thr st' 0 = Exited \<and> kstep kThread_init worker st' None
    else \<exists>es st'. krun kThread_init worker es st = Some st' \<and> phase st' = Gone"
proof -
  have k: "k = 0 \<or> k = 1" and t: "tp st k = Task" using workers_facts [OF assms] by auto
  show ?thesis
  proof (cases "is_err (tp st 1)")
    case True
    then have "k = 0" using k t by (auto simp: is_err_def)
    then show ?thesis using True unload_error [OF assms(1)] assms(2) by simp
  next
    case False
    then show ?thesis using k unload_first [OF assms(1) _ False] unload_second [OF assms(1)] assms(2) by auto
  qed
qed

theorem unload_workers_completes_witness:
  "(\<exists>st es st'. krun kThread_init worker [Load None None, RunThread 0, RunThread 1, RunThread 0, RunThread 1, RunThread 1, RunThread 1, Unload] work_boot = Some st \<and>
     thr st 0 = At WLock \<and> wlock (shared st) = Some 1 \<and> krun kThread_init worker es st = Some st' \<and> phase st' = Gone) \<and>
   (\<exists>st es st'. krun kThread_init worker [Load None (Some ENOMEM), Unload] work_boot = Some st \<and>
     krun kThread_init worker es st = Some st' \<and> kstep kThread_init worker st' None)"
proof
  let ?es = "[Load None None, RunThread 0, RunThread 1, RunThread 0, RunThread 1, RunThread 1, RunThread 1, Unload]"
  have "\<exists>st. krun kThread_init worker ?es work_boot = Some st \<and> thr st 0 = At WLock \<and> wlock (shared st) = Some 1 \<and>
      phase st = Stopping 0 \<and> \<not> is_err (tp st 1)"
    by (simp add: work_boot_def kboot_def kThread_init_def kthread_create_def kthread_run_def wake_up_process_def
        worker_def begin_thread_def stop_from_def stop_next_def is_err_def Let_def)
  then obtain st where st: "krun kThread_init worker ?es work_boot = Some st" "thr st 0 = At WLock"
    "wlock (shared st) = Some 1" "phase st = Stopping 0" "\<not> is_err (tp st 1)" by blast
  then show "\<exists>st es st'. krun kThread_init worker ?es work_boot = Some st \<and>
     thr st 0 = At WLock \<and> wlock (shared st) = Some 1 \<and> krun kThread_init worker es st = Some st' \<and> phase st' = Gone"
    using unload_workers_completes [OF krun_reach [OF st(1) kreach.start] st(4)] by auto
next
  let ?fs = "[Load None (Some ENOMEM), Unload]"
  have "\<exists>st. krun kThread_init worker ?fs work_boot = Some st \<and> phase st = Stopping 0 \<and> is_err (tp st 1)"
    by (simp add: work_boot_def kboot_def kThread_init_def kthread_create_def kthread_run_def wake_up_process_def
        stop_from_def stop_next_def is_err_def Let_def)
  then obtain st where st: "krun kThread_init worker ?fs work_boot = Some st" "phase st = Stopping 0" "is_err (tp st 1)" by blast
  then show "\<exists>st es st'. krun kThread_init worker ?fs work_boot = Some st \<and>
     krun kThread_init worker es st = Some st' \<and> kstep kThread_init worker st' None"
    using unload_workers_completes [OF krun_reach [OF st(1) kreach.start] st(2)] by auto
qed

text \<open>A module that is unloaded at once may end without either thread function having been called.\<close>

theorem threads_may_never_start:
  "\<exists>st. kreach thread_init thread_fn (kboot ([], [])) st \<and> phase st = Gone \<and> tp st 0 = Task \<and> tp st 1 = Task \<and>
     shared st = ([], [])"
proof -
  let ?es = "[Load None None, Unload, RunThread 0, Join, RunThread 1, Join]"
  have "\<exists>st. krun thread_init thread_fn ?es (kboot ([], [])) = Some st \<and> phase st = Gone \<and> tp st 0 = Task \<and>
      tp st 1 = Task \<and> shared st = ([], [])"
    by (simp add: kboot_def thread_init_def kthread_create_def kthread_run_def wake_up_process_def is_err_def
        begin_thread_def stop_from_def stop_next_def Let_def)
  then show ?thesis using krun_reach [OF _ kreach.start] by blast
qed

text \<open>Where a thread cannot be created, the modules of 023 and 001 use the error pointer as a
  task: 023 when it is unloaded, 001 already when it is loaded (first thread) or when it is
  unloaded (second thread).\<close>

theorem kthread_error_pointer_used:
  "(\<exists>st. kreach atomic_init atomic_code (kboot s) st \<and> kstep atomic_init atomic_code st None) \<and>
   kstep kThread_init worker (kboot s') None"
proof
  let ?st = "the (atomic_init (Some ENOMEM) None (kboot s))"
  have i: "atomic_init (Some ENOMEM) None (kboot s) = Some ?st" by (simp add: atomic_init_def)
  have "kstep atomic_init atomic_code (kboot s) (Some ?st)"
    using kstep.load [of "kboot s" atomic_init atomic_code "Some ENOMEM" None] i by (simp add: kboot_def)
  moreover have "kstep atomic_init atomic_code ?st None"
    using kstep.unload [of ?st atomic_init atomic_code]
    by (simp add: atomic_init_def kthread_create_def kthread_run_def stop_from_def stop_next_def Let_def)
  ultimately show "\<exists>st. kreach atomic_init atomic_code (kboot s) st \<and> kstep atomic_init atomic_code st None"
    using kreach.step [OF kreach.start] by blast
  show "kstep kThread_init worker (kboot s') None"
    using kstep.load [of "kboot s'" kThread_init worker "Some ENOMEM" None]
    by (simp add: kboot_def kThread_init_def kthread_create_def wake_up_process_def)
qed

end
