(* ===== verification/LinkedList.thy ===== *)
theory LinkedList
  imports LddPrelude
begin

section \<open>A kernel list: 024\_linked\_list/list.c\<close>

text \<open>
  The module keeps allocated nodes in a list of \<open>linux/list.h\<close>. That header is kernel code: its
  routines are the argument \<open>list_api\<close>, over a type \<open>'l\<close> of linked structures. A position in
  the ring is a node's address or, \<open>None\<close>, the list head. Each routine is told which nodes are
  live memory and is \<open>None\<close> when it would touch another one. \<open>list_api_ok\<close> states the
  documented behaviour over the list of addresses a structure stands for; a ring of next and
  previous pointers (\<open>ring_api\<close>) satisfies it.

  The iteration macros are written out: \<open>list_for_each_entry_safe\<close> fetches the successor
  before the body may free the node. Loops are partial functions, so that returning is proved.
  The result of every \<open>kmalloc\<close> is an argument.
\<close>

record 'l list_api =
  ls_add_tail :: "(nat \<Rightarrow> bool) \<Rightarrow> nat \<Rightarrow> 'l \<Rightarrow> 'l option"
  ls_del :: "(nat \<Rightarrow> bool) \<Rightarrow> nat \<Rightarrow> 'l \<Rightarrow> 'l option"
  ls_next :: "(nat \<Rightarrow> bool) \<Rightarrow> nat option \<Rightarrow> 'l \<Rightarrow> nat option option"
  ls_prev :: "(nat \<Rightarrow> bool) \<Rightarrow> nat option \<Rightarrow> 'l \<Rightarrow> nat option option"

text \<open>\<open>nodes\<close> has the allocated nodes with their \<open>data\<close>; \<open>links\<close> is the list \<open>Head_Node\<close>.\<close>

record 'l my_list =
  nodes :: "nat \<rightharpoonup> cint"
  links :: 'l

definition live :: "'l my_list \<Rightarrow> nat \<Rightarrow> bool" where
  "live st a \<longleftrightarrow> nodes st a \<noteq> None"

subsection \<open>The operations\<close>

definition add_node :: "'l list_api \<Rightarrow> nat option \<Rightarrow> cint \<Rightarrow> 'l my_list \<Rightarrow> 'l my_list option" where
  "add_node A new value st =
     (case new of
        None \<Rightarrow> Some st
      | Some a \<Rightarrow>
          let st = st\<lparr>nodes := (nodes st)(a \<mapsto> value)\<rparr> in
          do { l \<leftarrow> ls_add_tail A (live st) a (links st); Some (st\<lparr>links := l\<rparr>) })"

text \<open>What a traversal prints: the numbered data, and the number of nodes.\<close>

partial_function (option) traverse_loop ::
  "'l list_api \<Rightarrow> 'l my_list \<Rightarrow> nat option \<Rightarrow> nat \<Rightarrow> ((nat \<times> cint) list \<times> nat) option" where
  "traverse_loop A st temp cnt =
     (case temp of
        None \<Rightarrow> Some ([], cnt)
      | Some a \<Rightarrow>
          do {
            d \<leftarrow> nodes st a;
            nx \<leftarrow> ls_next A (live st) (Some a) (links st);
            (out, n) \<leftarrow> traverse_loop A st nx (cnt + 1);
            Some ((cnt, d) # out, n)
          })"

definition traverse_list :: "'l list_api \<Rightarrow> 'l my_list \<Rightarrow> ((nat \<times> cint) list \<times> nat) option" where
  "traverse_list A st = do { first \<leftarrow> ls_next A (live st) None (links st); traverse_loop A st first 0 }"

partial_function (option) reverse_loop ::
  "'l list_api \<Rightarrow> 'l my_list \<Rightarrow> nat option \<Rightarrow> nat \<Rightarrow> (nat \<times> cint) list option" where
  "reverse_loop A st temp cnt =
     (case temp of
        None \<Rightarrow> Some []
      | Some a \<Rightarrow>
          do {
            d \<leftarrow> nodes st a;
            pv \<leftarrow> ls_prev A (live st) (Some a) (links st);
            out \<leftarrow> reverse_loop A st pv (cnt + 1);
            Some ((cnt, d) # out)
          })"

definition traverse_list_reverse :: "'l list_api \<Rightarrow> 'l my_list \<Rightarrow> (nat \<times> cint) list option" where
  "traverse_list_reverse A st = do { last \<leftarrow> ls_prev A (live st) None (links st); reverse_loop A st last 0 }"

text \<open>\<open>list_del\<close> and \<open>kfree\<close>.\<close>

definition del_free :: "'l list_api \<Rightarrow> nat \<Rightarrow> 'l my_list \<Rightarrow> 'l my_list option" where
  "del_free A c st =
     do { l \<leftarrow> ls_del A (live st) c (links st); Some (st\<lparr>nodes := (nodes st)(c := None), links := l\<rparr>) }"

partial_function (option) remove_loop ::
  "'l list_api \<Rightarrow> cint \<Rightarrow> nat option \<Rightarrow> nat option \<Rightarrow> 'l my_list \<Rightarrow> 'l my_list option" where
  "remove_loop A value cursor tmp st =
     (case cursor of
        None \<Rightarrow> Some st
      | Some c \<Rightarrow>
          do {
            d \<leftarrow> nodes st c;
            st \<leftarrow> (if d = value then del_free A c st else Some st);
            nx \<leftarrow> ls_next A (live st) tmp (links st);
            remove_loop A value tmp nx st
          })"

definition remove_node :: "'l list_api \<Rightarrow> cint \<Rightarrow> 'l my_list \<Rightarrow> 'l my_list option" where
  "remove_node A value st =
     do {
       cursor \<leftarrow> ls_next A (live st) None (links st);
       tmp \<leftarrow> ls_next A (live st) cursor (links st);
       remove_loop A value cursor tmp st
     }"

partial_function (option) cleanup_loop ::
  "'l list_api \<Rightarrow> nat option \<Rightarrow> nat option \<Rightarrow> 'l my_list \<Rightarrow> 'l my_list option" where
  "cleanup_loop A cursor tmp st =
     (case cursor of
        None \<Rightarrow> Some st
      | Some c \<Rightarrow>
          do {
            d \<leftarrow> nodes st c;
            st \<leftarrow> del_free A c st;
            nx \<leftarrow> ls_next A (live st) tmp (links st);
            cleanup_loop A tmp nx st
          })"

definition cleanup_list :: "'l list_api \<Rightarrow> 'l my_list \<Rightarrow> 'l my_list option" where
  "cleanup_list A st =
     do {
       cursor \<leftarrow> ls_next A (live st) None (links st);
       tmp \<leftarrow> ls_next A (live st) cursor (links st);
       cleanup_loop A cursor tmp st
     }"

fun add_nodes :: "'l list_api \<Rightarrow> (nat option \<times> cint) list \<Rightarrow> 'l my_list \<Rightarrow> 'l my_list option" where
  "add_nodes A [] st = Some st"
| "add_nodes A ((new, v) # ps) st = do { st \<leftarrow> add_node A new v st; add_nodes A ps st }"

record list_log =
  first_walk :: "(nat \<times> cint) list \<times> nat"
  reverse_walk :: "(nat \<times> cint) list"
  last_walk :: "(nat \<times> cint) list \<times> nat"

text \<open>\<open>news\<close> are the results of the five \<open>kmalloc\<close> calls.\<close>

definition list_init :: "'l list_api \<Rightarrow> nat option list \<Rightarrow> 'l my_list \<Rightarrow> (list_log \<times> 'l my_list) option" where
  "list_init A news st =
     do {
       st \<leftarrow> add_nodes A (zip news [10, 20, 30, 40, 50]) st;
       w1 \<leftarrow> traverse_list A st;
       w2 \<leftarrow> traverse_list_reverse A st;
       st \<leftarrow> remove_node A 20 st;
       w3 \<leftarrow> traverse_list A st;
       Some (\<lparr>first_walk = w1, reverse_walk = w2, last_walk = w3\<rparr>, st)
     }"

definition list_exit :: "'l list_api \<Rightarrow> 'l my_list \<Rightarrow> 'l my_list option" where
  "list_exit A st = cleanup_list A st"

subsection \<open>The contract of the list routines\<close>

fun first :: "nat list \<Rightarrow> nat option" where
  "first [] = None"
| "first (a # as) = Some a"

definition list_api_ok :: "'l list_api \<Rightarrow> ('l \<Rightarrow> nat list \<Rightarrow> bool) \<Rightarrow> bool" where
  "list_api_ok A rel \<longleftrightarrow>
     (\<forall>l as lv. rel l as \<longrightarrow> (\<forall>a \<in> set as. lv a) \<longrightarrow>
        distinct as \<and>
        (\<forall>a. a \<notin> set as \<longrightarrow> lv a \<longrightarrow> (\<exists>l'. ls_add_tail A lv a l = Some l' \<and> rel l' (as @ [a]))) \<and>
        (\<forall>a \<in> set as. \<exists>l'. ls_del A lv a l = Some l' \<and> rel l' (remove1 a as)) \<and>
        ls_next A lv None l = Some (first as) \<and> ls_prev A lv None l = Some (first (rev as)) \<and>
        (\<forall>xs a ys. as = xs @ a # ys \<longrightarrow>
           ls_next A lv (Some a) l = Some (first ys) \<and> ls_prev A lv (Some a) l = Some (first (rev xs))))"

text \<open>The list holds exactly the allocated nodes.\<close>

definition list_inv :: "('l \<Rightarrow> nat list \<Rightarrow> bool) \<Rightarrow> 'l my_list \<Rightarrow> nat list \<Rightarrow> bool" where
  "list_inv rel st as \<longleftrightarrow> rel (links st) as \<and> distinct as \<and> (\<forall>a. a \<in> set as \<longleftrightarrow> live st a)"

definition datas :: "'l my_list \<Rightarrow> nat list \<Rightarrow> cint list" where
  "datas st as = map (\<lambda>a. the (nodes st a)) as"

lemma list_inv_node: "list_inv rel st (xs @ a # ys) \<Longrightarrow> \<exists>d. nodes st a = Some d"
  by (auto simp: list_inv_def live_def)

lemma api_ends:
  assumes "list_api_ok A rel" and "list_inv rel st as"
  shows "ls_next A (live st) None (links st) = Some (first as)"
    and "ls_prev A (live st) None (links st) = Some (first (rev as))"
  using assms unfolding list_api_ok_def list_inv_def by blast+

lemma api_steps:
  assumes "list_api_ok A rel" and "list_inv rel st (xs @ a # ys)"
  shows "ls_next A (live st) (Some a) (links st) = Some (first ys)"
    and "ls_prev A (live st) (Some a) (links st) = Some (first (rev xs))"
  using assms unfolding list_api_ok_def list_inv_def by blast+

lemma api_del:
  "list_api_ok A rel \<Longrightarrow> rel l as \<Longrightarrow> \<forall>b \<in> set as. lv b \<Longrightarrow> a \<in> set as \<Longrightarrow>
     \<exists>l'. ls_del A lv a l = Some l' \<and> rel l' (remove1 a as)"
  unfolding list_api_ok_def by blast

lemma api_add:
  "list_api_ok A rel \<Longrightarrow> rel l as \<Longrightarrow> \<forall>b \<in> set as. lv b \<Longrightarrow> a \<notin> set as \<Longrightarrow> lv a \<Longrightarrow>
     \<exists>l'. ls_add_tail A lv a l = Some l' \<and> rel l' (as @ [a])"
  unfolding list_api_ok_def by blast

lemma traverse_loop_run:
  assumes "list_api_ok A rel" and "list_inv rel st (xs @ ys)"
  shows "traverse_loop A st (first ys) n = Some (enumerate n (datas st ys), n + length ys)"
  using assms(2)
proof (induction ys arbitrary: xs n)
  case Nil
  show ?case by (subst traverse_loop.simps) (simp add: datas_def)
next
  case (Cons a ys)
  obtain d where d: "nodes st a = Some d" using list_inv_node [OF Cons.prems] by blast
  have "list_inv rel st ((xs @ [a]) @ ys)" using Cons.prems by simp
  from Cons.IH [OF this] show ?case
    by (subst traverse_loop.simps) (simp add: d api_steps [OF assms(1) Cons.prems] datas_def)
qed

lemma reverse_loop_run:
  assumes "list_api_ok A rel" and "list_inv rel st (rev ys @ zs)"
  shows "reverse_loop A st (first ys) n = Some (enumerate n (datas st ys))"
  using assms(2)
proof (induction ys arbitrary: zs n)
  case Nil
  show ?case by (subst reverse_loop.simps) (simp add: datas_def)
next
  case (Cons a ys)
  have inv: "list_inv rel st (rev ys @ a # zs)" using Cons.prems by simp
  obtain d where d: "nodes st a = Some d" using list_inv_node [OF inv] by blast
  from Cons.IH [OF inv] show ?case
    by (subst reverse_loop.simps) (simp add: d api_steps [OF assms(1) inv] datas_def)
qed

lemma traversals:
  assumes "list_api_ok A rel" and "list_inv rel st as"
  shows "traverse_list A st = Some (enumerate 0 (datas st as), length as)"
    and "traverse_list_reverse A st = Some (enumerate 0 (rev (datas st as)))"
  using traverse_loop_run [of A rel st "[]" as 0] reverse_loop_run [of A rel st "rev as" "[]" 0] assms
  by (simp_all add: traverse_list_def traverse_list_reverse_def api_ends datas_def rev_map)

lemma del_free_run:
  assumes "list_api_ok A rel" and "list_inv rel st (xs @ a # ys)"
  shows "\<exists>st'. del_free A a st = Some st' \<and> list_inv rel st' (xs @ ys) \<and> nodes st' = (nodes st)(a := None)"
proof -
  have inv: "rel (links st) (xs @ a # ys)" "distinct (xs @ a # ys)" "\<forall>b. b \<in> set (xs @ a # ys) \<longleftrightarrow> live st b"
    using assms(2) by (simp_all add: list_inv_def)
  then obtain l where l: "ls_del A (live st) a (links st) = Some l" "rel l (remove1 a (xs @ a # ys))"
    using api_del [OF assms(1) inv(1), of "live st" a] by auto
  have "remove1 a (xs @ a # ys) = xs @ ys" using inv(2) by (simp add: remove1_append)
  then show ?thesis using l inv(2,3) by (auto simp: del_free_def list_inv_def live_def)
qed

lemma add_node_run:
  assumes "list_api_ok A rel" and "list_inv rel st as" and "nodes st a = None"
  shows "\<exists>st'. add_node A (Some a) v st = Some st' \<and> list_inv rel st' (as @ [a]) \<and> nodes st' = (nodes st)(a \<mapsto> v)"
proof -
  let ?st = "st\<lparr>nodes := (nodes st)(a \<mapsto> v)\<rparr>"
  have inv: "rel (links st) as" "distinct as" "\<forall>b. b \<in> set as \<longleftrightarrow> live st b"
    using assms(2) by (simp_all add: list_inv_def)
  have a: "a \<notin> set as" using inv(3) assms(3) by (simp add: live_def)
  have "\<forall>b \<in> set as. live ?st b" using inv(3) by (simp add: live_def)
  moreover have "live ?st a" by (simp add: live_def)
  ultimately obtain l where l: "ls_add_tail A (live ?st) a (links st) = Some l" "rel l (as @ [a])"
    using api_add [OF assms(1) inv(1), of "live ?st" a] a by blast
  then show ?thesis using inv a by (auto simp: add_node_def list_inv_def live_def)
qed

text \<open>The loop that may free the node it stands on: \<open>tmp\<close> is the successor fetched before.\<close>

lemma remove_loop_run:
  assumes "list_api_ok A rel" and "list_inv rel st (xs @ ys)" and "\<And>a zs. ys = a # zs \<Longrightarrow> tmp = first zs"
  shows "\<exists>st'. remove_loop A v (first ys) tmp st = Some st' \<and>
    list_inv rel st' (xs @ filter (\<lambda>a. nodes st a \<noteq> Some v) ys) \<and>
    (\<forall>a. nodes st' a = (if a \<in> set ys \<and> nodes st a = Some v then None else nodes st a))"
  using assms(2,3)
proof (induction ys arbitrary: xs st tmp)
  case Nil
  then show ?case by (subst remove_loop.simps) simp
next
  case (Cons a ys)
  have t: "tmp = first ys" using Cons.prems(2) by simp
  obtain d where d: "nodes st a = Some d" using list_inv_node [OF Cons.prems(1)] by blast
  have na: "a \<notin> set ys" using Cons.prems(1) by (simp add: list_inv_def)
  have nx: "\<exists>q. ls_next A (live st1) (first ys) (links st1) = Some q \<and> (\<forall>b zs. ys = b # zs \<longrightarrow> q = first zs)"
    if "list_inv rel st1 (us @ ys)" for st1 us
    using that api_ends(1) [OF assms(1) that] api_steps(1) [OF assms(1), of st1 us] by (cases ys) auto
  show ?case
  proof (cases "d = v")
    case True
    obtain st1 where st1: "del_free A a st = Some st1" "list_inv rel st1 (xs @ ys)" "nodes st1 = (nodes st)(a := None)"
      using del_free_run [OF assms(1) Cons.prems(1)] by blast
    obtain q where q: "ls_next A (live st1) (first ys) (links st1) = Some q" "\<forall>b zs. ys = b # zs \<longrightarrow> q = first zs"
      using nx [OF st1(2)] by blast
    obtain st2 where st2: "remove_loop A v (first ys) q st1 = Some st2"
      "list_inv rel st2 (xs @ filter (\<lambda>b. nodes st1 b \<noteq> Some v) ys)"
      "\<forall>b. nodes st2 b = (if b \<in> set ys \<and> nodes st1 b = Some v then None else nodes st1 b)"
      using Cons.IH [OF st1(2), of q] q(2) by blast
    have "filter (\<lambda>b. nodes st1 b \<noteq> Some v) ys = filter (\<lambda>b. nodes st b \<noteq> Some v) ys"
      using na st1(3) by (intro filter_cong) auto
    moreover have "remove_loop A v (first (a # ys)) tmp st = Some st2"
      using st1(1) q(1) st2(1) d True t by (subst remove_loop.simps) simp
    ultimately show ?thesis using st2 st1(3) d True na by auto
  next
    case False
    have inv: "list_inv rel st ((xs @ [a]) @ ys)" using Cons.prems(1) by simp
    obtain q where q: "ls_next A (live st) (first ys) (links st) = Some q" "\<forall>b zs. ys = b # zs \<longrightarrow> q = first zs"
      using nx [OF inv] by blast
    have "remove_loop A v (first (a # ys)) tmp st = remove_loop A v (first ys) q st"
      using q(1) d False t by (subst remove_loop.simps) simp
    then show ?thesis using Cons.IH [OF inv, of q] q(2) d False by auto
  qed
qed

lemma cleanup_loop_run:
  assumes "list_api_ok A rel" and "list_inv rel st (xs @ ys)" and "\<And>a zs. ys = a # zs \<Longrightarrow> tmp = first zs"
  shows "\<exists>st'. cleanup_loop A (first ys) tmp st = Some st' \<and> list_inv rel st' xs"
  using assms(2,3)
proof (induction ys arbitrary: st tmp)
  case Nil
  then show ?case by (subst cleanup_loop.simps) simp
next
  case (Cons a ys)
  obtain d where d: "nodes st a = Some d" using list_inv_node [OF Cons.prems(1)] by blast
  obtain st1 where st1: "del_free A a st = Some st1" "list_inv rel st1 (xs @ ys)"
    using del_free_run [OF assms(1) Cons.prems(1)] by blast
  obtain q where q: "ls_next A (live st1) tmp (links st1) = Some q" "\<forall>b zs. ys = b # zs \<longrightarrow> q = first zs"
    using Cons.prems(2) [OF refl] api_ends(1) [OF assms(1) st1(2)] api_steps(1) [OF assms(1), of st1 xs] st1(2)
    by (cases ys) auto
  have "cleanup_loop A (first (a # ys)) tmp st = cleanup_loop A (first ys) q st1"
    using st1(1) q(1) d Cons.prems(2) [OF refl] by (subst cleanup_loop.simps) simp
  then show ?case using Cons.IH [OF st1(2), of q] q(2) by simp
qed

subsection \<open>The ring of pointers\<close>

text \<open>\<open>next\<close> and \<open>prev\<close> of every node and of the head; what \<open>list.h\<close> documents of its routines.\<close>

record dlinks =
  dl_next :: "nat option \<Rightarrow> nat option"
  dl_prev :: "nat option \<Rightarrow> nat option"

definition reach :: "(nat \<Rightarrow> bool) \<Rightarrow> nat option \<Rightarrow> bool" where
  "reach lv x = (case x of None \<Rightarrow> True | Some a \<Rightarrow> lv a)"

definition ring_add_tail :: "(nat \<Rightarrow> bool) \<Rightarrow> nat \<Rightarrow> dlinks \<Rightarrow> dlinks option" where
  "ring_add_tail lv a l =
     (let p = dl_prev l None in
      if lv a \<and> reach lv p
      then Some \<lparr>dl_next = (dl_next l)(Some a := None, p := Some a), dl_prev = (dl_prev l)(None := Some a, Some a := p)\<rparr>
      else None)"

definition ring_del :: "(nat \<Rightarrow> bool) \<Rightarrow> nat \<Rightarrow> dlinks \<Rightarrow> dlinks option" where
  "ring_del lv a l =
     (let p = dl_prev l (Some a); n = dl_next l (Some a) in
      if lv a \<and> reach lv p \<and> reach lv n
      then Some \<lparr>dl_next = (dl_next l)(p := n), dl_prev = (dl_prev l)(n := p)\<rparr> else None)"

definition ring_api :: "dlinks list_api" where
  "ring_api = \<lparr>ls_add_tail = ring_add_tail, ls_del = ring_del,
     ls_next = (\<lambda>lv x l. if reach lv x then Some (dl_next l x) else None),
     ls_prev = (\<lambda>lv x l. if reach lv x then Some (dl_prev l x) else None)\<rparr>"

fun chain :: "('a \<Rightarrow> 'a) \<Rightarrow> 'a list \<Rightarrow> bool" where
  "chain f (x # y # zs) \<longleftrightarrow> f x = y \<and> chain f (y # zs)"
| "chain f _ = True"

lemma chain_append: "chain f (xs @ y # zs) \<longleftrightarrow> chain f (xs @ [y]) \<and> chain f (y # zs)"
proof (induction xs)
  case (Cons x xs)
  then show ?case by (cases xs) auto
qed simp

lemma chain_upd: "x \<notin> set (butlast xs) \<Longrightarrow> chain (f(x := v)) xs = chain f xs"
  by (induction f xs rule: chain.induct) auto

definition ring :: "(nat option \<Rightarrow> nat option) \<Rightarrow> nat list \<Rightarrow> bool" where
  "ring f as \<longleftrightarrow> chain f (None # map Some as @ [None])"

text \<open>What stands in front of the last position, and one step of the chain.\<close>

definition front :: "nat list \<Rightarrow> nat option list" where
  "front xs = butlast (None # map Some xs)"

lemma last_ring: "None # map Some xs = front xs @ [first (rev xs)]"
  by (cases xs rule: rev_cases) (simp_all add: front_def butlast_append)

lemma ring_split: "None # map Some xs @ zs = front xs @ first (rev xs) # zs"
  using arg_cong [OF last_ring [of xs], of "\<lambda>us. us @ zs"] by simp

lemma chain_step: "chain f (x # map Some ys @ [None]) \<longleftrightarrow> f x = first ys \<and> chain f (map Some ys @ [None])"
  by (cases ys) simp_all

lemma first_in: "first xs \<in> insert None (Some ` set xs)"
  by (cases xs) simp_all

lemma last_ring_fresh: "distinct xs \<Longrightarrow> first (rev xs) \<notin> set (front xs)"
  by (cases xs rule: rev_cases) (auto simp: front_def butlast_append)

lemma set_front: "set (front xs) \<subseteq> insert None (Some ` set xs)"
  by (auto simp: front_def dest: in_set_butlastD split: if_splits)

lemma ring_append: "ring f (xs @ a # ys) \<longleftrightarrow>
    chain f (front xs @ [first (rev xs)]) \<and> f (first (rev xs)) = Some a \<and>
    f (Some a) = first ys \<and> chain f (map Some ys @ [None])"
proof -
  have "None # map Some (xs @ a # ys) @ [None] = front xs @ first (rev xs) # Some a # map Some ys @ [None]"
    by (simp only: map_append list.map append_assoc append_Cons ring_split)
  then have "ring f (xs @ a # ys) \<longleftrightarrow> chain f (front xs @ first (rev xs) # Some a # map Some ys @ [None])"
    by (simp only: ring_def)
  then show ?thesis
    by (simp only: chain_append [of f "front xs" "first (rev xs)" "Some a # map Some ys @ [None]"] chain.simps(1) chain_step)
qed

lemma ring_first: "ring f as \<Longrightarrow> f None = first as"
  by (simp add: ring_def chain_step)

lemma ring_next: "ring f (xs @ a # ys) \<Longrightarrow> f (Some a) = first ys"
  by (simp add: ring_append)

lemma ring_join: "ring f (xs @ ys) \<longleftrightarrow>
    chain f (front xs @ [first (rev xs)]) \<and> f (first (rev xs)) = first ys \<and> chain f (map Some ys @ [None])"
proof -
  have "None # map Some (xs @ ys) @ [None] = front xs @ first (rev xs) # map Some ys @ [None]"
    by (simp only: map_append append_assoc ring_split)
  then have "ring f (xs @ ys) \<longleftrightarrow> chain f (front xs @ first (rev xs) # map Some ys @ [None])"
    by (simp only: ring_def)
  then show ?thesis
    by (simp only: chain_append [of f "front xs" "first (rev xs)" "map Some ys @ [None]"] chain_step)
qed

lemma ring_del_step:
  assumes "ring f (xs @ a # ys)" and "distinct (xs @ a # ys)"
  shows "ring (f(first (rev xs) := first ys)) (xs @ ys)"
proof -
  let ?p = "first (rev xs)"
  have f: "chain f (front xs @ [?p])" "chain f (map Some ys @ [None])"
    using assms(1) by (simp_all add: ring_append)
  have 1: "?p \<notin> set (butlast (front xs @ [?p]))" using last_ring_fresh [of xs] assms(2) by simp
  have 2: "?p \<notin> set (butlast (map Some ys @ [None]))" using first_in [of "rev xs"] assms(2) by auto
  show ?thesis using f by (simp only: ring_join chain_upd [OF 1] chain_upd [OF 2] fun_upd_same simp_thms)
qed

text \<open>Adding behind the last position, and in front of the first one.\<close>

lemma ring_add_last:
  assumes "ring f as" and "distinct as" and "a \<notin> set as"
  shows "ring (f(Some a := None, first (rev as) := Some a)) (as @ [a])"
proof -
  let ?p = "first (rev as)" let ?g = "f(Some a := None, ?p := Some a)"
  have p: "?p \<noteq> Some a" using first_in [of "rev as"] assms(3) by auto
  have "chain f (front as @ [?p])" using ring_join [of f as "[]"] assms(1) by simp
  moreover have "?p \<notin> set (front as)" using last_ring_fresh assms(2) by blast
  moreover have "Some a \<notin> set (front as)" using set_front [of as] assms(3) by blast
  ultimately have "chain ?g (front as @ [?p])" by (simp add: chain_upd)
  then show ?thesis using p by (simp add: ring_append)
qed

lemma ring_add_first:
  assumes "ring f as" and "a \<notin> set as"
  shows "ring (f(None := Some a, Some a := first as)) (a # as)"
proof -
  let ?g = "f(None := Some a, Some a := first as)"
  have "chain f (map Some as @ [None])" using assms(1) by (simp add: ring_def chain_step)
  moreover have "None \<notin> set (map Some as)" and "Some a \<notin> set (map Some as)" using assms(2) by auto
  ultimately have "chain ?g (map Some as @ [None])" by (simp add: chain_upd)
  then show ?thesis by (simp add: ring_def chain_step)
qed

definition ring_rel :: "dlinks \<Rightarrow> nat list \<Rightarrow> bool" where
  "ring_rel l as \<longleftrightarrow> distinct as \<and> ring (dl_next l) as \<and> ring (dl_prev l) (rev as)"

lemma reach_first: "\<forall>a \<in> set as. lv a \<Longrightarrow> reach lv (first as)"
  by (cases as) (simp_all add: reach_def)

lemma ring_add_tail_ok:
  assumes "ring_rel l as" and "\<forall>b \<in> set as. lv b" and "a \<notin> set as" and "lv a"
  shows "\<exists>l'. ring_add_tail lv a l = Some l' \<and> ring_rel l' (as @ [a])"
proof -
  have r: "distinct as" "ring (dl_next l) as" "ring (dl_prev l) (rev as)" using assms(1) by (simp_all add: ring_rel_def)
  have p: "dl_prev l None = first (rev as)" using ring_first [OF r(3)] .
  have "reach lv (first (rev as))" using assms(2) by (intro reach_first) simp
  moreover have "ring ((dl_prev l)(None := Some a, Some a := first (rev as))) (a # rev as)"
    using assms(3) by (intro ring_add_first [OF r(3)]) simp
  ultimately show ?thesis using ring_add_last [OF r(2,1) assms(3)] r(1) assms(3,4)
    by (simp add: ring_add_tail_def p ring_rel_def Let_def)
qed

lemma ring_del_ok:
  assumes "ring_rel l (xs @ a # ys)" and "\<forall>b \<in> set (xs @ a # ys). lv b"
  shows "\<exists>l'. ring_del lv a l = Some l' \<and> ring_rel l' (xs @ ys)"
proof -
  have r: "distinct (xs @ a # ys)" "ring (dl_next l) (xs @ a # ys)" "ring (dl_prev l) (rev ys @ a # rev xs)"
    using assms(1) by (simp_all add: ring_rel_def)
  have d: "distinct (rev ys @ a # rev xs)" using r(1) by auto
  have pn: "dl_prev l (Some a) = first (rev xs)" "dl_next l (Some a) = first ys"
    using ring_next [OF r(3)] ring_next [OF r(2)] by simp_all
  have "reach lv (first (rev xs))" and "reach lv (first ys)"
    using assms(2) by (auto intro!: reach_first)
  moreover have "ring ((dl_prev l)(first ys := first (rev xs))) (rev ys @ rev xs)"
    using ring_del_step [OF r(3) d] by simp
  ultimately show ?thesis using ring_del_step [OF r(2,1)] r(1) assms(2)
    by (simp add: ring_del_def pn ring_rel_def Let_def)
qed

lemma ring_api_ok: "list_api_ok ring_api ring_rel"
  unfolding list_api_ok_def
proof (intro allI impI conjI ballI)
  fix l as lv
  assume rel: "ring_rel l as" and lv: "\<forall>a \<in> set as. lv a"
  then have r: "distinct as" "ring (dl_next l) as" "ring (dl_prev l) (rev as)" by (simp_all add: ring_rel_def)
  show "distinct as" by (rule r(1))
  show "\<exists>l'. ls_add_tail ring_api lv a l = Some l' \<and> ring_rel l' (as @ [a])" if "a \<notin> set as" "lv a" for a
    using ring_add_tail_ok [OF rel lv that] by (simp add: ring_api_def)
  show "\<exists>l'. ls_del ring_api lv a l = Some l' \<and> ring_rel l' (remove1 a as)" if el: "a \<in> set as" for a
  proof -
    obtain xs ys where as: "as = xs @ a # ys" using split_list [OF el] by blast
    then have "remove1 a as = xs @ ys" using r(1) by (simp add: remove1_append)
    then show ?thesis using ring_del_ok [of l xs a ys lv] rel lv by (simp add: as ring_api_def)
  qed
  show "ls_next ring_api lv None l = Some (first as)" and "ls_prev ring_api lv None l = Some (first (rev as))"
    using ring_first [OF r(2)] ring_first [OF r(3)] by (simp_all add: ring_api_def reach_def)
  fix xs a ys
  assume as: "as = xs @ a # ys"
  then show "ls_next ring_api lv (Some a) l = Some (first ys)" and "ls_prev ring_api lv (Some a) l = Some (first (rev xs))"
    using ring_next [of "dl_next l" xs a ys] ring_next [of "dl_prev l" "rev ys" a "rev xs"] r(2,3) lv
    by (simp_all add: ring_api_def reach_def)
qed

definition ring_empty :: dlinks where
  "ring_empty = \<lparr>dl_next = (\<lambda>_. None), dl_prev = (\<lambda>_. None)\<rparr>"

lemma ring_empty_rel: "ring_rel ring_empty []"
  by (simp add: ring_rel_def ring_empty_def ring_def)

subsection \<open>The module from load to unload\<close>

lemma remove_node_run:
  assumes "list_api_ok A rel" and "list_inv rel st as"
  shows "\<exists>st'. remove_node A v st = Some st' \<and> list_inv rel st' (filter (\<lambda>a. nodes st a \<noteq> Some v) as) \<and>
    (\<forall>a. nodes st' a = (if nodes st a = Some v then None else nodes st a))"
proof -
  have "\<exists>q. ls_next A (live st) (first as) (links st) = Some q \<and> (\<forall>b zs. as = b # zs \<longrightarrow> q = first zs)"
    using api_ends(1) [OF assms] api_steps(1) [OF assms(1), of st "[]"] assms(2) by (cases as) auto
  then obtain q where q: "ls_next A (live st) (first as) (links st) = Some q" "\<forall>b zs. as = b # zs \<longrightarrow> q = first zs"
    by blast
  obtain st' where st': "remove_loop A v (first as) q st = Some st'"
    "list_inv rel st' (filter (\<lambda>a. nodes st a \<noteq> Some v) as)"
    "\<forall>a. nodes st' a = (if a \<in> set as \<and> nodes st a = Some v then None else nodes st a)"
    using remove_loop_run [OF assms(1), of st "[]" as q v] assms(2) q(2) by auto
  have "\<forall>a. nodes st a = Some v \<longrightarrow> a \<in> set as" using assms(2) by (auto simp: list_inv_def live_def)
  then show ?thesis using st' q(1) api_ends(1) [OF assms] by (auto simp: remove_node_def)
qed

lemma remove_datas:
  assumes "list_inv rel st as" and "\<forall>a. nodes st' a = (if nodes st a = Some v then None else nodes st a)"
  shows "datas st' (filter (\<lambda>a. nodes st a \<noteq> Some v) as) = filter (\<lambda>d. d \<noteq> v) (datas st as)"
proof -
  have "\<forall>a \<in> set as. nodes st a \<noteq> None" using assms(1) by (simp add: list_inv_def live_def)
  then show ?thesis using assms(2) by (induction as) (auto simp: datas_def)
qed

lemma cleanup_list_run:
  assumes "list_api_ok A rel" and "list_inv rel st as"
  shows "\<exists>st'. cleanup_list A st = Some st' \<and> nodes st' = Map.empty"
proof -
  have "\<exists>q. ls_next A (live st) (first as) (links st) = Some q \<and> (\<forall>b zs. as = b # zs \<longrightarrow> q = first zs)"
    using api_ends(1) [OF assms] api_steps(1) [OF assms(1), of st "[]"] assms(2) by (cases as) auto
  then obtain q where q: "ls_next A (live st) (first as) (links st) = Some q" "\<forall>b zs. as = b # zs \<longrightarrow> q = first zs"
    by blast
  obtain st' where "cleanup_loop A (first as) q st = Some st'" "list_inv rel st' []"
    using cleanup_loop_run [OF assms(1), of st "[]" as q] assms(2) q(2) by auto
  then show ?thesis using q(1) api_ends(1) [OF assms]
    by (auto simp: cleanup_list_def list_inv_def live_def intro!: ext)
qed

text \<open>The nodes for which there was memory, with their values.\<close>

fun got :: "(nat option \<times> cint) list \<Rightarrow> (nat \<times> cint) list" where
  "got [] = []"
| "got ((Some a, v) # ps) = (a, v) # got ps"
| "got ((None, v) # ps) = got ps"

lemma add_nodes_run:
  assumes "list_api_ok A rel" and "list_inv rel st as" and "distinct (map fst (got ps))"
    and "\<forall>a \<in> set (map fst (got ps)). nodes st a = None"
  shows "\<exists>st'. add_nodes A ps st = Some st' \<and> list_inv rel st' (as @ map fst (got ps)) \<and>
    datas st' (as @ map fst (got ps)) = datas st as @ map snd (got ps)"
  using assms(2-4)
proof (induction ps arbitrary: st as rule: got.induct)
  case 1
  then show ?case by simp
next
  case (2 a v ps)
  obtain st1 where st1: "add_node A (Some a) v st = Some st1" "list_inv rel st1 (as @ [a])" "nodes st1 = (nodes st)(a \<mapsto> v)"
    using add_node_run [OF assms(1) 2(2), of a v] 2(4) by auto
  have "a \<notin> set as" using 2(2,4) by (auto simp: list_inv_def live_def)
  then have "datas st1 (as @ [a]) = datas st as @ [v]" using st1(3) by (simp add: datas_def)
  moreover have "\<forall>b \<in> set (map fst (got ps)). nodes st1 b = None" using 2(3,4) st1(3) by fastforce
  then obtain st2 where "add_nodes A ps st1 = Some st2" "list_inv rel st2 ((as @ [a]) @ map fst (got ps))"
    "datas st2 ((as @ [a]) @ map fst (got ps)) = datas st1 (as @ [a]) @ map snd (got ps)"
    using "2.IH" [OF st1(2)] 2(3) by auto
  ultimately show ?case using st1(1) by simp
next
  case (3 v ps)
  then show ?case by (simp add: add_node_def)
qed

subsection \<open>Properties\<close>

text \<open>C15: Removing a value takes out exactly the nodes that hold it and frees them, once each; the
  others keep their order and their data. The loop ends and never touches a freed node, although
  it frees the node it stands on.\<close>

theorem list_remove_exact:
  assumes "list_api_ok A rel" and "list_inv rel st as"
  shows "\<exists>st'. remove_node A v st = Some st' \<and>
     list_inv rel st' (filter (\<lambda>a. nodes st a \<noteq> Some v) as) \<and>
     traverse_list A st' = Some (enumerate 0 (filter (\<lambda>d. d \<noteq> v) (datas st as)),
       length (filter (\<lambda>d. d \<noteq> v) (datas st as)))"
proof -
  let ?as = "filter (\<lambda>a. nodes st a \<noteq> Some v) as"
  obtain st' where st': "remove_node A v st = Some st'" "list_inv rel st' ?as"
    "\<forall>a. nodes st' a = (if nodes st a = Some v then None else nodes st a)"
    using remove_node_run [OF assms] by blast
  have d: "datas st' ?as = filter (\<lambda>d. d \<noteq> v) (datas st as)" by (rule remove_datas [OF assms(2) st'(3)])
  then have "length ?as = length (filter (\<lambda>d. d \<noteq> v) (datas st as))" by (metis datas_def length_map)
  then show ?thesis using st'(1,2) traversals(1) [OF assms(1) st'(2)] d by simp
qed

theorem list_remove_exact_witness:
  "\<exists>st st'. add_nodes ring_api [(Some 4, 7), (Some 9, 5), (Some 2, 7)] \<lparr>nodes = Map.empty, links = ring_empty\<rparr> = Some st \<and>
     remove_node ring_api 7 st = Some st' \<and> traverse_list ring_api st' = Some ([(0, 5)], 1)"
proof -
  have inv: "list_inv ring_rel \<lparr>nodes = Map.empty, links = ring_empty\<rparr> []"
    using ring_empty_rel by (simp add: list_inv_def live_def)
  obtain st where st: "add_nodes ring_api [(Some 4, 7), (Some 9, 5), (Some 2, 7)] \<lparr>nodes = Map.empty, links = ring_empty\<rparr> = Some st"
    "list_inv ring_rel st [4, 9, 2]" "datas st [4, 9, 2] = [7, 5, 7]"
    using add_nodes_run [OF ring_api_ok inv, of "[(Some 4, 7), (Some 9, 5), (Some 2, 7)]"] by (auto simp: datas_def)
  then show ?thesis using list_remove_exact [OF ring_api_ok st(2), of 7] by auto
qed

text \<open>The module from load to unload, whichever of its five allocations fail: it prints the
  values it could store, in order, backwards, and without 20; unloading frees every node.\<close>

theorem list_module_session:
  assumes "list_api_ok A rel" and "rel l0 []" and "distinct (map fst (got (zip news [10, 20, 30, 40, 50])))"
  defines "vs \<equiv> map snd (got (zip news [10, 20, 30, 40, 50]))"
  shows "\<exists>log st st'. list_init A news \<lparr>nodes = Map.empty, links = l0\<rparr> = Some (log, st) \<and>
     first_walk log = (enumerate 0 vs, length vs) \<and> reverse_walk log = enumerate 0 (rev vs) \<and>
     last_walk log = (enumerate 0 (filter (\<lambda>d. d \<noteq> 20) vs), length (filter (\<lambda>d. d \<noteq> 20) vs)) \<and>
     list_exit A st = Some st' \<and> nodes st' = Map.empty"
proof -
  let ?ps = "zip news [10, 20, 30, 40, 50]" let ?as = "map fst (got ?ps)"
  have inv0: "list_inv rel \<lparr>nodes = Map.empty, links = l0\<rparr> []" using assms(2) by (simp add: list_inv_def live_def)
  obtain st1 where st1: "add_nodes A ?ps \<lparr>nodes = Map.empty, links = l0\<rparr> = Some st1" "list_inv rel st1 ?as" "datas st1 ?as = vs"
    using add_nodes_run [OF assms(1) inv0 assms(3)] by (auto simp: vs_def datas_def)
  let ?bs = "filter (\<lambda>a. nodes st1 a \<noteq> Some 20) ?as"
  obtain st2 where st2: "remove_node A 20 st1 = Some st2" "list_inv rel st2 ?bs"
    "\<forall>a. nodes st2 a = (if nodes st1 a = Some 20 then None else nodes st1 a)"
    using remove_node_run [OF assms(1) st1(2)] by blast
  have d2: "datas st2 ?bs = filter (\<lambda>d. d \<noteq> 20) vs" using remove_datas [OF st1(2) st2(3)] st1(3) by simp
  have l: "length ?as = length vs" "length ?bs = length (filter (\<lambda>d. d \<noteq> 20) vs)"
    using arg_cong [OF d2, of length] by (simp_all add: vs_def datas_def)
  obtain st3 where "cleanup_list A st2 = Some st3" "nodes st3 = Map.empty"
    using cleanup_list_run [OF assms(1) st2(2)] by blast
  moreover note traversals [OF assms(1) st1(2), unfolded st1(3) l(1)] traversals(1) [OF assms(1) st2(2), unfolded d2 l(2)]
  ultimately show ?thesis using st1(1) st2(1) by (simp add: list_init_def list_exit_def)
qed

theorem list_module_session_witness:
  "\<exists>log st. list_init ring_api [Some 3, Some 8, None, Some 5, Some 1] \<lparr>nodes = Map.empty, links = ring_empty\<rparr> = Some (log, st) \<and>
     last_walk log = ([(0, 10), (1, 40), (2, 50)], 3)"
  using list_module_session [OF ring_api_ok ring_empty_rel, of "[Some 3, Some 8, None, Some 5, Some 1]"] by auto

end
