(* ===== verification/DeferredWork.thy ===== *)
theory DeferredWork
  imports LddPrelude
begin

section \<open>Work that outlives a call: timers, tasklets, softirqs and a completion (028 to 032)\<close>

text \<open>
  Five small modules hand a callback to the kernel when they are loaded: a timer
  (\<open>028_ktimer\<close>), a high-resolution timer (\<open>029_hrt_ktimer\<close>), tasklets (\<open>031_softirqs/softirq1.c\<close>,
  \<open>032_tasklet\<close>) and a softirq (\<open>031_softirqs/softirq2.c\<close>). The question is the same for all: can the
  callback run when the module is no longer there? An item is \<open>armed\<close> while the kernel has yet to
  run its callback and \<open>running\<close> from the start of the callback to its end; between the two, other
  processors run other code. Beginning or ending a callback of a module that is not loaded is
  \<open>None\<close>. When time passes is not modelled: an armed item may begin at any moment.

  The kernel's routines by their documentation: \<open>del_timer\<close> disarms the timer and does not wait
  for a callback that runs, \<open>hrtimer_cancel\<close> disarms and waits, \<open>tasklet_kill\<close> waits until the
  tasklet is neither scheduled nor running. A routine that has to wait is none here.
\<close>

record ditem =
  armed :: bool
  running :: bool
  dloaded :: bool

definition ditem_fresh :: ditem where
  "ditem_fresh = \<lparr>armed = False, running = False, dloaded = False\<rparr>"

datatype devent = DLoad | DBegin | DEnd | DUnload

text \<open>A module: what its init does, its callback up to and from the last call, and its exit.\<close>

record 'a dmodule =
  d_init :: "'a \<Rightarrow> 'a"
  d_body :: "'a \<Rightarrow> 'a"
  d_last :: "'a \<Rightarrow> 'a"
  d_exit :: "'a \<Rightarrow> 'a option"

fun dstep :: "'a ditem_scheme dmodule \<Rightarrow> devent \<Rightarrow> 'a ditem_scheme \<Rightarrow> 'a ditem_scheme option" where
  "dstep M DLoad s = Some (if dloaded s then s else (d_init M s)\<lparr>dloaded := True\<rparr>)"
| "dstep M DBegin s =
     (if armed s \<and> \<not> running s
      then if dloaded s then Some (d_body M (s\<lparr>armed := False, running := True\<rparr>)) else None
      else Some s)"
| "dstep M DEnd s =
     (if running s then if dloaded s then Some (d_last M (s\<lparr>running := False\<rparr>)) else None else Some s)"
| "dstep M DUnload s =
     Some (if dloaded s then (case d_exit M s of Some s' \<Rightarrow> s'\<lparr>dloaded := False\<rparr> | None \<Rightarrow> s) else s)"

fun drun :: "'a ditem_scheme dmodule \<Rightarrow> devent list \<Rightarrow> 'a ditem_scheme \<Rightarrow> 'a ditem_scheme option" where
  "drun M [] s = Some s"
| "drun M (e # es) s = do { s \<leftarrow> dstep M e s; drun M es s }"

lemma drun_snoc: "drun M (es @ [e]) s = do { s' \<leftarrow> drun M es s; dstep M e s' }"
  by (induction es arbitrary: s) (simp_all split: bind_splits)

subsection \<open>The modules\<close>

definition arm :: "'a ditem_scheme \<Rightarrow> 'a ditem_scheme" where
  "arm s = s\<lparr>armed := True\<rparr>"

definition del_timer :: "'a ditem_scheme \<Rightarrow> 'a ditem_scheme option" where
  "del_timer s = Some (s\<lparr>armed := False\<rparr>)"

definition hrtimer_cancel :: "'a ditem_scheme \<Rightarrow> 'a ditem_scheme option" where
  "hrtimer_cancel s = (if running s then None else Some (s\<lparr>armed := False\<rparr>))"

definition tasklet_kill :: "'a ditem_scheme \<Rightarrow> 'a ditem_scheme option" where
  "tasklet_kill s = (if armed s \<or> running s then None else Some s)"

text \<open>028: the callback counts and arms the timer again with \<open>mod_timer\<close>.\<close>

record ktimer = ditem +
  timer_count :: cint

definition kernel_timer_init :: "ktimer \<Rightarrow> ktimer" where "kernel_timer_init s = arm s"
definition timer_callback :: "ktimer \<Rightarrow> ktimer" where "timer_callback s = s\<lparr>timer_count := timer_count s + 1\<rparr>"
definition timer_callback_end :: "ktimer \<Rightarrow> ktimer" where "timer_callback_end s = arm s"
definition kernel_timer_cleanup :: "ktimer \<Rightarrow> ktimer option" where "kernel_timer_cleanup s = del_timer s"

definition ktimer_module :: "ktimer dmodule" where
  "ktimer_module = \<lparr>d_init = kernel_timer_init, d_body = timer_callback, d_last = timer_callback_end,
     d_exit = kernel_timer_cleanup\<rparr>"

text \<open>029: the callback asks for a restart.\<close>

definition hrt_timer_init :: "ditem \<Rightarrow> ditem" where "hrt_timer_init s = arm s"
definition hrt_timer_callback :: "ditem \<Rightarrow> ditem" where "hrt_timer_callback s = s"
definition hrt_restart :: "ditem \<Rightarrow> ditem" where "hrt_restart s = arm s"
definition hrt_timer_exit :: "ditem \<Rightarrow> ditem option" where "hrt_timer_exit s = hrtimer_cancel s"

definition hrt_module :: "ditem dmodule" where
  "hrt_module = \<lparr>d_init = hrt_timer_init, d_body = hrt_timer_callback, d_last = hrt_restart, d_exit = hrt_timer_exit\<rparr>"

text \<open>031 and 032: tasklets that only print.\<close>

definition softirq_init :: "ditem \<Rightarrow> ditem" where "softirq_init s = arm s"
definition demo_tasklet_fn :: "ditem \<Rightarrow> ditem" where "demo_tasklet_fn s = s"
definition softirq_exit :: "ditem \<Rightarrow> ditem option" where "softirq_exit s = tasklet_kill s"

definition softirq1_module :: "ditem dmodule" where
  "softirq1_module = \<lparr>d_init = softirq_init, d_body = demo_tasklet_fn, d_last = (\<lambda>s. s), d_exit = softirq_exit\<rparr>"

definition my_tasklet_init :: "ditem \<Rightarrow> ditem" where "my_tasklet_init s = arm s"
definition my_tasklet_func :: "ditem \<Rightarrow> ditem" where "my_tasklet_func s = s"
definition my_tasklet_exit :: "ditem \<Rightarrow> ditem option" where "my_tasklet_exit s = tasklet_kill s"

definition tasklet_module :: "ditem dmodule" where
  "tasklet_module = \<lparr>d_init = my_tasklet_init, d_body = my_tasklet_func, d_last = (\<lambda>s. s), d_exit = my_tasklet_exit\<rparr>"

text \<open>The second file of 031 raises a softirq of its own and does nothing when it is unloaded.\<close>

definition my_softirq_init :: "ditem \<Rightarrow> ditem" where "my_softirq_init s = arm s"
definition my_softirq_action :: "ditem \<Rightarrow> ditem" where "my_softirq_action s = s"
definition my_softirq_exit :: "ditem \<Rightarrow> ditem option" where "my_softirq_exit s = Some s"

definition softirq2_module :: "ditem dmodule" where
  "softirq2_module = \<lparr>d_init = my_softirq_init, d_body = my_softirq_action, d_last = (\<lambda>s. s), d_exit = my_softirq_exit\<rparr>"

subsection \<open>Modules whose exit waits\<close>

locale quiet_exit =
  fixes M :: "'a ditem_scheme dmodule"
  assumes body_flags: "armed (d_body M s) = armed s \<and> running (d_body M s) = running s \<and> dloaded (d_body M s) = dloaded s"
    and last_flags: "running (d_last M s) = running s \<and> dloaded (d_last M s) = dloaded s"
    and exit_quiet: "d_exit M s = Some s' \<Longrightarrow> \<not> armed s' \<and> \<not> running s'"
begin

definition quiet :: "'a ditem_scheme \<Rightarrow> bool" where
  "quiet s \<longleftrightarrow> dloaded s \<or> (\<not> armed s \<and> \<not> running s)"

lemma step_quiet: "quiet s \<Longrightarrow> \<exists>s'. dstep M e s = Some s' \<and> quiet s'"
  by (cases e) (auto simp: quiet_def body_flags last_flags dest: exit_quiet split: option.split)

text \<open>No callback ever meets an unloaded module.\<close>

lemma run_quiet: "quiet s \<Longrightarrow> \<exists>s'. drun M es s = Some s' \<and> quiet s'"
proof (induction es arbitrary: s)
  case (Cons e es)
  then obtain s1 where "dstep M e s = Some s1" "quiet s1" using step_quiet by blast
  then show ?case using Cons.IH [of s1] by simp
qed simp

end

interpretation hrt: quiet_exit hrt_module
  by unfold_locales (auto simp: hrt_module_def hrt_timer_callback_def hrt_restart_def arm_def hrt_timer_exit_def
      hrtimer_cancel_def split: if_splits)

interpretation softirq1: quiet_exit softirq1_module
  by unfold_locales (auto simp: softirq1_module_def demo_tasklet_fn_def softirq_exit_def tasklet_kill_def split: if_splits)

interpretation tasklet032: quiet_exit tasklet_module
  by unfold_locales (auto simp: tasklet_module_def my_tasklet_func_def my_tasklet_exit_def tasklet_kill_def split: if_splits)

subsection \<open>The kernel timer: a callback can be caught by the unload\<close>

definition timer_inv :: "ktimer \<Rightarrow> bool" where
  "timer_inv s \<longleftrightarrow> dloaded s \<or> \<not> armed s"

lemma timer_step_inv: "timer_inv s \<Longrightarrow> dstep ktimer_module e s = Some s' \<Longrightarrow> timer_inv s'"
  by (cases e) (auto simp: timer_inv_def ktimer_module_def timer_callback_def timer_callback_end_def
      kernel_timer_init_def kernel_timer_cleanup_def arm_def del_timer_def split: if_splits)

lemma timer_run_inv: "timer_inv s \<Longrightarrow> drun ktimer_module es s = Some s' \<Longrightarrow> timer_inv s'"
  by (induction es arbitrary: s) (auto simp: bind_eq_Some_conv dest: timer_step_inv)

definition ktimer_fresh :: ktimer where
  "ktimer_fresh = \<lparr>armed = False, running = False, dloaded = False, timer_count = 0\<rparr>"

text \<open>Where a run can go wrong: only at the end of a callback.\<close>

lemma timer_step_crash: "timer_inv s \<Longrightarrow> dstep ktimer_module e s = None \<longleftrightarrow> e = DEnd \<and> running s \<and> \<not> dloaded s"
  by (cases e) (auto simp: timer_inv_def)

text \<open>The counter counts the callbacks begun.\<close>

fun begun :: "devent list \<Rightarrow> ktimer \<Rightarrow> nat" where
  "begun [] s = 0"
| "begun (e # es) s =
     (if e = DBegin \<and> armed s \<and> \<not> running s then 1 else 0) +
     (case dstep ktimer_module e s of Some s' \<Rightarrow> begun es s' | None \<Rightarrow> 0)"

lemma timer_counts: "drun ktimer_module es s = Some s' \<Longrightarrow> timer_count s' = timer_count s + of_nat (begun es s)"
proof (induction es arbitrary: s)
  case (Cons e es)
  obtain s1 where s1: "dstep ktimer_module e s = Some s1" "drun ktimer_module es s1 = Some s'"
    using Cons.prems by (auto simp: bind_eq_Some_conv)
  have "timer_count s1 = timer_count s + (if e = DBegin \<and> armed s \<and> \<not> running s then 1 else 0)"
    using s1(1) by (cases e) (auto simp: ktimer_module_def timer_callback_def timer_callback_end_def
        kernel_timer_init_def kernel_timer_cleanup_def arm_def del_timer_def split: if_splits)
  then show ?case using Cons.IH [OF s1(2)] s1(1) by simp
qed simp

subsection \<open>The completion: \<open>030_kcompletion\<close>\<close>

text \<open>
  The init routine starts a worker and waits until it signals; an error pointer is not looked
  at. The worker prints, signals and returns; nothing waits for its return.
\<close>

datatype worker_pc = NoWorker | AtComplete | AtReturn | WorkerDone
datatype cphase = CUnloaded | CWaiting | CLoaded | CGone

record kcomp =
  completion :: nat
  worker_at :: worker_pc
  cphase :: cphase

definition worker_fn :: "kcomp \<Rightarrow> kcomp" where
  "worker_fn s =
     (case worker_at s of
        AtComplete \<Rightarrow> s\<lparr>completion := completion s + 1, worker_at := AtReturn\<rparr>
      | AtReturn \<Rightarrow> s\<lparr>worker_at := WorkerDone\<rparr>
      | _ \<Rightarrow> s)"

definition completion_init :: "errno option \<Rightarrow> kcomp \<Rightarrow> kcomp" where
  "completion_init r s =
     s\<lparr>completion := 0, worker_at := (if r = None then AtComplete else NoWorker), cphase := CWaiting\<rparr>"

definition completion_wait :: "kcomp \<Rightarrow> kcomp" where
  "completion_wait s =
     (if completion s = 0 then s else s\<lparr>completion := completion s - 1, cphase := CLoaded\<rparr>)"

datatype cevent = CLoad "errno option" | CWorker | CWake | CUnload

fun cstep :: "cevent \<Rightarrow> kcomp \<Rightarrow> kcomp option" where
  "cstep (CLoad r) s = Some (if cphase s = CUnloaded then completion_init r s else s)"
| "cstep CWorker s =
     (if worker_at s = AtComplete \<or> worker_at s = AtReturn
      then if cphase s = CGone then None else Some (worker_fn s) else Some s)"
| "cstep CWake s = Some (if cphase s = CWaiting then completion_wait s else s)"
| "cstep CUnload s = Some (if cphase s = CLoaded then s\<lparr>cphase := CGone\<rparr> else s)"

fun crun :: "cevent list \<Rightarrow> kcomp \<Rightarrow> kcomp option" where
  "crun [] s = Some s"
| "crun (e # es) s = do { s \<leftarrow> cstep e s; crun es s }"

definition kcomp_fresh :: kcomp where
  "kcomp_fresh = \<lparr>completion = 0, worker_at = NoWorker, cphase = CUnloaded\<rparr>"

text \<open>The load ends only after the worker has signalled, once.\<close>

definition kcomp_inv :: "kcomp \<Rightarrow> bool" where
  "kcomp_inv s \<longleftrightarrow>
     (case cphase s of
        CUnloaded \<Rightarrow> completion s = 0 \<and> worker_at s = NoWorker
      | CWaiting \<Rightarrow> completion s = (if worker_at s = AtReturn \<or> worker_at s = WorkerDone then 1 else 0)
      | _ \<Rightarrow> completion s = 0 \<and> (worker_at s = AtReturn \<or> worker_at s = WorkerDone))"

lemma cstep_inv: "cstep e s = Some s' \<Longrightarrow> kcomp_inv s \<Longrightarrow> kcomp_inv s'"
  by (cases e; cases "cphase s"; cases "worker_at s")
    (auto simp: kcomp_inv_def completion_init_def completion_wait_def worker_fn_def split: if_splits)

lemma crun_inv: "crun es s = Some s' \<Longrightarrow> kcomp_inv s \<Longrightarrow> kcomp_inv s'"
  by (induction es arbitrary: s) (auto simp: bind_eq_Some_conv dest: cstep_inv)

lemma no_worker_waits: "cphase s = CWaiting \<Longrightarrow> worker_at s = NoWorker \<Longrightarrow> completion s = 0 \<Longrightarrow> crun es s = Some s"
  by (induction es) (auto simp: completion_wait_def elim: cstep.elims, (case_tac a; simp add: completion_wait_def)+)

text \<open>Unloading the second module of 031 before its softirq has run.\<close>

lemma softirq2_unload_dangling: "drun softirq2_module [DLoad, DUnload, DBegin] ditem_fresh = None"
  by (simp add: softirq2_module_def my_softirq_init_def my_softirq_exit_def arm_def ditem_fresh_def)

subsection \<open>Properties\<close>

text \<open>The high-resolution timer and the two tasklets cannot outlive their modules: in every
  sequence of loads, unloads, starts and ends of callbacks, no callback starts or ends while the
  module is not loaded.\<close>

theorem waiting_exits_safe:
  "\<exists>s1 s2 s3. drun hrt_module es ditem_fresh = Some s1 \<and> drun softirq1_module es ditem_fresh = Some s2 \<and>
     drun tasklet_module es ditem_fresh = Some s3"
proof -
  have "hrt.quiet ditem_fresh" "softirq1.quiet ditem_fresh" "tasklet032.quiet ditem_fresh"
    by (simp_all add: hrt.quiet_def softirq1.quiet_def tasklet032.quiet_def ditem_fresh_def)
  then show ?thesis using hrt.run_quiet softirq1.run_quiet tasklet032.run_quiet by blast
qed

text \<open>The timer of 028 can: its exit does not wait. From any state that can be reached, exactly
  one thing goes wrong, the end of a callback that was running when the module was unloaded.
  Up to then \<open>timer_count\<close> is the number of callbacks begun, modulo \<open>2^32\<close>.\<close>

theorem timer_unload_race:
  assumes "drun ktimer_module es ktimer_fresh = Some s"
  shows "(dstep ktimer_module e s = None \<longleftrightarrow> e = DEnd \<and> running s \<and> \<not> dloaded s) \<and>
     timer_count s = of_nat (begun es ktimer_fresh)"
proof -
  have "timer_inv s" by (rule timer_run_inv [OF _ assms]) (simp add: timer_inv_def ktimer_fresh_def)
  then show ?thesis using timer_step_crash [of s e] timer_counts [OF assms] by (simp add: ktimer_fresh_def)
qed

theorem timer_unload_race_witness:
  "drun ktimer_module [DLoad, DBegin, DEnd, DBegin, DUnload, DEnd] ktimer_fresh = None"
proof -
  obtain s where s: "drun ktimer_module [DLoad, DBegin, DEnd, DBegin, DUnload] ktimer_fresh = Some s"
    "running s" "\<not> dloaded s"
    by (simp add: ktimer_module_def kernel_timer_init_def timer_callback_def timer_callback_end_def
        kernel_timer_cleanup_def arm_def del_timer_def ktimer_fresh_def)
  have "dstep ktimer_module DEnd s = None" using timer_unload_race [OF s(1), of DEnd] s(2,3) by blast
  then have "drun ktimer_module ([DLoad, DBegin, DEnd, DBegin, DUnload] @ [DEnd]) ktimer_fresh = None"
    by (simp only: drun_snoc s(1) bind.bind_lunit)
  then show ?thesis by (simp only: append.simps)
qed

text \<open>Loading the completion module returns only after the worker has signalled; if the worker
  could not be created, it never returns. The worker may still have to return from its
  function when the load is over, and an unload can come before that.\<close>

theorem completion_load_outcome:
  assumes "crun es kcomp_fresh = Some s" and "cphase s = CLoaded \<or> cphase s = CGone"
  shows "(worker_at s = AtReturn \<or> worker_at s = WorkerDone) \<and>
     (\<exists>s'. crun (CLoad (Some err) # es') kcomp_fresh = Some s' \<and> cphase s' = CWaiting) \<and>
     crun [CLoad None, CWorker, CWake, CUnload, CWorker] kcomp_fresh = None"
proof (intro conjI)
  have "kcomp_inv s" by (rule crun_inv [OF assms(1)]) (simp add: kcomp_inv_def kcomp_fresh_def)
  then show "worker_at s = AtReturn \<or> worker_at s = WorkerDone" using assms(2) by (auto simp: kcomp_inv_def)
  show "\<exists>s'. crun (CLoad (Some err) # es') kcomp_fresh = Some s' \<and> cphase s' = CWaiting"
    using no_worker_waits [of "completion_init (Some err) kcomp_fresh" es']
    by (simp add: completion_init_def kcomp_fresh_def)
  show "crun [CLoad None, CWorker, CWake, CUnload, CWorker] kcomp_fresh = None"
    by (simp add: kcomp_fresh_def completion_init_def completion_wait_def worker_fn_def)
qed

theorem completion_load_outcome_witness:
  "\<exists>s. crun [CLoad None, CWorker, CWake] kcomp_fresh = Some s \<and> cphase s = CLoaded \<and> worker_at s = AtReturn"
proof -
  obtain s where s: "crun [CLoad None, CWorker, CWake] kcomp_fresh = Some s" "cphase s = CLoaded" "worker_at s \<noteq> WorkerDone"
    by (simp add: kcomp_fresh_def completion_init_def completion_wait_def worker_fn_def)
  then show ?thesis using completion_load_outcome [OF s(1)] by auto
qed

end
