(* ===== verification/TimerClock.thy ===== *)
theory TimerClock
  imports LddPrelude
begin

section \<open>The timers of 028 and 029 on a clock\<close>

text \<open>
  DeferredWork leaves open when a timer fires. This theory adds the clock, for a module that stays
  loaded: \<open>expires\<close> is the time the timer is set to and \<open>fired\<close> the times at which its callback
  began, the latest first. An armed timer fires at some time that is not before \<open>expires\<close>; how much
  later is left open. Times are integers: jiffies for 028, nanoseconds for 029.

  028 sets its timer from the time of the callback, 029 from the time it was set to, and
  \<open>hrtimer_forward_now\<close> reads the clock anew: \<open>rd t\<close> is the time it reads in the callback that began
  at \<open>t\<close>, which is \<open>t\<close> or later. The function is kernel code: \<open>fwd now expires interval\<close> is what \<open>hrtimer_forward_now\<close> sets; \<open>fwd_ok\<close> is its
  documentation, the first multiple of the interval after the old time that lies in the future.
\<close>

record clocked =
  expires :: int
  fired :: "int list"

definition fwd_ok :: "(int \<Rightarrow> int \<Rightarrow> int \<Rightarrow> int) \<Rightarrow> bool" where
  "fwd_ok fwd \<longleftrightarrow> (\<forall>now old i. 0 < i \<and> old \<le> now \<longrightarrow>
     (\<exists>k \<ge> 1. fwd now old i = old + k * i \<and> now < fwd now old i \<and> fwd now old i \<le> now + i))"

definition fwd_by_div :: "int \<Rightarrow> int \<Rightarrow> int \<Rightarrow> int" where
  "fwd_by_div now old i = old + ((now - old) div i + 1) * i"

lemma fwd_by_div_ok: "fwd_ok fwd_by_div"
  unfolding fwd_ok_def
proof (intro allI impI)
  fix now old i :: int assume a: "0 < i \<and> old \<le> now"
  let ?k = "(now - old) div i + 1"
  have d: "now - old = i * ((now - old) div i) + (now - old) mod i" by simp
  have m: "0 \<le> (now - old) mod i" "(now - old) mod i < i" using a by simp_all
  have f: "fwd_by_div now old i = old + i * ((now - old) div i) + i"
    by (simp add: fwd_by_div_def algebra_simps)
  have "0 \<le> (now - old) div i" using a by (simp add: pos_imp_zdiv_nonneg_iff)
  then have "1 \<le> ?k" by simp
  moreover have "now < fwd_by_div now old i" and "fwd_by_div now old i \<le> now + i"
    using d m unfolding f by linarith+
  ultimately show "\<exists>k \<ge> 1. fwd_by_div now old i = old + k * i \<and> now < fwd_by_div now old i \<and> fwd_by_div now old i \<le> now + i"
    by (intro exI [of _ ?k]) (simp add: fwd_by_div_def)
qed

subsection \<open>The two modules\<close>

definition HZ_2 :: "int \<Rightarrow> int" where
  "HZ_2 hz = 2 * hz"

definition ktimer_start :: "int \<Rightarrow> int \<Rightarrow> clocked" where
  "ktimer_start hz now = \<lparr>expires = now + HZ_2 hz, fired = []\<rparr>"

definition ktimer_fire :: "int \<Rightarrow> int \<Rightarrow> clocked \<Rightarrow> clocked" where
  "ktimer_fire hz now s = \<lparr>expires = now + HZ_2 hz, fired = now # fired s\<rparr>"

definition ktime_set :: "int \<Rightarrow> int \<Rightarrow> int" where
  "ktime_set secs nsecs = secs * 1000000000 + nsecs"

definition hrt_start :: "int \<Rightarrow> clocked" where
  "hrt_start now = \<lparr>expires = now + ktime_set 1 0, fired = []\<rparr>"

definition hrt_fire :: "(int \<Rightarrow> int \<Rightarrow> int \<Rightarrow> int) \<Rightarrow> (int \<Rightarrow> int) \<Rightarrow> int \<Rightarrow> clocked \<Rightarrow> clocked" where
  "hrt_fire fwd rd t s = \<lparr>expires = fwd (rd t) (expires s) (ktime_set 0 500000000), fired = t # fired s\<rparr>"

text \<open>The timer fires at the given times, one after the other; none if it fired before its time.\<close>

fun fires :: "(int \<Rightarrow> clocked \<Rightarrow> clocked) \<Rightarrow> int list \<Rightarrow> clocked \<Rightarrow> clocked option" where
  "fires fire [] s = Some s"
| "fires fire (t # ts) s = (if t < expires s then None else fires fire ts (fire t s))"

lemma fires_invariant:
  assumes "fires fire ts s = Some s'" and "P s" and "\<And>t s. P s \<Longrightarrow> expires s \<le> t \<Longrightarrow> P (fire t s)"
  shows "P s'"
  using assms(1,2) by (induction ts arbitrary: s) (auto split: if_splits simp: assms(3))

text \<open>Successive callbacks are at least \<open>d\<close> apart (latest first).\<close>

fun apart :: "int \<Rightarrow> int list \<Rightarrow> bool" where
  "apart d (t # u # ts) \<longleftrightarrow> u + d \<le> t \<and> apart d (u # ts)"
| "apart d _ = True"

definition ktimer_clock_inv :: "int \<Rightarrow> int \<Rightarrow> clocked \<Rightarrow> bool" where
  "ktimer_clock_inv hz t0 s \<longleftrightarrow> apart (HZ_2 hz) (fired s) \<and> (\<forall>t ts. fired s = t # ts \<longrightarrow> expires s = t + HZ_2 hz) \<and>
     t0 + int (length (fired s) + 1) * HZ_2 hz \<le> expires s"

lemma ktimer_clock:
  assumes "fires (ktimer_fire hz) ts (ktimer_start hz t0) = Some s"
  shows "ktimer_clock_inv hz t0 s"
proof (rule fires_invariant [OF assms])
  show "ktimer_clock_inv hz t0 (ktimer_start hz t0)" by (simp add: ktimer_clock_inv_def ktimer_start_def)
next
  fix t and s :: clocked assume "ktimer_clock_inv hz t0 s" "expires s \<le> t"
  then show "ktimer_clock_inv hz t0 (ktimer_fire hz t s)"
    by (cases "fired s") (auto simp: ktimer_clock_inv_def ktimer_fire_def algebra_simps)
qed

definition half_second :: int where "half_second = 500000000"

text \<open>The grid of 029: a second after the start, and every half second from there.\<close>

definition on_grid :: "int \<Rightarrow> int \<Rightarrow> bool" where
  "on_grid t0 t \<longleftrightarrow> (\<exists>n \<ge> 2. t = t0 + n * half_second)"

text \<open>The callbacks, latest first, fall into different periods of the grid.\<close>

fun one_per_period :: "int \<Rightarrow> int list \<Rightarrow> bool" where
  "one_per_period t0 (t # u # ts) \<longleftrightarrow> (u - t0) div half_second < (t - t0) div half_second \<and> one_per_period t0 (u # ts)"
| "one_per_period t0 _ = True"

definition hrt_clock_inv :: "(int \<Rightarrow> int) \<Rightarrow> int \<Rightarrow> clocked \<Rightarrow> bool" where
  "hrt_clock_inv rd t0 s \<longleftrightarrow> on_grid t0 (expires s) \<and> one_per_period t0 (fired s) \<and>
     (\<forall>t \<in> set (fired s). t0 + 2 * half_second \<le> t) \<and>
     (\<forall>t ts. fired s = t # ts \<longrightarrow> t < expires s \<and> expires s \<le> rd t + half_second)"

lemma grid_div:
  assumes "on_grid t0 e" and "u < e" and "e \<le> t"
  shows "(u - t0) div half_second < (t - t0) div half_second"
proof -
  obtain n where n: "e = t0 + n * half_second" using assms(1) by (auto simp: on_grid_def)
  have h: "(0 :: int) < half_second" by (simp add: half_second_def)
  have "half_second * ((u - t0) div half_second) + (u - t0) mod half_second = u - t0" by simp
  moreover have "0 \<le> (u - t0) mod half_second" using h by simp
  ultimately have "half_second * ((u - t0) div half_second) < half_second * n"
    using assms(2) n by (simp only: mult.commute [of n])
  then have "(u - t0) div half_second < n" using h by (simp add: mult_less_cancel_left_pos)
  moreover have "n * half_second div half_second \<le> (t - t0) div half_second"
    using assms(3) n h by (intro zdiv_mono1) simp_all
  then have "n \<le> (t - t0) div half_second" using h by simp
  ultimately show ?thesis by linarith
qed

lemma hrt_forward:
  assumes "fwd_ok fwd" and "on_grid t0 e" and "e \<le> t"
  shows "on_grid t0 (fwd t e half_second) \<and> t < fwd t e half_second \<and> fwd t e half_second \<le> t + half_second"
proof -
  obtain k where k: "k \<ge> 1" "fwd t e half_second = e + k * half_second" "t < fwd t e half_second"
    "fwd t e half_second \<le> t + half_second"
    using assms(1) [unfolded fwd_ok_def, rule_format, of half_second e t] assms(3) by (auto simp: half_second_def)
  obtain n where n: "n \<ge> 2" "e = t0 + n * half_second" using assms(2) by (auto simp: on_grid_def)
  have "fwd t e half_second = t0 + (n + k) * half_second" using k(2) n(2) by (simp add: algebra_simps)
  then have "on_grid t0 (fwd t e half_second)"
    unfolding on_grid_def using k(1) n(1) by (intro exI [of _ "n + k"]) simp
  then show ?thesis using k by blast
qed

lemma hrt_clock:
  assumes "fires (hrt_fire fwd rd) ts (hrt_start t0) = Some s" and "fwd_ok fwd" and "\<And>t. t \<le> rd t"
  shows "hrt_clock_inv rd t0 s"
proof (rule fires_invariant [OF assms(1)])
  have "on_grid t0 (t0 + ktime_set 1 0)"
    unfolding on_grid_def by (intro exI [of _ 2]) (simp add: ktime_set_def half_second_def)
  then show "hrt_clock_inv rd t0 (hrt_start t0)" by (simp add: hrt_clock_inv_def hrt_start_def)
next
  fix t and s :: clocked assume i: "hrt_clock_inv rd t0 s" and t: "expires s \<le> t"
  have g: "on_grid t0 (expires s)" using i by (simp add: hrt_clock_inv_def)
  have f: "hrt_fire fwd rd t s = \<lparr>expires = fwd (rd t) (expires s) half_second, fired = t # fired s\<rparr>"
    by (simp add: hrt_fire_def ktime_set_def half_second_def)
  have "expires s \<le> rd t" using t assms(3) [of t] by linarith
  note n = hrt_forward [OF assms(2) g this]
  obtain k where "k \<ge> 2" "expires s = t0 + k * half_second" using g by (auto simp: on_grid_def)
  then have "t0 + 2 * half_second \<le> expires s" by (simp add: half_second_def)
  then have "t0 + 2 * half_second \<le> t" using t by linarith
  moreover have "one_per_period t0 (t # fired s)"
    using i grid_div [OF g _ t] by (cases "fired s") (auto simp: hrt_clock_inv_def)
  ultimately show "hrt_clock_inv rd t0 (hrt_fire fwd rd t s)"
    using i n assms(3) [of t] by (auto simp: hrt_clock_inv_def f)
qed

subsection \<open>Properties\<close>

text \<open>The timer of 028 drifts: its callbacks are at least two seconds apart, and every delay is added
  to all that follow, so the \<open>n\<close>-th comes at least \<open>2 n\<close> seconds after the start.\<close>

theorem ktimer_drifts:
  assumes "fires (ktimer_fire hz) ts (ktimer_start hz t0) = Some s"
  shows "apart (2 * hz) (fired s) \<and> t0 + int (length (fired s) + 1) * (2 * hz) \<le> expires s"
  using ktimer_clock [OF assms] by (simp add: ktimer_clock_inv_def HZ_2_def)

text \<open>C35: The timer of 029 keeps its grid: whatever the delays, before a callback and inside it, it is
  always set to a full half second counted from its start, in the future and at most half a
  second after the callback has set it (at most half a second after the callback began, if
  that takes no time); no callback comes before the first second is over, and no half second
  has two.\<close>

theorem hrt_keeps_grid:
  assumes "fires (hrt_fire fwd rd) ts (hrt_start t0) = Some s" and "fwd_ok fwd" and "\<And>t. t \<le> rd t"
  shows "(\<exists>n \<ge> 2. expires s = t0 + n * 500000000) \<and> one_per_period t0 (fired s) \<and>
     (\<forall>t \<in> set (fired s). t0 + 1000000000 \<le> t) \<and>
     (\<forall>t ts. fired s = t # ts \<longrightarrow> t < expires s \<and> expires s \<le> rd t + 500000000)"
  using hrt_clock [OF assms] by (simp add: hrt_clock_inv_def on_grid_def half_second_def)

text \<open>A callback that comes 1.2 seconds late, and takes 0.4 seconds to set its timer, skips three
  periods and leaves the grid alone.\<close>

theorem hrt_keeps_grid_witness:
  "\<exists>s n. fires (hrt_fire fwd_by_div (\<lambda>t. t + 400000000)) [1000000000, 2700000000] (hrt_start 0) = Some s \<and>
     2 \<le> n \<and> expires s = n * 500000000 \<and> expires s = 3500000000 \<and> fired s = [2700000000, 1000000000]"
proof -
  have "\<exists>s. fires (hrt_fire fwd_by_div (\<lambda>t. t + 400000000)) [1000000000, 2700000000] (hrt_start 0) = Some s \<and>
      expires s = 3500000000 \<and> fired s = [2700000000, 1000000000]"
    by (simp add: hrt_fire_def hrt_start_def ktime_set_def fwd_by_div_def)
  then obtain s where s: "fires (hrt_fire fwd_by_div (\<lambda>t. t + 400000000)) [1000000000, 2700000000] (hrt_start 0) = Some s"
    "expires s = 3500000000" "fired s = [2700000000, 1000000000]" by blast
  then show ?thesis using hrt_keeps_grid [OF s(1) fwd_by_div_ok] by auto
qed

end
