(* ===== verification/Allocations.thy ===== *)
theory Allocations
  imports LddPrelude
begin

section \<open>Memory allocation: 008\_dynamic\_memalloc\<close>

text \<open>
  \<open>kmalloc.c\<close> and \<open>vmalloc.c\<close> allocate and free while they are loaded. Whether a call gets memory
  is the argument \<open>ok\<close>, by the number of the call; the blocks allocated are the list of these
  numbers. Freeing a block that is not allocated is \<open>None\<close>. Printed addresses are left out.
\<close>

type_synonym blocks = "nat list"

definition mfree :: "nat \<Rightarrow> blocks \<Rightarrow> blocks option" where
  "mfree b h = (if b \<in> set h then Some (remove1 b h) else None)"

text \<open>The result code, the four bytes printed of the zeroed block, and the blocks left.\<close>

definition kmalloc_init :: "(nat \<Rightarrow> bool) \<Rightarrow> blocks \<Rightarrow> (errno option \<times> byte list \<times> blocks) option" where
  "kmalloc_init ok h =
     (if \<not> ok 0 then Some (Some ENOMEM, [], h)
      else do {
        h \<leftarrow> mfree 0 (0 # h);
        if \<not> ok 1 then Some (Some ENOMEM, [], h)
        else do {
          h \<leftarrow> mfree 1 (1 # h);
          if \<not> ok 2 then Some (Some ENOMEM, [], h)
          else do {
            let buffer = replicate 256 0;
            first4 \<leftarrow> mem_read buffer 0 4;
            h \<leftarrow> mfree 2 (2 # h);
            h \<leftarrow> (if ok 3 then mfree 3 (3 # h) else Some h);
            h \<leftarrow> (if ok 4 then mfree 4 (4 # h) else Some h);
            Some (None, first4, h)
          }
        }
      })"

definition kmalloc_exit :: "blocks \<Rightarrow> blocks" where "kmalloc_exit h = h"

definition vmalloc_init :: "(nat \<Rightarrow> bool) \<Rightarrow> blocks \<Rightarrow> (errno option \<times> blocks) option" where
  "vmalloc_init ok h =
     (if \<not> ok 0 then Some (Some ENOMEM, h)
      else do {
        h \<leftarrow> mfree 0 (0 # h);
        if \<not> ok 1 then Some (Some ENOMEM, h)
        else do { h \<leftarrow> mfree 1 (1 # h); Some (None, h) }
      })"

definition test_vmalloc_exit :: "blocks \<Rightarrow> blocks" where "test_vmalloc_exit h = h"

lemma mfree_top [simp]: "mfree b (b # h) = Some h"
  by (simp add: mfree_def)

text \<open>
  Whichever calls fail, all memory is free again; loading fails exactly if one of the calls that
  are checked does. \<open>kmalloc\<close> for interrupt context and of no bytes may fail.
\<close>

lemma kmalloc_init_run:
  "kmalloc_init ok h = Some (if ok 0 \<and> ok 1 \<and> ok 2 then (None, [0, 0, 0, 0], h) else (Some ENOMEM, [], h))"
  by (simp add: kmalloc_init_def mem_read_def numeral_eq_Suc)

lemma vmalloc_init_run: "vmalloc_init ok h = Some (if ok 0 \<and> ok 1 then None else Some ENOMEM, h)"
  by (simp add: vmalloc_init_def)

end
