(* ===== verification/PlatformBus.thy ===== *)
theory PlatformBus
  imports LddPrelude
begin

section \<open>A platform device and its driver: 015\_platform\_driver\_demo\<close>

text \<open>
  \<open>plt_dvc.c\<close> registers a platform device, \<open>plt_drv.c\<close> a platform driver for devices of its name.
  The bus is kernel code: \<open>matches\<close> is its comparison of the name of a driver with that of a
  device; it calls \<open>probe\<close> when a driver and a device that match are both registered, and
  \<open>remove\<close> before one of them goes. \<open>pcalls\<close> has what the two callbacks log.
\<close>

datatype pcall = Probed string | Removed string

record pbus =
  dev_registered :: bool
  drv_registered :: bool
  is_bound :: bool
  pcalls :: "pcall list"

definition my_pdev_name :: string where "my_pdev_name = ''myplatformdev''"
definition my_platform_driver_name :: string where "my_platform_driver_name = ''myplatformdev''"

definition my_probe :: "string \<Rightarrow> pbus \<Rightarrow> pbus \<times> int" where
  "my_probe name s = (s\<lparr>pcalls := pcalls s @ [Probed name]\<rparr>, 0)"

definition my_remove :: "string \<Rightarrow> pbus \<Rightarrow> pbus \<times> int" where
  "my_remove name s = (s\<lparr>pcalls := pcalls s @ [Removed name]\<rparr>, 0)"

subsection \<open>The bus\<close>

definition attach :: "(string \<Rightarrow> string \<Rightarrow> bool) \<Rightarrow> pbus \<Rightarrow> pbus" where
  "attach matches s =
     (if dev_registered s \<and> drv_registered s \<and> matches my_platform_driver_name my_pdev_name
      then (case my_probe my_pdev_name s of (s, r) \<Rightarrow> if r = 0 then s\<lparr>is_bound := True\<rparr> else s)
      else s)"

definition detach :: "pbus \<Rightarrow> pbus" where
  "detach s = (if is_bound s then (fst (my_remove my_pdev_name s))\<lparr>is_bound := False\<rparr> else s)"

subsection \<open>Loading and unloading\<close>

text \<open>The argument \<open>r\<close> is the error of the registration, if it fails.\<close>

definition pdrv_init :: "(string \<Rightarrow> string \<Rightarrow> bool) \<Rightarrow> errno option \<Rightarrow> pbus \<Rightarrow> errno option \<times> pbus" where
  "pdrv_init matches r s =
     (case r of Some e \<Rightarrow> (Some e, s) | None \<Rightarrow> (None, attach matches (s\<lparr>drv_registered := True\<rparr>)))"

definition pdrv_exit :: "pbus \<Rightarrow> pbus" where
  "pdrv_exit s = (detach s)\<lparr>drv_registered := False\<rparr>"

definition pdev_init :: "(string \<Rightarrow> string \<Rightarrow> bool) \<Rightarrow> errno option \<Rightarrow> pbus \<Rightarrow> errno option \<times> pbus" where
  "pdev_init matches r s =
     (case r of Some e \<Rightarrow> (Some e, s) | None \<Rightarrow> (None, attach matches (s\<lparr>dev_registered := True\<rparr>)))"

definition pdev_exit :: "pbus \<Rightarrow> pbus" where
  "pdev_exit s = (detach s)\<lparr>dev_registered := False\<rparr>"

datatype pbus_event = LoadDrv "errno option" | UnloadDrv | LoadDev "errno option" | UnloadDev

text \<open>A module is loaded when it is not, and unloaded when it is.\<close>

fun pbus_step :: "(string \<Rightarrow> string \<Rightarrow> bool) \<Rightarrow> pbus_event \<Rightarrow> pbus \<Rightarrow> pbus" where
  "pbus_step matches (LoadDrv r) s = (if drv_registered s then s else snd (pdrv_init matches r s))"
| "pbus_step matches UnloadDrv s = (if drv_registered s then pdrv_exit s else s)"
| "pbus_step matches (LoadDev r) s = (if dev_registered s then s else snd (pdev_init matches r s))"
| "pbus_step matches UnloadDev s = (if dev_registered s then pdev_exit s else s)"

definition pbus_run :: "(string \<Rightarrow> string \<Rightarrow> bool) \<Rightarrow> pbus_event list \<Rightarrow> pbus \<Rightarrow> pbus" where
  "pbus_run matches es s = fold (pbus_step matches) es s"

definition pbus_fresh :: pbus where
  "pbus_fresh = \<lparr>dev_registered = False, drv_registered = False, is_bound = False, pcalls = []\<rparr>"

subsection \<open>Invariant\<close>

definition bind_pairs :: "nat \<Rightarrow> pcall list" where
  "bind_pairs n = concat (replicate n [Probed my_pdev_name, Removed my_pdev_name])"

definition pbus_inv :: "pbus \<Rightarrow> bool" where
  "pbus_inv s \<longleftrightarrow> (is_bound s \<longleftrightarrow> dev_registered s \<and> drv_registered s) \<and>
     (\<exists>n. pcalls s = bind_pairs n @ (if is_bound s then [Probed my_pdev_name] else []))"

lemma bind_pairs_Suc: "bind_pairs n @ [Probed my_pdev_name, Removed my_pdev_name] = bind_pairs (Suc n)"
  by (induction n) (simp_all add: bind_pairs_def)

lemma attach_inv:
  assumes "matches my_platform_driver_name my_pdev_name" and "\<not> is_bound s" and "\<exists>n. pcalls s = bind_pairs n"
  shows "pbus_inv (attach matches s)"
  using assms by (auto simp: attach_def my_probe_def pbus_inv_def)

lemma detach_inv:
  assumes "pbus_inv s"
  shows "\<not> is_bound (detach s) \<and> (\<exists>n. pcalls (detach s) = bind_pairs n)"
  using assms bind_pairs_Suc by (auto simp: detach_def my_remove_def pbus_inv_def)

lemma pbus_step_inv:
  assumes "matches my_platform_driver_name my_pdev_name" and "pbus_inv s"
  shows "pbus_inv (pbus_step matches e s)"
proof (cases e)
  case (LoadDrv r)
  have "pbus_inv (attach matches (s\<lparr>drv_registered := True\<rparr>))" if "\<not> drv_registered s"
    using assms that by (intro attach_inv) (auto simp: pbus_inv_def)
  then show ?thesis using assms(2) LoadDrv by (auto simp: pdrv_init_def split: option.split)
next
  case (LoadDev r)
  have "pbus_inv (attach matches (s\<lparr>dev_registered := True\<rparr>))" if "\<not> dev_registered s"
    using assms that by (intro attach_inv) (auto simp: pbus_inv_def)
  then show ?thesis using assms(2) LoadDev by (auto simp: pdev_init_def split: option.split)
qed (use assms(2) detach_inv [OF assms(2)] in \<open>auto simp: pdrv_exit_def pdev_exit_def pbus_inv_def\<close>)

lemma pbus_run_inv:
  "matches my_platform_driver_name my_pdev_name \<Longrightarrow> pbus_inv s \<Longrightarrow> pbus_inv (pbus_run matches es s)"
  unfolding pbus_run_def by (induction es arbitrary: s) (simp_all add: pbus_step_inv)

subsection \<open>Properties\<close>

text \<open>Device and driver are bound exactly while both modules are loaded, whichever came first and
  whatever failed before: over any sequence of loads and unloads every probe is followed by
  one remove before the next.\<close>

theorem platform_binding:
  assumes "matches my_platform_driver_name my_pdev_name"
  defines "s es \<equiv> pbus_run matches es pbus_fresh"
  shows "(is_bound (s es) \<longleftrightarrow> dev_registered (s es) \<and> drv_registered (s es)) \<and>
     (\<exists>n. pcalls (s es) = bind_pairs n @ (if is_bound (s es) then [Probed my_pdev_name] else []))"
proof -
  have "pbus_inv pbus_fresh" by (simp add: pbus_inv_def pbus_fresh_def bind_pairs_def exI [of _ 0])
  then have "pbus_inv (s es)" unfolding s_def by (rule pbus_run_inv [of matches, OF assms(1)])
  then show ?thesis unfolding pbus_inv_def .
qed

theorem platform_binding_witness:
  "is_bound (pbus_run (=) [LoadDev None, LoadDrv (Some ENOMEM), LoadDrv None, UnloadDev, LoadDev None] pbus_fresh) \<and>
   dev_registered (pbus_run (=) [LoadDev None, LoadDrv (Some ENOMEM), LoadDrv None, UnloadDev, LoadDev None] pbus_fresh)"
proof -
  let ?s = "pbus_run (=) [LoadDev None, LoadDrv (Some ENOMEM), LoadDrv None, UnloadDev, LoadDev None] pbus_fresh"
  have "dev_registered ?s \<and> drv_registered ?s"
    by (simp add: pbus_run_def pbus_fresh_def pdrv_init_def pdev_init_def pdev_exit_def attach_def detach_def
        my_probe_def my_remove_def my_pdev_name_def my_platform_driver_name_def)
  then show ?thesis using platform_binding [of "(=)"] by (simp add: my_pdev_name_def my_platform_driver_name_def)
qed

end
