(* ===== verification/DeviceTree.thy ===== *)
theory DeviceTree
  imports PlatformSensor
begin

section \<open>Sensors bound through the device tree: 017\_platform\_sys\_dt, 018\_pltdrv\_dt\_ofread\<close>

text \<open>
  The drivers of 017 and 018 have a table of compatible strings; the kernel probes them for the
  nodes of the device tree that match, and each directory comes with an overlay (\<open>temp_sens.dts\<close>)
  and a program. This theory puts the three together: the node of the overlay, the probe it leads
  to, and the program with the paths it has.

  Kernel code is an argument, with what is documented of it. \<open>of_matches\<close> compares a table with a
  node. \<open>of_ok\<close>: reading a property that the node does not have is an error, and the cells of one
  it has are read as they are. \<open>of_tree\<close>: the device made for a node with an address is
  called by the address in hexadecimal, a dot and the name of the node (\<open>of_device_make_bus_id\<close>), and
  its attributes are below that name.
\<close>

record dt_node =
  node_name :: string
  compatible :: string
  dt_address :: "(size_t \<times> size_t) option"
  dt_cells :: "string \<Rightarrow> cint list option"

text \<open>The node of the two overlays, which are the same file.\<close>

definition overlay_sensor :: dt_node where
  "overlay_sensor = \<lparr>node_name = ''sensor'', compatible = ''temp-sensor,anis'',
     dt_address = Some (0x50000000, 0x1000), dt_cells = [''reg'' \<mapsto> [0x50000000, 0x1000]]\<rparr>"

definition sensor_of_match_017 :: "string list" where "sensor_of_match_017 = [''temp-sensor,anis'']"
definition sensor_of_match_018 :: "string list" where "sensor_of_match_018 = [''temp-sensor,anis'']"

definition of_ok :: "of_node \<Rightarrow> dt_node \<Rightarrow> bool" where
  "of_ok np n \<longleftrightarrow>
     (\<forall>p i. of_index np p i = (case dt_cells n p of Some cs \<Rightarrow> if i < length cs then Some (cs ! i) else None | None \<Rightarrow> None)) \<and>
     (\<forall>p. of_u32 np p = (case dt_cells n p of Some (c # cs) \<Rightarrow> Some c | _ \<Rightarrow> None))"

definition of_read :: "dt_node \<Rightarrow> of_node" where
  "of_read n = \<lparr>of_index = (\<lambda>p i. case dt_cells n p of Some cs \<Rightarrow> if i < length cs then Some (cs ! i) else None | None \<Rightarrow> None),
     of_u32 = (\<lambda>p. case dt_cells n p of Some (c # cs) \<Rightarrow> Some c | _ \<Rightarrow> None)\<rparr>"

lemma of_read_ok: "of_ok (of_read n) n"
  by (simp add: of_ok_def of_read_def)

text \<open>The resource of the platform device made for a node: its address and size.\<close>

definition of_resource :: "dt_node \<Rightarrow> resource option" where
  "of_resource n = map_option (\<lambda>(a, s). \<lparr>res_start = a, res_end = a + s - 1\<rparr>) (dt_address n)"

subsection \<open>017: the routines of 016\<close>

definition temp_show_017 :: "sensor_sys \<Rightarrow> (byte list \<times> ret) option" where
  "temp_show_017 = temp_show"

definition control_store_017 :: "kstrtouint \<Rightarrow> byte list \<Rightarrow> size_t \<Rightarrow> sensor_sys \<Rightarrow> (sensor_sys \<times> ret) option" where
  "control_store_017 = control_store"

definition sensor_probe_017 :: "sensor_env \<Rightarrow> sensor_sys \<times> held \<Rightarrow> errno option \<times> sensor_sys \<times> held" where
  "sensor_probe_017 = sensor_probe"

definition sensor_remove_017 :: "held \<Rightarrow> held" where
  "sensor_remove_017 = sensor_remove"

subsection \<open>The programs of 017 and 018\<close>

definition SYSFS_TEMP_PATH_017 :: string where
  "SYSFS_TEMP_PATH_017 = ''/sys/devices/platform/sensor_driver/temp''"

definition SYSFS_CONTROL_PATH_017 :: string where
  "SYSFS_CONTROL_PATH_017 = ''/sys/devices/platform/sensor_driver/control''"

definition sensor_app_017 ::
  "sysfs_env \<Rightarrow> kstrtouint \<Rightarrow> byte list \<Rightarrow> ((nat \<Rightarrow> cint) \<Rightarrow> nat \<Rightarrow> cint) \<Rightarrow> sensor_sys \<Rightarrow> (int \<times> app_line list \<times> sensor_sys) option" where
  "sensor_app_017 e k stack hw s = sensor_app_with e k stack hw SYSFS_TEMP_PATH_017 SYSFS_CONTROL_PATH_017 s"

text \<open>
  The program of 018 meets the driver of 018, whose data are another record: \<open>dt_sys\<close> has what the
  attributes \<open>temp\<close> and \<open>control\<close> look at, and they do the same with it as those of 016.
\<close>

definition SYSFS_TEMP_PATH_018 :: string where
  "SYSFS_TEMP_PATH_018 = ''/sys/devices/platform/sensor_driver/temp''"

definition SYSFS_CONTROL_PATH_018 :: string where
  "SYSFS_CONTROL_PATH_018 = ''/sys/devices/platform/sensor_driver/control''"

definition dt_sys :: "sensor_dt option \<Rightarrow> (nat \<Rightarrow> cint) \<Rightarrow> sensor_sys" where
  "dt_sys d r = \<lparr>drvdata = map_option (\<lambda>p. \<lparr>mem_res = \<lparr>res_start = 0, res_end = 0\<rparr>, base_addr = dt_base p, control_value = dt_control p\<rparr>) d,
     regs = r\<rparr>"

definition sensor_app_018 ::
  "sysfs_env \<Rightarrow> kstrtouint \<Rightarrow> byte list \<Rightarrow> ((nat \<Rightarrow> cint) \<Rightarrow> nat \<Rightarrow> cint) \<Rightarrow> sensor_dt option \<Rightarrow> (nat \<Rightarrow> cint) \<Rightarrow>
     (int \<times> app_line list \<times> sensor_sys) option" where
  "sensor_app_018 e k stack hw d r = sensor_app_with e k stack hw SYSFS_TEMP_PATH_018 SYSFS_CONTROL_PATH_018 (dt_sys d r)"

lemma attributes_018:
  "temp_show_dt d r = temp_show (dt_sys d r)"
  "map_option (\<lambda>(d, r, ret). (dt_sys d r, ret)) (control_store_dt k buf count d r) = control_store k buf count (dt_sys d r)"
  by (cases d; auto simp: temp_show_dt_def temp_show_def control_store_dt_def control_store_def dt_sys_def iowrite32_def
      split: sum.split)+

subsection \<open>Probing for the node of the overlay\<close>

text \<open>The driver core: a node that the table matches is probed. (None: not probed.)\<close>

definition probe_017 ::
  "(string list \<Rightarrow> dt_node \<Rightarrow> bool) \<Rightarrow> sensor_env \<Rightarrow> dt_node \<Rightarrow> sensor_sys \<times> held \<Rightarrow> (errno option \<times> sensor_sys \<times> held) option" where
  "probe_017 of_matches env n st = (if of_matches sensor_of_match_017 n then Some (sensor_probe_017 env st) else None)"

definition probe_018 ::
  "(string list \<Rightarrow> dt_node \<Rightarrow> bool) \<Rightarrow> sensor_env \<Rightarrow> of_node \<Rightarrow> dt_node \<Rightarrow> sensor_dt option \<times> held \<Rightarrow>
     (errno option \<times> sensor_dt option \<times> held) option" where
  "probe_018 of_matches env np n st = (if of_matches sensor_of_match_018 n then Some (sensor_probe_dt env np st) else None)"

definition compatible_in :: "string list \<Rightarrow> dt_node \<Rightarrow> bool" where
  "compatible_in tbl n \<longleftrightarrow> compatible n \<in> set tbl"

text \<open>The attributes of the device made for a node.\<close>

definition of_tree :: "(size_t \<Rightarrow> string) \<Rightarrow> sysfs_env \<Rightarrow> dt_node \<Rightarrow> held \<Rightarrow> bool" where
  "of_tree hex e n h \<longleftrightarrow> (\<forall>p a. sy_path e p = Some a \<longleftrightarrow> AttrFile 0 a \<in> set h \<and>
     (\<exists>b s. dt_address n = Some (b, s) \<and> p = ''/sys/devices/platform/'' @ hex b @ ''.'' @ node_name n @ ''/'' @ a))"

lemma probe_dt_needs_my_reg:
  assumes "of_index np ''my-reg'' 0 = None \<or> of_index np ''my-reg'' 1 = None"
  shows "sensor_probe_dt env np (d, h) = (Some (if kzalloc_ok env then EINVAL else ENOMEM), d, h)"
  using assms by (auto simp: sensor_probe_dt_def split: option.split)

text \<open>A node with the properties that the driver of 018 asks for is bound.\<close>

lemma probe_dt_binds:
  assumes "kzalloc_ok env" and "of_index np ''my-reg'' 0 = Some b" and "of_index np ''my-reg'' 1 = Some n"
    and "ioremap env (ucast b) (ucast n) = Some m"
  shows "sensor_probe_dt env np (d, h) =
    (None, Some \<lparr>dt_base = m, dt_control = 0, dt_threshold = (case of_u32 np ''threshold'' of Some t \<Rightarrow> t | None \<Rightarrow> 0)\<rparr>,
     acquire (create_file env) (AttrFile 0 ''threshold'')
       (acquire (create_file env) (AttrFile 0 ''control'') (acquire (create_file env) (AttrFile 0 ''temp'') h)))"
  using assms by (simp add: sensor_probe_dt_def Let_def)

lemma probe_dt_remove:
  assumes "sensor_probe_dt env np (d0, h0) = (None, d, h)"
    and "AttrFile 0 ''temp'' \<notin> set h0" and "AttrFile 0 ''control'' \<notin> set h0" and "AttrFile 0 ''threshold'' \<notin> set h0"
  shows "sensor_remove_dt h = h0"
  using assms by (auto simp: sensor_probe_dt_def sensor_remove_dt_def acquire_def remove1_idem Let_def split: if_splits option.splits)

text \<open>The paths of 017 are those of the device of 016.\<close>

lemma paths_017_lead_to_016:
  assumes "platform_tree dev_name e h" and "AttrFile 0 ''temp'' \<in> set h" and "AttrFile 0 ''control'' \<in> set h"
  shows "sy_path e SYSFS_TEMP_PATH_017 = Some ''temp''" and "sy_path e SYSFS_CONTROL_PATH_017 = Some ''control''"
  using assms
  by (simp_all add: platform_tree_def PLATFORM_DRIVER_NAME_def DEVICE_ID_def SYSFS_TEMP_PATH_017_def SYSFS_CONTROL_PATH_017_def)

subsection \<open>Properties\<close>

text \<open>C22: The device of 016, bound by its driver with both attributes created, and the two programs that
  look for it below \<open>/sys/devices/platform\<close>. The program of 016 looks in a directory that does not
  exist: it reports both failures and changes nothing. The program of 017 has the right paths:
  it prints the value of the temperature register, exactly, for all values of 32 bits (the text
  of \<open>temp_show\<close> is read back by \<open>strtoul\<close>), and leaves \<open>0xDEAD\<close> in the control register; and its
  \<open>write_control\<close> carries every value of 32 bits exactly into that register.\<close>

theorem sensor_registers_roundtrip:
  assumes "sensor_probe env (s0, h0) = (None, s, h)" and "ioremap_ok env"
    and "get_resource env = Some mr" and "8 \<le> unat (res_end mr - res_start mr + 1)"
    and "platform_tree dev_name e h" and "AttrFile 0 ''temp'' \<in> set h" and "AttrFile 0 ''control'' \<in> set h"
    and "sysfs_ok e" and "kstrtouint_ok k" and "length stack = 32"
  shows "sensor_app_main e k stack hw s = Some (0, [ReadFailed, Writing 0xDEAD, WriteFailed], s\<lparr>regs := hw (regs s)\<rparr>) \<and>
     (\<exists>s'. sensor_app_017 e k stack hw s =
        Some (0, [Value (regs s0 0), Writing 0xDEAD, Value (hw ((regs s0)(4 := 0xDEAD)) 0)], s') \<and>
      map_option control_value (drvdata s') = Some 0xDEAD) \<and>
     (\<forall>v. \<exists>s'. write_control e k stack SYSFS_CONTROL_PATH_017 v s = Some (0, s') \<and> regs s' = (regs s0)(4 := v) \<and>
        map_option control_value (drvdata s') = Some v)"
proof (intro conjI allI)
  have b: "bound s" and r: "regs s = regs s0" using sensor_probe_bound [OF assms(1-4)] by simp_all
  note paths = paths_017_lead_to_016 [OF assms(5-7)]
  show "sensor_app_main e k stack hw s = Some (0, [ReadFailed, Writing 0xDEAD, WriteFailed], s\<lparr>regs := hw (regs s)\<rparr>)"
    by (rule sensor_016_app_misses_device [OF assms(5)])
  show "\<exists>s'. sensor_app_017 e k stack hw s =
        Some (0, [Value (regs s0 0), Writing 0xDEAD, Value (hw ((regs s0)(4 := 0xDEAD)) 0)], s') \<and>
      map_option control_value (drvdata s') = Some 0xDEAD"
    using sensor_app_reaches [OF b assms(8) paths assms(9,10)] by (simp add: sensor_app_017_def r)
  obtain d where d: "drvdata s = Some d" "8 \<le> unat (io_size (base_addr d))" using b by (auto simp: bound_def)
  show "\<exists>s'. write_control e k stack SYSFS_CONTROL_PATH_017 v s = Some (0, s') \<and> regs s' = (regs s0)(4 := v) \<and>
      map_option control_value (drvdata s') = Some v" for v
    using write_control_run [OF d assms(8) paths(2) assms(10,9), of v] by (simp add: r)
qed

theorem sensor_registers_roundtrip_witness:
  "\<exists>s h s'. sensor_probe demo_env (\<lparr>drvdata = None, regs = (\<lambda>_. 4294967295)\<rparr>, []) = (None, s, h) \<and>
     sensor_app_main (demo_sysfs h) decimal_kstrtouint (replicate 32 7) (\<lambda>r. r(0 := 21)) s =
       Some (0, [ReadFailed, Writing 0xDEAD, WriteFailed], s\<lparr>regs := (regs s)(0 := 21)\<rparr>) \<and>
     sensor_app_017 (demo_sysfs h) decimal_kstrtouint (replicate 32 7) (\<lambda>r. r(0 := 21)) s =
       Some (0, [Value 4294967295, Writing 0xDEAD, Value 21], s')"
proof -
  let ?st = "(\<lparr>drvdata = None, regs = (\<lambda>_. 4294967295)\<rparr>, [])"
  let ?h = "[AttrFile 0 ''control'', AttrFile 0 ''temp'']"
  obtain s where p: "sensor_probe demo_env ?st = (None, s, ?h)"
    by (simp add: sensor_probe_def demo_env_def acquire_def api_ok_def)
  have "get_resource demo_env = Some sensor_resources" by (simp add: demo_env_def)
  moreover have "8 \<le> unat (res_end sensor_resources - res_start sensor_resources + 1)"
    by (simp add: sensor_resources_def)
  ultimately show ?thesis
    using sensor_registers_roundtrip [OF p demo_env_ok _ _ demo_tree _ _ demo_sysfs_ok decimal_kstrtouint_ok, of sensor_resources
        "replicate 32 7" "\<lambda>r. r(0 := 21)"] p by fastforce
qed

text \<open>C31: The driver of 018 rejects the device tree it comes with: its probe asks for the property
  \<open>my-reg\<close>, the overlay has \<open>reg\<close>. Whatever the other calls do, the probe fails without having
  created an attribute, and the program reports that nothing could be read or written (with
  exit code 0).\<close>

theorem overlay_018_rejected:
  assumes "of_ok np overlay_sensor" and "probe_018 of_matches env np overlay_sensor (None, []) = Some (r, d, h)"
    and "of_tree hex e overlay_sensor h"
  shows "r = Some (if kzalloc_ok env then EINVAL else ENOMEM) \<and> d = None \<and> h = [] \<and>
     sensor_app_018 e k stack hw d rs = Some (0, [ReadFailed, Writing 0xDEAD, WriteFailed], dt_sys None (hw rs))"
proof -
  have "of_index np ''my-reg'' 0 = None" using assms(1) by (simp add: of_ok_def overlay_sensor_def)
  then have p: "r = Some (if kzalloc_ok env then EINVAL else ENOMEM)" "d = None" "h = []"
    using assms(2) probe_dt_needs_my_reg [of np env None "[]"] by (auto simp: probe_018_def split: if_splits)
  have "sy_path e q = None" for q
    using assms(3) p(3) by (cases "sy_path e q") (auto simp: of_tree_def)
  then show ?thesis using p by (simp add: sensor_app_018_def app_misses dt_sys_def)
qed

definition no_sysfs :: sysfs_env where
  "no_sysfs = \<lparr>sy_path = (\<lambda>p. None), sy_read = (\<lambda>t n. take n t), sy_page = (\<lambda>t. t)\<rparr>"

theorem overlay_018_rejected_witness:
  "probe_018 compatible_in demo_env (of_read overlay_sensor) overlay_sensor (None, []) = Some (Some EINVAL, None, []) \<and>
   sensor_app_018 no_sysfs decimal_kstrtouint (replicate 32 0) id None (\<lambda>i. 7) =
     Some (0, [ReadFailed, Writing 0xDEAD, WriteFailed], dt_sys None (\<lambda>i. 7))"
proof -
  have c: "compatible_in sensor_of_match_018 overlay_sensor"
    by (simp add: compatible_in_def sensor_of_match_018_def overlay_sensor_def)
  obtain r d h where p: "probe_018 compatible_in demo_env (of_read overlay_sensor) overlay_sensor (None, []) = Some (r, d, h)"
    using c by (cases "sensor_probe_dt demo_env (of_read overlay_sensor) (None, [])") (simp add: probe_018_def)
  have "h = []" using p probe_dt_needs_my_reg [of "of_read overlay_sensor" demo_env None "[]"] c
    by (simp add: probe_018_def of_read_def overlay_sensor_def)
  then have t: "of_tree (\<lambda>b. []) no_sysfs overlay_sensor h" by (simp add: of_tree_def no_sysfs_def)
  show ?thesis using overlay_018_rejected [OF of_read_ok p t, of decimal_kstrtouint "replicate 32 0" id "\<lambda>i. 7"] p
    by (auto simp: demo_env_def)
qed

text \<open>The driver of 017 binds to the overlay and maps the registers it names, but its program
  looks for the device under the name of the driver, and a device made from the tree is named
  by its address: the program finds nothing there either.\<close>

theorem overlay_017_bound_not_found:
  assumes "probe_017 of_matches env overlay_sensor (s0, []) = Some (None, s, h)"
    and "get_resource env = of_resource overlay_sensor" and "ioremap_ok env"
    and "of_tree hex e overlay_sensor h" and "hex 0x50000000 = ''50000000''"
  shows "(\<exists>d. drvdata s = Some d \<and> io_base (base_addr d) = 0x50000000 \<and> io_size (base_addr d) = 0x1000) \<and>
     sensor_app_017 e k stack hw s = Some (0, [ReadFailed, Writing 0xDEAD, WriteFailed], s\<lparr>regs := hw (regs s)\<rparr>)"
proof
  have r: "get_resource env = Some \<lparr>res_start = 0x50000000, res_end = 0x50000FFF\<rparr>"
    using assms(2) by (simp add: of_resource_def overlay_sensor_def)
  show "\<exists>d. drvdata s = Some d \<and> io_base (base_addr d) = 0x50000000 \<and> io_size (base_addr d) = 0x1000"
    using assms(1,3) r by (auto simp: probe_017_def sensor_probe_017_def sensor_probe_def ioremap_ok_def split: if_splits option.splits)
  have "sy_path e p = Some a \<Longrightarrow> p = ''/sys/devices/platform/50000000.sensor/'' @ a" for p a
    using assms(4,5) by (simp add: of_tree_def overlay_sensor_def)
  then have "sy_path e SYSFS_TEMP_PATH_017 \<noteq> Some a" and "sy_path e SYSFS_CONTROL_PATH_017 \<noteq> Some a" for a
    by (fastforce simp: SYSFS_TEMP_PATH_017_def SYSFS_CONTROL_PATH_017_def)+
  then have "sy_path e SYSFS_TEMP_PATH_017 = None" and "sy_path e SYSFS_CONTROL_PATH_017 = None" by auto
  then show "sensor_app_017 e k stack hw s = Some (0, [ReadFailed, Writing 0xDEAD, WriteFailed], s\<lparr>regs := hw (regs s)\<rparr>)"
    by (simp add: sensor_app_017_def app_misses)
qed

end
