(* ===== verification/MinorDevices.thy ===== *)
theory MinorDevices
  imports KernelResources
begin

section \<open>Several minors behind one cdev: 009\_multi\_chardev/driver.c\<close>

text \<open>
  One cdev serves five device numbers, and a device is created for each. The file does not
  compile: two objects have two names each (\<open>my_class\<close> and \<open>rw_class\<close>, \<open>my_cdev\<close> and \<open>rw_cdev\<close>),
  \<open>Dev_Count\<close> is also written \<open>Dev_count\<close>, and a semicolon is missing. The model reads each pair as
  one object. No result is looked at. \<open>class_create\<close> returns an error pointer when it fails, and
  creating a device with that is \<open>None\<close>; a number region that was not obtained leaves the
  numbers of \<open>devt\<close> at 0, and adding the cdev then claims numbers that belong to others: \<open>None\<close> too.
\<close>

definition Dev_Count :: nat where "Dev_Count = 5"

definition rw_read :: "size_t \<Rightarrow> loff_t \<Rightarrow> loff_t \<times> byte list \<times> ret" where
  "rw_read len pos = (pos, [], Inr 0)"

definition rw_write :: "size_t \<Rightarrow> loff_t \<Rightarrow> loff_t \<times> ret" where
  "rw_write len pos = (pos, Inr 0)"

definition rw_open :: int where "rw_open = 0"
definition rw_release :: int where "rw_release = 0"

fun minors_create :: "kapi \<Rightarrow> nat \<Rightarrow> nat \<Rightarrow> held \<Rightarrow> held" where
  "minors_create api 0 i h = h"
| "minors_create api (Suc k) i h = minors_create api k (Suc i) (acquire api (Device i) h)"

definition dev_init_minors :: module_init where
  "dev_init_minors api h =
     (if api Region \<noteq> None \<or> api Class \<noteq> None then None
      else Some (None, minors_create api Dev_Count 0 (acquire api (Cdev 0) (Class # Region # h))))"

text \<open>\<open>device_destroy\<close> does nothing for a number that has no device; \<open>cdev_del\<close> of a cdev that was never
  added is \<open>None\<close>.\<close>

fun minors_destroy :: "nat \<Rightarrow> nat \<Rightarrow> held \<Rightarrow> held" where
  "minors_destroy 0 i h = h"
| "minors_destroy (Suc k) i h = minors_destroy k (Suc i) (remove1 (Device i) h)"

definition dev_exit_minors :: module_exit where
  "dev_exit_minors h = release_list [Class, Cdev 0, Region] (minors_destroy Dev_Count 0 h)"

text \<open>The devices that were created, the latest first, and that the exit finds exactly those.\<close>

fun created :: "kapi \<Rightarrow> nat \<Rightarrow> nat \<Rightarrow> held" where
  "created api 0 i = []"
| "created api (Suc k) i = created api k (Suc i) @ (if api (Device i) = None then [Device i] else [])"

definition minors_created :: "kapi \<Rightarrow> held" where
  "minors_created api = created api Dev_Count 0"

lemma create_run: "minors_create api k i h = created api k i @ h"
  by (induction k arbitrary: i h) (simp_all add: acquire_def)

lemma created_from: "d \<in> set (created api k i) \<Longrightarrow> \<exists>j \<ge> i. d = Device j"
proof (induction k arbitrary: i)
  case (Suc k)
  then show ?case by (auto split: if_splits) (meson Suc_leD Suc.IH)
qed simp

lemma destroy_run: "\<forall>j. Device j \<notin> set h \<Longrightarrow> minors_destroy k i (created api k i @ h) = h"
proof (induction k arbitrary: i)
  case (Suc k)
  have "Device i \<notin> set (created api k (Suc i))" using created_from [of "Device i" api k "Suc i"] by auto
  then show ?case using Suc by (simp add: remove1_append remove1_idem)
qed simp

lemma minors_create_run: "minors_create api Dev_Count 0 h = minors_created api @ h"
  by (simp add: minors_created_def create_run)

lemma minors_destroy_run: "\<forall>j. Device j \<notin> set h \<Longrightarrow> minors_destroy Dev_Count 0 (minors_created api @ h) = h"
  by (simp add: minors_created_def destroy_run)

subsection \<open>What loading and unloading come to\<close>

theorem minors_load_unload:
  assumes "\<forall>j. Device j \<notin> set h"
  shows "dev_init_minors api h =
       (if api Region = None \<and> api Class = None
        then Some (None, minors_created api @ acquire api (Cdev 0) (Class # Region # h)) else None)"
    and "api (Cdev 0) = None \<Longrightarrow> dev_exit_minors (minors_created api @ Cdev 0 # Class # Region # h) = Some h"
    and "api (Cdev 0) \<noteq> None \<Longrightarrow> Cdev 0 \<notin> set h \<Longrightarrow> dev_exit_minors (minors_created api @ Class # Region # h) = None"
proof -
  show "dev_init_minors api h =
       (if api Region = None \<and> api Class = None
        then Some (None, minors_created api @ acquire api (Cdev 0) (Class # Region # h)) else None)"
    by (simp add: dev_init_minors_def minors_create_run)
  have "minors_destroy Dev_Count 0 (minors_created api @ Cdev 0 # Class # Region # h) = Cdev 0 # Class # Region # h"
    by (rule minors_destroy_run) (use assms in auto)
  then show "dev_exit_minors (minors_created api @ Cdev 0 # Class # Region # h) = Some h"
    by (simp add: dev_exit_minors_def release_def)
  have "minors_destroy Dev_Count 0 (minors_created api @ Class # Region # h) = Class # Region # h"
    by (rule minors_destroy_run) (use assms in auto)
  then show "dev_exit_minors (minors_created api @ Class # Region # h) = None" if "Cdev 0 \<notin> set h"
    using that by (simp add: dev_exit_minors_def release_def)
qed

text \<open>A write takes nothing, so a program that writes until all is written never comes to an end:
  \<open>n\<close> calls leave as much as there was.\<close>

fun write_calls :: "nat \<Rightarrow> size_t \<Rightarrow> loff_t \<Rightarrow> size_t" where
  "write_calls 0 left pos = left"
| "write_calls (Suc n) left pos =
     (if left = 0 then 0 else case rw_write left pos of (pos, Inr k) \<Rightarrow> write_calls n (left - k) pos | (pos, Inl e) \<Rightarrow> left)"

theorem write_never_done: "write_calls n left pos = left"
  by (induction n) (simp_all add: rw_write_def)

end
