(* ===== verification/AtomicRaces.thy ===== *)
theory AtomicRaces
  imports TempSensor LightDevice Interleaving
begin

section \<open>The modules with atomic variables, statement by statement\<close>

text \<open>
  \<open>004_temp_sens_atomic/temp_kernel.c\<close> and \<open>005_atomic_light/light_kernel.c\<close> have no lock: each access to
  one of their variables is atomic, a handler that makes several is not. Here the handlers of
  TempSensor and LightDevice run access by access in any number of processes.

  What is not a variable of the code: \<open>alerts\<close>, for each alert that was counted the temperature and
  the thresholds (high, low) in force when it was decided; \<open>states\<close>, \<open>brights\<close> and \<open>temps\<close>, the values
  that calls have asked for; \<open>shown\<close>, what reads have delivered.
\<close>

subsection \<open>004\<close>

record sensorc =
  sens :: temp_sensor
  alerts :: "(cint \<times> cint \<times> cint) list"

datatype tpc =
    TWrite uenv | TSetCurrent cint | THigh cint | TLow cint | TInc "cint \<times> cint \<times> cint"
  | TIoctl uenv cint | TSetHigh cint | TSetLow cint

fun temp_stmts :: "(sensorc, tpc) stmts" where
  "temp_stmts p (TWrite u) s =
     Next (s, if fst (ucfu u 4) \<noteq> 0 then None else Some (TSetCurrent (int_of_bytes (snd (ucfu u 4)))))"
| "temp_stmts p (TSetCurrent t) s = Next (s\<lparr>sens := (sens s)\<lparr>current_temp := t\<rparr>\<rparr>, Some (THigh t))"
| "temp_stmts p (THigh t) s =
     Next (s, Some (if sint (high_threshold (sens s)) < sint t
                    then TInc (t, high_threshold (sens s), low_threshold (sens s)) else TLow t))"
| "temp_stmts p (TLow t) s =
     Next (s, if sint t < sint (low_threshold (sens s))
              then Some (TInc (t, high_threshold (sens s), low_threshold (sens s))) else None)"
| "temp_stmts p (TInc a) s =
     Next (s\<lparr>sens := (sens s)\<lparr>alert_count := alert_count (sens s) + 1\<rparr>, alerts := alerts s @ [a]\<rparr>, None)"
| "temp_stmts p (TIoctl u cmd) s =
     Next (s,
       if cmd = TEMP_SET_HIGH \<and> fst (ucfu u 4) = 0 then Some (TSetHigh (int_of_bytes (snd (ucfu u 4))))
       else if cmd = TEMP_SET_LOW \<and> fst (ucfu u 4) = 0 then Some (TSetLow (int_of_bytes (snd (ucfu u 4))))
       else None)"
| "temp_stmts p (TSetHigh h) s = Next (s\<lparr>sens := (sens s)\<lparr>high_threshold := h\<rparr>\<rparr>, None)"
| "temp_stmts p (TSetLow l) s = Next (s\<lparr>sens := (sens s)\<lparr>low_threshold := l\<rparr>\<rparr>, None)"

fun temp_calls :: "tpc \<Rightarrow> bool" where
  "temp_calls (TWrite u) = True"
| "temp_calls (TIoctl u cmd) = True"
| "temp_calls pc = False"

definition outside :: "cint \<Rightarrow> cint \<Rightarrow> cint \<Rightarrow> bool" where
  "outside t h l \<longleftrightarrow> sint h < sint t \<or> sint t < sint l"

definition sensorc_start :: "temp_sensor \<Rightarrow> sensorc" where
  "sensorc_start s = \<lparr>sens = s, alerts = []\<rparr>"

definition alerts_inv :: "cint \<Rightarrow> sensorc \<Rightarrow> bool" where
  "alerts_inv n s \<longleftrightarrow> alert_count (sens s) = n + of_nat (length (alerts s)) \<and> (\<forall>(t, h, l) \<in> set (alerts s). outside t h l)"

fun justified :: "tpc \<Rightarrow> bool" where
  "justified (TInc (t, h, l)) = outside t h l"
| "justified pc = True"

interpretation alert_counts: process_local temp_stmts temp_calls "alerts_inv n" justified for n
proof unfold_locales
  fix pc s p s' pc'
  show "temp_calls pc \<Longrightarrow> justified pc" by (cases pc) simp_all
  show "alerts_inv n s \<Longrightarrow> justified pc \<Longrightarrow> temp_stmts p pc s = Next (s', pc') \<Longrightarrow>
      alerts_inv n s' \<and> (\<forall>q. pc' = Some q \<longrightarrow> justified q)"
    by (cases pc) (auto simp: alerts_inv_def outside_def split: if_splits)
  show "alerts_inv n s \<Longrightarrow> justified pc \<Longrightarrow> temp_stmts p pc s \<noteq> Crash" by (cases pc) simp_all
qed


text \<open>A call that nobody disturbs is the handler of TempSensor.\<close>

lemma temp_write_alone:
  "\<exists>n c. schedule temp_stmts (Call 0 (TWrite u) # replicate n (Run 0)) (conc_start (sensorc_start s)) = Some c \<and>
     pcs c 0 = None \<and> sens (sh c) = fst (temp_write_sens u len s)"
proof (cases "fst (ucfu u 4) = 0")
  case False
  then show ?thesis
    by (intro exI [of _ 1]) (auto simp: conc_start_def sensorc_start_def temp_write_sens_def split: prod.split)
next
  case True
  let ?t = "int_of_bytes (snd (ucfu u 4))"
  consider "sint (high_threshold s) < sint ?t" | "\<not> sint (high_threshold s) < sint ?t" "sint ?t < sint (low_threshold s)"
    | "\<not> sint (high_threshold s) < sint ?t" "\<not> sint ?t < sint (low_threshold s)" by blast
  then show ?thesis
  proof cases
    case 2
    then show ?thesis using True
      by (intro exI [of _ 5]) (auto simp: replicate_numeral conc_start_def sensorc_start_def temp_write_sens_def Let_def split: prod.split)
  qed (use True in \<open>intro exI [of _ 4], auto simp: replicate_numeral conc_start_def sensorc_start_def temp_write_sens_def Let_def split: prod.split\<close>)+
qed

lemma temp_ioctl_alone:
  "\<exists>n c. schedule temp_stmts (Call 0 (TIoctl u cmd) # replicate n (Run 0)) (conc_start (sensorc_start s)) = Some c \<and>
     pcs c 0 = None \<and> sens (sh c) = fst (temp_ioctl u cmd s)"
proof (cases "(cmd = TEMP_SET_HIGH \<or> cmd = TEMP_SET_LOW) \<and> fst (ucfu u 4) = 0")
  case True
  then show ?thesis
    by (intro exI [of _ 2])
      (auto simp: replicate_numeral conc_start_def sensorc_start_def temp_ioctl_def temp_cmd_defs split: prod.split)
next
  case False
  then show ?thesis
    by (intro exI [of _ 1])
      (auto simp: conc_start_def sensorc_start_def temp_ioctl_def temp_cmd_defs Let_def split: prod.split)
qed

subsection \<open>005\<close>

record lightc =
  lt :: light
  states :: "cint list"
  brights :: "cint list"
  temps :: "cint list"
  shown :: "light list"

datatype lpc =
    LWrite byte byte byte | LSetState byte byte byte | LSetBright byte byte | LSetTemp byte
  | LRead | LGetBright cint | LGetTemp cint cint
  | LOn | LOff | LBright cint

text \<open>A write has fetched its three bytes, the first of them 0 or 1, when it begins here; what a read
  delivers is the \<open>light_status\<close> of the three values it has got.\<close>

fun light_stmts :: "(lightc, lpc) stmts" where
  "light_stmts p (LWrite b br te) s =
     Next (s\<lparr>states := ucast b # states s, brights := ucast br # brights s, temps := ucast te # temps s\<rparr>, Some (LSetState b br te))"
| "light_stmts p (LSetState b br te) s = Next (s\<lparr>lt := (lt s)\<lparr>g_state := ucast b\<rparr>\<rparr>, Some (LSetBright br te))"
| "light_stmts p (LSetBright br te) s = Next (s\<lparr>lt := (lt s)\<lparr>g_brightness := ucast br\<rparr>\<rparr>, Some (LSetTemp te))"
| "light_stmts p (LSetTemp te) s = Next (s\<lparr>lt := (lt s)\<lparr>g_temperature := ucast te\<rparr>\<rparr>, None)"
| "light_stmts p LRead s = Next (s, Some (LGetBright (g_state (lt s))))"
| "light_stmts p (LGetBright a) s = Next (s, Some (LGetTemp a (g_brightness (lt s))))"
| "light_stmts p (LGetTemp a b) s = Next (s\<lparr>shown := shown s @ [\<lparr>g_state = a, g_brightness = b, g_temperature = g_temperature (lt s)\<rparr>]\<rparr>, None)"
| "light_stmts p LOn s = Next (s\<lparr>lt := (lt s)\<lparr>g_state := 1\<rparr>, states := 1 # states s\<rparr>, None)"
| "light_stmts p LOff s = Next (s\<lparr>lt := (lt s)\<lparr>g_state := 0\<rparr>, states := 0 # states s\<rparr>, None)"
| "light_stmts p (LBright v) s = Next (s\<lparr>lt := (lt s)\<lparr>g_brightness := v\<rparr>, brights := v # brights s\<rparr>, None)"

fun light_calls :: "lpc \<Rightarrow> bool" where
  "light_calls pc \<longleftrightarrow> (case pc of LWrite b br te \<Rightarrow> b = 0 \<or> b = 1 | LRead \<Rightarrow> True | LOn \<Rightarrow> True | LOff \<Rightarrow> True
     | LBright v \<Rightarrow> True | _ \<Rightarrow> False)"

definition lightc_start :: "light \<Rightarrow> lightc" where
  "lightc_start s = \<lparr>lt = s, states = [g_state s], brights = [g_brightness s], temps = [g_temperature s], shown = []\<rparr>"

text \<open>The three values of a status have been asked for, each by some call.\<close>

definition asked_for :: "lightc \<Rightarrow> light \<Rightarrow> bool" where
  "asked_for s l \<longleftrightarrow> g_state l \<in> set (states s) \<and> g_brightness l \<in> set (brights s) \<and> g_temperature l \<in> set (temps s)"

definition light_inv :: "lightc \<Rightarrow> bool" where
  "light_inv s \<longleftrightarrow> asked_for s (lt s) \<and> (\<forall>l \<in> set (shown s). asked_for s l)"

fun light_at :: "lpc \<Rightarrow> lightc \<Rightarrow> bool" where
  "light_at (LSetState b br te) s \<longleftrightarrow> ucast b \<in> set (states s) \<and> ucast br \<in> set (brights s) \<and> ucast te \<in> set (temps s)"
| "light_at (LSetBright br te) s \<longleftrightarrow> ucast br \<in> set (brights s) \<and> ucast te \<in> set (temps s)"
| "light_at (LSetTemp te) s \<longleftrightarrow> ucast te \<in> set (temps s)"
| "light_at (LGetBright a) s \<longleftrightarrow> a \<in> set (states s)"
| "light_at (LGetTemp a b) s \<longleftrightarrow> a \<in> set (states s) \<and> b \<in> set (brights s)"
| "light_at pc s = True"

interpretation light_values: owicki_gries light_stmts light_calls light_inv "\<lambda>p. light_at"
proof unfold_locales
  fix pc s p p' q s' pc'
  show "light_calls pc \<Longrightarrow> light_inv s \<Longrightarrow> light_at pc s" by (cases pc) simp_all
  show "light_inv s \<Longrightarrow> light_at pc s \<Longrightarrow> light_stmts p pc s = Next (s', pc') \<Longrightarrow>
      light_inv s' \<and> (\<forall>q. pc' = Some q \<longrightarrow> light_at q s')"
    by (cases pc) (auto simp: light_inv_def asked_for_def)
  show "light_inv s \<Longrightarrow> light_at pc s \<Longrightarrow> light_at q s \<Longrightarrow> p \<noteq> p' \<Longrightarrow> light_stmts p pc s = Next (s', pc') \<Longrightarrow> light_at q s'"
    by (cases pc; cases q) auto
  show "light_inv s \<Longrightarrow> light_at pc s \<Longrightarrow> light_stmts p pc s \<noteq> Crash" by (cases pc) simp_all
qed

lemma light_write_alone:
  assumes "b = 0 \<or> b = 1"
  shows "\<exists>c. schedule light_stmts (Call 0 (LWrite b br te) # replicate 4 (Run 0)) (conc_start (lightc_start s)) = Some c \<and>
     pcs c 0 = None \<and> light_write (user_mem [b, br, te]) len s = Some (lt (sh c), Inr 3)"
  using assms light_write_run [of b br te len s]
  by (auto simp: replicate_numeral conc_start_def lightc_start_def)

lemma light_read_alone:
  "\<exists>c. schedule light_stmts (Call 0 LRead # replicate 3 (Run 0)) (conc_start (lightc_start s)) = Some c \<and>
     pcs c 0 = None \<and> (\<exists>l. shown (sh c) = [l] \<and> light_read (user_mem []) len s = (lt (sh c), light_status l, Inr 3))"
  by (simp add: replicate_numeral conc_start_def lightc_start_def light_read_def user_mem_def light_status_def)

subsection \<open>Properties\<close>

text \<open>No alert is lost and none is raised without cause: in every interleaving the count is the
  number of alerts, modulo \<open>2^32\<close>, and each of them was for a temperature outside the thresholds
  in force at the moment of its decision.\<close>

theorem alerts_justified:
  assumes "conc_reach temp_stmts temp_calls (sensorc_start s) c"
  shows "alert_count (sens (sh c)) = alert_count s + of_nat (length (alerts (sh c))) \<and>
     (\<forall>(t, h, l) \<in> set (alerts (sh c)). outside t h l)"
  using alert_counts.reach_inv [OF assms, of "alert_count s"] by (simp add: alerts_inv_def sensorc_start_def)

text \<open>Both thresholds move down while a write is between its two comparisons.\<close>

definition thresholds_move :: "tpc action list" where
  "thresholds_move = [Call 0 (TWrite (user_mem (bytes_of_int 25))), Run 0, Run 0, Run 0,
     Call 1 (TIoctl (user_mem (bytes_of_int 24)) TEMP_SET_HIGH), Run 1, Run 1,
     Call 1 (TIoctl (user_mem (bytes_of_int 20)) TEMP_SET_LOW), Run 1, Run 1, Run 0]"

definition cool_band :: temp_sensor where
  "cool_band = \<lparr>current_temp = 0, high_threshold = 30, low_threshold = 26, alert_count = 0\<rparr>"

text \<open>The states a schedule goes through.\<close>

fun states_of :: "('s, 'p) stmts \<Rightarrow> 'p action list \<Rightarrow> ('s, 'p) conc \<Rightarrow> ('s, 'p) conc list" where
  "states_of code [] c = [c]"
| "states_of code (a # as) c = c # (case act code a c of Next c' \<Rightarrow> states_of code as c' | _ \<Rightarrow> [])"

text \<open>C37: An alert may be missing. While one process moves both thresholds down, another writes a
  temperature that is outside of them before, between and after the two changes, in every state
  from the beginning of the call to its end; the call compares it with the old upper and the
  new lower threshold, and does not count it.\<close>

theorem alert_missed:
  "\<exists>c. conc_reach temp_stmts temp_calls (sensorc_start cool_band) c \<and>
     schedule temp_stmts thresholds_move (conc_start (sensorc_start cool_band)) = Some c \<and>
     list_all (\<lambda>x. outside 25 (high_threshold (sens (sh x))) (low_threshold (sens (sh x))))
       (states_of temp_stmts thresholds_move (conc_start (sensorc_start cool_band))) \<and>
     (\<forall>p. pcs c p = None) \<and> current_temp (sens (sh c)) = 25 \<and> alert_count (sens (sh c)) = 0"
proof -
  note ev = thresholds_move_def conc_start_def sensorc_start_def cool_band_def temp_cmd_defs outside_def
  have s: "\<exists>c. schedule temp_stmts thresholds_move (conc_start (sensorc_start cool_band)) = Some c \<and>
      (\<forall>p. pcs c p = None) \<and> current_temp (sens (sh c)) = 25 \<and> alert_count (sens (sh c)) = 0"
    by (simp add: ev)
  have o: "list_all (\<lambda>x. outside 25 (high_threshold (sens (sh x))) (low_threshold (sens (sh x))))
      (states_of temp_stmts thresholds_move (conc_start (sensorc_start cool_band)))"
    by (simp add: ev)
  have l: "list_all (call_ok temp_calls) thresholds_move" by (simp add: thresholds_move_def)
  from s obtain c where c: "schedule temp_stmts thresholds_move (conc_start (sensorc_start cool_band)) = Some c"
    "\<forall>p. pcs c p = None" "current_temp (sens (sh c)) = 25" "alert_count (sens (sh c)) = 0" by (elim exE conjE)
  show ?thesis by (intro exI conjI) (rule schedule_from_start [OF c(1) l], rule c(1), rule o, rule c(2), rule c(3), rule c(4))
qed

text \<open>In every interleaving each value of a status that a read delivers has been asked for by
  some call, or was there at the start.\<close>

theorem light_values_asked:
  assumes "conc_reach light_stmts light_calls (lightc_start s) c" and "l \<in> set (shown (sh c))"
  shows "asked_for (sh c) l"
proof -
  have "light_inv (lightc_start s)" by (simp add: light_inv_def lightc_start_def asked_for_def)
  from light_values.reach_inv [OF assms(1) this] show ?thesis using assms(2) by (simp add: light_inv_def)
qed

definition two_writes :: "lpc action list" where
  "two_writes = [Call 0 (LWrite 0 10 20), Call 1 (LWrite 1 200 40), Run 0, Run 1, Run 0, Run 1, Run 1, Run 1, Run 0, Run 0,
     Call 0 LRead, Run 0, Run 0, Run 0]"

text \<open>But not by the same call: after two writes, both complete, the light may have the state of the
  one and the brightness and temperature of the other, and so it is read.\<close>

theorem light_write_torn:
  "\<exists>c. conc_reach light_stmts light_calls (lightc_start light_initial) c \<and> (\<forall>p. pcs c p = None) \<and>
     shown (sh c) = [lt (sh c)] \<and> light_status (lt (sh c)) = [1, 10, 20]"
proof -
  have s: "\<exists>c. schedule light_stmts two_writes (conc_start (lightc_start light_initial)) = Some c \<and> (\<forall>p. pcs c p = None) \<and>
      shown (sh c) = [lt (sh c)] \<and> light_status (lt (sh c)) = [1, 10, 20]"
    by (simp add: two_writes_def conc_start_def lightc_start_def light_status_def)
  have l: "list_all (call_ok light_calls) two_writes" by (simp add: two_writes_def)
  from s obtain c where c: "schedule light_stmts two_writes (conc_start (lightc_start light_initial)) = Some c"
    "\<forall>p. pcs c p = None" "shown (sh c) = [lt (sh c)]" "light_status (lt (sh c)) = [1, 10, 20]" by (elim exE conjE)
  show ?thesis by (intro exI conjI) (rule schedule_from_start [OF c(1) l], rule c(2), rule c(3), rule c(4))
qed

end
