(* ===== verification/ModuleStart.thy ===== *)
theory ModuleStart
  imports MultiDevConcurrency StorageDevice TempSensor DualPoll
begin

section \<open>Calls that come in while a module is still loading\<close>

text \<open>
  From \<open>cdev_add\<close> on a device can be used, whatever the init routine still has to do. Here an init
  routine that succeeds is the list of its statements: it acquires a kernel object, or sets data of
  the module. Once the cdev \<open>pub\<close> is held, calls can come in between any two statements. A call is a function
  of the data (\<open>None\<close>: undefined).

  The locale \<open>safe_start\<close> is the rule that the data are in order before the device is published:
  then early calls are defined, and loading and early calls come to the same as loading first
  and making the calls afterwards. It is interpreted by the storage device and by the devices of
  010. The modules 004 and 014 break the rule, and what comes of it is shown.
\<close>

datatype 's istep = Acq kobj | Set "'s \<Rightarrow> 's"

fun istep_run :: "'s istep \<Rightarrow> held \<times> 's \<Rightarrow> held \<times> 's" where
  "istep_run (Acq r) (h, s) = (r # h, s)"
| "istep_run (Set f) (h, s) = (h, f s)"

definition init_run :: "'s istep list \<Rightarrow> held \<times> 's \<Rightarrow> held \<times> 's" where
  "init_run is hs = fold istep_run is hs"

fun call_run :: "('c \<Rightarrow> 's \<Rightarrow> 's option) \<Rightarrow> 'c list \<Rightarrow> 's \<Rightarrow> 's option" where
  "call_run call [] s = Some s"
| "call_run call (c # cs) s = do { s \<leftarrow> call c s; call_run call cs s }"

text \<open>What can be reached while the statements run: those left, the objects held, the data, and the calls
  that were made.\<close>

inductive loading ::
  "kobj \<Rightarrow> ('c \<Rightarrow> 's \<Rightarrow> 's option) \<Rightarrow> ('c \<Rightarrow> bool) \<Rightarrow> 's istep list \<Rightarrow> held \<Rightarrow> 's \<Rightarrow> 's istep list \<Rightarrow> held \<Rightarrow> 's \<Rightarrow> 'c list \<Rightarrow> bool"
  for pub call good is0 h0 s0 where
  begin_load: "loading pub call good is0 h0 s0 is0 h0 s0 []"
| next_step: "loading pub call good is0 h0 s0 (i # is) h s cs \<Longrightarrow> istep_run i (h, s) = (h', s') \<Longrightarrow>
     loading pub call good is0 h0 s0 is h' s' cs"
| early_call: "loading pub call good is0 h0 s0 is h s cs \<Longrightarrow> pub \<in> set h \<Longrightarrow> good c \<Longrightarrow> call c s = Some s' \<Longrightarrow>
     loading pub call good is0 h0 s0 is h s' (cs @ [c])"

inductive_cases loading_elim: "loading pub call good is0 h0 s0 is h s cs"

fun is_set :: "'s istep \<Rightarrow> bool" where
  "is_set (Set f) = True"
| "is_set (Acq r) = False"

fun publishes :: "kobj \<Rightarrow> 's istep \<Rightarrow> bool" where
  "publishes pub (Acq r) \<longleftrightarrow> r = pub"
| "publishes pub (Set f) = False"

lemma call_run_snoc: "call_run call (cs @ [c]) s = do { s \<leftarrow> call_run call cs s; call c s }"
  by (induction cs arbitrary: s) (auto split: bind_splits)

lemma init_run_Cons: "init_run (i # is) hs = init_run is (istep_run i hs)"
  by (simp add: init_run_def)

lemma acq_only: "\<not> list_ex is_set is \<Longrightarrow> snd (init_run is (h, s)) = s"
proof (induction "is" arbitrary: h s)
  case (Cons i "is")
  then show ?case by (cases i) (simp_all add: init_run_Cons)
qed (simp add: init_run_def)

lemma loading_run:
  "loading pub call good is0 h0 s0 (xs @ ys) h s cs \<Longrightarrow> init_run xs (h, s) = (h', s') \<Longrightarrow>
     loading pub call good is0 h0 s0 ys h' s' cs"
proof (induction xs arbitrary: h s)
  case Nil
  then show ?case by (simp add: init_run_def)
next
  case (Cons i xs)
  obtain h1 s1 where 1: "istep_run i (h, s) = (h1, s1)" by (cases "istep_run i (h, s)")
  have "loading pub call good is0 h0 s0 (xs @ ys) h1 s1 cs"
    using next_step [OF _ 1] Cons.prems(1) by simp
  then show ?case using Cons.IH Cons.prems(2) 1 by (simp add: init_run_Cons)
qed

subsection \<open>The rule\<close>

locale safe_start =
  fixes pub :: kobj and call :: "'c \<Rightarrow> 's \<Rightarrow> 's option" and good :: "'c \<Rightarrow> bool" and ok :: "'s \<Rightarrow> bool"
    and pre :: "'s istep list" and post :: "'s istep list" and start :: "'s \<Rightarrow> bool"
  assumes pre_hidden: "\<not> list_ex (publishes pub) pre"
    and post_data: "\<not> list_ex is_set post"
    and pre_ok: "start s \<Longrightarrow> ok (snd (init_run pre (h, s)))"
    and call_ok: "ok s \<Longrightarrow> good c \<Longrightarrow> \<exists>s'. call c s = Some s' \<and> ok s'"
begin

definition loaded :: "'s \<Rightarrow> 's" where
  "loaded s = snd (init_run pre ([], s))"

lemma data_of_objects: "snd (init_run is (h, s)) = snd (init_run is (h', s))"
proof (induction "is" arbitrary: h h' s)
  case (Cons i "is")
  then show ?case by (cases i) (simp_all add: init_run_Cons)
qed (simp add: init_run_def)

text \<open>Either nothing is published, no call was made and the data are what the statements so far have made;
  or the data are in order and those of the loaded module after the calls.\<close>

lemma loading_states:
  assumes "loading pub call good (pre @ post) h0 s0 is h s cs" and "pub \<notin> set h0" and "start s0"
  shows "(\<exists>is1. is = is1 @ post \<and> \<not> list_ex (publishes pub) is1 \<and> pub \<notin> set h \<and> cs = [] \<and>
       snd (init_run is1 ([], s)) = loaded s0) \<or>
     (\<not> list_ex is_set is \<and> ok s \<and> call_run call cs (loaded s0) = Some s)"
  using assms(1)
proof (induction rule: loading.induct)
  case begin_load
  then show ?case using assms(2) pre_hidden by (simp add: loaded_def)
next
  case (next_step i "is" h s cs h' s')
  have ok: "ok (loaded s0)" using pre_ok [OF assms(3)] by (simp add: loaded_def)
  from next_step.IH show ?case
  proof (elim disjE exE conjE)
    fix is1 assume a: "i # is = is1 @ post" "\<not> list_ex (publishes pub) is1" "pub \<notin> set h" "cs = []"
      "snd (init_run is1 ([], s)) = loaded s0"
    show ?thesis
    proof (cases is1)
      case Nil
      then have "snd (init_run post (h, s)) = loaded s0" "\<not> list_ex is_set (i # is)"
        using a acq_only [OF post_data, of h s] post_data by (simp_all add: init_run_def)
      then show ?thesis using a Nil ok next_step.hyps(2) acq_only [OF post_data, of h s]
        by (cases i) (auto simp: init_run_def)
    next
      case (Cons j is2)
      then have "snd (init_run is2 ([], s')) = loaded s0"
        using a(1,5) next_step.hyps(2) data_of_objects [of is2 "fst (istep_run i ([], s))" "snd (istep_run i ([], s))" "[]"]
        by (cases i) (auto simp: init_run_Cons)
      moreover have "pub \<notin> set h'" using Cons a(1-3) next_step.hyps(2) by (cases i) auto
      ultimately show ?thesis using Cons a(1,2,4) by auto
    qed
  next
    assume "\<not> list_ex is_set (i # is)" "ok s" "call_run call cs (loaded s0) = Some s"
    then show ?thesis using next_step.hyps(2) by (cases i) auto
  qed
next
  case (early_call "is" h s cs c s')
  then show ?case using call_ok [of s c] by (auto simp: call_run_snoc)
qed

lemma early_calls_defined:
  assumes "loading pub call good (pre @ post) h0 s0 is h s cs" and "pub \<notin> set h0" and "start s0"
    and "pub \<in> set h" and "good c"
  shows "call c s \<noteq> None"
  using loading_states [OF assms(1-3)] assms(4,5) call_ok by blast

lemma early_calls_count:
  assumes "loading pub call good (pre @ post) h0 s0 [] h s cs" and "pub \<notin> set h0" and "start s0"
  shows "call_run call cs (loaded s0) = Some s"
  using loading_states [OF assms] by (auto simp: init_run_def)

end

subsection \<open>003 and 010 keep it\<close>

text \<open>\<open>storage_driver_init\<close>, with the data of both modules of 003 (those of the mirror are set before).\<close>

definition storage_pre :: "(storage_dev \<times> mirror_dev) istep list" where
  "storage_pre =
     [Set (\<lambda>(s, m). (if key_count s = 0 then s\<lparr>user_keys := default_keys, key_count := 8\<rparr> else s, m)),
      Set (\<lambda>(s, m). (s\<lparr>storage_buffer := replicate 4096 0\<rparr>, m)),
      Set (\<lambda>(s, m). (s\<lparr>sector_lock_state := replicate 8 False\<rparr>, m)),
      Acq Region]"

definition storage_post :: "(storage_dev \<times> mirror_dev) istep list" where
  "storage_post = [Acq (Cdev 0), Acq Class, Acq (Device 0)]"

lemma storage_pre_run: "snd (init_run storage_pre (h, s, m)) = (storage_init_data s, m)"
  by (simp add: storage_pre_def init_run_def storage_init_data_def Let_def)

lemma storage_statements_init:
  "\<exists>h' s'. init_run (storage_pre @ storage_post) (h, s, m) = (h', s', m) \<and>
     storage_driver_init api_ok h s = Some (None, h', s')"
  by (simp add: storage_pre_def storage_post_def init_run_def storage_driver_init_def storage_register_def api_ok_def
      storage_init_data_def Let_def)

definition storage_unloaded :: "storage_dev \<times> mirror_dev \<Rightarrow> bool" where
  "storage_unloaded st \<longleftrightarrow> \<not> storage_mutex (fst st) \<and> length (user_keys (fst st)) = 8 \<and>
     0 \<le> key_count (fst st) \<and> key_count (fst st) \<le> 8 \<and> mirror_inv (snd st)"

interpretation storage_start: safe_start "Cdev 0" storage_step op_ok sys_inv storage_pre storage_post storage_unloaded
proof unfold_locales
  show "\<not> list_ex (publishes (Cdev 0)) storage_pre" by (simp add: storage_pre_def)
  show "\<not> list_ex is_set storage_post" by (simp add: storage_post_def)
  show "storage_unloaded st \<Longrightarrow> sys_inv (snd (init_run storage_pre (h, st)))" for st h
    by (cases st) (auto simp: storage_pre_run storage_unloaded_def sys_inv_def intro: inv_intros)
  show "sys_inv st \<Longrightarrow> op_ok c \<Longrightarrow> \<exists>s'. storage_step c st = Some s' \<and> sys_inv s'" for st c
    by (rule storage_step_total)
qed

text \<open>One round of the loop in \<open>mydev_init\<close>: the data of device \<open>i\<close>, then its cdev. (No other round has
  to do with them.)\<close>

definition mydev_pre :: "mydev istep list" where
  "mydev_pre = [Set (\<lambda>d. d\<lparr>md_lock := False\<rparr>), Set (\<lambda>d. d\<lparr>md_len := 0\<rparr>), Set (\<lambda>d. d\<lparr>md_buf := replicate 1024 0\<rparr>)]"

definition mydev_post :: "nat \<Rightarrow> mydev istep list" where
  "mydev_post i = [Acq (Cdev i), Acq (Device i), Acq (AttrFile i ''data''), Acq (AttrFile i ''stats''), Acq (AttrFile i ''reset'')]"

definition mydev_call :: "mcall \<Rightarrow> mydev \<Rightarrow> mydev option" where
  "mydev_call c d = map_option fst (m_call c d)"

lemma mydev_pre_run: "snd (init_run mydev_pre (h, d)) = mydev_fresh"
  by (simp add: mydev_pre_def init_run_def mydev_fresh_def)

lemma mydev_statements_init:
  "\<exists>h' d'. init_run (mydev_pre @ mydev_post i) (h, d) = (h', d') \<and> mydev_add api_ok i h = Some (None, h')"
  by (simp add: mydev_pre_def mydev_post_def init_run_def mydev_add_def api_ok_def)

interpretation mydev_start: safe_start "Cdev i" mydev_call m_call_ok mydev_ok mydev_pre "mydev_post i" "\<lambda>d. True" for i
proof unfold_locales
  show "\<not> list_ex (publishes (Cdev i)) mydev_pre" by (simp add: mydev_pre_def)
  show "\<not> list_ex is_set (mydev_post i)" by (simp add: mydev_post_def)
  show "mydev_ok (snd (init_run mydev_pre (h, s)))" for h s
    by (simp add: mydev_pre_run mydev_ok_def mydev_fresh_def)
  show "mydev_ok d \<Longrightarrow> m_call_ok c \<Longrightarrow> \<exists>d'. mydev_call c d = Some d' \<and> mydev_ok d'" for d c
    using m_call_sound [of d c] by (auto simp: mydev_call_def)
qed

subsection \<open>004 and 014 do not\<close>

text \<open>\<open>temp_init\<close> sets the four variables after the device is there.\<close>

definition temp_statements :: "temp_sensor istep list" where
  "temp_statements =
     [Acq Region, Acq (Cdev 0), Acq Class, Acq (Device 0),
      Set (\<lambda>s. s\<lparr>current_temp := 25\<rparr>), Set (\<lambda>s. s\<lparr>high_threshold := 30\<rparr>),
      Set (\<lambda>s. s\<lparr>low_threshold := 20\<rparr>), Set (\<lambda>s. s\<lparr>alert_count := 0\<rparr>)]"

lemma temp_statements_init:
  "\<exists>h' s'. init_run temp_statements (h, s) = (h', s') \<and> temp_init_sens api_ok h s = (Some (None, h'), s')"
  by (simp add: temp_statements_def init_run_def temp_init_sens_def api_ok_def acquire_def)

text \<open>The variables of a module that was just loaded are 0.\<close>

definition temp_static :: temp_sensor where
  "temp_static = \<lparr>current_temp = 0, high_threshold = 0, low_threshold = 0, alert_count = 0\<rparr>"

text \<open>
  \<open>dev_init\<close> of \<open>poll.c\<close> sets up a wait queue before it creates the device it is for, but the cdev
  serves both device numbers before. Polling waits on the queue of the minor; a wait on one that is
  not set up is \<open>None\<close>.
\<close>

definition dual_statements :: "(bool list \<times> dual_dev list) istep list" where
  "dual_statements =
     [Acq Region, Acq (Cdev 0), Acq Class,
      Set (\<lambda>(wq, devs). (wq[0 := True], devs)), Acq (Device 0),
      Set (\<lambda>(wq, devs). (wq[1 := True], devs)), Acq (Device 1)]"

lemma dual_statements_init: "dev_init_dual api_ok h = Some (None, fst (init_run dual_statements (h, st)))"
  by (cases st) (simp add: dual_statements_def init_run_def dev_init_dual_def api_ok_def numeral_2_eq_2 arr_set_def)

definition poll_queued :: "nat \<Rightarrow> bool list \<times> dual_dev list \<Rightarrow> (bool list \<times> dual_dev list) option" where
  "poll_queued minor st =
     (case st of (wq, devs) \<Rightarrow>
        do {
          w \<leftarrow> arr_get wq (int minor);
          if w then map_option (\<lambda>mask. (wq, devs)) (my_poll_dual minor devs) else None
        })"

text \<open>Where calls change nothing, the statements alone decide.\<close>

lemma loading_alone:
  assumes "loading pub call good is0 h0 s0 is h s cs" and "\<And>c s s'. call c s = Some s' \<Longrightarrow> s' = s"
  shows "\<exists>n \<le> length is0. is = drop n is0 \<and> (h, s) = init_run (take n is0) (h0, s0)"
  using assms(1)
proof (induction rule: loading.induct)
  case begin_load
  show ?case by (intro exI [of _ 0]) (simp add: init_run_def)
next
  case (next_step i "is" h s cs h' s')
  then obtain n where n: "i # is = drop n is0" "(h, s) = init_run (take n is0) (h0, s0)" by blast
  then have l: "n < length is0" by (metis drop_all linorder_not_le list.distinct(1))
  then have "i # is = is0 ! n # drop (Suc n) is0" using n(1) by (simp add: Cons_nth_drop_Suc)
  then have "is = drop (Suc n) is0" and i: "i = is0 ! n" by simp_all
  moreover have "(h', s') = init_run (take (Suc n) is0) (h0, s0)"
    using n(2) next_step.hyps(2) i l by (simp add: take_Suc_conv_app_nth init_run_def)
  ultimately show ?case using l by (intro exI [of _ "Suc n"]) simp
next
  case (early_call "is" h s cs c s')
  then show ?case using assms(2) by blast
qed

lemma poll_changes_nothing: "poll_queued c st = Some st' \<Longrightarrow> st' = st"
  by (auto simp: poll_queued_def split: prod.splits if_splits bind_splits)

lemma dual_queues:
  assumes "loading pub poll_queued good dual_statements [] ([False, False], devs) is h st cs"
  shows "snd st = devs \<and> (Device 0 \<in> set h \<longrightarrow> fst st ! 0) \<and> (Device 1 \<in> set h \<longrightarrow> fst st ! 1) \<and> length (fst st) = 2"
proof -
  have "\<exists>n \<le> length dual_statements. is = drop n dual_statements \<and>
      (h, st) = init_run (take n dual_statements) ([], [False, False], devs)"
    by (rule loading_alone [OF assms]) (rule poll_changes_nothing)
  then obtain n where "n \<le> length dual_statements" "(h, st) = init_run (take n dual_statements) ([], [False, False], devs)"
    by (elim exE conjE)
  then have n: "n \<le> 7" "(h, st) = init_run (take n dual_statements) ([], [False, False], devs)"
    by (simp_all add: dual_statements_def)
  have "n \<in> {0, 1, 2, 3, 4, 5, 6, 7}" using n(1) by auto
  then show ?thesis using n(2)
    by (elim insertE) (simp_all add: dual_statements_def init_run_def)
qed

subsection \<open>Properties\<close>

text \<open>C30: Calls that come in while \<open>storage_driver_init\<close> still runs are defined, and after the load the
  device is as if they had been made then.\<close>

theorem storage_early_calls:
  assumes "loading (Cdev 0) storage_step op_ok (storage_pre @ storage_post) h0 (s, m) is h st cs"
    and "Cdev 0 \<notin> set h0" and "storage_unloaded (s, m)"
  shows "(Cdev 0 \<in> set h \<longrightarrow> op_ok c \<longrightarrow> storage_step c st \<noteq> None) \<and>
     (is = [] \<longrightarrow> call_run storage_step cs (storage_init_data s, m) = Some st)"
proof (intro conjI impI)
  show "storage_step c st \<noteq> None" if "Cdev 0 \<in> set h" "op_ok c"
    by (rule storage_start.early_calls_defined [OF assms that])
  show "call_run storage_step cs (storage_init_data s, m) = Some st" if "is = []"
    using storage_start.early_calls_count [OF assms(1) [unfolded that] assms(2,3)]
    by (simp add: storage_start.loaded_def storage_pre_run)
qed

text \<open>A read that comes in between \<open>cdev_add\<close> and \<open>class_create\<close>.\<close>

definition storage_static :: storage_dev where
  "storage_static = \<lparr>user_keys = replicate 8 None, key_count = 0, storage_buffer = [], sector_lock_state = [], storage_mutex = False\<rparr>"

lemma storage_static_init: "storage_init_data storage_static = storage_boot"
  by (simp add: storage_static_def storage_boot_def)

theorem storage_early_calls_witness:
  "\<exists>h st. loading (Cdev 0) storage_step op_ok (storage_pre @ storage_post) [] (storage_static, mirror_boot) [] h st
       [OpRead (user_mem []) 3 510] \<and>
     call_run storage_step [OpRead (user_mem []) 3 510] (storage_boot, mirror_boot) = Some st"
proof -
  let ?L = "loading (Cdev 0) storage_step op_ok (storage_pre @ storage_post) [] (storage_static, mirror_boot)"
  let ?op = "OpRead (user_mem []) 3 510"
  have u: "storage_unloaded (storage_static, mirror_boot)"
    using boot_inv(2) by (simp add: storage_unloaded_def storage_static_def)
  have "?L ((storage_pre @ [Acq (Cdev 0)]) @ [Acq Class, Acq (Device 0)]) [] (storage_static, mirror_boot) []"
    using begin_load [of "Cdev 0" storage_step op_ok "storage_pre @ storage_post" "[]"] by (simp add: storage_post_def)
  moreover have "init_run (storage_pre @ [Acq (Cdev 0)]) ([], storage_static, mirror_boot) =
      ([Cdev 0, Region], storage_boot, mirror_boot)"
    by (simp add: storage_pre_def init_run_def storage_static_def storage_boot_def storage_init_data_def)
  ultimately have 1: "?L [Acq Class, Acq (Device 0)] [Cdev 0, Region] (storage_boot, mirror_boot) []" by (rule loading_run)
  obtain st where st: "storage_step ?op (storage_boot, mirror_boot) = Some st"
    using storage_step_total [OF boot_inv(3), of ?op] by auto
  have "?L [Acq Class, Acq (Device 0)] [Cdev 0, Region] st [?op]"
    using early_call [OF 1 _ _ st] by simp
  then have l: "?L [] [Device 0, Class, Cdev 0, Region] st [?op]"
    by (rule loading_run [where ys = "[]", simplified]) (simp add: init_run_def)
  have "Cdev 0 \<notin> set []" by simp
  from storage_early_calls [OF l this u] have "call_run storage_step [?op] (storage_boot, mirror_boot) = Some st"
    by (simp add: storage_static_init del: call_run.simps)
  then show ?thesis using l by (intro exI conjI)
qed

text \<open>The same for each device of 010 and the round of the loop that sets it up.\<close>

theorem mydev_early_calls:
  assumes "loading (Cdev i) mydev_call m_call_ok (mydev_pre @ mydev_post i) h0 d0 is h d cs" and "Cdev i \<notin> set h0"
  shows "(Cdev i \<in> set h \<longrightarrow> m_call_ok c \<longrightarrow> mydev_call c d \<noteq> None) \<and>
     (is = [] \<longrightarrow> call_run mydev_call cs mydev_fresh = Some d)"
proof (intro conjI impI)
  show "mydev_call c d \<noteq> None" if "Cdev i \<in> set h" "m_call_ok c"
    by (rule mydev_start.early_calls_defined [OF assms TrueI that])
  show "call_run mydev_call cs mydev_fresh = Some d" if "is = []"
    using mydev_start.early_calls_count [OF assms(1) [unfolded that] assms(2) TrueI]
    by (simp add: mydev_start.loaded_def mydev_pre_run)
qed

text \<open>A temperature written to the sensor of 004 while it is loading can be forgotten, although the write
  reports success and has counted an alert: after the load the temperature is 25 and no alert was
  counted.\<close>

theorem temp_early_write_forgotten:
  "\<exists>h s s1. loading (Cdev 0) (\<lambda>c s. Some (temp_step c s)) (\<lambda>c. True) temp_statements [] temp_static [] h s
       [TempSensor.TWrite (user_mem (bytes_of_int 99)) 4] \<and>
     temp_write_sens (user_mem (bytes_of_int 99)) 4 temp_static = (s1, Inr 4) \<and> alert_count s1 = 1 \<and>
     current_temp s = 25 \<and> alert_count s = 0"
proof -
  let ?u = "user_mem (bytes_of_int 99)"
  let ?L = "loading (Cdev 0) (\<lambda>c s. Some (temp_step c s)) (\<lambda>c. True) temp_statements [] temp_static"
  let ?is1 = "take 4 temp_statements" and ?is2 = "drop 4 temp_statements" and ?h = "[Device 0, Class, Cdev 0, Region]"
  obtain s1 where w: "temp_write_sens ?u 4 temp_static = (s1, Inr 4)" "alert_count s1 = 1"
    by (simp add: temp_write_sens_def temp_static_def)
  have "?L (?is1 @ ?is2) [] temp_static []" using begin_load by simp
  moreover have "init_run ?is1 ([], temp_static) = (?h, temp_static)"
    by (simp add: temp_statements_def init_run_def)
  ultimately have "?L ?is2 ?h temp_static []" by (rule loading_run)
  then have "?L ?is2 ?h s1 [TempSensor.TWrite ?u 4]"
    using early_call [where cs = "[]" and c = "TempSensor.TWrite ?u 4" and s = temp_static and s' = s1] w(1) by simp
  then have "?L [] ?h temp_initial [TempSensor.TWrite ?u 4]"
    by (rule loading_run [where ys = "[]", simplified]) (simp add: temp_statements_def init_run_def temp_initial_def)
  then show ?thesis using w by (intro exI conjI) (assumption, simp_all add: temp_initial_def)
qed

text \<open>The wait queues of 014: through the device nodes that \<open>dev_init\<close> makes, polling always finds its queue
  set up; through a node of the same number that was there before (the cdev serves both numbers
  from the beginning) it may not.\<close>

theorem dual_early_poll:
  assumes "length devs = 2"
  shows "loading (Cdev 0) poll_queued (\<lambda>minor. minor < 2) dual_statements [] ([False, False], devs) is h st cs \<Longrightarrow>
       Device minor \<in> set h \<Longrightarrow> minor < 2 \<Longrightarrow> poll_queued minor st \<noteq> None"
    and "\<exists>is h st. loading (Cdev 0) poll_queued (\<lambda>minor. minor < 2) dual_statements [] ([False, False], devs) is h st [] \<and>
       Cdev 0 \<in> set h \<and> poll_queued 1 st = None"
proof -
  show "poll_queued minor st \<noteq> None"
    if "loading (Cdev 0) poll_queued (\<lambda>minor. minor < 2) dual_statements [] ([False, False], devs) is h st cs"
      "Device minor \<in> set h" "minor < 2"
  proof -
    have "minor = 0 \<or> minor = 1" using that(3) by auto
    then show ?thesis using dual_queues [OF that(1)] that(2) assms
      by (cases st) (auto simp: poll_queued_def my_poll_dual_def mem_simps)
  qed
  let ?is1 = "take 5 dual_statements" and ?is2 = "drop 5 dual_statements"
  let ?L = "loading (Cdev 0) poll_queued (\<lambda>minor. minor < 2) dual_statements [] ([False, False], devs)"
  have "?L (?is1 @ ?is2) [] ([False, False], devs) []" using begin_load by simp
  moreover have "init_run ?is1 ([], [False, False], devs) = ([Device 0, Class, Cdev 0, Region], [True, False], devs)"
    by (simp add: dual_statements_def init_run_def)
  ultimately have "?L ?is2 [Device 0, Class, Cdev 0, Region] ([True, False], devs) []" by (rule loading_run)
  then show "\<exists>is h st. ?L is h st [] \<and> Cdev 0 \<in> set h \<and> poll_queued 1 st = None"
    by (intro exI conjI) (assumption, simp_all add: poll_queued_def arr_get_def)
qed

text \<open>010 publishes its first device before the load can no longer fail: when the second one cannot be
  added, the memory of both is given back, although the first could be opened since, and whoever
  opened it has a pointer into that memory.\<close>

theorem mydev_failed_load_frees:
  assumes "\<forall>r \<in> set (mydev_objs 0 @ [DevMem, Class, Region]). api r = None" and "api (Cdev 1) = Some e"
    and "DevMem \<notin> set h"
  shows "\<exists>h1. mydev_init_loop api 1 0 (DevMem # Class # Region # h) = Some (None, h1) \<and>
     Cdev 0 \<in> set h1 \<and> DevMem \<in> set h1 \<and> mydev_init api h = Some (Some e, h)"
proof -
  have r: "mydev_rollback api (Suc 0) (mydev_objs 0 @ h') = Some h'" for h'
    using mydev_rollback_one [of api h'] assms(1) by (simp add: mydev_objs_def)
  have a: "mydev_add api 0 h' = Some (None, mydev_objs 0 @ h')" for h'
    using assms(1) by (simp add: mydev_add_def mydev_objs_def)
  have b: "mydev_add api (Suc 0) h' = Some (Some e, h')" for h'
    using assms(2) by (simp add: mydev_add_def)
  show ?thesis using assms(1) r a b
    by (simp add: mydev_init_def numeral_2_eq_2 mydev_objs_def)
qed

end
