(* ===== verification/SkelRaces.thy ===== *)
theory SkelRaces
  imports CharSkeleton LockedCalls
begin

section \<open>The skeleton driver without a lock: 011\_chrdev\_skeleton/driver.c by statements\<close>

text \<open>
  \<open>my_read\<close> of \<open>driver.c\<close> loads \<open>buffer_size\<close> twice: to see whether the position is behind the end, and to
  compute what is left. Nothing keeps a write from storing another size in between. Here reads and
  writes run statement by statement, their copies byte by byte, in any number of processes. The
  position is an argument (the VFS hands the routines a copy of it); \<open>returned\<close>, what the calls have
  returned, is not a variable of the code.
\<close>

record skelc =
  skd :: skel
  returned :: "(loff_t \<times> byte list \<times> ret) list"

datatype kpc =
    KRead uenv size_t loff_t | KAvail uenv size_t loff_t | KCopyOut uenv size_t loff_t nat "byte list"
  | KWrite uenv size_t loff_t | KCopyIn uenv size_t loff_t nat | KSize size_t loff_t

definition skel_return :: "loff_t \<times> byte list \<times> ret \<Rightarrow> skelc \<Rightarrow> (skelc \<times> kpc option) progress" where
  "skel_return r s = Next (s\<lparr>returned := returned s @ [r]\<rparr>, None)"

fun skel_stmts :: "(skelc, kpc) stmts" where
  "skel_stmts p (KRead u len pos) s =
     (if sk_size (skd s) \<le> pos then skel_return (pos, [], Inr 0) s else Next (s, Some (KAvail u len pos)))"
| "skel_stmts p (KAvail u len pos) s =
     (let available = sk_size (skd s) - pos in
      Next (s, Some (KCopyOut u (if available < len then available else len) pos 0 [])))"
| "skel_stmts p (KCopyOut u len pos k out) s =
     (if k < copied u len
      then (case arr_get (sk_buffer (skd s)) (sint pos + int k) of
              None \<Rightarrow> Crash
            | Some b \<Rightarrow> Next (s, Some (KCopyOut u len pos (Suc k) (out @ [b]))))
      else skel_return (if uctu u (unat len) \<noteq> 0 then (pos, out, Inl EFAULT) else (pos + len, out, Inr len)) s)"
| "skel_stmts p (KWrite u len pos) s =
     (if 1024 \<le> sint pos then skel_return (pos, [], Inl ENOSPC) s
      else
        let available = 1024 - pos in
        Next (s, Some (KCopyIn u (if available < len then available else len) pos 0)))"
| "skel_stmts p (KCopyIn u len pos k) s =
     (if k < length (fetch u len)
      then (case arr_set (sk_buffer (skd s)) (sint pos + int k) (fetch u len ! k) of
              None \<Rightarrow> Crash
            | Some buf \<Rightarrow> Next (s\<lparr>skd := (skd s)\<lparr>sk_buffer := buf\<rparr>\<rparr>, Some (KCopyIn u len pos (Suc k))))
      else if fst (ucfu u (unat len)) \<noteq> 0 then skel_return (pos, [], Inl EFAULT) s
      else Next (s, Some (KSize len (pos + len))))"
| "skel_stmts p (KSize len pos) s = skel_return (pos, [], Inr len) (s\<lparr>skd := (skd s)\<lparr>sk_size := pos\<rparr>\<rparr>)"

definition skelc_start :: "skel \<Rightarrow> skelc" where
  "skelc_start s = \<lparr>skd = s, returned = []\<rparr>"

fun skel_calls :: "kpc \<Rightarrow> bool" where
  "skel_calls (KWrite u len pos) \<longleftrightarrow> uaccess_ok u \<and> vfs_ok len pos"
| "skel_calls (KRead u len pos) \<longleftrightarrow> uaccess_ok u \<and> vfs_ok len pos"
| "skel_calls pc = False"

fun only_writes :: "kpc \<Rightarrow> bool" where
  "only_writes (KWrite u len pos) \<longleftrightarrow> uaccess_ok u \<and> vfs_ok len pos"
| "only_writes pc = False"

fun only_reads :: "kpc \<Rightarrow> bool" where
  "only_reads (KRead u len pos) \<longleftrightarrow> uaccess_ok u \<and> vfs_ok len pos"
| "only_reads pc = False"

subsection \<open>Writes among themselves, and reads among themselves\<close>

text \<open>A write stays inside the buffer whatever others do.\<close>

fun write_at :: "kpc \<Rightarrow> bool" where
  "write_at (KWrite u len pos) \<longleftrightarrow> uaccess_ok u \<and> vfs_ok len pos"
| "write_at (KCopyIn u len pos k) \<longleftrightarrow> uaccess_ok u \<and> unat pos + unat len \<le> 1024"
| "write_at (KSize len pos) \<longleftrightarrow> unat pos \<le> 1024"
| "write_at pc = False"

lemma write_clamp:
  assumes "vfs_ok len pos" and "\<not> 1024 \<le> sint pos"
  shows "unat pos + unat (if 1024 - pos < len then 1024 - pos else len :: size_t) \<le> 1024"
proof -
  have p: "unat pos < 1024" using assms by simp
  then show ?thesis using cut_word(1) [of pos 1024 len] cut_word(2) [of pos 1024 len] by simp
qed

lemma pos_sint: "unat (pos :: loff_t) \<le> 1024 \<Longrightarrow> sint pos = int (unat pos)"
  by (rule sint_of_small) simp

lemma copy_in_step:
  assumes "skel_inv (skd s)" and "uaccess_ok u" and "unat pos + unat len \<le> 1024"
  shows "skel_stmts p (KCopyIn u len pos k) s \<noteq> Crash"
    and "skel_stmts p (KCopyIn u len pos k) s = Next (s', pc') \<Longrightarrow> skel_inv (skd s') \<and> (\<forall>q. pc' = Some q \<longrightarrow> write_at q)"
proof -
  have l: "length (fetch u len) = unat len" using assms(2) by (simp add: fetch_def)
  have g: "k < unat len \<Longrightarrow> arr_set (sk_buffer (skd s)) (sint pos + int k) b = Some ((sk_buffer (skd s))[unat pos + k := b])" for b
    using assms(1,3) by (simp add: pos_sint skel_inv_def arr_set_def nat_add_distrib)
  have e: "unat (pos + len) = unat pos + unat len" using assms(3) by (subst unat_add_lem [THEN iffD1]) simp_all
  show "skel_stmts p (KCopyIn u len pos k) s \<noteq> Crash" using g l by (simp add: skel_return_def)
  show "skel_stmts p (KCopyIn u len pos k) s = Next (s', pc') \<Longrightarrow> skel_inv (skd s') \<and> (\<forall>q. pc' = Some q \<longrightarrow> write_at q)"
    using assms g l e by (auto simp: skel_return_def skel_inv_def split: if_splits)
qed

interpretation writes: process_local skel_stmts only_writes "\<lambda>s. skel_inv (skd s)" write_at
proof unfold_locales
  fix pc s p s' pc'
  show "only_writes pc \<Longrightarrow> write_at pc" by (cases pc) simp_all
  show "skel_inv (skd s) \<Longrightarrow> write_at pc \<Longrightarrow> skel_stmts p pc s = Next (s', pc') \<Longrightarrow>
      skel_inv (skd s') \<and> (\<forall>q. pc' = Some q \<longrightarrow> write_at q)"
  proof (cases pc)
    case (KWrite u len pos)
    assume "skel_inv (skd s)" "write_at pc" "skel_stmts p pc s = Next (s', pc')"
    then show ?thesis using KWrite write_clamp [of len pos]
      by (cases "1024 \<le> sint pos") (auto simp: skel_return_def Let_def)
  next
    case (KCopyIn u len pos k)
    assume "skel_inv (skd s)" "write_at pc" "skel_stmts p pc s = Next (s', pc')"
    then show ?thesis using KCopyIn copy_in_step(2) [of s u pos len p k s' pc'] by (simp del: skel_stmts.simps)
  qed (auto simp: skel_return_def skel_inv_def)
  show "skel_inv (skd s) \<Longrightarrow> write_at pc \<Longrightarrow> skel_stmts p pc s \<noteq> Crash"
  proof (cases pc)
    case (KCopyIn u len pos k)
    assume "skel_inv (skd s)" "write_at pc"
    then show ?thesis using KCopyIn copy_in_step(1) [of s u pos len p k] by (simp del: skel_stmts.simps)
  qed (auto simp: skel_return_def Let_def)
qed

text \<open>A read stays inside the data as long as nobody writes.\<close>

fun read_at :: "skel \<Rightarrow> kpc \<Rightarrow> bool" where
  "read_at d (KRead u len pos) = True"
| "read_at d (KAvail u len pos) \<longleftrightarrow> unat pos < unat (sk_size d)"
| "read_at d (KCopyOut u len pos k out) \<longleftrightarrow> unat pos + unat len \<le> unat (sk_size d)"
| "read_at d pc = False"

interpretation reads: process_local skel_stmts only_reads "\<lambda>s. skel_inv (skd s) \<and> skd s = d" "read_at d" for d
proof unfold_locales
  fix pc s p s' pc'
  have clamp: "unat pos + unat (if sk_size d - pos < len then sk_size d - pos else len) \<le> unat (sk_size d)"
    if "unat pos < unat (sk_size d)" for pos and len :: size_t
    using cut_word(1) [of pos "sk_size d" len] cut_word(2) [of pos "sk_size d" len] that by simp
  show "only_reads pc \<Longrightarrow> read_at d pc" by (cases pc) simp_all
  show "skel_inv (skd s) \<and> skd s = d \<Longrightarrow> read_at d pc \<Longrightarrow> skel_stmts p pc s = Next (s', pc') \<Longrightarrow>
      (skel_inv (skd s') \<and> skd s' = d) \<and> (\<forall>q. pc' = Some q \<longrightarrow> read_at d q)"
  proof (cases pc)
    case (KAvail u len pos)
    assume a: "skel_inv (skd s) \<and> skd s = d" "read_at d pc" "skel_stmts p pc s = Next (s', pc')"
    then have "pc' = Some (KCopyOut u (if sk_size d - pos < len then sk_size d - pos else len) pos 0 [])" "s' = s"
      using KAvail by (auto simp: Let_def)
    moreover have "skel_inv d" using a(1) by auto
    ultimately show ?thesis using a(1,2) KAvail clamp [of pos len] by simp
  qed (auto simp: skel_return_def word_le_nat_alt split: if_splits option.splits)
  show "skel_inv (skd s) \<and> skd s = d \<Longrightarrow> read_at d pc \<Longrightarrow> skel_stmts p pc s \<noteq> Crash"
  proof (cases pc)
    case (KCopyOut u len pos k out)
    assume a: "skel_inv (skd s) \<and> skd s = d" "read_at d pc"
    then have "unat pos + unat len \<le> 1024" using KCopyOut by (auto simp: skel_inv_def)
    then have "k < copied u len \<Longrightarrow> arr_get (sk_buffer (skd s)) (sint pos + int k) \<noteq> None"
      using a(1) copied_le [of u len] by (auto simp: pos_sint skel_inv_def arr_get_def nat_add_distrib)
    then show ?thesis using KCopyOut by (auto simp: skel_return_def split: option.split)
  qed (auto simp: skel_return_def Let_def)
qed

subsection \<open>Properties\<close>

text \<open>Any number of writes at the same time stay inside the buffer, and so do any number of reads.\<close>

theorem skel_one_kind_safe:
  assumes "skel_inv s" and "conc_reach skel_stmts calls (skelc_start s) c" and "calls = only_writes \<or> calls = only_reads"
  shows "skel_inv (skd (sh c)) \<and> act skel_stmts a c \<noteq> Crash"
proof -
  have i: "skel_inv (skd (skelc_start s))" "skd (skelc_start s) = s" using assms(1) by (simp_all add: skelc_start_def)
  from assms(3) show ?thesis
  proof
    assume w: "calls = only_writes"
    show ?thesis using writes.reach_inv [OF assms(2) [unfolded w] i(1)] writes.reach_safe [OF assms(2) [unfolded w] i(1)] by simp
  next
    assume r: "calls = only_reads"
    show ?thesis using reads.reach_inv [of "skelc_start s" c s] reads.reach_safe [of "skelc_start s" c s a]
        assms(2) [unfolded r] i assms(1) by simp
  qed
qed

definition overrun :: "kpc action list" where
  "overrun = [Call 0 (KWrite (user_mem [5]) 1 1023), Run 0, Run 0, Run 0, Run 0,
     Call 1 (KRead (user_mem []) 2 1023), Run 1,
     Call 0 (KWrite (user_mem [5]) 1 0), Run 0, Run 0, Run 0, Run 0, Run 1, Run 1]"

text \<open>C34: A read that has seen its position in front of the end when a write makes the data shorter: what
  is left of the buffer is computed anew and wraps around, and the copy runs out of the
  buffer.\<close>

theorem skel_read_overruns:
  "\<exists>c. conc_reach skel_stmts skel_calls (skelc_start \<lparr>sk_buffer = replicate 1024 0, sk_size = 0\<rparr>) c \<and>
     act skel_stmts (Run 1) c = Crash"
proof -
  let ?s = "skelc_start \<lparr>sk_buffer = replicate 1024 0, sk_size = 0\<rparr>"
  have "\<exists>c. schedule skel_stmts overrun (conc_start ?s) = Some c \<and> act skel_stmts (Run 1) c = Crash"
    by (simp add: overrun_def conc_start_def skelc_start_def skel_return_def fetch_def copied_def arr_get_def arr_set_def)
  then obtain c where c: "schedule skel_stmts overrun (conc_start ?s) = Some c" "act skel_stmts (Run 1) c = Crash"
    by (elim exE conjE)
  have "list_all (call_ok skel_calls) overrun" by (simp add: overrun_def vfs_ok_def)
  then have "conc_reach skel_stmts skel_calls ?s c" by (rule schedule_from_start [OF c(1)])
  then show ?thesis using c(2) by (intro exI conjI)
qed

end
