(* ===== verification/FileOps.thy ===== *)
theory FileOps
  imports StorageDevice CharSkeleton LightDevice TempSensor TempLog KeypadDriver MinorDevices IrqDemo MiscDevice
begin

section \<open>The tables of file operations, and the system calls that reach the drivers through them\<close>

text \<open>
  A driver hands the kernel a \<open>struct file_operations\<close>: the handlers it has, each of them
  optional. A process opens a file, which has its own position; reads, writes and ioctls on it
  go to the handler in the table, or fail when there is none. This theory translates the tables of
  003, 011, 005, 004, 001 (temperature log), 002, 009,
  021 and 001 (misc device), and runs sequences of system calls on
  any number of open files of a device.

  What the kernel does between the system call and the handler is the argument \<open>vfs\<close>: the
  check of position and count (\<open>v_check\<close>, which may shorten the count), and the errors for a call
  without a handler and for a file that is not open. What a handler gets beside the arguments of
  the call (a file system, the indeterminate contents of a local, the argument of an ioctl
  in user memory) is the argument \<open>'e\<close> of the call.
\<close>

record ('e, 's) file_ops =
  fo_open :: "('s \<Rightarrow> 's \<times> ret) option"
  fo_release :: "('s \<Rightarrow> 's \<times> ret) option"
  fo_read :: "('e \<Rightarrow> 's rd_op) option"
  fo_write :: "('e \<Rightarrow> 's wr_op) option"
  fo_ioctl :: "('e \<Rightarrow> uenv \<Rightarrow> cint \<Rightarrow> 's \<Rightarrow> ('s \<times> byte list \<times> ret) option) option"

datatype 'e fcall =
    FRead 'e uenv size_t
  | FWrite 'e uenv size_t
  | FIoctl 'e uenv cint

datatype 'e syscall =
    SysOpen nat
  | SysClose nat
  | SysSeek nat loff_t \<comment> \<open>with the position that \<open>default_llseek\<close> arrives at\<close>
  | SysCall nat "'e fcall"

record vfs =
  v_check :: "size_t \<Rightarrow> loff_t \<Rightarrow> errno + size_t"
  v_no_rw :: errno
  v_no_ioctl :: errno
  v_badf :: errno

definition vfs_contract :: "vfs \<Rightarrow> bool" where
  "vfs_contract v \<longleftrightarrow> (\<forall>n pos m. v_check v n pos = Inr m \<longrightarrow> vfs_ok m pos \<and> m \<le> n)"

text \<open>An instance: negative positions are refused, counts are cut to \<open>MAX_RW_COUNT\<close>.\<close>

definition plain_vfs :: vfs where
  "plain_vfs =
     \<lparr>v_check = (\<lambda>n pos. if sint pos < 0 then Inl EINVAL else Inr (min n 0x7ffff000)),
      v_no_rw = EINVAL, v_no_ioctl = ENOTTY, v_badf = KErr 9\<rparr>"

lemma plain_vfs_contract: "vfs_contract plain_vfs"
  by (auto simp: vfs_contract_def plain_vfs_def vfs_ok_def min_def word_le_nat_alt split: if_splits)

record 's system =
  sy_files :: "nat \<Rightarrow> loff_t option" \<comment> \<open>the open files and their positions\<close>
  sy_dev :: 's

subsection \<open>One call, and a sequence of calls\<close>

fun do_call ::
  "vfs \<Rightarrow> ('e, 's) file_ops \<Rightarrow> 'e fcall \<Rightarrow> loff_t \<Rightarrow> 's \<Rightarrow> ('s \<times> loff_t \<times> byte list \<times> ret) option" where
  "do_call v ops (FRead e u n) pos s =
     (case fo_read ops of
        None \<Rightarrow> Some (s, pos, [], Inl (v_no_rw v))
      | Some rd \<Rightarrow>
          (case v_check v n pos of Inl err \<Rightarrow> Some (s, pos, [], Inl err) | Inr m \<Rightarrow> rd e u m pos s))"
| "do_call v ops (FWrite e u n) pos s =
     (case fo_write ops of
        None \<Rightarrow> Some (s, pos, [], Inl (v_no_rw v))
      | Some wr \<Rightarrow>
          (case v_check v n pos of
             Inl err \<Rightarrow> Some (s, pos, [], Inl err)
           | Inr m \<Rightarrow> do { (s', pos', r) \<leftarrow> wr e u m pos s; Some (s', pos', [], r) }))"
| "do_call v ops (FIoctl e u cmd) pos s =
     (case fo_ioctl ops of
        None \<Rightarrow> Some (s, pos, [], Inl (v_no_ioctl v))
      | Some ioc \<Rightarrow> do { (s', out, r) \<leftarrow> ioc e u cmd s; Some (s', pos, out, r) })"

text \<open>
  An \<open>open\<close> that fails leaves no open file; the file number is the kernel's choice and is free. A
  file is released when it is closed.
\<close>

fun sys_step ::
  "vfs \<Rightarrow> ('e, 's) file_ops \<Rightarrow> 'e syscall \<Rightarrow> 's system \<Rightarrow> ('s system \<times> byte list \<times> ret) option" where
  "sys_step v ops (SysOpen f) st =
     (if sy_files st f \<noteq> None then Some (st, [], Inl (v_badf v))
      else
        (case (case fo_open ops of None \<Rightarrow> (sy_dev st, Inr 0) | Some opn \<Rightarrow> opn (sy_dev st)) of
           (s', Inl err) \<Rightarrow> Some (st\<lparr>sy_dev := s'\<rparr>, [], Inl err)
         | (s', Inr k) \<Rightarrow> Some (\<lparr>sy_files = (sy_files st)(f \<mapsto> 0), sy_dev = s'\<rparr>, [], Inr k)))"
| "sys_step v ops (SysClose f) st =
     (if sy_files st f = None then Some (st, [], Inl (v_badf v))
      else
        (let s' = (case fo_release ops of None \<Rightarrow> sy_dev st | Some rel \<Rightarrow> fst (rel (sy_dev st))) in
         Some (\<lparr>sy_files = (sy_files st)(f := None), sy_dev = s'\<rparr>, [], Inr 0)))"
| "sys_step v ops (SysSeek f p) st =
     (case sy_files st f of
        None \<Rightarrow> Some (st, [], Inl (v_badf v))
      | Some pos \<Rightarrow> Some (st\<lparr>sy_files := (sy_files st)(f \<mapsto> p)\<rparr>, [], Inr p))"
| "sys_step v ops (SysCall f c) st =
     (case sy_files st f of
        None \<Rightarrow> Some (st, [], Inl (v_badf v))
      | Some pos \<Rightarrow> do {
          (s', pos', out, r) \<leftarrow> do_call v ops c pos (sy_dev st);
          Some (\<lparr>sy_files = (sy_files st)(f \<mapsto> pos'), sy_dev = s'\<rparr>, out, r)
        })"

fun sys_run ::
  "vfs \<Rightarrow> ('e, 's) file_ops \<Rightarrow> 'e syscall list \<Rightarrow> 's system \<Rightarrow> ('s system \<times> (byte list \<times> ret) list) option" where
  "sys_run v ops [] st = Some (st, [])"
| "sys_run v ops (c # cs) st =
     do { (st1, out, r) \<leftarrow> sys_step v ops c st; (st2, rs) \<leftarrow> sys_run v ops cs st1; Some (st2, (out, r) # rs) }"

definition fresh_files :: "'s \<Rightarrow> 's system" where
  "fresh_files s = \<lparr>sy_files = (\<lambda>f. None), sy_dev = s\<rparr>"

subsection \<open>The contract of a table\<close>

text \<open>
  The drivers' part: under the invariant every handler in the table is defined and keeps it.
  \<open>good\<close> is what a call has to bring along beside working user access.
\<close>

fun access_of :: "'e fcall \<Rightarrow> uenv" where
  "access_of (FRead e u n) = u"
| "access_of (FWrite e u n) = u"
| "access_of (FIoctl e u cmd) = u"

fun fcall_ok :: "('e fcall \<Rightarrow> bool) \<Rightarrow> 'e syscall \<Rightarrow> bool" where
  "fcall_ok good (SysCall f c) \<longleftrightarrow> uaccess_ok (access_of c) \<and> good c"
| "fcall_ok good _ \<longleftrightarrow> True"

locale char_device =
  fixes ops :: "('e, 's) file_ops" and good :: "'e fcall \<Rightarrow> bool" and inv :: "'s \<Rightarrow> bool"
  assumes open_keeps: "fo_open ops = Some opn \<Longrightarrow> inv s \<Longrightarrow> inv (fst (opn s))"
    and release_keeps: "fo_release ops = Some rel \<Longrightarrow> inv s \<Longrightarrow> inv (fst (rel s))"
    and read_keeps: "fo_read ops = Some rd \<Longrightarrow> inv s \<Longrightarrow> uaccess_ok u \<Longrightarrow> good (FRead e u n) \<Longrightarrow> vfs_ok m pos \<Longrightarrow>
      \<exists>s' pos' out r. rd e u m pos s = Some (s', pos', out, r) \<and> inv s'"
    and write_keeps: "fo_write ops = Some wr \<Longrightarrow> inv s \<Longrightarrow> uaccess_ok u \<Longrightarrow> good (FWrite e u n) \<Longrightarrow> vfs_ok m pos \<Longrightarrow>
      \<exists>s' pos' r. wr e u m pos s = Some (s', pos', r) \<and> inv s'"
    and ioctl_keeps: "fo_ioctl ops = Some ioc \<Longrightarrow> inv s \<Longrightarrow> uaccess_ok u \<Longrightarrow> good (FIoctl e u cmd) \<Longrightarrow>
      \<exists>s' out r. ioc e u cmd s = Some (s', out, r) \<and> inv s'"
begin

lemma do_call_defined:
  assumes "vfs_contract v" and "inv s" and "uaccess_ok (access_of c)" and "good c"
  shows "\<exists>s' pos' out r. do_call v ops c pos s = Some (s', pos', out, r) \<and> inv s'"
proof (cases c)
  case (FRead e u n)
  show ?thesis
  proof (cases "fo_read ops")
    case None
    then show ?thesis using FRead assms(2) by simp
  next
    case (Some rd)
    show ?thesis
    proof (cases "v_check v n pos")
      case (Inl err)
      then show ?thesis using FRead Some assms(2) by simp
    next
      case (Inr m)
      then have "vfs_ok m pos" using assms(1) by (simp add: vfs_contract_def)
      then show ?thesis using read_keeps [OF Some assms(2)] FRead Some Inr assms(3,4) by simp
    qed
  qed
next
  case (FWrite e u n)
  show ?thesis
  proof (cases "fo_write ops")
    case None
    then show ?thesis using FWrite assms(2) by simp
  next
    case (Some wr)
    show ?thesis
    proof (cases "v_check v n pos")
      case (Inl err)
      then show ?thesis using FWrite Some assms(2) by simp
    next
      case (Inr m)
      then have "vfs_ok m pos" using assms(1) by (simp add: vfs_contract_def)
      then obtain s' pos' r where "wr e u m pos s = Some (s', pos', r)" "inv s'"
        using write_keeps [OF Some assms(2), of u e n m pos] FWrite assms(3,4) by auto
      then show ?thesis using FWrite Some Inr by simp
    qed
  qed
next
  case (FIoctl e u cmd)
  show ?thesis
  proof (cases "fo_ioctl ops")
    case None
    then show ?thesis using FIoctl assms(2) by simp
  next
    case (Some ioc)
    then obtain s' out r where "ioc e u cmd s = Some (s', out, r)" "inv s'"
      using ioctl_keeps [OF Some assms(2), of u e cmd] FIoctl assms(3,4) by auto
    then show ?thesis using FIoctl Some by simp
  qed
qed

lemma step_defined:
  assumes "vfs_contract v" and "inv (sy_dev st)" and "fcall_ok good c"
  shows "\<exists>st' out r. sys_step v ops c st = Some (st', out, r) \<and> inv (sy_dev st')"
proof (cases c)
  case (SysOpen f)
  then show ?thesis using assms(2)
    by (auto split: option.splits prod.splits sum.splits dest: open_keeps)
next
  case (SysClose f)
  then show ?thesis using assms(2) by (auto split: option.splits dest: release_keeps)
next
  case (SysSeek f p)
  then show ?thesis using assms(2) by (auto split: option.splits)
next
  case (SysCall f d)
  show ?thesis
  proof (cases "sy_files st f")
    case None
    then show ?thesis using SysCall assms(2) by simp
  next
    case (Some pos)
    obtain s' pos' out r where "do_call v ops d pos (sy_dev st) = Some (s', pos', out, r)" "inv s'"
      using do_call_defined [OF assms(1,2), of d pos] assms(3) SysCall by auto
    then show ?thesis using SysCall Some by simp
  qed
qed

text \<open>Every session is defined: any files open at once, any positions, any order.\<close>

lemma session_defined:
  assumes "vfs_contract v" and "inv (sy_dev st)" and "\<forall>c \<in> set cs. fcall_ok good c"
  shows "\<exists>st' rs. sys_run v ops cs st = Some (st', rs) \<and> inv (sy_dev st')"
  using assms(2,3)
proof (induction cs arbitrary: st)
  case Nil
  then show ?case by simp
next
  case (Cons c cs)
  obtain st1 out r where 1: "sys_step v ops c st = Some (st1, out, r)" "inv (sy_dev st1)"
    using step_defined [OF assms(1) Cons.prems(1), of c] Cons.prems(2) by auto
  obtain st2 rs where "sys_run v ops cs st1 = Some (st2, rs)" "inv (sy_dev st2)"
    using Cons.IH [OF 1(2)] Cons.prems(2) by auto
  with 1(1) show ?case by simp
qed

end

text \<open>
  The part a caller relies on: a read delivers at most the bytes asked for (more would overrun
  the caller's buffer), and neither call reports more than the count.
\<close>

fun within_count :: "'e syscall \<Rightarrow> byte list \<times> ret \<Rightarrow> bool" where
  "within_count (SysCall f (FRead e u n)) (out, r) \<longleftrightarrow>
     length out \<le> unat n \<and> (case r of Inl err \<Rightarrow> True | Inr k \<Rightarrow> k \<le> n)"
| "within_count (SysCall f (FWrite e u n)) (out, r) \<longleftrightarrow> (case r of Inl err \<Rightarrow> True | Inr k \<Rightarrow> k \<le> n)"
| "within_count _ _ \<longleftrightarrow> True"

locale counted_device = char_device ops good inv
  for ops :: "('e, 's) file_ops" and good and inv +
  assumes read_counted: "fo_read ops = Some rd \<Longrightarrow> inv s \<Longrightarrow> uaccess_ok u \<Longrightarrow> vfs_ok m pos \<Longrightarrow>
      rd e u m pos s = Some (s', pos', out, r) \<Longrightarrow>
      length out \<le> unat m \<and> (case r of Inl err \<Rightarrow> True | Inr k \<Rightarrow> k \<le> m)"
    and write_counted: "fo_write ops = Some wr \<Longrightarrow> inv s \<Longrightarrow> uaccess_ok u \<Longrightarrow> vfs_ok m pos \<Longrightarrow>
      wr e u m pos s = Some (s', pos', r) \<Longrightarrow> (case r of Inl err \<Rightarrow> True | Inr k \<Rightarrow> k \<le> m)"
begin

lemma do_call_counted:
  assumes "vfs_contract v" and "inv s" and "uaccess_ok (access_of c)"
    and "do_call v ops c pos s = Some (s', pos', out, r)"
  shows "within_count (SysCall f c) (out, r)"
proof (cases c)
  case (FRead e u n)
  show ?thesis
  proof (cases "fo_read ops = None \<or> (\<exists>err. v_check v n pos = Inl err)")
    case True
    then show ?thesis using FRead assms(4) by (auto split: option.splits sum.splits)
  next
    case False
    then obtain rd m where rd: "fo_read ops = Some rd" and m: "v_check v n pos = Inr m"
      by (cases "v_check v n pos") auto
    have ok: "vfs_ok m pos" "m \<le> n" using assms(1) m by (simp_all add: vfs_contract_def)
    have "length out \<le> unat m \<and> (case r of Inl err \<Rightarrow> True | Inr k \<Rightarrow> k \<le> m)"
      using read_counted [OF rd assms(2) _ ok(1), of u e s' pos' out r] assms(3,4) FRead rd m by simp
    then show ?thesis using FRead ok(2) by (auto simp: word_le_nat_alt split: sum.splits)
  qed
next
  case (FWrite e u n)
  show ?thesis
  proof (cases "fo_write ops = None \<or> (\<exists>err. v_check v n pos = Inl err)")
    case True
    then show ?thesis using FWrite assms(4) by (auto split: option.splits sum.splits)
  next
    case False
    then obtain wr m where wr: "fo_write ops = Some wr" and m: "v_check v n pos = Inr m"
      by (cases "v_check v n pos") auto
    have ok: "vfs_ok m pos" "m \<le> n" using assms(1) m by (simp_all add: vfs_contract_def)
    have "wr e u m pos s = Some (s', pos', r)" using assms(4) FWrite wr m by (auto simp: bind_eq_Some_conv)
    then have "case r of Inl err \<Rightarrow> True | Inr k \<Rightarrow> k \<le> m"
      using write_counted [OF wr assms(2) _ ok(1)] assms(3) FWrite by simp
    then show ?thesis using FWrite ok(2) by (auto split: sum.splits)
  qed
qed simp

lemma session_counted:
  assumes "vfs_contract v" and "inv (sy_dev st)" and "\<forall>c \<in> set cs. fcall_ok good c"
  shows "\<exists>st' rs. sys_run v ops cs st = Some (st', rs) \<and> inv (sy_dev st') \<and> list_all2 within_count cs rs"
  using assms(2,3)
proof (induction cs arbitrary: st)
  case Nil
  then show ?case by simp
next
  case (Cons c cs)
  obtain st1 out r where 1: "sys_step v ops c st = Some (st1, out, r)" "inv (sy_dev st1)"
    using step_defined [OF assms(1) Cons.prems(1), of c] Cons.prems(2) by auto
  have "within_count c (out, r)"
  proof (cases c)
    case (SysCall f d)
    show ?thesis
    proof (cases "sy_files st f")
      case None
      then show ?thesis using SysCall 1(1) by (cases d) auto
    next
      case (Some pos)
      then obtain s' pos' where "do_call v ops d pos (sy_dev st) = Some (s', pos', out, r)"
        using 1(1) SysCall by (auto simp: bind_eq_Some_conv)
      then show ?thesis unfolding SysCall
        using do_call_counted [OF assms(1) Cons.prems(1)] Cons.prems(2) SysCall by simp
    qed
  qed auto
  moreover obtain st2 rs where "sys_run v ops cs st1 = Some (st2, rs)" "inv (sy_dev st2)"
      "list_all2 within_count cs rs"
    using Cons.IH [OF 1(2)] Cons.prems(2) by auto
  ultimately show ?case using 1(1) by simp
qed

end

subsection \<open>The tables of the drivers\<close>

text \<open>
  \<open>storage_ioctl\<close> is called with a command number; the numbers are those of the \<open>_IO\<close> macros.
  The file system comes with the call.
\<close>

definition storage_cmd_of :: "cint \<Rightarrow> storage_cmd" where
  "storage_cmd_of n =
     (if n = 0x40044C01 then IOCTL_LOCK_SECTOR
      else if n = 0x40045502 then IOCTL_UNLOCK_SECTOR
      else if n = 0x80084903 then IOCTL_GET_LOCK_INFO
      else if n = 0x40044504 then IOCTL_ERASE_SECTOR
      else if n = 0x40044D05 then IOCTL_MIRROR_SECTOR
      else if n = 0x40084206 then IOCTL_BACKUP_TO_FILE
      else OTHER_CMD n)"

definition storage_fops :: "(fsenv, storage_dev \<times> mirror_dev) file_ops" where
  "storage_fops =
     \<lparr>fo_open = Some (\<lambda>(s, m). case storage_open s of (s', r) \<Rightarrow> ((s', m), r)),
      fo_release = Some (\<lambda>(s, m). case storage_release s of (s', r) \<Rightarrow> ((s', m), r)),
      fo_read = Some (\<lambda>fs u n pos (s, m).
        do { (s', pos', out, r) \<leftarrow> storage_read u n pos s; Some ((s', m), pos', out, r) }),
      fo_write = Some (\<lambda>fs u n pos (s, m).
        do { (s', pos', r) \<leftarrow> storage_write u n pos s; Some ((s', m), pos', r) }),
      fo_ioctl = Some (\<lambda>fs u cmd st.
        do { (st', out, file, r) \<leftarrow> storage_ioctl u fs (storage_cmd_of cmd) st; Some (st', out, r) })\<rparr>"

fun storage_good :: "fsenv fcall \<Rightarrow> bool" where
  "storage_good (FIoctl fs u cmd) \<longleftrightarrow> fs_ok fs \<and>
     (storage_cmd_of cmd = IOCTL_BACKUP_TO_FILE \<longrightarrow> fst (ucfu u 256) = 0 \<longrightarrow> 0 \<in> set (snd (ucfu u 256)))"
| "storage_good _ \<longleftrightarrow> True"

definition skel_fops :: "(unit, skel) file_ops" where
  "skel_fops =
     \<lparr>fo_open = Some my_open_skel, fo_release = Some my_release_skel, fo_read = Some (\<lambda>e. my_read_skel),
      fo_write = Some (\<lambda>e. my_write_skel), fo_ioctl = None\<rparr>"

definition minors_fops :: "(unit, unit) file_ops" where
  "minors_fops =
     \<lparr>fo_open = Some (\<lambda>s. (s, Inr (word_of_int rw_open))),
      fo_release = Some (\<lambda>s. (s, Inr (word_of_int rw_release))),
      fo_read = Some (\<lambda>e u n pos s. case rw_read n pos of (pos', out, r) \<Rightarrow> Some (s, pos', out, r)),
      fo_write = Some (\<lambda>e u n pos s. case rw_write n pos of (pos', r) \<Rightarrow> Some (s, pos', r)),
      fo_ioctl = None\<rparr>"

definition light_fops :: "(unit, light) file_ops" where
  "light_fops =
     \<lparr>fo_open = Some light_open, fo_release = Some light_release,
      fo_read = Some (\<lambda>e u n pos s. case light_read u n s of (s', out, r) \<Rightarrow> Some (s', pos, out, r)),
      fo_write = Some (\<lambda>e u n pos s. do { (s', r) \<leftarrow> light_write u n s; Some (s', pos, r) }),
      fo_ioctl = Some (\<lambda>e u cmd s. Some (light_ioctl u cmd s))\<rparr>"

fun light_good :: "unit fcall \<Rightarrow> bool" where
  "light_good (FWrite e u n) \<longleftrightarrow> fst (ucfu u 3) = 0 \<longrightarrow> (snd (ucfu u 3) ! 0 = 0 \<or> snd (ucfu u 3) ! 0 = 1)"
| "light_good _ \<longleftrightarrow> True"

text \<open>The temperature sensor has neither \<open>open\<close>, \<open>release\<close> nor \<open>read\<close>.\<close>

definition temp_fops :: "(unit, temp_sensor) file_ops" where
  "temp_fops =
     \<lparr>fo_open = None, fo_release = None, fo_read = None,
      fo_write = Some (\<lambda>e u n pos s. case temp_write_sens u n s of (s', r) \<Rightarrow> Some (s', pos, r)),
      fo_ioctl = Some (\<lambda>e u cmd s. Some (temp_ioctl u cmd s))\<rparr>"

text \<open>The ioctl of the log updates an \<open>int\<close> of the caller; \<open>e\<close> holds its bytes.\<close>

definition log_fop :: "(byte list, templog) file_ops" where
  "log_fop =
     \<lparr>fo_open = Some device_open_log, fo_release = Some device_release_log,
      fo_read = Some (\<lambda>e u n pos s. case device_read_log u n s of (s', out, r) \<Rightarrow> Some (s', pos, out, r)),
      fo_write = Some (\<lambda>e u n pos s. case device_write_log u n s of (s', r) \<Rightarrow> Some (s', pos, r)),
      fo_ioctl = Some (\<lambda>e u cmd s. case device_ioctl_log u cmd e s of (arg, r) \<Rightarrow> Some (s, arg, r))\<rparr>"

text \<open>The read of the keypad has an uninitialised local: \<open>e\<close> is its value.\<close>

definition key_fop :: "(byte, queue) file_ops" where
  "key_fop =
     \<lparr>fo_open = Some device_open_key, fo_release = Some device_release_key,
      fo_read = Some (\<lambda>e u n pos q. do { (q', out, r) \<leftarrow> device_read_key u e n q; Some (q', pos, out, r) }),
      fo_write = Some (\<lambda>e u n pos q. do { (q', r) \<leftarrow> device_write_key u n q; Some (q', pos, r) }),
      fo_ioctl = Some (\<lambda>e u cmd q. do { (q', r) \<leftarrow> device_ioctl_key cmd q; Some (q', [], r) })\<rparr>"

text \<open>Likewise for the local array \<open>msg[256]\<close> of the interrupt demonstration.\<close>

definition irq_fops :: "(byte list, irqd) file_ops" where
  "irq_fops =
     \<lparr>fo_open = None, fo_release = None,
      fo_read = Some (\<lambda>e u n pos s. do { (out, r) \<leftarrow> irq_read u e n s; Some (s, pos, out, r) }),
      fo_write = Some (\<lambda>e u n pos s. do { (s', r) \<leftarrow> irq_write u n s; Some (s', pos, r) }),
      fo_ioctl = None\<rparr>"

fun irq_good :: "byte list fcall \<Rightarrow> bool" where
  "irq_good (FRead e u n) \<longleftrightarrow> length e = 256"
| "irq_good _ \<longleftrightarrow> True"

text \<open>The misc device gets \<open>simple_read_from_buffer\<close> and the answer of \<open>access_ok\<close>.\<close>

definition misc_fops :: "(srfb \<times> bool, misc) file_ops" where
  "misc_fops =
     \<lparr>fo_open = None, fo_release = None,
      fo_read = Some (\<lambda>(srfb, acc) u n pos s. misc_read srfb acc u n pos s),
      fo_write = Some (\<lambda>(srfb, acc) u n pos s. misc_write acc u n pos s), fo_ioctl = None\<rparr>"

lemmas fops_defs =
  storage_fops_def skel_fops_def minors_fops_def light_fops_def temp_fops_def log_fop_def key_fop_def
  irq_fops_def misc_fops_def

subsection \<open>The tables keep the contracts\<close>

lemma of_nat_le_word: "k \<le> unat m \<Longrightarrow> (word_of_nat k :: 'a::len word) \<le> m"
  unfolding word_le_nat_alt unat_of_nat by (rule order_trans [OF mod_less_eq_dividend])

lemma triple_ex [simp]: "\<exists>a b c. x = (a, b, c)"
  by (cases x) auto

lemma clamp_le_len: "clamp len off \<le> unat len" "(word_of_nat (clamp len off) :: size_t) \<le> len"
  by (simp_all add: word_le_nat_alt) (simp_all add: clamp_def)

lemma storage_read_counted:
  assumes "storage_inv s" and "vfs_ok m pos" and "storage_read u m pos s = Some (s', pos', out, r)"
  shows "length out \<le> unat m \<and> (case r of Inl err \<Rightarrow> True | Inr k \<Rightarrow> k \<le> m)"
proof -
  have "length (take (clamp m pos) xs) \<le> unat m" "length (take k (take (clamp m pos) xs)) \<le> unat m" for k and xs :: "byte list"
    using clamp_le_len(1) [of m pos] by (simp_all add: min.coboundedI1 min.coboundedI2)
  then show ?thesis
    using assms(3) clamp_le_len(2) [of m pos] unfolding storage_read_run [OF assms(1,2)]
    by (auto simp: Let_def simp del: length_take take_take split: if_splits)
qed

lemma storage_write_counted:
  assumes "storage_inv s" and "vfs_ok m pos" and "uaccess_ok u" and "storage_write u m pos s = Some (s', pos', r)"
  shows "case r of Inl err \<Rightarrow> True | Inr k \<Rightarrow> k \<le> m"
proof (cases r)
  case (Inr k)
  then have "k = word_of_nat (clamp m pos)"
    using assms(4) unfolding storage_write_run [OF assms(1-3)] by (auto simp: Let_def split: if_splits)
  then show ?thesis using Inr clamp_le_len(2) by simp
qed simp

interpretation storage_file: counted_device storage_fops storage_good sys_inv
proof
  fix rd s u e and n m :: size_t and pos :: loff_t
  assume "fo_read storage_fops = Some rd" "sys_inv s" "uaccess_ok u" "vfs_ok m pos"
  moreover obtain d b where "s = (d, b)" by (cases s)
  moreover have "storage_inv d \<Longrightarrow> storage_read u m pos d \<noteq> None"
    using \<open>vfs_ok m pos\<close> by (simp add: storage_read_run)
  ultimately show "\<exists>s' pos' out r. rd e u m pos s = Some (s', pos', out, r) \<and> sys_inv s'"
    using read_keeps_state [of d m pos u] by (auto simp: storage_fops_def sys_inv_def)
next
  fix wr s u e and n m :: size_t and pos :: loff_t
  assume a: "fo_write storage_fops = Some wr" "sys_inv s" "uaccess_ok u" "vfs_ok m pos"
  moreover obtain d b where "s = (d, b)" by (cases s)
  moreover have "storage_inv d \<Longrightarrow> storage_write u m pos d \<noteq> None"
    using a(3,4) by (simp add: storage_write_run)
  ultimately show "\<exists>s' pos' r. wr e u m pos s = Some (s', pos', r) \<and> sys_inv s'"
    using write_inv [of d m pos u] by (auto simp: storage_fops_def sys_inv_def)
next
  fix ioc s u e and cmd :: cint
  assume a: "fo_ioctl storage_fops = Some ioc" "sys_inv s" "uaccess_ok u" "storage_good (FIoctl e u cmd)"
  obtain d b where s: "s = (d, b)" by (cases s)
  obtain d' b' out f r where "storage_ioctl u e (storage_cmd_of cmd) (d, b) = Some ((d', b'), out, f, r)" "sys_inv (d', b')"
    using ioctl_inv [of d b u e "storage_cmd_of cmd"] a s by auto
  then show "\<exists>s' out r. ioc e u cmd s = Some (s', out, r) \<and> sys_inv s'"
    using a(1) s by (auto simp: storage_fops_def)
next
  fix rd s u e s' pos' out r and m :: size_t and pos :: loff_t
  assume "fo_read storage_fops = Some rd" "sys_inv s" "vfs_ok m pos" "rd e u m pos s = Some (s', pos', out, r)"
  then show "length out \<le> unat m \<and> (case r of Inl err \<Rightarrow> True | Inr k \<Rightarrow> k \<le> m)"
    by (cases s) (auto simp: storage_fops_def sys_inv_def bind_eq_Some_conv dest: storage_read_counted)
next
  fix wr s u e s' pos' r and m :: size_t and pos :: loff_t
  assume "fo_write storage_fops = Some wr" "sys_inv s" "uaccess_ok u" "vfs_ok m pos" "wr e u m pos s = Some (s', pos', r)"
  then show "case r of Inl err \<Rightarrow> True | Inr k \<Rightarrow> k \<le> m"
    by (cases s) (auto simp: storage_fops_def sys_inv_def bind_eq_Some_conv dest: storage_write_counted)
qed (auto simp: storage_fops_def storage_open_def storage_release_def)

lemma skel_read_counted:
  assumes "skel_inv s" and "my_read_skel u m pos s = Some (s', pos', out, r)"
  shows "s' = s \<and> length out \<le> unat m \<and> (case r of Inl err \<Rightarrow> True | Inr k \<Rightarrow> k \<le> m)"
proof -
  define d where "d = take (unat m) (drop (unat pos) (skel_contents s))"
  have "length d \<le> unat m" by (simp add: d_def)
  moreover from this have "(word_of_nat (length d) :: size_t) \<le> m" by (simp add: of_nat_le_word)
  ultimately show ?thesis using assms(2) unfolding my_read_skel_run [OF assms(1)] d_def [symmetric]
    by (auto simp: Let_def split: if_splits)
qed

interpretation skel_file: counted_device skel_fops "\<lambda>c. True" skel_inv
proof
  fix rd s u e and n m :: size_t and pos :: loff_t
  assume "fo_read skel_fops = Some rd" "skel_inv s"
  moreover have "my_read_skel u m pos s \<noteq> None"
    using my_read_skel_run [OF \<open>skel_inv s\<close>, of u m pos] by simp
  ultimately show "\<exists>s' pos' out r. rd e u m pos s = Some (s', pos', out, r) \<and> skel_inv s'"
    by (auto simp: skel_fops_def dest: skel_read_counted)
next
  fix wr s u e and n m :: size_t and pos :: loff_t
  assume a: "fo_write skel_fops = Some wr" "skel_inv s" "uaccess_ok u" "vfs_ok m pos"
  have "skel_inv s'" if "my_write_skel u m pos s = Some (s', pos', r)" for s' pos' r
    using that a(2,3) skel_write_end(1,3) [of pos m] unfolding my_write_skel_run [OF a(2,4,3)]
    by (auto simp: skel_inv_def Let_def not_le split: if_splits)
  moreover have "my_write_skel u m pos s \<noteq> None" using my_write_skel_run [OF a(2,4,3)] by simp
  ultimately show "\<exists>s' pos' r. wr e u m pos s = Some (s', pos', r) \<and> skel_inv s'"
    using a(1) by (auto simp: skel_fops_def)
next
  fix wr s u e s' pos' r and m :: size_t and pos :: loff_t
  assume a: "fo_write skel_fops = Some wr" "skel_inv s" "uaccess_ok u" "vfs_ok m pos"
    and w: "wr e u m pos s = Some (s', pos', r)"
  have "skel_span m pos \<le> unat m" by (simp add: skel_span_def)
  then have "(word_of_nat (skel_span m pos) :: size_t) \<le> m" by (simp add: of_nat_le_word)
  then show "case r of Inl err \<Rightarrow> True | Inr k \<Rightarrow> k \<le> m"
    using a(1) w my_write_skel_run [OF a(2,4,3)]
    by (auto simp: skel_fops_def Let_def split: if_splits)
qed (auto simp: skel_fops_def my_open_skel_def my_release_skel_def dest: skel_read_counted)

interpretation minors_file: counted_device minors_fops "\<lambda>c. True" "\<lambda>s. True"
  by unfold_locales (auto simp: minors_fops_def rw_read_def rw_write_def)

lemma light_write_defined:
  assumes "uaccess_ok u" and "light_good (FWrite e u n)"
  shows "\<exists>s' r. light_write u m s = Some (s', r)"
proof -
  have "length (snd (ucfu u 3)) = 3" using assms(1) by simp
  then show ?thesis using assms(2) by (auto simp: light_write_def arr_get_def split: prod.splits)
qed

interpretation light_file: char_device light_fops light_good "\<lambda>s. True"
proof
  fix wr s u e and n m :: size_t and pos :: loff_t
  assume "fo_write light_fops = Some wr" "uaccess_ok u" "light_good (FWrite e u n)"
  then show "\<exists>s' pos' r. wr e u m pos s = Some (s', pos', r) \<and> True"
    using light_write_defined [of u e n m s] by (auto simp: light_fops_def)
qed (auto simp: light_fops_def split: prod.splits)

interpretation temp_file: char_device temp_fops "\<lambda>c. True" "\<lambda>s. True"
  by unfold_locales (auto simp: temp_fops_def split: prod.splits)

interpretation log_file: char_device log_fop "\<lambda>c. True" "\<lambda>s. True"
  by unfold_locales (auto simp: log_fop_def split: prod.splits)

interpretation key_file: char_device key_fop "\<lambda>c. True" queue_inv
proof
  fix rd s u e and n m :: size_t and pos :: loff_t
  assume "fo_read key_fop = Some rd" "queue_inv s"
  then show "\<exists>s' pos' out r. rd e u m pos s = Some (s', pos', out, r) \<and> queue_inv s'"
    using device_read_key_run [of s u e m] by (cases "snd (key_spec (KRead u e m) (queue_list s))") (auto simp: key_fop_def)
next
  fix wr s u e and n m :: size_t and pos :: loff_t
  assume "fo_write key_fop = Some wr" "queue_inv s" "uaccess_ok u"
  then show "\<exists>s' pos' r. wr e u m pos s = Some (s', pos', r) \<and> queue_inv s'"
    using device_write_key_run [of s u m] by (auto simp: key_fop_def)
next
  fix ioc s u e and cmd :: cint
  assume "fo_ioctl key_fop = Some ioc" "queue_inv s"
  then show "\<exists>s' out r. ioc e u cmd s = Some (s', out, r) \<and> queue_inv s'"
    using device_ioctl_key_run [of s cmd] by (auto simp: key_fop_def)
qed (auto simp: key_fop_def device_open_key_def device_release_key_def)

interpretation irq_file: char_device irq_fops irq_good "\<lambda>s. True"
proof
  fix rd s u e and n m :: size_t and pos :: loff_t
  assume "fo_read irq_fops = Some rd" "irq_good (FRead e u n)"
  then show "\<exists>s' pos' out r. rd e u m pos s = Some (s', pos', out, r) \<and> True"
    using irq_read_run [of e u m s] by (auto simp: irq_fops_def)
next
  fix wr s u e and n m :: size_t and pos :: loff_t
  assume "fo_write irq_fops = Some wr" "uaccess_ok u"
  then show "\<exists>s' pos' r. wr e u m pos s = Some (s', pos', r) \<and> True"
    using irq_write_run [of u m s] by (auto simp: irq_fops_def)
qed (auto simp: irq_fops_def)

interpretation misc_file: char_device misc_fops "\<lambda>c. True" misc_inv
proof
  fix rd s u e and n m :: size_t and pos :: loff_t
  assume "fo_read misc_fops = Some rd" "misc_inv s"
  then show "\<exists>s' pos' out r. rd e u m pos s = Some (s', pos', out, r) \<and> misc_inv s'"
    using misc_c_string(1) [of s] by (cases e) (auto simp: misc_fops_def misc_read_def split: prod.splits)
next
  fix wr s u n and e :: "srfb \<times> bool" and m :: size_t and pos :: loff_t
  assume a: "fo_write misc_fops = Some wr" "misc_inv s" "uaccess_ok u"
  obtain srfb acc where e: "e = (srfb, acc)" by (cases e)
  have "misc_write acc u m pos s \<noteq> None" using misc_write_run [OF a(2,3), of acc m pos] by simp
  then show "\<exists>s' pos' r. wr e u m pos s = Some (s', pos', r) \<and> misc_inv s'"
    using a(1) e misc_write_keeps [OF a(2,3), of acc m pos] by (auto simp: misc_fops_def)
qed (auto simp: misc_fops_def)

subsection \<open>Properties\<close>

text \<open>C2: every sequence of opens, seeks, reads, writes, ioctls and closes on any number of files of the
  storage device is defined: no access outside the buffers, no mutex left held. It keeps the
  invariant, no read delivers more than was asked for, and no call reports more than its count.\<close>

theorem storage_files_safe:
  assumes "vfs_contract v" and "sys_inv (sy_dev st)" and "\<forall>c \<in> set cs. fcall_ok storage_good c"
  shows "\<exists>st' rs. sys_run v storage_fops cs st = Some (st', rs) \<and> sys_inv (sy_dev st') \<and> list_all2 within_count cs rs"
  using assms by (rule storage_file.session_counted)

theorem storage_files_safe_witness:
  "\<exists>st' rs. sys_run plain_vfs storage_fops
      [SysOpen 3, SysCall 3 (FWrite (chunk_fs 1) (user_mem [1, 2, 3]) 3), SysOpen 4,
       SysCall 4 (FIoctl (chunk_fs 1) (user_mem []) 0x80084903), SysClose 3,
       SysCall 4 (FRead (chunk_fs 1) (user_mem []) 2)] (fresh_files (storage_boot, mirror_boot)) = Some (st', rs) \<and>
     sys_inv (sy_dev st') \<and>
     list_all2 within_count
      [SysOpen 3, SysCall 3 (FWrite (chunk_fs 1) (user_mem [1, 2, 3]) 3), SysOpen 4,
       SysCall 4 (FIoctl (chunk_fs 1) (user_mem []) 0x80084903), SysClose 3,
       SysCall 4 (FRead (chunk_fs 1) (user_mem []) 2)] rs"
  by (rule storage_files_safe)
    (simp_all add: plain_vfs_contract boot_inv fresh_files_def chunk_fs_ok storage_cmd_of_def)

text \<open>
  How many bytes a read of \<open>n\<close> bytes puts into the caller's memory \<open>u\<close>, and what a write of \<open>n\<close> bytes
  from there reports.
\<close>

definition bytes_given :: "('e, 's) file_ops \<Rightarrow> 'e \<Rightarrow> uenv \<Rightarrow> size_t \<Rightarrow> 's \<Rightarrow> nat option" where
  "bytes_given ops e u n s = map_option (\<lambda>(s', pos, out, r). length out) (do_call plain_vfs ops (FRead e u n) 0 s)"

definition reported :: "('e, 's) file_ops \<Rightarrow> 'e \<Rightarrow> uenv \<Rightarrow> size_t \<Rightarrow> 's \<Rightarrow> ret option" where
  "reported ops e u n s = map_option (\<lambda>(s', pos, out, r). r) (do_call plain_vfs ops (FWrite e u n) 0 s)"

lemma plain_check: "v_check plain_vfs n 0 = Inr (min n 0x7ffff000)"
  by (simp add: plain_vfs_def)

lemma key_delivers_one: "queue_inv q \<Longrightarrow> uctu u 1 = 0 \<Longrightarrow> bytes_given key_fop val u n q = Some 1"
  using device_read_key_run [of q u val "min n 0x7ffff000"]
  by (auto simp: bytes_given_def key_fop_def plain_check)

lemma irq_delivers_report:
  "length msg = 256 \<Longrightarrow> uctu u (length (irq_report d)) = 0 \<Longrightarrow> bytes_given irq_fops msg u n d = Some (length (irq_report d))"
  using irq_read_run [of msg u "min n 0x7ffff000" d]
  by (auto simp: bytes_given_def irq_fops_def plain_check)

lemma irq_report_long: "99 \<le> length (irq_report d)"
  using length_fmt_lu [of "interrupt_count d"] length_fmt_lu [of "tasklet_count d"]
    length_fmt_lu [of "work_queue_count d"]
    length_fmt_lu [of "interrupt_count d + tasklet_count d + work_queue_count d"]
  by (simp add: irq_report_def lu_def)

lemma light_reports:
  assumes "uaccess_ok u" and "fst (ucfu u 3) = 0"
  shows "reported light_fops () u n s = (if snd (ucfu u 3) ! 0 = 0 \<or> snd (ucfu u 3) ! 0 = 1 then Some (Inr 3) else None)"
proof -
  have "length (snd (ucfu u 3)) = 3" using assms(1) by simp
  then show ?thesis using assms(2)
    by (cases "ucfu u 3") (auto simp: reported_def light_fops_def plain_check light_write_def arr_get_def)
qed

text \<open>C23: the handlers of 005, 001 (temperature log), 002, 021 and 004 do not look at the count. Whatever
  it is, 0 included, a read into writable memory puts 3, 4 or 1 bytes there, or the whole
  report of 021, which has at least 99; and a write from readable memory, whatever it holds,
  takes and reports 3, 4 or 1 bytes. (A first byte above 1 that is written to the light is
  stored into a \<open>_Bool\<close>, which is undefined.)\<close>

theorem counts_ignored:
  assumes "queue_inv q" and "length msg = 256" and "\<forall>k. uctu u k = 0" and "uaccess_ok w" and "\<forall>k \<le> 4. fst (ucfu w k) = 0"
  shows "bytes_given light_fops () u n s = Some 3 \<and> bytes_given log_fop arg u n l = Some 4 \<and>
    bytes_given key_fop val u n q = Some 1 \<and>
    bytes_given irq_fops msg u n d = Some (length (irq_report d)) \<and> 99 \<le> length (irq_report d) \<and>
    reported light_fops () w n s = (if snd (ucfu w 3) ! 0 = 0 \<or> snd (ucfu w 3) ! 0 = 1 then Some (Inr 3) else None) \<and>
    reported temp_fops () w n t = Some (Inr 4) \<and> reported key_fop val w n q = Some (Inr 1)"
proof (intro conjI)
  have w: "fst (ucfu w 1) = 0" "fst (ucfu w 3) = 0" "fst (ucfu w 4) = 0" using assms(5) by simp_all
  show "bytes_given light_fops () u n s = Some 3"
    using assms(3) by (simp add: bytes_given_def light_fops_def plain_check light_read_def light_status_def)
  show "bytes_given log_fop arg u n l = Some 4"
    using assms(3) by (simp add: bytes_given_def log_fop_def plain_check device_read_log_def Let_def)
  show "bytes_given key_fop val u n q = Some 1" using key_delivers_one [OF assms(1)] assms(3) by blast
  show "bytes_given irq_fops msg u n d = Some (length (irq_report d))" using irq_delivers_report [OF assms(2)] assms(3) by blast
  show "99 \<le> length (irq_report d)" by (rule irq_report_long)
  show "reported light_fops () w n s = (if snd (ucfu w 3) ! 0 = 0 \<or> snd (ucfu w 3) ! 0 = 1 then Some (Inr 3) else None)"
    by (rule light_reports [OF assms(4) w(2)])
  show "reported temp_fops () w n t = Some (Inr 4)"
    using w(3) by (cases "ucfu w 4") (simp add: reported_def temp_fops_def plain_check temp_write_sens_def Let_def)
  show "reported key_fop val w n q = Some (Inr 1)"
    using device_write_key_run [OF assms(1,4), of "min n 0x7ffff000"] w(1)
    by (auto simp: reported_def key_fop_def plain_check)
qed

theorem counts_ignored_witness:
  "bytes_given key_fop 0 (user_mem []) 0 (queue_init \<lparr>items = replicate 64 0, front = 0, rear = 0, count = 0, spin = False\<rparr>) = Some 1 \<and>
   99 \<le> length (irq_report irqd_initial) \<and> reported light_fops () (user_mem [1, 200, 30, 4]) 0 light_initial = Some (Inr 3)"
  using counts_ignored [of "queue_init \<lparr>items = replicate 64 0, front = 0, rear = 0, count = 0, spin = False\<rparr>"
      "replicate 256 0" "user_mem []" "user_mem [1, 200, 30, 4]" 0 light_initial _ _ 0 irqd_initial temp_initial]
  by (simp add: queue_inv_def queue_init_def)

end
