(* ===== verification/FileSpecs.thy ===== *)
theory FileSpecs
  imports FileOps
begin

section \<open>What the files of the storage device and of the keypad promise\<close>

text \<open>
  An abstract device is a table of file operations too, over a simpler state. The locale
  \<open>file_refinement\<close> relates the table of a driver to it, handler by handler; then every session of
  system calls, on any number of open files with their positions, gives the same results on both.

  The storage device is eight sectors that can be locked one by one, with a copy of each in the
  mirror; the flat buffers, the loops over sectors and keys and the mutexes are gone. The keypad
  is a list of pending keys.
\<close>

definition same_calls :: "('e, 's) file_ops \<Rightarrow> ('e, 'a) file_ops \<Rightarrow> bool" where
  "same_calls C A \<longleftrightarrow> (fo_open A = None \<longleftrightarrow> fo_open C = None) \<and> (fo_release A = None \<longleftrightarrow> fo_release C = None) \<and>
     (fo_read A = None \<longleftrightarrow> fo_read C = None) \<and> (fo_write A = None \<longleftrightarrow> fo_write C = None) \<and>
     (fo_ioctl A = None \<longleftrightarrow> fo_ioctl C = None)"

locale file_refinement = char_device C good inv
  for C :: "('e, 's) file_ops" and good and inv +
  fixes A :: "('e, 'a) file_ops" and abs :: "'s \<Rightarrow> 'a"
  assumes same: "same_calls C A"
    and open_sim: "fo_open C = Some f \<Longrightarrow> fo_open A = Some g \<Longrightarrow> inv s \<Longrightarrow> g (abs s) = (abs (fst (f s)), snd (f s))"
    and release_sim: "fo_release C = Some f \<Longrightarrow> fo_release A = Some g \<Longrightarrow> inv s \<Longrightarrow> g (abs s) = (abs (fst (f s)), snd (f s))"
    and read_sim: "fo_read C = Some rd \<Longrightarrow> fo_read A = Some rd' \<Longrightarrow> inv s \<Longrightarrow> uaccess_ok u \<Longrightarrow> good (FRead e u n) \<Longrightarrow>
      vfs_ok m pos \<Longrightarrow> rd e u m pos s = Some (s', pos', out, r) \<Longrightarrow> rd' e u m pos (abs s) = Some (abs s', pos', out, r)"
    and write_sim: "fo_write C = Some wr \<Longrightarrow> fo_write A = Some wr' \<Longrightarrow> inv s \<Longrightarrow> uaccess_ok u \<Longrightarrow> good (FWrite e u n) \<Longrightarrow>
      vfs_ok m pos \<Longrightarrow> wr e u m pos s = Some (s', pos', r) \<Longrightarrow> wr' e u m pos (abs s) = Some (abs s', pos', r)"
    and ioctl_sim: "fo_ioctl C = Some ioc \<Longrightarrow> fo_ioctl A = Some ioc' \<Longrightarrow> inv s \<Longrightarrow> uaccess_ok u \<Longrightarrow> good (FIoctl e u cmd) \<Longrightarrow>
      ioc e u cmd s = Some (s', out, r) \<Longrightarrow> ioc' e u cmd (abs s) = Some (abs s', out, r)"
begin

definition abs_sys :: "'s system \<Rightarrow> 'a system" where
  "abs_sys st = \<lparr>sy_files = sy_files st, sy_dev = abs (sy_dev st)\<rparr>"

lemma abs_sys_simps [simp]: "sy_files (abs_sys st) = sy_files st" "sy_dev (abs_sys st) = abs (sy_dev st)"
  by (simp_all add: abs_sys_def)

lemma do_call_sim:
  assumes "vfs_contract v" and "inv s" and "uaccess_ok (access_of c)" and "good c"
    and "do_call v C c pos s = Some (s', pos', out, r)"
  shows "do_call v A c pos (abs s) = Some (abs s', pos', out, r)"
proof (cases c)
  case (FRead e u n)
  show ?thesis
  proof (cases "fo_read C")
    case None
    then have "fo_read A = None" using same by (simp add: same_calls_def)
    then show ?thesis using None FRead assms(5) by simp
  next
    case (Some rd)
    then obtain rd' where rd': "fo_read A = Some rd'" using same by (auto simp: same_calls_def)
    show ?thesis
    proof (cases "v_check v n pos")
      case (Inl err)
      then show ?thesis using FRead Some rd' assms(5) by (auto split: sum.splits)
    next
      case (Inr m)
      then have "vfs_ok m pos" using assms(1) by (simp add: vfs_contract_def)
      then show ?thesis using read_sim [OF Some rd' assms(2), of u e n m pos s' pos' out r] FRead Some rd' Inr assms(3-5) by simp
    qed
  qed
next
  case (FWrite e u n)
  show ?thesis
  proof (cases "fo_write C")
    case None
    then have "fo_write A = None" using same by (simp add: same_calls_def)
    then show ?thesis using None FWrite assms(5) by simp
  next
    case (Some wr)
    then obtain wr' where wr': "fo_write A = Some wr'" using same by (auto simp: same_calls_def)
    show ?thesis
    proof (cases "v_check v n pos")
      case (Inl err)
      then show ?thesis using FWrite Some wr' Inl assms(5) by (auto split: sum.splits)
    next
      case (Inr m)
      then have ok: "vfs_ok m pos" using assms(1) by (simp add: vfs_contract_def)
      have "wr e u m pos s = Some (s', pos', r)" "out = []"
        using assms(5) FWrite Some Inr by (auto simp: bind_eq_Some_conv)
      then show ?thesis using write_sim [OF Some wr' assms(2) _ _ ok, of u e n s' pos' r] FWrite wr' Inr assms(3,4) by simp
    qed
  qed
next
  case (FIoctl e u cmd)
  show ?thesis
  proof (cases "fo_ioctl C")
    case None
    then have "fo_ioctl A = None" using same by (simp add: same_calls_def)
    then show ?thesis using None FIoctl assms(5) by simp
  next
    case (Some ioc)
    then obtain ioc' where ioc': "fo_ioctl A = Some ioc'" using same by (auto simp: same_calls_def)
    have "ioc e u cmd s = Some (s', out, r)" "pos' = pos"
      using assms(5) FIoctl Some by (auto simp: bind_eq_Some_conv)
    then show ?thesis using ioctl_sim [OF Some ioc' assms(2), of u e cmd s' out r] FIoctl ioc' assms(3,4) by simp
  qed
qed

lemma step_sim:
  assumes "vfs_contract v" and "inv (sy_dev st)" and "fcall_ok good c" and "sys_step v C c st = Some (st', out, r)"
  shows "sys_step v A c (abs_sys st) = Some (abs_sys st', out, r)"
proof (cases c)
  case (SysOpen f)
  show ?thesis
  proof (cases "fo_open C")
    case None
    then have "fo_open A = None" using same by (simp add: same_calls_def)
    then show ?thesis using SysOpen None assms(4) by (auto simp: abs_sys_def split: if_splits)
  next
    case (Some opn)
    then obtain g where g: "fo_open A = Some g" using same by (auto simp: same_calls_def)
    have "g (abs (sy_dev st)) = (abs (fst (opn (sy_dev st))), snd (opn (sy_dev st)))"
      by (rule open_sim [OF Some g assms(2)])
    then show ?thesis using SysOpen Some g assms(4)
      by (cases "opn (sy_dev st)") (auto simp: abs_sys_def split: if_splits sum.splits)
  qed
next
  case (SysClose f)
  show ?thesis
  proof (cases "fo_release C")
    case None
    then have "fo_release A = None" using same by (simp add: same_calls_def)
    then show ?thesis using SysClose None assms(4) by (auto simp: abs_sys_def split: if_splits)
  next
    case (Some rel)
    then obtain g where g: "fo_release A = Some g" using same by (auto simp: same_calls_def)
    have "g (abs (sy_dev st)) = (abs (fst (rel (sy_dev st))), snd (rel (sy_dev st)))"
      by (rule release_sim [OF Some g assms(2)])
    then show ?thesis using SysClose Some g assms(4) by (auto simp: abs_sys_def Let_def split: if_splits)
  qed
next
  case (SysSeek f p)
  then show ?thesis using assms(4) by (auto simp: abs_sys_def split: option.splits)
next
  case (SysCall f d)
  show ?thesis
  proof (cases "sy_files st f")
    case None
    then show ?thesis using SysCall assms(4) by auto
  next
    case (Some pos)
    then obtain s' pos' where d: "do_call v C d pos (sy_dev st) = Some (s', pos', out, r)"
      and st': "st' = \<lparr>sy_files = (sy_files st)(f \<mapsto> pos'), sy_dev = s'\<rparr>"
      using SysCall assms(4) by (auto simp: bind_eq_Some_conv)
    have "do_call v A d pos (abs (sy_dev st)) = Some (abs s', pos', out, r)"
      using do_call_sim [OF assms(1,2) _ _ d] assms(3) SysCall by simp
    then show ?thesis using SysCall Some st' by (simp add: abs_sys_def)
  qed
qed

lemma session_refines:
  assumes "vfs_contract v" and "inv (sy_dev st)" and "\<forall>c \<in> set cs. fcall_ok good c"
  shows "\<exists>st' rs. sys_run v C cs st = Some (st', rs) \<and> inv (sy_dev st') \<and> sys_run v A cs (abs_sys st) = Some (abs_sys st', rs)"
  using assms(2,3)
proof (induction cs arbitrary: st)
  case Nil
  then show ?case by simp
next
  case (Cons c cs)
  obtain st1 out r where 1: "sys_step v C c st = Some (st1, out, r)" "inv (sy_dev st1)"
    using step_defined [OF assms(1) Cons.prems(1), of c] Cons.prems(2) by auto
  have "sys_step v A c (abs_sys st) = Some (abs_sys st1, out, r)"
    using step_sim [OF assms(1) Cons.prems(1) _ 1(1)] Cons.prems(2) by simp
  moreover obtain st2 rs where "sys_run v C cs st1 = Some (st2, rs)" "inv (sy_dev st2)"
      "sys_run v A cs (abs_sys st1) = Some (abs_sys st2, rs)"
    using Cons.IH [OF 1(2)] Cons.prems(2) by auto
  ultimately show ?case using 1(1) by simp
qed

end

subsection \<open>The keypad: a list of pending keys\<close>

definition key_list_ops :: "(byte, byte list) file_ops" where
  "key_list_ops =
     \<lparr>fo_open = Some (\<lambda>ks. (ks, Inr 0)), fo_release = Some (\<lambda>ks. (ks, Inr 0)),
      fo_read = Some (\<lambda>val u n pos ks. case key_spec (KRead u val n) ks of (ks', out, r) \<Rightarrow> Some (ks', pos, out, r)),
      fo_write = Some (\<lambda>val u n pos ks. case key_spec (KWrite u n) ks of (ks', out, r) \<Rightarrow> Some (ks', pos, r)),
      fo_ioctl = Some (\<lambda>val u cmd ks. Some (key_spec (KIoctl cmd) ks))\<rparr>"

interpretation key_file_list: file_refinement key_fop "\<lambda>c. True" queue_inv key_list_ops queue_list
proof unfold_locales
  show "same_calls key_fop key_list_ops" by (simp add: same_calls_def key_fop_def key_list_ops_def)
next
  fix rd rd' s u e n s' pos' out r and m :: size_t and pos :: loff_t
  assume "fo_read key_fop = Some rd" "fo_read key_list_ops = Some rd'" "queue_inv s" "rd e u m pos s = Some (s', pos', out, r)"
  then show "rd' e u m pos (queue_list s) = Some (queue_list s', pos', out, r)"
    using device_read_key_run [of s u e m] by (auto simp: key_fop_def key_list_ops_def)
next
  fix wr wr' s u e n s' pos' r and m :: size_t and pos :: loff_t
  assume "fo_write key_fop = Some wr" "fo_write key_list_ops = Some wr'" "queue_inv s" "uaccess_ok u"
    "wr e u m pos s = Some (s', pos', r)"
  then show "wr' e u m pos (queue_list s) = Some (queue_list s', pos', r)"
    using device_write_key_run [of s u m] by (auto simp: key_fop_def key_list_ops_def split: prod.splits)
next
  fix ioc ioc' s u e s' out r and cmd :: cint
  assume "fo_ioctl key_fop = Some ioc" "fo_ioctl key_list_ops = Some ioc'" "queue_inv s" "ioc e u cmd s = Some (s', out, r)"
  then show "ioc' e u cmd (queue_list s) = Some (queue_list s', out, r)"
    using device_ioctl_key_run [of s cmd] by (auto simp: key_fop_def key_list_ops_def)
qed (auto simp: key_fop_def key_list_ops_def device_open_key_def device_release_key_def)

subsection \<open>The storage device: eight sectors with locks and copies\<close>

record store =
  secs :: "byte list list"
  locks :: "nat set"
  keys :: "byte set"
  copies :: "byte list list"

definition sector_list :: "byte list \<Rightarrow> byte list list" where
  "sector_list a = map (\<lambda>i. take 512 (drop (i * 512) a)) [0..<8]"

definition store_of :: "storage_dev \<times> mirror_dev \<Rightarrow> store" where
  "store_of st =
     \<lparr>secs = sector_list (storage_buffer (fst st)),
      locks = {i. i < 8 \<and> sector_lock_state (fst st) ! i},
      keys = {k. key_matches (fst st) k},
      copies = sector_list (mirror_buffer (snd st))\<rparr>"

text \<open>A read takes what it can get of the sectors laid end to end.\<close>

definition store_read :: "store rd_op" where
  "store_read u n pos st =
     (if 4096 \<le> unat pos then Some (st, pos, [], Inr 0)
      else if intr u then Some (st, pos, [], Inl ERESTARTSYS)
      else
        let out = take (unat n) (drop (unat pos) (concat (secs st))); k = length out in
        if uctu u k \<noteq> 0 then Some (st, pos, take (k - uctu u k) out, Inl EFAULT)
        else Some (st, pos + word_of_nat k, out, Inr (word_of_nat k)))"

text \<open>A write puts every byte into its sector, or none when one of the sectors is locked.\<close>

definition put_bytes :: "nat \<Rightarrow> byte list \<Rightarrow> byte list list \<Rightarrow> byte list list" where
  "put_bytes p d ss =
     map (\<lambda>i. map (\<lambda>j. let a = i * 512 + j in if p \<le> a \<and> a < p + length d then d ! (a - p) else ss ! i ! j) [0..<512]) [0..<8]"

definition store_write :: "store wr_op" where
  "store_write u n pos st =
     (if 4096 \<le> unat pos then Some (st, pos, Inl ENOSPC)
      else if intr u then Some (st, pos, Inl ERESTARTSYS)
      else
        let k = min (unat n) (4096 - unat pos) in
        if locks st \<inter> sectors_touched (unat pos) k \<noteq> {} then Some (st, pos, Inl EPERM)
        else
          let st' = st\<lparr>secs := put_bytes (unat pos) (snd (ucfu u k)) (secs st)\<rparr> in
          if fst (ucfu u k) \<noteq> 0 then Some (st', pos, Inl EFAULT)
          else Some (st', pos + word_of_nat k, Inr (word_of_nat k)))"

text \<open>The ioctls with a sector as their argument.\<close>

definition with_sector :: "uenv \<Rightarrow> store \<Rightarrow> (nat \<Rightarrow> store \<times> ret) \<Rightarrow> store \<times> byte list \<times> ret" where
  "with_sector u st f =
     (case user_int u of
        None \<Rightarrow> (st, [], Inl EFAULT)
      | Some i \<Rightarrow> if i < 0 \<or> 8 \<le> i then (st, [], Inl EINVAL) else (case f (nat i) of (st', r) \<Rightarrow> (st', [], r)))"

definition store_ioctl :: "fsenv \<Rightarrow> uenv \<Rightarrow> cint \<Rightarrow> store \<Rightarrow> (store \<times> byte list \<times> ret) option" where
  "store_ioctl fs u cmd st =
     (case storage_cmd_of cmd of
        IOCTL_LOCK_SECTOR \<Rightarrow> Some (with_sector u st (\<lambda>i. (st\<lparr>locks := insert i (locks st)\<rparr>, Inr 0)))
      | IOCTL_ERASE_SECTOR \<Rightarrow>
          Some (with_sector u st (\<lambda>i. if i \<in> locks st then (st, Inl EPERM)
                                      else (st\<lparr>secs := (secs st)[i := replicate 512 0]\<rparr>, Inr 0)))
      | IOCTL_MIRROR_SECTOR \<Rightarrow>
          Some (with_sector u st (\<lambda>i. (if intr u then st else st\<lparr>copies := (copies st)[i := secs st ! i]\<rparr>, Inr 0)))
      | IOCTL_UNLOCK_SECTOR \<Rightarrow>
          (let req = snd (ucfu u 4); i = unlock_req_sector req in
           Some (if fst (ucfu u 4) \<noteq> 0 then (st, [], Inl EFAULT)
                 else if i < 0 then (st, [], Inl EINVAL)
                 else if unlock_req_key req \<notin> keys st then (st, [], Inl EPERM)
                 else if intr u then (st, [], Inl ERESTARTSYS)
                 else (st\<lparr>locks := locks st - {nat i}\<rparr>, [], Inr 0)))
      | IOCTL_GET_LOCK_INFO \<Rightarrow>
          Some (st, take (8 - uctu u 8) (map (\<lambda>i. of_bool (i \<in> locks st)) [0..<8]),
                if uctu u 8 \<noteq> 0 then Inl EFAULT else Inr 0)
      | IOCTL_BACKUP_TO_FILE \<Rightarrow>
          do {
            (m, file, r) \<leftarrow> ioctl_backup_to_file u fs
               \<lparr>mirror_buffer = concat (copies st), mirror_mutex = False, mirror_read_sem = 0\<rparr>;
            Some (st, [], r)
          }
      | OTHER_CMD c \<Rightarrow> Some (st, [], Inl ENOTTY))"

definition store_ops :: "(fsenv, store) file_ops" where
  "store_ops =
     \<lparr>fo_open = Some (\<lambda>st. (st, Inr 0)), fo_release = Some (\<lambda>st. (st, Inr 0)),
      fo_read = Some (\<lambda>fs. store_read), fo_write = Some (\<lambda>fs. store_write), fo_ioctl = Some store_ioctl\<rparr>"

subsection \<open>The sectors of a flat buffer\<close>

lemma sector_list_nth:
  assumes "length a = 4096" and "i < 8" and "j < 512"
  shows "sector_list a ! i ! j = a ! (i * 512 + j)"
  using assms by (simp add: sector_list_def)

lemma sector_list_lengths [simp]:
  "length (sector_list a) = 8" "length a = 4096 \<Longrightarrow> i < 8 \<Longrightarrow> length (sector_list a ! i) = 512"
  by (simp_all add: sector_list_def)

lemma sectors_eqI:
  assumes "length xs = 8" and "length ys = 8" and "\<And>i. i < 8 \<Longrightarrow> length (xs ! i) = 512" and "\<And>i. i < 8 \<Longrightarrow> length (ys ! i) = 512"
    and "\<And>i j. i < 8 \<Longrightarrow> j < 512 \<Longrightarrow> xs ! i ! j = ys ! i ! j"
  shows "xs = ys"
  using assms by (intro nth_equalityI) auto

lemma concat_sectors:
  assumes "length a = 4096"
  shows "concat (sector_list a) = a"
proof -
  have "concat (map (\<lambda>i. take 512 (drop (i * 512) a)) [0..<n]) = take (n * 512) a" for n
  proof (induction n)
    case (Suc n)
    have "take (n * 512) a @ take 512 (drop (n * 512) a) = take (n * 512 + 512) a" by (simp add: take_add)
    then show ?case using Suc by (simp add: add.commute)
  qed simp
  from this [of 8] show ?thesis using assms by (simp add: sector_list_def)
qed

lemma put_bytes_overlay:
  assumes "length a = 4096" and "p + length d \<le> 4096"
  shows "sector_list (overlay p d a) = put_bytes p d (sector_list a)"
proof (rule sectors_eqI)
  fix i j :: nat
  assume "i < 8" "j < 512"
  then have "i * 512 + j < 4096" by simp
  then show "sector_list (overlay p d a) ! i ! j = put_bytes p d (sector_list a) ! i ! j"
    using assms \<open>i < 8\<close> \<open>j < 512\<close> by (simp add: sector_list_nth nth_overlay put_bytes_def Let_def)
qed (use assms in \<open>simp_all add: put_bytes_def\<close>)

lemma sector_overlay:
  assumes "length a = 4096" and "i < 8" and "length d = 512"
  shows "sector_list (overlay (i * 512) d a) = (sector_list a)[i := d]"
proof (rule sectors_eqI)
  fix k j :: nat
  assume kj: "k < 8" "j < 512"
  have "i * 512 \<le> k * 512 + j \<and> k * 512 + j < i * 512 + 512 \<longleftrightarrow> k = i" using kj by auto
  moreover have "k * 512 + j < 4096" and "i * 512 + 512 \<le> 4096" using kj assms(2) by simp_all
  ultimately show "sector_list (overlay (i * 512) d a) ! k ! j = (sector_list a)[i := d] ! k ! j"
    using assms kj by (auto simp: sector_list_nth nth_overlay nth_list_update)
qed (use assms in \<open>auto simp: nth_list_update\<close>)

lemma store_of_buffer:
  "store_of (s\<lparr>storage_buffer := b\<rparr>, m) = (store_of (s, m))\<lparr>secs := sector_list b\<rparr>"
  by (simp add: store_of_def key_matches_def)

lemma store_of_simps [simp]:
  "secs (store_of (s, m)) = sector_list (storage_buffer s)"
  "i \<in> locks (store_of (s, m)) \<longleftrightarrow> i < 8 \<and> sector_lock_state s ! i"
  "k \<in> keys (store_of (s, m)) \<longleftrightarrow> key_matches s k"
  "copies (store_of (s, m)) = sector_list (mirror_buffer m)"
  by (simp_all add: store_of_def)

lemma store_of_locks:
  assumes "storage_inv s" and "i < 8"
  shows "store_of (s\<lparr>sector_lock_state := (sector_lock_state s)[i := True]\<rparr>, m)
      = (store_of (s, m))\<lparr>locks := insert i (locks (store_of (s, m)))\<rparr>"
    and "store_of (s\<lparr>sector_lock_state := (sector_lock_state s)[i := False]\<rparr>, m)
      = (store_of (s, m))\<lparr>locks := locks (store_of (s, m)) - {i}\<rparr>"
  using assms by (auto simp: store_of_def key_matches_def storage_invD nth_list_update split: if_splits)

lemma store_of_copies:
  "store_of (s, m\<lparr>mirror_buffer := b\<rparr>) = (store_of (s, m))\<lparr>copies := sector_list b\<rparr>"
  by (simp add: store_of_def)

lemma store_same: "(store_of st)\<lparr>secs := secs (store_of st)\<rparr> = store_of st"
  by simp

lemma store_read_sim:
  assumes "storage_inv s" and "vfs_ok n pos" and "storage_read u n pos s = Some (s', pos', out, r)"
  shows "store_read u n pos (store_of (s, m)) = Some (store_of (s', m), pos', out, r)"
proof -
  have len: "length (storage_buffer s) = 4096" using assms(1) by (simp add: storage_invD)
  have e: "take (unat n) (drop (unat pos) (storage_buffer s)) = take (clamp n pos) (drop (unat pos) (storage_buffer s))"
    using len by (simp add: clamp_def min_def)
  have l: "unat pos < 4096 \<Longrightarrow> length (take (clamp n pos) (drop (unat pos) (storage_buffer s))) = clamp n pos"
    using clamp_le [of pos n] len by simp
  show ?thesis
  proof (cases "4096 \<le> unat pos \<or> intr u")
    case True
    then show ?thesis using assms(3) unfolding storage_read_run [OF assms(1,2)]
      by (auto simp: store_read_def split: if_splits)
  next
    case False
    then have "length (take (clamp n pos) (drop (unat pos) (storage_buffer s))) = clamp n pos" using l by simp
    then show ?thesis using assms(3) False unfolding storage_read_run [OF assms(1,2)]
      by (auto simp: store_read_def concat_sectors len e Let_def simp del: length_take length_drop split: if_splits)
  qed
qed

lemma touched_sectors:
  assumes "unat pos < 4096"
  shows "locks (store_of (s, m)) \<inter> sectors_touched (unat pos) (clamp n pos) \<noteq> {} \<longleftrightarrow>
     (\<exists>i \<in> sectors_touched (unat pos) (clamp n pos). sector_lock_state s ! i)"
proof -
  have "i < 8" if "i \<in> sectors_touched (unat pos) (clamp n pos)" for i
    using that clamp_le [OF assms, of n] by (auto simp: sectors_touched_def split: if_splits)
  moreover have "locks (store_of (s, m)) = {i. i < 8 \<and> sector_lock_state s ! i}" by (simp add: store_of_def)
  ultimately show ?thesis by auto
qed

lemma store_write_sim:
  assumes "storage_inv s" and "vfs_ok n pos" and "uaccess_ok u" and "storage_write u n pos s = Some (s', pos', r)"
  shows "store_write u n pos (store_of (s, m)) = Some (store_of (s', m), pos', r)"
proof (cases "4096 \<le> unat pos \<or> intr u")
  case True
  then show ?thesis using assms(4) unfolding storage_write_run [OF assms(1-3)]
    by (auto simp: store_write_def split: if_splits)
next
  case False
  have len: "length (storage_buffer s) = 4096" using assms(1) by (simp add: storage_invD)
  have pos: "unat pos < 4096" using False by simp
  let ?k = "clamp n pos"
  let ?d = "snd (ucfu u ?k)"
  have "unat pos + length ?d \<le> 4096" using clamp_le [OF pos, of n] assms(3) by simp
  note w = put_bytes_overlay [OF len this]
  have k: "min (unat n) (4096 - unat pos) = ?k" by (simp add: clamp_def)
  show ?thesis using assms(4) False touched_sectors [OF pos, of s m n] w unfolding storage_write_run [OF assms(1-3)]
    by (auto simp: store_write_def k Let_def store_of_buffer split: if_splits)
qed

lemma backup_result:
  assumes "fs_ok fs" and "mirror_inv m" and "fst (ucfu u 256) = 0 \<Longrightarrow> 0 \<in> set (snd (ucfu u 256))"
    and "ioctl_backup_to_file u fs m = Some (m', f, r)"
  shows "m' = m \<and> ioctl_backup_to_file u fs \<lparr>mirror_buffer = mirror_buffer m, mirror_mutex = False, mirror_read_sem = 0\<rparr>
      = Some (\<lparr>mirror_buffer = mirror_buffer m, mirror_mutex = False, mirror_read_sem = 0\<rparr>, f, r)"
proof -
  have mx: "mirror_mutex m = False" using assms(2) by (simp add: mirror_inv_def)
  then have e: "m\<lparr>mirror_mutex := False\<rparr> = m" by simp
  show ?thesis using assms(4) mx e
    by (auto simp: ioctl_backup_to_file_def vblock_backup_to_file_def split: if_splits bind_splits sum.splits option.splits prod.splits)
qed

lemma user_int_range: "user_int u = Some i \<Longrightarrow> \<not> i < 0 \<Longrightarrow> \<not> 8 \<le> i \<Longrightarrow> nat i < 8"
  by simp

lemma sector_slice_nth:
  "i < 8 \<Longrightarrow> sector_list a ! i = take 512 (drop (i * 512) a)"
  by (simp add: sector_list_def)

text \<open>One ioctl at a time.\<close>

lemma store_lock_sim:
  assumes "storage_inv s" and "ioctl_lock_sector u s = Some (s', r)"
  shows "with_sector u (store_of (s, m)) (\<lambda>i. ((store_of (s, m))\<lparr>locks := insert i (locks (store_of (s, m)))\<rparr>, Inr 0))
      = (store_of (s', m), [], r)"
  using assms(2) store_of_locks(1) [OF assms(1)] unfolding ioctl_lock_sector_run [OF assms(1)]
  by (auto simp: with_sector_def split: option.splits if_splits)

lemma store_erase_sim:
  assumes "storage_inv s" and "ioctl_erase_sector u s = Some (s', r)"
  shows "with_sector u (store_of (s, m)) (\<lambda>i. if i \<in> locks (store_of (s, m)) then (store_of (s, m), Inl EPERM)
        else ((store_of (s, m))\<lparr>secs := (secs (store_of (s, m)))[i := replicate 512 0]\<rparr>, Inr 0)) = (store_of (s', m), [], r)"
proof -
  have "length (storage_buffer s) = 4096" using assms(1) by (simp add: storage_invD)
  then have "sector_list (overlay (i * 512) (replicate 512 0) (storage_buffer s)) = (sector_list (storage_buffer s))[i := replicate 512 0]"
    if "i < 8" for i using sector_overlay [of "storage_buffer s" i "replicate 512 0"] that by simp
  then show ?thesis using assms(2) unfolding ioctl_erase_sector_run [OF assms(1)]
    by (auto simp: with_sector_def store_of_buffer split: option.splits if_splits)
qed

lemma store_mirror_sim:
  assumes "storage_inv s" and "mirror_inv m" and "ioctl_mirror_sector u s m = Some (m', r)"
  shows "with_sector u (store_of (s, m)) (\<lambda>i. (if intr u then store_of (s, m)
        else (store_of (s, m))\<lparr>copies := (copies (store_of (s, m)))[i := secs (store_of (s, m)) ! i]\<rparr>, Inr 0)) = (store_of (s, m'), [], r)"
proof -
  have l: "length (storage_buffer s) = 4096" "length (mirror_buffer m) = 4096"
    using assms(1,2) by (simp_all add: storage_invD mirror_inv_def)
  have "sector_list (overlay (i * 512) (take 512 (drop (i * 512) (storage_buffer s))) (mirror_buffer m))
      = (sector_list (mirror_buffer m))[i := sector_list (storage_buffer s) ! i]" if "i < 8" for i
    using sector_overlay [OF l(2) that, of "take 512 (drop (i * 512) (storage_buffer s))"] that l(1)
    by (simp add: sector_slice_nth)
  then show ?thesis using assms(3) unfolding ioctl_mirror_sector_run [OF assms(1,2)]
    by (auto simp: with_sector_def store_of_copies split: option.splits if_splits)
qed

lemma store_ioctl_sim:
  assumes "sys_inv (s, m)" and "uaccess_ok u" and "storage_good (FIoctl fs u cmd)"
    and "storage_ioctl u fs (storage_cmd_of cmd) (s, m) = Some ((s', m'), out, f, r)"
  shows "store_ioctl fs u cmd (store_of (s, m)) = Some (store_of (s', m'), out, r)"
proof -
  have si: "storage_inv s" and mi: "mirror_inv m" using assms(1) by (simp_all add: sys_inv_def)
  show ?thesis
  proof (cases "storage_cmd_of cmd")
    case IOCTL_LOCK_SECTOR
    then have "ioctl_lock_sector u s = Some (s', r)" "m' = m" "out = []"
      using assms(4) by (auto simp: storage_ioctl_def bind_eq_Some_conv)
    then show ?thesis using IOCTL_LOCK_SECTOR store_lock_sim [OF si, of u s' r m] by (simp add: store_ioctl_def)
  next
    case IOCTL_ERASE_SECTOR
    then have "ioctl_erase_sector u s = Some (s', r)" "m' = m" "out = []"
      using assms(4) by (auto simp: storage_ioctl_def bind_eq_Some_conv)
    then show ?thesis using IOCTL_ERASE_SECTOR store_erase_sim [OF si, of u s' r m] by (simp add: store_ioctl_def)
  next
    case IOCTL_MIRROR_SECTOR
    then have "ioctl_mirror_sector u s m = Some (m', r)" "s' = s" "out = []"
      using assms(4) by (auto simp: storage_ioctl_def bind_eq_Some_conv)
    then show ?thesis using IOCTL_MIRROR_SECTOR store_mirror_sim [OF si mi, of u m' r] by (simp add: store_ioctl_def)
  next
    case IOCTL_UNLOCK_SECTOR
    then have a: "ioctl_unlock_sector u s = Some (s', r)" "m' = m" "out = []"
      using assms(4) by (auto simp: storage_ioctl_def bind_eq_Some_conv)
    have "unlock_req_sector (snd (ucfu u 4)) < 4" using unlock_req_sector_bounds by blast
    then have "nat (unlock_req_sector (snd (ucfu u 4))) < 8" by simp
    then show ?thesis using IOCTL_UNLOCK_SECTOR a store_of_locks(2) [OF si, of _ m]
      unfolding ioctl_unlock_sector_run [OF si] by (auto simp: store_ioctl_def Let_def split: if_splits)
  next
    case IOCTL_GET_LOCK_INFO
    have "map (\<lambda>i. of_bool (i < 8 \<and> sector_lock_state s ! i)) [0..<8] = (map of_bool (sector_lock_state s) :: byte list)"
      using si by (intro nth_equalityI) (auto simp: storage_invD)
    moreover have "length (sector_lock_state s) = 8" using si by (simp add: storage_invD)
    ultimately show ?thesis using IOCTL_GET_LOCK_INFO assms(4)
      by (auto simp: store_ioctl_def storage_ioctl_def ioctl_get_lock_info_run [OF si] split: if_splits)
  next
    case IOCTL_BACKUP_TO_FILE
    then have b: "ioctl_backup_to_file u fs m = Some (m', f, r)" "s' = s" "out = []"
      using assms(4) by (auto simp: storage_ioctl_def bind_eq_Some_conv)
    have "length (mirror_buffer m) = 4096" using mi by (simp add: mirror_inv_def)
    then have "concat (copies (store_of (s, m))) = mirror_buffer m" by (simp add: concat_sectors)
    then show ?thesis using IOCTL_BACKUP_TO_FILE b backup_result [OF _ mi _ b(1)] assms(3)
      by (simp add: store_ioctl_def)
  next
    case (OTHER_CMD c)
    then show ?thesis using assms(4) by (auto simp: store_ioctl_def storage_ioctl_def)
  qed
qed

interpretation storage_file_store: file_refinement storage_fops storage_good sys_inv store_ops store_of
proof unfold_locales
  show "same_calls storage_fops store_ops" by (simp add: same_calls_def storage_fops_def store_ops_def)
next
  fix rd rd' s u e n s' pos' out r and m :: size_t and pos :: loff_t
  assume a: "fo_read storage_fops = Some rd" "fo_read store_ops = Some rd'" "sys_inv s" "vfs_ok m pos"
    "rd e u m pos s = Some (s', pos', out, r)"
  obtain d b where s: "s = (d, b)" by (cases s)
  obtain d' where "storage_read u m pos d = Some (d', pos', out, r)" "s' = (d', b)"
    using a(1,5) s by (auto simp: storage_fops_def bind_eq_Some_conv)
  then show "rd' e u m pos (store_of s) = Some (store_of s', pos', out, r)"
    using store_read_sim [of d m pos u d' pos' out r b] a(2-4) s by (auto simp: store_ops_def sys_inv_def)
next
  fix wr wr' s u e n s' pos' r and m :: size_t and pos :: loff_t
  assume a: "fo_write storage_fops = Some wr" "fo_write store_ops = Some wr'" "sys_inv s" "uaccess_ok u" "vfs_ok m pos"
    "wr e u m pos s = Some (s', pos', r)"
  obtain d b where s: "s = (d, b)" by (cases s)
  obtain d' where "storage_write u m pos d = Some (d', pos', r)" "s' = (d', b)"
    using a(1,6) s by (auto simp: storage_fops_def bind_eq_Some_conv)
  then show "wr' e u m pos (store_of s) = Some (store_of s', pos', r)"
    using store_write_sim [of d m pos u d' pos' r b] a(2-5) s by (auto simp: store_ops_def sys_inv_def)
next
  fix ioc ioc' s u e s' out r and cmd :: cint
  assume a: "fo_ioctl storage_fops = Some ioc" "fo_ioctl store_ops = Some ioc'" "sys_inv s" "uaccess_ok u"
    "storage_good (FIoctl e u cmd)" "ioc e u cmd s = Some (s', out, r)"
  obtain d b where s: "s = (d, b)" by (cases s)
  obtain f d' b' where i: "storage_ioctl u e (storage_cmd_of cmd) (d, b) = Some ((d', b'), out, f, r)" "s' = (d', b')"
    using a(1,6) s by (cases s') (auto simp: storage_fops_def bind_eq_Some_conv)
  have "store_ioctl e u cmd (store_of (d, b)) = Some (store_of (d', b'), out, r)"
    using store_ioctl_sim [OF _ a(4,5) i(1)] a(3) s by simp
  then show "ioc' e u cmd (store_of s) = Some (store_of s', out, r)" using a(2) s i(2) by (auto simp: store_ops_def)
qed (auto simp: storage_fops_def store_ops_def storage_open_def storage_release_def)

subsection \<open>Properties\<close>

text \<open>C1: every session of system calls on the storage device, on any number of files and with faults and
  signals, gives what eight sectors with a lock and a copy each give: same results, same bytes, same
  positions, same sectors, locks and copies at the end.\<close>

theorem storage_refines_sectors:
  assumes "vfs_contract v" and "sys_inv (sy_dev st)" and "\<forall>c \<in> set cs. fcall_ok storage_good c"
  shows "\<exists>st' rs. sys_run v storage_fops cs st = Some (st', rs) \<and>
     sys_run v store_ops cs \<lparr>sy_files = sy_files st, sy_dev = store_of (sy_dev st)\<rparr>
       = Some (\<lparr>sy_files = sy_files st', sy_dev = store_of (sy_dev st')\<rparr>, rs)"
  using storage_file_store.session_refines [OF assms] by (auto simp: storage_file_store.abs_sys_def)

theorem storage_refines_sectors_witness:
  "\<exists>st' rs. sys_run plain_vfs storage_fops
      [SysOpen 3, SysSeek 3 510, SysCall 3 (FWrite (chunk_fs 1) (user_mem [1, 2, 3, 4]) 4),
       SysCall 3 (FIoctl (chunk_fs 1) (user_mem (bytes_of_int 1)) 0x40044C01),
       SysCall 3 (FIoctl (chunk_fs 1) (user_mem (bytes_of_int 1)) 0x40044504)] (fresh_files (storage_boot, mirror_boot)) = Some (st', rs) \<and>
     sys_run plain_vfs store_ops
      [SysOpen 3, SysSeek 3 510, SysCall 3 (FWrite (chunk_fs 1) (user_mem [1, 2, 3, 4]) 4),
       SysCall 3 (FIoctl (chunk_fs 1) (user_mem (bytes_of_int 1)) 0x40044C01),
       SysCall 3 (FIoctl (chunk_fs 1) (user_mem (bytes_of_int 1)) 0x40044504)]
       \<lparr>sy_files = (\<lambda>f. None), sy_dev = store_of (storage_boot, mirror_boot)\<rparr>
       = Some (\<lparr>sy_files = sy_files st', sy_dev = store_of (sy_dev st')\<rparr>, rs)"
  using storage_refines_sectors [OF plain_vfs_contract, of "fresh_files (storage_boot, mirror_boot)"
      "[SysOpen 3, SysSeek 3 510, SysCall 3 (FWrite (chunk_fs 1) (user_mem [1, 2, 3, 4]) 4),
       SysCall 3 (FIoctl (chunk_fs 1) (user_mem (bytes_of_int 1)) 0x40044C01),
       SysCall 3 (FIoctl (chunk_fs 1) (user_mem (bytes_of_int 1)) 0x40044504)]"]
  by (simp add: boot_inv fresh_files_def chunk_fs_ok storage_cmd_of_def del: sys_run.simps)

end
