(* ===== verification/ModuleDeps.thy ===== *)
theory ModuleDeps
  imports StorageDevice KeypadDriver TempLog
begin

section \<open>Modules that use each other: the stacks of 001, 002 and 003\<close>

text \<open>
  Three directories hold several modules. One module exports functions (\<open>EXPORT_SYMBOL\<close>), another
  declares them \<open>extern\<close> and calls them: \<open>queue_kernel\<close>, \<open>keypad_helper_kernel\<close> and \<open>key_kernel\<close> of 002,
  \<open>storage_mirror_kernel\<close> and \<open>storage_kernel\<close> of 003, \<open>helper\<close> and \<open>driver\<close> of 001. An administrator
  loads and unloads them in any order while programs use the device of the topmost one.

  The module loader is kernel code: the argument \<open>loader\<close> decides which load and which unload it
  allows; what it promises is \<open>loader_ok\<close>: a module is loaded only when every function it imports is
  exported by a loaded one, and unloaded only when no other loaded module imports a function of it.
  A call into a module that is not loaded is \<open>None\<close>.
  The exit routines log and give back kernel objects (see KernelResources); they leave the data alone.
\<close>

record module_file =
  mf_name :: string
  mf_imports :: "string list"
  mf_exports :: "string list"

record loader =
  may_load :: "module_file list \<Rightarrow> module_file \<Rightarrow> bool"
  may_unload :: "module_file list \<Rightarrow> module_file \<Rightarrow> bool"

definition exported :: "module_file list \<Rightarrow> string \<Rightarrow> bool" where
  "exported ms f \<longleftrightarrow> (\<exists>p \<in> set ms. f \<in> set (mf_exports p))"

definition resolved :: "module_file list \<Rightarrow> module_file \<Rightarrow> bool" where
  "resolved ms m \<longleftrightarrow> (\<forall>f \<in> set (mf_imports m). exported ms f)"

definition unused :: "module_file list \<Rightarrow> module_file \<Rightarrow> bool" where
  "unused ms m \<longleftrightarrow> (\<forall>u \<in> set ms. u \<noteq> m \<longrightarrow> (\<forall>f \<in> set (mf_imports u). f \<notin> set (mf_exports m)))"

definition loader_ok :: "loader \<Rightarrow> bool" where
  "loader_ok ld \<longleftrightarrow>
     (\<forall>ms m. (may_load ld ms m \<longrightarrow> resolved ms m) \<and> (may_unload ld ms m \<longrightarrow> unused ms m))"

text \<open>The loader that allows whatever it may.\<close>

definition plain_loader :: loader where
  "plain_loader = \<lparr>may_load = resolved, may_unload = unused\<rparr>"

lemma plain_loader_ok: "loader_ok plain_loader"
  by (simp add: loader_ok_def plain_loader_def)

subsection \<open>A session of loads, unloads and calls\<close>

text \<open>
  \<open>init m e s\<close> is what loading \<open>m\<close> with the parameters \<open>e\<close> does to the data of the stack, and whether the
  init routine returned zero; \<open>needs c\<close> are the imported functions that a call runs through.
\<close>

datatype ('e, 'c) stack_event = Load module_file 'e | Unload module_file | Use 'c

record ('e, 'c, 's) stack =
  sk_files :: "module_file list"
  sk_driver :: module_file
  sk_init :: "module_file \<Rightarrow> 'e \<Rightarrow> 's \<Rightarrow> ('s \<times> bool) option"
  sk_needs :: "'c \<Rightarrow> string list"
  sk_call :: "'c \<Rightarrow> 's \<Rightarrow> 's option"

fun stack_step ::
  "loader \<Rightarrow> ('e, 'c, 's) stack \<Rightarrow> ('e, 'c) stack_event \<Rightarrow> module_file list \<times> 's \<Rightarrow> (module_file list \<times> 's) option" where
  "stack_step ld k (Load m e) (ms, s) =
     (if m \<in> set (sk_files k) \<and> m \<notin> set ms \<and> may_load ld ms m
      then do { (s', good) \<leftarrow> sk_init k m e s; Some (if good then m # ms else ms, s') }
      else Some (ms, s))"
| "stack_step ld k (Unload m) (ms, s) = Some (if m \<in> set ms \<and> may_unload ld ms m then removeAll m ms else ms, s)"
| "stack_step ld k (Use c) (ms, s) =
     (if sk_driver k \<notin> set ms then Some (ms, s)
      else if list_all (exported ms) (sk_needs k c) then do { s' \<leftarrow> sk_call k c s; Some (ms, s') }
      else None)"

fun stack_run ::
  "loader \<Rightarrow> ('e, 'c, 's) stack \<Rightarrow> ('e, 'c) stack_event list \<Rightarrow> module_file list \<times> 's \<Rightarrow> (module_file list \<times> 's) option" where
  "stack_run ld k [] st = Some st"
| "stack_run ld k (e # es) st = do { st' \<leftarrow> stack_step ld k e st; stack_run ld k es st' }"

text \<open>Every import of a loaded module is there.\<close>

definition linked :: "module_file list \<Rightarrow> bool" where
  "linked ms \<longleftrightarrow> (\<forall>m \<in> set ms. resolved ms m)"

lemma linked_load: "linked ms \<Longrightarrow> resolved ms m \<Longrightarrow> linked (m # ms)"
  by (auto simp: linked_def resolved_def exported_def)

lemma linked_unload:
  assumes "linked ms" and "unused ms m"
  shows "linked (removeAll m ms)"
proof -
  have "exported (removeAll m ms) f" if u: "u \<in> set ms" "u \<noteq> m" "f \<in> set (mf_imports u)" for u f
  proof -
    obtain p where "p \<in> set ms" "f \<in> set (mf_exports p)"
      using assms(1) u(1,3) unfolding linked_def resolved_def exported_def by blast
    moreover have "p \<noteq> m" using assms(2) u \<open>f \<in> set (mf_exports p)\<close> by (auto simp: unused_def)
    ultimately show ?thesis by (auto simp: exported_def)
  qed
  then show ?thesis by (auto simp: linked_def resolved_def)
qed

text \<open>
  The contract of a stack. Each module guards a part \<open>part m\<close> of the invariant: its init establishes
  it, whatever it returns it leaves the parts of the others alone, and a call of the driver
  relies on all of them and keeps them.
\<close>

locale module_stack =
  fixes k :: "('e, 'c, 's) stack" and part :: "module_file \<Rightarrow> 's \<Rightarrow> bool"
    and load_good :: "module_file \<Rightarrow> 'e \<Rightarrow> bool" and call_good :: "'c \<Rightarrow> bool"
  assumes init_part: "m \<in> set (sk_files k) \<Longrightarrow> load_good m e \<Longrightarrow>
      \<exists>s' r. sk_init k m e s = Some (s', r) \<and> part m s' \<and>
        (\<forall>m' \<in> set (sk_files k). m' \<noteq> m \<longrightarrow> part m' s \<longrightarrow> part m' s')"
    and call_part: "(\<And>m. m \<in> set (sk_files k) \<Longrightarrow> part m s) \<Longrightarrow> call_good c \<Longrightarrow>
      \<exists>s'. sk_call k c s = Some s' \<and> (\<forall>m \<in> set (sk_files k). part m s')"
    and needs_stack: "linked ms \<Longrightarrow> set ms \<subseteq> set (sk_files k) \<Longrightarrow> sk_driver k \<in> set ms \<Longrightarrow>
      set ms = set (sk_files k) \<and> list_all (exported ms) (sk_needs k c)"
begin

definition stack_inv :: "module_file list \<times> 's \<Rightarrow> bool" where
  "stack_inv st \<longleftrightarrow> linked (fst st) \<and> set (fst st) \<subseteq> set (sk_files k) \<and> (\<forall>m \<in> set (fst st). part m (snd st))"

fun event_good :: "('e, 'c) stack_event \<Rightarrow> bool" where
  "event_good (Load m e) \<longleftrightarrow> load_good m e"
| "event_good (Unload m) \<longleftrightarrow> True"
| "event_good (Use c) \<longleftrightarrow> call_good c"

lemma step_keeps:
  assumes "loader_ok ld" and "stack_inv st" and "event_good e"
  shows "\<exists>st'. stack_step ld k e st = Some st' \<and> stack_inv st'"
proof -
  obtain ms s where st: "st = (ms, s)" by (cases st)
  have inv: "linked ms" "set ms \<subseteq> set (sk_files k)" "\<And>m. m \<in> set ms \<Longrightarrow> part m s"
    using assms(2) by (auto simp: stack_inv_def st)
  show ?thesis
  proof (cases e)
    case (Load m x)
    show ?thesis
    proof (cases "m \<in> set (sk_files k) \<and> m \<notin> set ms \<and> may_load ld ms m")
      case True
      then obtain s' r where i: "sk_init k m x s = Some (s', r)" "part m s'"
          "\<forall>m' \<in> set (sk_files k). m' \<noteq> m \<longrightarrow> part m' s \<longrightarrow> part m' s'"
        using init_part [of m x s] assms(3) Load by auto
      have "linked (m # ms)" using True assms(1) inv(1) by (simp add: linked_load loader_ok_def)
      moreover have "part m' s'" if "m' \<in> set ms" for m' using i(3) inv(2) inv(3) [OF that] True that by auto
      ultimately show ?thesis using Load st True i(1,2) inv(1,2) by (simp add: stack_inv_def)
    next
      case False
      then have "stack_step ld k e st = Some st" unfolding Load st by auto
      then show ?thesis using assms(2) by simp
    qed
  next
    case (Unload m)
    show ?thesis using Unload st inv assms(1) linked_unload [of ms m] by (auto simp: stack_inv_def loader_ok_def)
  next
    case (Use c)
    show ?thesis
    proof (cases "sk_driver k \<in> set ms")
      case True
      then have all: "set ms = set (sk_files k)" "list_all (exported ms) (sk_needs k c)"
        using needs_stack [OF inv(1,2)] by blast+
      then obtain s' where "sk_call k c s = Some s'" "\<forall>m \<in> set (sk_files k). part m s'"
        using call_part [of s c] inv(3) assms(3) Use by auto
      then show ?thesis using Use st True all inv(1) by (simp add: stack_inv_def)
    next
      case False
      then show ?thesis using Use st assms(2) by simp
    qed
  qed
qed

lemma run_keeps:
  assumes "loader_ok ld" and "stack_inv st" and "\<forall>e \<in> set es. event_good e"
  shows "\<exists>st'. stack_run ld k es st = Some st' \<and> stack_inv st'"
  using assms(2,3)
proof (induction es arbitrary: st)
  case Nil
  then show ?case by simp
next
  case (Cons e es)
  obtain st1 where "stack_step ld k e st = Some st1" "stack_inv st1"
    using step_keeps [OF assms(1) Cons.prems(1), of e] Cons.prems(2) by auto
  with Cons.IH [of st1] Cons.prems(2) show ?case by simp
qed

text \<open>With nothing loaded the data may be anything. When the driver is loaded, the whole stack is, with its invariant.\<close>

lemma session_safe:
  assumes "loader_ok ld" and "\<forall>e \<in> set es. event_good e"
  shows "\<exists>ms s. stack_run ld k es ([], s0) = Some (ms, s) \<and>
     (sk_driver k \<in> set ms \<longrightarrow> (\<forall>m \<in> set (sk_files k). m \<in> set ms \<and> part m s))"
proof -
  have "stack_inv ([], s0)" by (simp add: stack_inv_def linked_def)
  then obtain ms s where r: "stack_run ld k es ([], s0) = Some (ms, s)" and i: "stack_inv (ms, s)"
    using run_keeps [OF assms(1) _ assms(2), of "([], s0)"] by auto
  have "sk_driver k \<in> set ms \<longrightarrow> set ms = set (sk_files k)"
    using needs_stack [of ms] i by (auto simp: stack_inv_def)
  then show ?thesis using r i by (auto simp: stack_inv_def)
qed

end

subsection \<open>002: queue, helper, driver\<close>

definition queue_kernel :: module_file where
  "queue_kernel =
     \<lparr>mf_name = ''queue_kernel'', mf_imports = [],
      mf_exports = [''queue_init'', ''enqueue'', ''dequeue'', ''queue_empty'']\<rparr>"

definition keypad_helper_kernel :: module_file where
  "keypad_helper_kernel =
     \<lparr>mf_name = ''keypad_helper_kernel'', mf_imports = [''queue_init'', ''enqueue'', ''dequeue'', ''queue_empty''],
      mf_exports = [''keypad_inject_event'', ''keypad_get_event'', ''keypad_clear_queue'']\<rparr>"

definition key_kernel :: module_file where
  "key_kernel =
     \<lparr>mf_name = ''key_kernel'',
      mf_imports = [''keypad_inject_event'', ''keypad_get_event'', ''keypad_clear_queue''], mf_exports = []\<rparr>"

lemmas key_files = queue_kernel_def keypad_helper_kernel_def key_kernel_def

text \<open>
  \<open>queue_module_init\<close> only logs, and \<open>temp_init\<close> of the driver returns zero whatever happens. The helper's
  static queue is zero when the module is loaded, then \<open>keypad_init\<close> runs with the parameter \<open>keymap\<close>.
\<close>

definition queue_module_init :: ret where "queue_module_init = Inr 0"

definition key_static :: queue where
  "key_static = \<lparr>items = replicate 64 0, front = 0, rear = 0, count = 0, spin = False\<rparr>"

definition key_stack_init :: "module_file \<Rightarrow> byte list option \<times> kapi \<Rightarrow> queue \<Rightarrow> (queue \<times> bool) option" where
  "key_stack_init m e q =
     (if m = keypad_helper_kernel then do { (q', r) \<leftarrow> keypad_init (fst e) key_static; Some (q', r = Inr 0) }
      else if m = key_kernel then do { (r, h) \<leftarrow> temp_init_key (snd e) []; Some (q, r = None) }
      else Some (q, queue_module_init = Inr 0))"

fun key_needs :: "key_op \<Rightarrow> string list" where
  "key_needs (KRead u val len) = [''keypad_get_event'', ''dequeue'']"
| "key_needs (KWrite u len) = [''keypad_inject_event'', ''enqueue'']"
| "key_needs (KIoctl cmd) = (if cmd = CLEAR_BUF then [''keypad_clear_queue'', ''queue_empty''] else [])"

definition key_stack :: "(byte list option \<times> kapi, key_op, queue) stack" where
  "key_stack =
     \<lparr>sk_files = [queue_kernel, keypad_helper_kernel, key_kernel], sk_driver = key_kernel,
      sk_init = key_stack_init, sk_needs = key_needs, sk_call = (\<lambda>c q. map_option fst (key_step c q))\<rparr>"

definition key_part :: "module_file \<Rightarrow> queue \<Rightarrow> bool" where
  "key_part m q \<longleftrightarrow> (m = keypad_helper_kernel \<longrightarrow> queue_inv q)"

text \<open>The parameter \<open>keymap\<close> is a C string.\<close>

definition keymap_good :: "module_file \<Rightarrow> byte list option \<times> kapi \<Rightarrow> bool" where
  "keymap_good m e \<longleftrightarrow> (case fst e of None \<Rightarrow> True | Some str \<Rightarrow> 0 \<in> set str)"

lemma key_files_distinct [simp]:
  "queue_kernel \<noteq> keypad_helper_kernel" "queue_kernel \<noteq> key_kernel" "keypad_helper_kernel \<noteq> key_kernel"
  "keypad_helper_kernel \<noteq> queue_kernel" "key_kernel \<noteq> queue_kernel" "key_kernel \<noteq> keypad_helper_kernel"
  by (simp_all add: key_files)

text \<open>What a module imports comes from the one below it and from nowhere else.\<close>

lemma key_exporters:
  assumes "set ms \<subseteq> {queue_kernel, keypad_helper_kernel, key_kernel}"
  shows "exported ms ''enqueue'' \<Longrightarrow> queue_kernel \<in> set ms"
    and "exported ms ''keypad_get_event'' \<Longrightarrow> keypad_helper_kernel \<in> set ms"
  using assms by (auto simp: exported_def key_files)

lemma keypad_init_static:
  assumes "case keymap of None \<Rightarrow> True | Some str \<Rightarrow> 0 \<in> set str"
  shows "\<exists>q. keypad_init keymap key_static = Some (q, Inr 0) \<and> queue_inv q"
proof (cases keymap)
  case None
  then show ?thesis using queue_init_inv [of key_static] by (simp add: keypad_init_def key_static_def)
next
  case (Some str)
  then show ?thesis using keypad_init_run [of key_static str] assms by (auto simp: key_static_def)
qed

interpretation keypad_modules: module_stack key_stack key_part keymap_good key_op_ok
proof
  fix m s and e :: "byte list option \<times> kapi"
  assume "keymap_good m e"
  then obtain q where "keypad_init (fst e) key_static = Some (q, Inr 0)" "queue_inv q"
    using keypad_init_static [of "fst e"] by (auto simp: keymap_good_def)
  then show "\<exists>s' r. sk_init key_stack m e s = Some (s', r) \<and> key_part m s' \<and>
      (\<forall>m' \<in> set (sk_files key_stack). m' \<noteq> m \<longrightarrow> key_part m' s \<longrightarrow> key_part m' s')"
    by (auto simp: key_stack_def key_stack_init_def key_part_def temp_init_key_def Let_def)
next
  fix s c
  assume "\<And>m. m \<in> set (sk_files key_stack) \<Longrightarrow> key_part m s" "key_op_ok c"
  then have "queue_inv s" "key_op_ok c" by (auto simp: key_stack_def key_part_def)
  then show "\<exists>s'. sk_call key_stack c s = Some s' \<and> (\<forall>m \<in> set (sk_files key_stack). key_part m s')"
    using key_step_refines [of s c] by (auto simp: key_stack_def key_part_def)
next
  fix ms c
  assume a: "linked ms" "set ms \<subseteq> set (sk_files key_stack)" "sk_driver key_stack \<in> set ms"
  have sub: "set ms \<subseteq> {queue_kernel, keypad_helper_kernel, key_kernel}" using a(2) by (simp add: key_stack_def)
  have d: "key_kernel \<in> set ms" using a(3) by (simp add: key_stack_def)
  then have "resolved ms key_kernel" using a(1) by (simp add: linked_def)
  then have h: "keypad_helper_kernel \<in> set ms"
    using key_exporters(2) [OF sub] by (simp add: resolved_def key_kernel_def)
  then have "resolved ms keypad_helper_kernel" using a(1) by (simp add: linked_def)
  then have "queue_kernel \<in> set ms"
    using key_exporters(1) [OF sub] by (simp add: resolved_def keypad_helper_kernel_def)
  then have "set ms = set (sk_files key_stack)" using sub d h by (auto simp: key_stack_def)
  moreover from this have "list_all (exported ms) (sk_needs key_stack c)"
    by (cases c) (auto simp: key_stack_def exported_def key_files)
  ultimately show "set ms = set (sk_files key_stack) \<and> list_all (exported ms) (sk_needs key_stack c)" ..
qed

subsection \<open>003: mirror, storage\<close>

definition storage_mirror_kernel :: module_file where
  "storage_mirror_kernel =
     \<lparr>mf_name = ''storage_mirror_kernel'', mf_imports = [], mf_exports = [''mirror_sector'', ''vblock_backup_to_file'']\<rparr>"

definition storage_kernel :: module_file where
  "storage_kernel =
     \<lparr>mf_name = ''storage_kernel'', mf_imports = [''mirror_sector'', ''vblock_backup_to_file''], mf_exports = []\<rparr>"

lemmas storage_files = storage_mirror_kernel_def storage_kernel_def

text \<open>
  The parameters of \<open>storage_kernel\<close> are the keys and how many of them were given; its other variables
  are zero when it is loaded, and those of the mirror when that is.
\<close>

type_synonym storage_params = "kapi \<times> byte list option list \<times> int"

definition mirror_static :: mirror_dev where
  "mirror_static = \<lparr>mirror_buffer = replicate 4096 0, mirror_mutex = False, mirror_read_sem = 0\<rparr>"

definition storage_stack_init ::
  "module_file \<Rightarrow> storage_params \<Rightarrow> storage_dev \<times> mirror_dev \<Rightarrow> ((storage_dev \<times> mirror_dev) \<times> bool) option" where
  "storage_stack_init m e st =
     (if m = storage_mirror_kernel
      then (case mirror_init mirror_static of (d, r) \<Rightarrow> Some ((fst st, d), r = Inr 0))
      else
        (case e of (api, keys, cnt) \<Rightarrow> do {
           (r, h, s) \<leftarrow> storage_driver_init api []
             \<lparr>user_keys = keys, key_count = cnt, storage_buffer = replicate 4096 0,
              sector_lock_state = replicate 8 False, storage_mutex = False\<rparr>;
           Some ((s, snd st), r = None)
         }))"

fun storage_needs :: "storage_op \<Rightarrow> string list" where
  "storage_needs (OpIoctl u fs cmd) =
     (if cmd = IOCTL_MIRROR_SECTOR then [''mirror_sector'']
      else if cmd = IOCTL_BACKUP_TO_FILE then [''vblock_backup_to_file''] else [])"
| "storage_needs _ = []"

definition storage_stack :: "(storage_params, storage_op, storage_dev \<times> mirror_dev) stack" where
  "storage_stack =
     \<lparr>sk_files = [storage_mirror_kernel, storage_kernel], sk_driver = storage_kernel,
      sk_init = storage_stack_init, sk_needs = storage_needs, sk_call = storage_step\<rparr>"

definition storage_part :: "module_file \<Rightarrow> storage_dev \<times> mirror_dev \<Rightarrow> bool" where
  "storage_part m st \<longleftrightarrow> (if m = storage_mirror_kernel then mirror_inv (snd st) else storage_inv (fst st))"

fun params_good :: "module_file \<Rightarrow> storage_params \<Rightarrow> bool" where
  "params_good m (api, keys, cnt) \<longleftrightarrow> length keys = 8 \<and> 0 \<le> cnt \<and> cnt \<le> 8"

lemma storage_files_distinct [simp]:
  "storage_mirror_kernel \<noteq> storage_kernel" "storage_kernel \<noteq> storage_mirror_kernel"
  by (simp_all add: storage_files)

lemma storage_exporter:
  "set ms \<subseteq> {storage_mirror_kernel, storage_kernel} \<Longrightarrow> exported ms ''mirror_sector'' \<Longrightarrow> storage_mirror_kernel \<in> set ms"
  by (auto simp: exported_def storage_files)

lemma storage_init_static:
  assumes "length keys = 8" and "0 \<le> cnt" and "cnt \<le> 8"
  shows "\<exists>r h s. storage_driver_init api []
      \<lparr>user_keys = keys, key_count = cnt, storage_buffer = replicate 4096 0,
       sector_lock_state = replicate 8 False, storage_mutex = False\<rparr> = Some (r, h, s) \<and> storage_inv s"
  using storage_module.ini_total [of api "[]"] assms by (auto simp: storage_driver_init_def intro!: inv_intros)

interpretation storage_modules: module_stack storage_stack storage_part params_good op_ok
proof
  fix m s and e :: storage_params
  assume "params_good m e"
  obtain api keys cnt where e: "e = (api, keys, cnt)" by (cases e)
  then have "length keys = 8" "0 \<le> cnt" "cnt \<le> 8" using \<open>params_good m e\<close> by simp_all
  then obtain r h d where "storage_driver_init api []
      \<lparr>user_keys = keys, key_count = cnt, storage_buffer = replicate 4096 0,
       sector_lock_state = replicate 8 False, storage_mutex = False\<rparr> = Some (r, h, d)" "storage_inv d"
    using storage_init_static [of keys cnt api] by blast
  moreover have "mirror_inv (fst (mirror_init mirror_static))"
    by (rule mirror_init_inv) (simp add: mirror_static_def)
  ultimately show "\<exists>s' r. sk_init storage_stack m e s = Some (s', r) \<and> storage_part m s' \<and>
      (\<forall>m' \<in> set (sk_files storage_stack). m' \<noteq> m \<longrightarrow> storage_part m' s \<longrightarrow> storage_part m' s')"
    by (auto simp: storage_stack_def storage_stack_init_def storage_part_def e split: prod.splits)
next
  fix s c
  assume p: "\<And>m. m \<in> set (sk_files storage_stack) \<Longrightarrow> storage_part m s" and "op_ok c"
  have "storage_part storage_mirror_kernel s" "storage_part storage_kernel s"
    by (rule p; simp add: storage_stack_def)+
  then have "sys_inv s" by (simp add: storage_part_def sys_inv_def)
  then show "\<exists>s'. sk_call storage_stack c s = Some s' \<and> (\<forall>m \<in> set (sk_files storage_stack). storage_part m s')"
    using storage_step_total [of s c] \<open>op_ok c\<close> by (auto simp: storage_stack_def storage_part_def sys_inv_def)
next
  fix ms c
  assume a: "linked ms" "set ms \<subseteq> set (sk_files storage_stack)" "sk_driver storage_stack \<in> set ms"
  have sub: "set ms \<subseteq> {storage_mirror_kernel, storage_kernel}" using a(2) by (simp add: storage_stack_def)
  have d: "storage_kernel \<in> set ms" using a(3) by (simp add: storage_stack_def)
  then have "resolved ms storage_kernel" using a(1) by (simp add: linked_def)
  then have "storage_mirror_kernel \<in> set ms"
    using storage_exporter [OF sub] by (simp add: resolved_def storage_kernel_def)
  then have "set ms = set (sk_files storage_stack)" using sub d by (auto simp: storage_stack_def)
  moreover from this have "list_all (exported ms) (sk_needs storage_stack c)"
    by (cases c) (auto simp: storage_stack_def exported_def storage_files)
  ultimately show "set ms = set (sk_files storage_stack) \<and> list_all (exported ms) (sk_needs storage_stack c)" ..
qed

subsection \<open>001: helper, driver\<close>

definition log_helper :: module_file where
  "log_helper = \<lparr>mf_name = ''helper'', mf_imports = [], mf_exports = [''get_temp_val'']\<rparr>"

definition log_driver :: module_file where
  "log_driver = \<lparr>mf_name = ''driver'', mf_imports = [''get_temp_val''], mf_exports = []\<rparr>"

lemmas log_files = log_helper_def log_driver_def

text \<open>\<open>temp_init\<close> of \<open>helper.c\<close> only logs. The parameters are \<open>temp\<close> of the helper and both thresholds.\<close>

definition temp_init_helper :: ret where "temp_init_helper = Inr 0"

definition log_stack_init ::
  "module_file \<Rightarrow> kapi \<times> cint \<times> cint \<times> cint \<Rightarrow> templog \<Rightarrow> (templog \<times> bool) option" where
  "log_stack_init m e s =
     (case e of (api, tmp, high, low) \<Rightarrow>
        if m = log_helper then Some (s\<lparr>helper_temp := tmp\<rparr>, temp_init_helper = Inr 0)
        else do {
          (r, h) \<leftarrow> temp_init_log api [];
          Some (s\<lparr>temp := 0, threshold_high := high, threshold_low := low\<rparr>, r = None)
        })"

datatype log_op = LRead uenv size_t | LWrite uenv size_t | LIoctl uenv cint "byte list"

fun log_needs :: "log_op \<Rightarrow> string list" where
  "log_needs (LRead u len) = [''get_temp_val'']"
| "log_needs _ = []"

fun log_call :: "log_op \<Rightarrow> templog \<Rightarrow> templog option" where
  "log_call (LRead u len) s = Some (fst (device_read_log u len s))"
| "log_call (LWrite u len) s = Some (fst (device_write_log u len s))"
| "log_call (LIoctl u cmd arg) s = (case device_ioctl_log u cmd arg s of (arg', r) \<Rightarrow> Some s)"

definition log_stack :: "(kapi \<times> cint \<times> cint \<times> cint, log_op, templog) stack" where
  "log_stack =
     \<lparr>sk_files = [log_helper, log_driver], sk_driver = log_driver, sk_init = log_stack_init,
      sk_needs = log_needs, sk_call = log_call\<rparr>"

lemma log_exporter:
  "set ms \<subseteq> {log_helper, log_driver} \<Longrightarrow> exported ms ''get_temp_val'' \<Longrightarrow> log_helper \<in> set ms"
  by (auto simp: exported_def log_files)

interpretation log_modules: module_stack log_stack "\<lambda>m s. True" "\<lambda>m e. True" "\<lambda>c. True"
proof
  fix m s and e :: "kapi \<times> cint \<times> cint \<times> cint"
  show "\<exists>s' r. sk_init log_stack m e s = Some (s', r) \<and> True \<and> (\<forall>m' \<in> set (sk_files log_stack). m' \<noteq> m \<longrightarrow> True \<longrightarrow> True)"
    by (auto simp: log_stack_def log_stack_init_def temp_init_log_def Let_def split: prod.splits)
next
  fix s c
  show "\<exists>s'. sk_call log_stack c s = Some s' \<and> (\<forall>m \<in> set (sk_files log_stack). True)"
    by (cases c) (auto simp: log_stack_def split: prod.splits)
next
  fix ms c
  assume a: "linked ms" "set ms \<subseteq> set (sk_files log_stack)" "sk_driver log_stack \<in> set ms"
  have sub: "set ms \<subseteq> {log_helper, log_driver}" using a(2) by (simp add: log_stack_def)
  have d: "log_driver \<in> set ms" using a(3) by (simp add: log_stack_def)
  then have "resolved ms log_driver" using a(1) by (simp add: linked_def)
  then have "log_helper \<in> set ms"
    using log_exporter [OF sub] by (simp add: resolved_def log_driver_def)
  then have "set ms = set (sk_files log_stack)" using sub d by (auto simp: log_stack_def)
  moreover from this have "list_all (exported ms) (sk_needs log_stack c)"
    by (cases c) (auto simp: log_stack_def exported_def log_files)
  ultimately show "set ms = set (sk_files log_stack) \<and> list_all (exported ms) (sk_needs log_stack c)" ..
qed

subsection \<open>Properties\<close>

text \<open>C32: the modules of 002 may be loaded and unloaded in any order, with any parameters and failing
  registrations, while programs use the keypad: no call runs into a module that is not there, and
  while the driver is loaded so are queue and helper, with a ring in order.\<close>

theorem keypad_stack_safe:
  assumes "loader_ok ld" and "\<forall>e \<in> set es. keypad_modules.event_good e"
  shows "\<exists>ms q. stack_run ld key_stack es ([], q0) = Some (ms, q) \<and>
     (key_kernel \<in> set ms \<longrightarrow> queue_kernel \<in> set ms \<and> keypad_helper_kernel \<in> set ms \<and> queue_inv q)"
  using keypad_modules.session_safe [OF assms, of q0] by (auto simp: key_stack_def key_part_def)

theorem keypad_stack_safe_witness:
  "\<exists>ms q. stack_run plain_loader key_stack
      [Load key_kernel (None, api_ok), Load queue_kernel (None, api_ok),
       Load keypad_helper_kernel (Some [97, 98, 0], api_ok), Load key_kernel (None, api_ok),
       Unload keypad_helper_kernel, Use (KRead (user_mem []) 0 1)] ([], key_static) = Some (ms, q) \<and>
     (key_kernel \<in> set ms \<longrightarrow> queue_kernel \<in> set ms \<and> keypad_helper_kernel \<in> set ms \<and> queue_inv q)"
  by (rule keypad_stack_safe [OF plain_loader_ok]) (simp add: keymap_good_def)

text \<open>The same for the two modules of 003 and for those of 001.\<close>

lemma storage_stack_safe:
  assumes "loader_ok ld" and "\<forall>e \<in> set es. storage_modules.event_good e"
  shows "\<exists>ms st. stack_run ld storage_stack es ([], s0) = Some (ms, st) \<and>
     (storage_kernel \<in> set ms \<longrightarrow> storage_mirror_kernel \<in> set ms \<and> sys_inv st)"
  using storage_modules.session_safe [OF assms, of s0] by (auto simp: storage_stack_def storage_part_def sys_inv_def)

lemma log_stack_safe:
  assumes "loader_ok ld"
  shows "\<exists>ms s. stack_run ld log_stack es ([], s0) = Some (ms, s) \<and> (log_driver \<in> set ms \<longrightarrow> log_helper \<in> set ms)"
proof -
  have "log_modules.event_good e" for e :: "(kapi \<times> cint \<times> cint \<times> cint, log_op) stack_event" by (cases e) simp_all
  then show ?thesis using log_modules.session_safe [OF assms, of es s0] by (auto simp: log_stack_def)
qed

text \<open>The loader does allow the order of the dependencies, and then the driver works.\<close>

lemma keypad_stack_loads:
  "\<exists>q. stack_run plain_loader key_stack
      [Load queue_kernel (None, api_ok), Load keypad_helper_kernel (None, api_ok), Load key_kernel (None, api_ok)]
      ([], q0) = Some ([key_kernel, keypad_helper_kernel, queue_kernel], q)"
  by (simp add: key_stack_def key_stack_init_def plain_loader_def resolved_def exported_def key_files
      keypad_init_def temp_init_key_def queue_module_init_def Let_def api_ok_def)

end
