(* ===== verification/SensorModules.thy ===== *)
theory SensorModules
  imports PlatformSensor
begin

section \<open>Device module, driver module and attributes of 016 together\<close>

text \<open>
  \<open>sensor_pltdvc.c\<close> registers the platform device with its memory resource, \<open>sensor_pltdrv.c\<close> the driver. The
  bus is kernel code: when both are registered and \<open>matches\<close> says that the names belong together it
  calls the probe, and the remove before one of them goes; then it clears the driver data and gives
  back what the \<open>devm\<close> calls acquired. Programs read and write the attributes that exist at that moment; one
  that does not exist cannot be opened.

  The two modules are loaded and unloaded in any order; the results of the registrations and of
  the kernel calls in a probe are arguments of the events. \<open>sensor_dvc_init\<close> does not look at the result of the
  registration, and giving back a device that is not registered is \<open>None\<close>.
\<close>

record sensor_bus =
  dvc_loaded :: bool
  dvc_registered :: bool
  drv_registered :: bool
  dvc_bound :: bool
  sb_sys :: sensor_sys
  sb_held :: held

record platform_device =
  pdev_name :: string
  pdev_id :: int
  pdev_resources :: "resource list"

definition sensor_pltdvc :: platform_device where
  "sensor_pltdvc = \<lparr>pdev_name = PLATFORM_DRIVER_NAME, pdev_id = DEVICE_ID, pdev_resources = [sensor_resources]\<rparr>"

record platform_driver =
  pdrv_name :: string
  pdrv_probe :: "sensor_env \<Rightarrow> sensor_sys \<times> held \<Rightarrow> errno option \<times> sensor_sys \<times> held"
  pdrv_remove :: "held \<Rightarrow> held"

definition sensor_pltdrv :: platform_driver where
  "sensor_pltdrv = \<lparr>pdrv_name = PLATFORM_DRIVER_NAME, pdrv_probe = sensor_probe, pdrv_remove = sensor_remove\<rparr>"

lemma sensor_pltdrv_simps [simp]:
  "pdrv_probe sensor_pltdrv = sensor_probe" "pdrv_remove sensor_pltdrv = sensor_remove"
  by (simp_all add: sensor_pltdrv_def)

text \<open>\<open>platform_get_resource\<close> finds the first resource of the device.\<close>

definition with_resource :: "sensor_env \<Rightarrow> sensor_env" where
  "with_resource env =
     env\<lparr>get_resource := (case pdev_resources sensor_pltdvc of [] \<Rightarrow> None | r # rs \<Rightarrow> Some r)\<rparr>"

type_synonym bus_match = "string \<Rightarrow> string \<Rightarrow> bool"

definition sensor_attach :: "bus_match \<Rightarrow> sensor_env \<Rightarrow> sensor_bus \<Rightarrow> sensor_bus" where
  "sensor_attach matches env b =
     (if dvc_registered b \<and> drv_registered b \<and> matches (pdrv_name sensor_pltdrv) (pdev_name sensor_pltdvc)
      then (case pdrv_probe sensor_pltdrv (with_resource env) (sb_sys b, sb_held b) of
              (r, s, h) \<Rightarrow> b\<lparr>dvc_bound := (r = None), sb_sys := s, sb_held := h\<rparr>)
      else b)"

definition sensor_detach :: "sensor_bus \<Rightarrow> sensor_bus" where
  "sensor_detach b =
     (if dvc_bound b
      then b\<lparr>dvc_bound := False, sb_held := pdrv_remove sensor_pltdrv (sb_held b), sb_sys := (sb_sys b)\<lparr>drvdata := None\<rparr>\<rparr>
      else b)"

subsection \<open>The modules\<close>

definition sensor_dvc_init :: "bus_match \<Rightarrow> errno option \<Rightarrow> sensor_env \<Rightarrow> sensor_bus \<Rightarrow> ret \<times> sensor_bus" where
  "sensor_dvc_init matches r env b =
     (Inr 0, case r of Some e \<Rightarrow> b | None \<Rightarrow> sensor_attach matches env (b\<lparr>dvc_registered := True\<rparr>))"

definition sensor_dvc_exit :: "sensor_bus \<Rightarrow> sensor_bus option" where
  "sensor_dvc_exit b =
     (if dvc_registered b then Some ((sensor_detach b)\<lparr>dvc_registered := False\<rparr>) else None)"

text \<open>\<open>module_platform_driver\<close>: the init routine returns what the registration returns.\<close>

definition sensor_pltdrv_init :: "bus_match \<Rightarrow> errno option \<Rightarrow> sensor_env \<Rightarrow> sensor_bus \<Rightarrow> errno option \<times> sensor_bus" where
  "sensor_pltdrv_init matches r env b =
     (case r of Some e \<Rightarrow> (Some e, b) | None \<Rightarrow> (None, sensor_attach matches env (b\<lparr>drv_registered := True\<rparr>)))"

definition sensor_pltdrv_exit :: "sensor_bus \<Rightarrow> sensor_bus" where
  "sensor_pltdrv_exit b = (sensor_detach b)\<lparr>drv_registered := False\<rparr>"

datatype sensor_event =
    LoadDvc "errno option" sensor_env
  | UnloadDvc
  | LoadPltdrv "errno option" sensor_env
  | UnloadPltdrv
  | ShowAttr string
  | StoreAttr string "byte list" size_t
  | Measure cint \<comment> \<open>the hardware puts a new temperature into its register\<close>

fun sensor_step :: "bus_match \<Rightarrow> kstrtouint \<Rightarrow> sensor_event \<Rightarrow> sensor_bus \<Rightarrow> (sensor_bus \<times> byte list \<times> ret) option" where
  "sensor_step m k (LoadDvc r env) b =
     (if dvc_loaded b then Some (b, [], Inr 0)
      else (case sensor_dvc_init m r env b of (c, b') \<Rightarrow> Some (b'\<lparr>dvc_loaded := (c = Inr 0)\<rparr>, [], c)))"
| "sensor_step m k UnloadDvc b =
     (if dvc_loaded b then do { b' \<leftarrow> sensor_dvc_exit b; Some (b'\<lparr>dvc_loaded := False\<rparr>, [], Inr 0) }
      else Some (b, [], Inr 0))"
| "sensor_step m k (LoadPltdrv r env) b =
     (if drv_registered b then Some (b, [], Inr 0)
      else Some (snd (sensor_pltdrv_init m r env b), [], Inr 0))"
| "sensor_step m k UnloadPltdrv b =
     Some (if drv_registered b then sensor_pltdrv_exit b else b, [], Inr 0)"
| "sensor_step m k (ShowAttr a) b =
     (if AttrFile 0 a \<notin> set (sb_held b) then Some (b, [], Inl ENOENT)
      else do { (out, r) \<leftarrow> attr_show a (sb_sys b); Some (b, out, r) })"
| "sensor_step m k (StoreAttr a buf n) b =
     (if AttrFile 0 a \<notin> set (sb_held b) then Some (b, [], Inl ENOENT)
      else do { (s, r) \<leftarrow> attr_store k a buf n (sb_sys b); Some (b\<lparr>sb_sys := s\<rparr>, [], r) })"
| "sensor_step m k (Measure v) b =
     Some (b\<lparr>sb_sys := (sb_sys b)\<lparr>regs := (regs (sb_sys b))(0 := v)\<rparr>\<rparr>, [], Inr 0)"

fun sensor_run :: "bus_match \<Rightarrow> kstrtouint \<Rightarrow> sensor_event list \<Rightarrow> sensor_bus \<Rightarrow> (sensor_bus \<times> (byte list \<times> ret) list) option" where
  "sensor_run m k [] b = Some (b, [])"
| "sensor_run m k (e # es) b =
     do { (b1, out, r) \<leftarrow> sensor_step m k e b; (b2, rs) \<leftarrow> sensor_run m k es b1; Some (b2, (out, r) # rs) }"

definition sensor_bus_fresh :: "(nat \<Rightarrow> cint) \<Rightarrow> sensor_bus" where
  "sensor_bus_fresh r =
     \<lparr>dvc_loaded = False, dvc_registered = False, drv_registered = False, dvc_bound = False,
      sb_sys = \<lparr>drvdata = None, regs = r\<rparr>, sb_held = []\<rparr>"

subsection \<open>Invariant\<close>

text \<open>
  The attributes there are, at most one of each name, are there only while the device is bound, and
  then the driver data are set and map both registers.
\<close>

definition sensor_files :: held where
  "sensor_files = [AttrFile 0 ''temp'', AttrFile 0 ''control'']"

definition sensor_bus_inv :: "sensor_bus \<Rightarrow> bool" where
  "sensor_bus_inv b \<longleftrightarrow> set (sb_held b) \<subseteq> set sensor_files \<and> distinct (sb_held b) \<and>
     (dvc_loaded b \<longleftrightarrow> dvc_registered b) \<and>
     (dvc_bound b \<longrightarrow> bound (sb_sys b) \<and> dvc_registered b \<and> drv_registered b) \<and>
     (\<not> dvc_bound b \<longrightarrow> sb_held b = [] \<and> drvdata (sb_sys b) = None)"

fun sensor_event_ok :: "sensor_event \<Rightarrow> bool" where
  "sensor_event_ok (LoadDvc r env) \<longleftrightarrow> r = None \<and> ioremap_ok env"
| "sensor_event_ok (LoadPltdrv r env) \<longleftrightarrow> ioremap_ok env"
| "sensor_event_ok _ \<longleftrightarrow> True"

lemma sensor_probe_outcome:
  assumes "ioremap_ok env"
  shows "(\<exists>e. sensor_probe (with_resource env) (s, []) = (Some e, s, [])) \<or>
     (\<exists>s' h'. sensor_probe (with_resource env) (s, []) = (None, s', h') \<and> bound s' \<and> regs s' = regs s \<and>
        set h' \<subseteq> set sensor_files \<and> distinct h' \<and> sensor_remove h' = [])"
proof -
  obtain r s' h' where p: "sensor_probe (with_resource env) (s, []) = (r, s', h')" by (metis surj_pair)
  show ?thesis
  proof (cases r)
    case (Some e)
    then show ?thesis using p sensor_probe_fails [of "with_resource env" s "[]"] by auto
  next
    case None
    have "ioremap_ok (with_resource env)" using assms by (simp add: ioremap_ok_def with_resource_def)
    moreover have "get_resource (with_resource env) = Some sensor_resources"
      by (simp add: with_resource_def sensor_pltdvc_def)
    ultimately have "bound s' \<and> regs s' = regs s"
      using p None by (intro sensor_probe_bound) (auto simp: sensor_resources_def)
    moreover have "set h' \<subseteq> set sensor_files \<and> distinct h'"
      using p None by (auto simp: sensor_probe_def acquire_def sensor_files_def split: if_splits option.splits)
    moreover have "sensor_remove h' = []" using p None by (intro sensor_probe_remove) auto
    ultimately show ?thesis using p None by auto
  qed
qed

lemma sensor_attach_keeps:
  assumes "ioremap_ok env" and "\<not> dvc_bound b" and "sb_held b = []" and "drvdata (sb_sys b) = None"
    and "dvc_loaded b \<longleftrightarrow> dvc_registered b"
  shows "sensor_bus_inv (sensor_attach m env b)"
  using sensor_probe_outcome [OF assms(1), of "sb_sys b"] assms(2-5)
  by (auto simp: sensor_attach_def sensor_bus_inv_def)

lemma sensor_remove_files:
  "set h \<subseteq> set sensor_files \<Longrightarrow> distinct h \<Longrightarrow> sensor_remove h = []"
proof -
  assume a: "set h \<subseteq> set sensor_files" "distinct h"
  then have "set (sensor_remove h) = {}" by (auto simp: sensor_remove_def sensor_files_def)
  then show ?thesis by simp
qed

lemma sensor_detach_keeps:
  assumes "sensor_bus_inv b"
  shows "\<not> dvc_bound (sensor_detach b)" "sb_held (sensor_detach b) = []" "drvdata (sb_sys (sensor_detach b)) = None"
    "dvc_loaded (sensor_detach b) = dvc_loaded b" "dvc_registered (sensor_detach b) = dvc_registered b"
    "regs (sb_sys (sensor_detach b)) = regs (sb_sys b)"
  using assms by (auto simp: sensor_detach_def sensor_bus_inv_def sensor_remove_files)

text \<open>An attribute that exists can be used.\<close>

lemma sensor_show_run:
  assumes "sensor_bus_inv b" and "AttrFile 0 a \<in> set (sb_held b)"
  shows "\<exists>out r. attr_show a (sb_sys b) = Some (out, r)"
proof -
  have "bound (sb_sys b)" using assms by (cases "dvc_bound b") (auto simp: sensor_bus_inv_def)
  then show ?thesis using temp_show_run [of "sb_sys b"] by (auto simp: attr_show_def)
qed

lemma sensor_store_run:
  assumes "sensor_bus_inv b" and "AttrFile 0 a \<in> set (sb_held b)"
  shows "\<exists>s r. attr_store k a buf n (sb_sys b) = Some (s, r) \<and> bound s"
proof -
  have "bound (sb_sys b)" using assms by (cases "dvc_bound b") (auto simp: sensor_bus_inv_def)
  then show ?thesis
    by (auto simp: attr_store_def control_store_def bound_def iowrite32_def io_ok_def split: sum.splits)
qed

lemma sensor_step_keeps:
  assumes "sensor_bus_inv b" and "sensor_event_ok e"
  shows "\<exists>b' out r. sensor_step m k e b = Some (b', out, r) \<and> sensor_bus_inv b'"
proof (cases e)
  case (LoadDvc r env)
  have "sensor_bus_inv (sensor_attach m env (b\<lparr>dvc_registered := True\<rparr>)\<lparr>dvc_loaded := True\<rparr>)" if "\<not> dvc_loaded b"
  proof -
    have "sensor_attach m env (b\<lparr>dvc_registered := True\<rparr>)\<lparr>dvc_loaded := True\<rparr>
        = sensor_attach m env (b\<lparr>dvc_registered := True, dvc_loaded := True\<rparr>)"
      by (simp add: sensor_attach_def split: prod.splits)
    then show ?thesis using that assms LoadDvc
      by (simp only:) (rule sensor_attach_keeps; auto simp: sensor_bus_inv_def)
  qed
  then show ?thesis using LoadDvc assms by (simp add: sensor_dvc_init_def)
next
  case (LoadPltdrv r env)
  have "sensor_bus_inv (sensor_attach m env (b\<lparr>drv_registered := True\<rparr>))" if "\<not> drv_registered b"
    using that assms LoadPltdrv by (intro sensor_attach_keeps) (auto simp: sensor_bus_inv_def)
  then show ?thesis using LoadPltdrv assms by (auto simp: sensor_pltdrv_init_def split: option.splits)
next
  case UnloadDvc
  show ?thesis using sensor_detach_keeps [OF assms(1)] assms(1) UnloadDvc
    by (auto simp: sensor_dvc_exit_def sensor_bus_inv_def)
next
  case UnloadPltdrv
  show ?thesis using sensor_detach_keeps [OF assms(1)] assms(1) UnloadPltdrv
    by (auto simp: sensor_pltdrv_exit_def sensor_bus_inv_def)
next
  case (ShowAttr a)
  then show ?thesis using assms(1) sensor_show_run [OF assms(1), of a] by auto
next
  case (StoreAttr a buf n)
  show ?thesis
  proof (cases "AttrFile 0 a \<in> set (sb_held b)")
    case True
    obtain s r where s: "attr_store k a buf n (sb_sys b) = Some (s, r)" "bound s"
      using sensor_store_run [OF assms(1) True] by blast
    have "dvc_bound b" using True assms(1) by (auto simp: sensor_bus_inv_def)
    then have "sensor_bus_inv (b\<lparr>sb_sys := s\<rparr>)" using assms(1) s(2) by (simp add: sensor_bus_inv_def)
    then show ?thesis using StoreAttr True s(1) by simp
  next
    case False
    then show ?thesis using StoreAttr assms(1) by simp
  qed
next
  case (Measure v)
  then show ?thesis using assms(1) by (auto simp: sensor_bus_inv_def bound_def)
qed

lemma sensor_run_keeps:
  assumes "sensor_bus_inv b" and "\<forall>e \<in> set es. sensor_event_ok e"
  shows "\<exists>b' rs. sensor_run m k es b = Some (b', rs) \<and> sensor_bus_inv b'"
  using assms
proof (induction es arbitrary: b)
  case Nil
  then show ?case by simp
next
  case (Cons e es)
  obtain b1 out r where 1: "sensor_step m k e b = Some (b1, out, r)" "sensor_bus_inv b1"
    using sensor_step_keeps [OF Cons.prems(1), of e m k] Cons.prems(2) by auto
  then show ?case using Cons.IH [OF 1(2)] Cons.prems(2) by auto
qed

lemma sensor_bus_fresh_inv: "sensor_bus_inv (sensor_bus_fresh r)"
  by (simp add: sensor_bus_inv_def sensor_bus_fresh_def)

subsection \<open>Properties\<close>

text \<open>C40: device and driver of 016 may come and go in any order, with probes that fail or create only some
  of the attributes, while programs read and write the attributes: no access runs into missing
  driver data or outside the mapped registers, and the attributes exist only while device and
  driver are both there. (The registration of the device is assumed to succeed.)\<close>

theorem sensor_016_safe:
  assumes "\<forall>e \<in> set es. sensor_event_ok e"
  shows "\<exists>b rs. sensor_run m k es (sensor_bus_fresh r) = Some (b, rs) \<and>
     (sb_held b \<noteq> [] \<longrightarrow> dvc_bound b \<and> dvc_registered b \<and> drv_registered b)"
proof -
  obtain b rs where "sensor_run m k es (sensor_bus_fresh r) = Some (b, rs)" "sensor_bus_inv b"
    using sensor_run_keeps [OF sensor_bus_fresh_inv assms] by blast
  then show ?thesis by (auto simp: sensor_bus_inv_def)
qed

theorem sensor_016_safe_witness:
  "\<exists>b rs. sensor_run (=) decimal_kstrtouint
      [LoadPltdrv None demo_env, LoadDvc None demo_env, ShowAttr ''temp'', StoreAttr ''control'' [49] 1, UnloadDvc,
       ShowAttr ''temp''] (sensor_bus_fresh (\<lambda>i. 0)) = Some (b, rs) \<and>
     (sb_held b \<noteq> [] \<longrightarrow> dvc_bound b \<and> dvc_registered b \<and> drv_registered b)"
  by (rule sensor_016_safe) (simp add: demo_env_ok)

text \<open>\<open>sensor_dvc_init\<close> returns 0 when the registration failed, so the module stays loaded, and
  unloading it gives back a device that is not registered.\<close>

theorem sensor_dvc_unload_unsafe:
  "sensor_run m k [LoadDvc r env, UnloadDvc] (sensor_bus_fresh rg) = None \<longleftrightarrow> r \<noteq> None"
proof (cases r)
  case None
  obtain b where b: "sensor_step m k (LoadDvc None env) (sensor_bus_fresh rg) = Some (b, [], Inr 0)" "dvc_registered b"
    by (auto simp: sensor_dvc_init_def sensor_attach_def sensor_bus_fresh_def)
  then show ?thesis using None by (simp add: sensor_dvc_exit_def del: sensor_step.simps(1))
next
  case (Some e)
  then show ?thesis by (simp add: sensor_dvc_init_def sensor_dvc_exit_def sensor_bus_fresh_def)
qed

end
