(* ===== verification/SysfsTables.thy ===== *)
theory SysfsTables
  imports LedSysfs GpioDevices IrqDemo PowerMgmt
begin

section \<open>The attribute tables of 006, 007, 016, 018, 019, 020 and 021\<close>

text \<open>
  A driver hands sysfs an array of attributes: a name, a mode, a show and a store routine. A program
  opens the file of an attribute and reads or writes it; sysfs calls the routine with a page of 4096
  bytes. What sysfs does with a mode is the argument \<open>may\<close>: whether a file of that mode can be opened
  for reading or for writing. A file without the routine gives \<open>EIO\<close>.
\<close>

record 's attribute =
  at_name :: string
  at_mode :: nat
  at_show :: "('s \<Rightarrow> (byte list \<times> ret) option) option"
  at_store :: "(byte list \<Rightarrow> size_t \<Rightarrow> 's \<Rightarrow> ('s \<times> ret) option) option"

datatype attr_call = AShow string | AStore string "byte list" size_t

datatype access_kind = ForReading | ForWriting

fun find_attr :: "'s attribute list \<Rightarrow> string \<Rightarrow> 's attribute option" where
  "find_attr [] n = None"
| "find_attr (a # as) n = (if at_name a = n then Some a else find_attr as n)"

fun attr_step ::
  "(nat \<Rightarrow> access_kind \<Rightarrow> bool) \<Rightarrow> 's attribute list \<Rightarrow> attr_call \<Rightarrow> 's \<Rightarrow> ('s \<times> byte list \<times> ret) option" where
  "attr_step may tab (AShow n) s =
     (case find_attr tab n of
        None \<Rightarrow> Some (s, [], Inl ENOENT)
      | Some a \<Rightarrow>
          if \<not> may (at_mode a) ForReading then Some (s, [], Inl EPERM)
          else (case at_show a of
                  None \<Rightarrow> Some (s, [], Inl EIO)
                | Some f \<Rightarrow> do { (out, r) \<leftarrow> f s; Some (s, out, r) }))"
| "attr_step may tab (AStore n buf len) s =
     (case find_attr tab n of
        None \<Rightarrow> Some (s, [], Inl ENOENT)
      | Some a \<Rightarrow>
          if \<not> may (at_mode a) ForWriting then Some (s, [], Inl EPERM)
          else (case at_store a of
                  None \<Rightarrow> Some (s, [], Inl EIO)
                | Some f \<Rightarrow> do { (s', r) \<leftarrow> f buf len s; Some (s', [], r) }))"

fun attr_run ::
  "(nat \<Rightarrow> access_kind \<Rightarrow> bool) \<Rightarrow> 's attribute list \<Rightarrow> attr_call list \<Rightarrow> 's \<Rightarrow> ('s \<times> (byte list \<times> ret) list) option" where
  "attr_run may tab [] s = Some (s, [])"
| "attr_run may tab (c # cs) s =
     do { (s1, out, r) \<leftarrow> attr_step may tab c s; (s2, rs) \<leftarrow> attr_run may tab cs s1; Some (s2, (out, r) # rs) }"

subsection \<open>What sysfs asks of the routines\<close>

text \<open>
  A show routine fills at most the page and returns how much it wrote; a store routine does not
  take more than it was given. \<open>good\<close> restricts the calls of the store routines.
\<close>

definition took :: "size_t \<Rightarrow> ret \<Rightarrow> bool" where
  "took len r \<longleftrightarrow> (case r of Inl e \<Rightarrow> True | Inr k \<Rightarrow> k \<le> len)"

lemma took_simps [simp]: "took len (Inl e)" "took len (Inr k) \<longleftrightarrow> k \<le> len"
  by (simp_all add: took_def)

fun attr_result_ok :: "attr_call \<Rightarrow> byte list \<times> ret \<Rightarrow> bool" where
  "attr_result_ok (AShow n) (out, r) \<longleftrightarrow>
     length out < 4096 \<and> (case r of Inl e \<Rightarrow> out = [] | Inr k \<Rightarrow> unat k = length out)"
| "attr_result_ok (AStore n buf len) (out, r) \<longleftrightarrow> took len r"

fun attr_call_ok :: "(string \<Rightarrow> byte list \<Rightarrow> size_t \<Rightarrow> bool) \<Rightarrow> attr_call \<Rightarrow> bool" where
  "attr_call_ok good (AShow n) \<longleftrightarrow> True"
| "attr_call_ok good (AStore n buf len) \<longleftrightarrow> good n buf len"

locale attr_table =
  fixes tab :: "'s attribute list" and good :: "string \<Rightarrow> byte list \<Rightarrow> size_t \<Rightarrow> bool" and inv :: "'s \<Rightarrow> bool"
  assumes show_ok: "a \<in> set tab \<Longrightarrow> at_show a = Some f \<Longrightarrow> inv s \<Longrightarrow>
      \<exists>out. f s = Some (out, Inr (word_of_nat (length out))) \<and> length out < 4096"
    and store_ok: "a \<in> set tab \<Longrightarrow> at_store a = Some g \<Longrightarrow> inv s \<Longrightarrow> good (at_name a) buf len \<Longrightarrow>
      \<exists>s' r. g buf len s = Some (s', r) \<and> inv s' \<and> took len r"
begin

lemma found: "find_attr xs n = Some a \<Longrightarrow> a \<in> set xs \<and> at_name a = n"
  by (induction xs) (auto split: if_splits)

lemma attr_step_ok:
  assumes "inv s" and "attr_call_ok good c"
  shows "\<exists>s' res. attr_step may tab c s = Some (s', res) \<and> inv s' \<and> attr_result_ok c res"
proof (cases c)
  case (AShow n)
  show ?thesis
  proof (cases "find_attr tab n")
    case None
    then show ?thesis using AShow assms(1) by simp
  next
    case (Some a)
    then have a: "a \<in> set tab" using found by blast
    show ?thesis
    proof (cases "at_show a")
      case None
      then show ?thesis using AShow Some assms(1) by simp
    next
      case (Some f)
      then obtain out where out: "f s = Some (out, Inr (word_of_nat (length out)))" "length out < 4096"
        using show_ok [OF a _ assms(1)] by blast
      then have "unat (word_of_nat (length out) :: size_t) = length out" by (intro unat_of_nat_small) simp
      then show ?thesis using AShow Some \<open>find_attr tab n = Some a\<close> assms(1) out by simp
    qed
  qed
next
  case (AStore n buf len)
  show ?thesis
  proof (cases "find_attr tab n")
    case None
    then show ?thesis using AStore assms(1) by simp
  next
    case (Some a)
    then have a: "a \<in> set tab" "at_name a = n" using found by blast+
    show ?thesis
    proof (cases "at_store a")
      case None
      then show ?thesis using AStore Some assms(1) by simp
    next
      case (Some g)
      have "good (at_name a) buf len" using assms(2) AStore a(2) by simp
      then obtain s' r where "g buf len s = Some (s', r)" "inv s'" "took len r"
        using store_ok [OF a(1) Some assms(1)] by blast
      then show ?thesis using AStore Some \<open>find_attr tab n = Some a\<close> assms(1) by simp
    qed
  qed
qed

lemma attr_session:
  assumes "inv s" and "\<forall>c \<in> set cs. attr_call_ok good c"
  shows "\<exists>s' rs. attr_run may tab cs s = Some (s', rs) \<and> inv s' \<and> list_all2 attr_result_ok cs rs"
  using assms
proof (induction cs arbitrary: s)
  case Nil
  then show ?case by simp
next
  case (Cons c cs)
  obtain s1 res where 1: "attr_step may tab c s = Some (s1, res)" "inv s1" "attr_result_ok c res"
    using attr_step_ok [OF Cons.prems(1), of c may] Cons.prems(2) by auto
  obtain s2 rs where "attr_run may tab cs s1 = Some (s2, rs)" "inv s2" "list_all2 attr_result_ok cs rs"
    using Cons.IH [OF 1(2)] Cons.prems(2) by auto
  with 1 show ?case by (cases res) simp
qed

end

subsection \<open>The tables\<close>

text \<open>\<open>0664\<close>, and what \<open>DEVICE_ATTR_RO\<close>, \<open>DEVICE_ATTR_WO\<close> and \<open>DEVICE_ATTR_RW\<close> give: \<open>0444\<close>, \<open>0200\<close>, \<open>0644\<close>.\<close>

definition mode_rw :: nat where "mode_rw = 436"
definition mode_ro :: nat where "mode_ro = 292"
definition mode_wo :: nat where "mode_wo = 128"
definition mode_owner_rw :: nat where "mode_owner_rw = 420"

text \<open>The name of the third attribute of 006 is the row of backquotes of the file.\<close>

definition power_name :: string where
  "power_name = replicate 22 (CHR 0x60)"

definition led_rgb_attrs :: "kstrtoint \<Rightarrow> led attribute list" where
  "led_rgb_attrs k =
     [\<lparr>at_name = ''color'', at_mode = mode_rw, at_show = Some color_show, at_store = Some color_store\<rparr>,
      \<lparr>at_name = ''brightness'', at_mode = mode_rw, at_show = Some (\<lambda>s. Some (brightness_show s)),
       at_store = Some (\<lambda>buf n s. Some (brightness_store k buf n s))\<rparr>,
      \<lparr>at_name = power_name, at_mode = mode_rw, at_show = Some (\<lambda>s. Some (power_show s)),
       at_store = Some (\<lambda>buf n s. Some (power_store k buf n s))\<rparr>]"

definition gpio_led_attrs :: "gpio_led attribute list" where
  "gpio_led_attrs =
     [\<lparr>at_name = ''value'', at_mode = mode_rw, at_show = Some (\<lambda>s. Some (value_show s)),
       at_store = Some (\<lambda>buf n s. Some (value_store buf n s))\<rparr>]"

definition irq_attrs :: "irqd attribute list" where
  "irq_attrs =
     [\<lparr>at_name = ''irq_count'', at_mode = mode_ro, at_show = Some (\<lambda>s. Some (irq_count_show s)), at_store = None\<rparr>,
      \<lparr>at_name = ''irq_info'', at_mode = mode_ro, at_show = Some (\<lambda>s. Some (irq_info_show s)), at_store = None\<rparr>,
      \<lparr>at_name = ''trigger_work'', at_mode = mode_wo, at_show = None,
       at_store = Some (\<lambda>buf n s. Some (trigger_work_store n s))\<rparr>,
      \<lparr>at_name = ''trigger_tasklet'', at_mode = mode_wo, at_show = None,
       at_store = Some (\<lambda>buf n s. Some (trigger_tasklet_store n s))\<rparr>,
      \<lparr>at_name = ''reset_count'', at_mode = mode_wo, at_show = None,
       at_store = Some (\<lambda>buf n s. Some (reset_count_store n s))\<rparr>]"

definition sensor_attrs :: "kstrtouint \<Rightarrow> sensor_sys attribute list" where
  "sensor_attrs k =
     [\<lparr>at_name = ''temp'', at_mode = mode_ro, at_show = Some temp_show, at_store = None\<rparr>,
      \<lparr>at_name = ''control'', at_mode = mode_wo, at_show = None, at_store = Some (control_store k)\<rparr>]"

text \<open>018 keeps its driver data beside the registers.\<close>

definition sensor_dt_attrs :: "kstrtouint \<Rightarrow> (sensor_dt option \<times> (nat \<Rightarrow> cint)) attribute list" where
  "sensor_dt_attrs k =
     [\<lparr>at_name = ''temp'', at_mode = mode_ro, at_show = Some (\<lambda>(d, r). temp_show_dt d r), at_store = None\<rparr>,
      \<lparr>at_name = ''control'', at_mode = mode_wo, at_show = None,
       at_store = Some (\<lambda>buf n (d, r). do { (d', r', c) \<leftarrow> control_store_dt k buf n d r; Some ((d', r'), c) })\<rparr>,
      \<lparr>at_name = ''threshold'', at_mode = mode_ro, at_show = Some (\<lambda>(d, r). threshold_show d), at_store = None\<rparr>]"

definition dt_bound :: "sensor_dt option \<times> (nat \<Rightarrow> cint) \<Rightarrow> bool" where
  "dt_bound st \<longleftrightarrow> (case fst st of None \<Rightarrow> False | Some d \<Rightarrow> 8 \<le> unat (io_size (dt_base d)))"

definition gpio_sensor_attrs :: "kstrtouint \<Rightarrow> gpio_line attribute list" where
  "gpio_sensor_attrs k =
     [\<lparr>at_name = ''gpio_state'', at_mode = mode_owner_rw, at_show = Some (\<lambda>s. Some (gpio_state_show s)),
       at_store = Some (\<lambda>buf n s. Some (gpio_state_store k buf n s))\<rparr>,
      \<lparr>at_name = ''gpio_direction'', at_mode = mode_ro, at_show = Some (\<lambda>s. Some (gpio_direction_show s)), at_store = None\<rparr>]"

definition power_attrs :: "power attribute list" where
  "power_attrs =
     [\<lparr>at_name = ''state'', at_mode = mode_owner_rw, at_show = Some (\<lambda>s. Some (state_show s)), at_store = Some state_store\<rparr>]"

definition color_good :: "string \<Rightarrow> byte list \<Rightarrow> size_t \<Rightarrow> bool" where
  "color_good n buf len \<longleftrightarrow> n = ''color'' \<longrightarrow> len \<noteq> 10"

subsection \<open>They keep the contract\<close>

lemma color_show_page:
  assumes "led_inv s"
  shows "\<exists>out. color_show s = Some (out, Inr (word_of_nat (length out))) \<and> length out < 4096"
proof -
  let ?t = "takeWhile (\<lambda>b. b \<noteq> 0) (color s)"
  have "c_string (color s) = Some ?t" using assms by (simp add: led_inv_def c_string_def)
  moreover have "length ?t \<le> 10" using assms length_takeWhile_le [of _ "color s"] by (simp add: led_inv_def)
  ultimately show ?thesis by (intro exI [of _ "?t @ [10]"]) (simp add: color_show_def add.commute)
qed

lemma number_page: "length (fmt_d v @ [10]) < 4096"
  using length_fmt_d [of v] by simp

lemma led_inv_numbers [simp]:
  "led_inv (s\<lparr>brightness := v\<rparr>) = led_inv s" "led_inv (s\<lparr>power := v\<rparr>) = led_inv s"
  by (simp_all add: led_inv_def)

lemma color_store_good:
  assumes "led_inv s" and "len \<noteq> 10"
  shows "\<exists>s' r. color_store page len s = Some (s', r) \<and> led_inv s' \<and> took len r"
proof -
  have l: "length (color s) = 10" using assms(1) by (simp add: led_inv_def)
  have "unat len \<noteq> 10"
  proof
    assume "unat len = 10"
    from word_of_unat [OF this] show False using assms(2) by simp
  qed
  then show ?thesis using color_store_run [OF l, of page len] color_store_keeps [OF assms(1), of page len] by auto
qed

interpretation led_attributes: attr_table "led_rgb_attrs k" color_good led_inv for k
proof
  fix a f and s :: led
  assume "a \<in> set (led_rgb_attrs k)" "at_show a = Some f" "led_inv s"
  then show "\<exists>out. f s = Some (out, Inr (word_of_nat (length out))) \<and> length out < 4096"
    using color_show_page [of s] number_page [of "brightness s"] number_page [of "power s"]
    by (auto simp: led_rgb_attrs_def brightness_show_def power_show_def Let_def)
next
  fix a g buf and s :: led and len :: size_t
  assume "a \<in> set (led_rgb_attrs k)" "at_store a = Some g" "led_inv s" "color_good (at_name a) buf len"
  then show "\<exists>s' r. g buf len s = Some (s', r) \<and> led_inv s' \<and> took len r"
    using color_store_good [of s len buf]
    by (cases "k buf") (auto simp: led_rgb_attrs_def color_good_def brightness_store_def power_store_def)
qed

interpretation gpio_led_attributes: attr_table gpio_led_attrs "\<lambda>n buf len. True" "\<lambda>s. True"
proof
  fix a f and s :: gpio_led
  assume "a \<in> set gpio_led_attrs" "at_show a = Some f"
  then show "\<exists>out. f s = Some (out, Inr (word_of_nat (length out))) \<and> length out < 4096"
    using number_page [of "led_state s"] by (auto simp: gpio_led_attrs_def value_show_def Let_def)
qed (auto simp: gpio_led_attrs_def value_store_def Let_def)

lemma irq_pages:
  "\<exists>out. irq_count_show s = (out, Inr (word_of_nat (length out))) \<and> length out < 4096"
  "\<exists>out. irq_info_show s = (out, Inr (word_of_nat (length out))) \<and> length out < 4096"
  using length_fmt_lu [of "interrupt_count s"] length_fmt_lu [of "tasklet_count s"]
    length_fmt_lu [of "work_queue_count s"] length_fmt_d [of "irq_number s"]
  by (simp_all add: irq_count_show_def irq_info_show_def lu_def Let_def)

interpretation irq_attributes: attr_table irq_attrs "\<lambda>n buf len. True" "\<lambda>s. True"
proof
  fix a f and s :: irqd
  assume "a \<in> set irq_attrs" "at_show a = Some f"
  then show "\<exists>out. f s = Some (out, Inr (word_of_nat (length out))) \<and> length out < 4096"
    using irq_pages [of s] by (auto simp: irq_attrs_def)
qed (auto simp: irq_attrs_def trigger_work_store_def trigger_tasklet_store_def reset_count_store_def)

interpretation sensor_attributes: attr_table "sensor_attrs k" "\<lambda>n buf len. True" bound for k
proof
  fix a f and s :: sensor_sys
  assume "a \<in> set (sensor_attrs k)" "at_show a = Some f" "bound s"
  then show "\<exists>out. f s = Some (out, Inr (word_of_nat (length out))) \<and> length out < 4096"
    using length_fmt_u [of "regs s 0"]
    by (auto simp: sensor_attrs_def temp_show_def bound_def ioread32_def io_ok_def Let_def)
next
  fix a g buf and s :: sensor_sys and len :: size_t
  assume "a \<in> set (sensor_attrs k)" "at_store a = Some g" "bound s"
  then show "\<exists>s' r. g buf len s = Some (s', r) \<and> bound s' \<and> took len r"
    by (cases "k buf") (auto simp: sensor_attrs_def control_store_def bound_def iowrite32_def io_ok_def)
qed

interpretation sensor_dt_attributes: attr_table "sensor_dt_attrs k" "\<lambda>n buf len. True" dt_bound for k
proof
  fix a f s
  assume "a \<in> set (sensor_dt_attrs k)" "at_show a = Some f" "dt_bound s"
  moreover obtain d r where "s = (Some d, r)" using \<open>dt_bound s\<close> by (cases s; cases "fst s") (auto simp: dt_bound_def)
  ultimately show "\<exists>out. f s = Some (out, Inr (word_of_nat (length out))) \<and> length out < 4096"
    using length_fmt_u [of "r 0"] length_fmt_u [of "dt_threshold d"]
    by (auto simp: sensor_dt_attrs_def temp_show_dt_def threshold_show_def dt_bound_def ioread32_def io_ok_def Let_def)
next
  fix a g buf s and len :: size_t
  assume "a \<in> set (sensor_dt_attrs k)" "at_store a = Some g" "dt_bound s"
  moreover obtain d r where "s = (Some d, r)" using \<open>dt_bound s\<close> by (cases s; cases "fst s") (auto simp: dt_bound_def)
  ultimately show "\<exists>s' r. g buf len s = Some (s', r) \<and> dt_bound s' \<and> took len r"
    by (cases "k buf") (auto simp: sensor_dt_attrs_def control_store_dt_def dt_bound_def iowrite32_def io_ok_def)
qed

interpretation gpio_sensor_attributes: attr_table "gpio_sensor_attrs k" "\<lambda>n buf len. True" "\<lambda>s. True" for k
proof
  fix a f and s :: gpio_line
  assume "a \<in> set (gpio_sensor_attrs k)" "at_show a = Some f"
  then show "\<exists>out. f s = Some (out, Inr (word_of_nat (length out))) \<and> length out < 4096"
    using number_page [of "g_value s"]
    by (auto simp: gpio_sensor_attrs_def gpio_state_show_def gpio_direction_show_def Let_def)
qed (auto simp: gpio_sensor_attrs_def gpio_state_store_def)

interpretation power_attributes: attr_table power_attrs "\<lambda>n buf len. True" "\<lambda>s. True"
proof
  fix a f and s :: power
  assume "a \<in> set power_attrs" "at_show a = Some f"
  then show "\<exists>out. f s = Some (out, Inr (word_of_nat (length out))) \<and> length out < 4096"
    by (auto simp: power_attrs_def state_show_def Let_def)
next
  fix a g buf and s :: power and len :: size_t
  assume "a \<in> set power_attrs" "at_store a = Some g"
  then show "\<exists>s' r. g buf len s = Some (s', r) \<and> True \<and> took len r"
    using state_store_run [of buf len s] by (auto simp: power_attrs_def)
qed

text \<open>An attribute of these tables that sysfs lets a program open has the routine for it.\<close>

definition modes_match :: "(nat \<Rightarrow> access_kind \<Rightarrow> bool) \<Rightarrow> 's attribute list \<Rightarrow> bool" where
  "modes_match may tab \<longleftrightarrow>
     list_all (\<lambda>a. (may (at_mode a) ForReading \<longrightarrow> at_show a \<noteq> None) \<and> (may (at_mode a) ForWriting \<longrightarrow> at_store a \<noteq> None)) tab"

text \<open>The owner's bits of the mode decide.\<close>

definition owner_may :: "nat \<Rightarrow> access_kind \<Rightarrow> bool" where
  "owner_may m k = (case k of ForReading \<Rightarrow> bit m 8 | ForWriting \<Rightarrow> bit m 7)"

lemma tables_match:
  "modes_match owner_may (led_rgb_attrs k)" "modes_match owner_may gpio_led_attrs"
  "modes_match owner_may irq_attrs" "modes_match owner_may (sensor_attrs k')"
  "modes_match owner_may (sensor_dt_attrs k')" "modes_match owner_may (gpio_sensor_attrs k')"
  "modes_match owner_may power_attrs"
  by (simp_all add: modes_match_def sensor_dt_attrs_def gpio_sensor_attrs_def power_attrs_def mode_owner_rw_def led_rgb_attrs_def gpio_led_attrs_def irq_attrs_def sensor_attrs_def owner_may_def
      mode_ro_def mode_wo_def bit_iff_odd)

subsection \<open>Property\<close>

text \<open>any sequence of reads and writes of the attributes of 006 is defined, as long as no color of exactly
  ten characters is written: the color stays a string inside its array, what is shown fits the
  page sysfs provides, its length is what the routine returns, and no store takes more than its
  count.\<close>

theorem led_attributes_safe:
  assumes "led_inv s" and "\<forall>c \<in> set cs. attr_call_ok color_good c"
  shows "\<exists>s' rs. attr_run may (led_rgb_attrs k) cs s = Some (s', rs) \<and> led_inv s' \<and> list_all2 attr_result_ok cs rs"
  by (rule led_attributes.attr_session [OF assms])

theorem led_attributes_safe_witness:
  "\<exists>s' rs. attr_run owner_may (led_rgb_attrs decimal_kstrtoint)
      [AStore ''color'' [98, 108, 117, 101] 4, AShow ''color'', AStore ''brightness'' [57, 10] 2, AShow ''brightness''] led_initial
      = Some (s', rs) \<and> led_inv s' \<and>
     list_all2 attr_result_ok
      [AStore ''color'' [98, 108, 117, 101] 4, AShow ''color'', AStore ''brightness'' [57, 10] 2, AShow ''brightness''] rs"
  by (rule led_attributes_safe [OF led_initial_inv]) (simp add: color_good_def)

end
