(* ===== verification/PanicTest.thy ===== *)
theory PanicTest
  imports LinkedList
begin

section \<open>Allocation until the machine is out of memory: 025\_panic\_test/list.c\<close>

text \<open>
  The module is a variant of 024 whose init routine adds nodes of one gigabyte for ever. The file
  does not compile: \<open>new->data = value\<close> assigns an \<open>int\<close> to an array, and \<open>vmalloc\<close> is given a
  second argument. The model reads the assignment as in 024, where \<open>data\<close> is an \<open>int\<close>, and drops
  the argument. \<open>linux/list.h\<close> is the argument \<open>list_api\<close> of LinkedList; \<open>alloc n\<close> is the result of the
  call number \<open>n\<close> of \<open>vmalloc\<close>; \<open>i0\<close> is what the uninitialised \<open>i\<close> holds. The kernel is built with
  wrapping signed arithmetic, so \<open>i++\<close> wraps. Where a block of memory comes from is kept beside the
  list, because \<open>kfree\<close> takes only what \<open>kmalloc\<close> gave; anything else is \<open>None\<close>.
\<close>

datatype origin = Kmalloc | Vmalloc

type_synonym 'l panic_list = "'l my_list \<times> (nat \<Rightarrow> origin)"

definition add_node_panic :: "'l list_api \<Rightarrow> nat option \<Rightarrow> cint \<Rightarrow> 'l panic_list \<Rightarrow> 'l panic_list option" where
  "add_node_panic A new value p =
     (case p of (st, org) \<Rightarrow>
        (case new of
           None \<Rightarrow> Some (st, org)
         | Some a \<Rightarrow>
             let st = st\<lparr>nodes := (nodes st)(a \<mapsto> value)\<rparr> in
             do { l \<leftarrow> ls_add_tail A (live st) a (links st); Some (st\<lparr>links := l\<rparr>, org(a := Vmalloc)) }))"

text \<open>The \<open>while (1)\<close> of \<open>list_init\<close>: no branch of it ends the recursion.\<close>

partial_function (option) init_loop ::
  "'l list_api \<Rightarrow> (nat \<Rightarrow> nat option) \<Rightarrow> nat \<Rightarrow> cint \<Rightarrow> 'l panic_list \<Rightarrow> (ret \<times> 'l panic_list) option" where
  "init_loop A alloc n i p = do { p' \<leftarrow> add_node_panic A (alloc n) i p; init_loop A alloc (Suc n) (i + 1) p' }"

definition list_init_panic ::
  "'l list_api \<Rightarrow> (nat \<Rightarrow> nat option) \<Rightarrow> cint \<Rightarrow> 'l panic_list \<Rightarrow> (ret \<times> 'l panic_list) option" where
  "list_init_panic A alloc i0 p = init_loop A alloc 0 i0 p"

text \<open>The first rounds of the loop.\<close>

fun init_rounds ::
  "'l list_api \<Rightarrow> (nat \<Rightarrow> nat option) \<Rightarrow> cint \<Rightarrow> nat \<Rightarrow> 'l panic_list \<Rightarrow> 'l panic_list option" where
  "init_rounds A alloc i0 0 p = Some p"
| "init_rounds A alloc i0 (Suc n) p =
     do { p' \<leftarrow> init_rounds A alloc i0 n p; add_node_panic A (alloc n) (i0 + word_of_nat n) p' }"

text \<open>\<open>cleanup_list\<close>: unlink, print, free.\<close>

definition kfree_node :: "nat \<Rightarrow> 'l panic_list \<Rightarrow> 'l panic_list option" where
  "kfree_node a p =
     (case p of (st, org) \<Rightarrow>
        if live st a \<and> org a = Kmalloc then Some (st\<lparr>nodes := (nodes st)(a := None)\<rparr>, org) else None)"

partial_function (option) cleanup_loop_panic ::
  "'l list_api \<Rightarrow> nat option \<Rightarrow> nat option \<Rightarrow> 'l panic_list \<Rightarrow> 'l panic_list option" where
  "cleanup_loop_panic A cursor tmp p =
     (case cursor of
        None \<Rightarrow> Some p
      | Some c \<Rightarrow>
          do {
            l \<leftarrow> ls_del A (live (fst p)) c (links (fst p));
            let p = ((fst p)\<lparr>links := l\<rparr>, snd p);
            d \<leftarrow> nodes (fst p) c;
            p \<leftarrow> kfree_node c p;
            nx \<leftarrow> ls_next A (live (fst p)) tmp (links (fst p));
            cleanup_loop_panic A tmp nx p
          })"

definition cleanup_list_panic :: "'l list_api \<Rightarrow> 'l panic_list \<Rightarrow> 'l panic_list option" where
  "cleanup_list_panic A p =
     do {
       cursor \<leftarrow> ls_next A (live (fst p)) None (links (fst p));
       tmp \<leftarrow> ls_next A (live (fst p)) cursor (links (fst p));
       cleanup_loop_panic A cursor tmp p
     }"

definition list_exit_panic :: "'l list_api \<Rightarrow> 'l panic_list \<Rightarrow> 'l panic_list option" where
  "list_exit_panic A p = cleanup_list_panic A p"

subsection \<open>The loop never returns, and its rounds pile up nodes\<close>

lemma init_loop_diverges: "init_loop A alloc n i p = None"
proof -
  have "init_loop A alloc n i p = Some r \<Longrightarrow> False" for r
    by (erule init_loop.raw_induct [where P = "\<lambda>A alloc n i p r. False", rotated]) (auto simp: bind_eq_Some_conv)
  then show ?thesis by (cases "init_loop A alloc n i p") auto
qed

text \<open>The addresses that the first \<open>n\<close> calls of \<open>vmalloc\<close> returned.\<close>

definition vmallocs :: "(nat \<Rightarrow> nat option) \<Rightarrow> nat \<Rightarrow> nat list" where
  "vmallocs alloc n = List.map_filter alloc [0..<n]"

definition alloc_fresh :: "(nat \<Rightarrow> nat option) \<Rightarrow> bool" where
  "alloc_fresh alloc \<longleftrightarrow> (\<forall>m n a. alloc m = Some a \<longrightarrow> alloc n = Some a \<longrightarrow> m = n)"

lemma vmallocs_Suc: "vmallocs alloc (Suc n) = vmallocs alloc n @ (case alloc n of None \<Rightarrow> [] | Some a \<Rightarrow> [a])"
  by (simp add: vmallocs_def List.map_filter_def split: option.splits)

lemma vmallocs_fresh: "alloc_fresh alloc \<Longrightarrow> alloc n = Some a \<Longrightarrow> a \<notin> set (vmallocs alloc n)"
  unfolding alloc_fresh_def by (auto simp: vmallocs_def List.map_filter_def) (metis less_irrefl)

lemma add_node_panic_run:
  assumes "list_api_ok A rel" and "list_inv rel st as" and "nodes st a = None"
  shows "\<exists>st'. add_node_panic A (Some a) v (st, org) = Some (st', org(a := Vmalloc)) \<and> list_inv rel st' (as @ [a])"
  using add_node_run [OF assms, of v] by (auto simp: add_node_panic_def add_node_def Let_def bind_eq_Some_conv)

lemma init_rounds_run:
  assumes "list_api_ok A rel" and "list_inv rel st []" and "alloc_fresh alloc"
  shows "\<exists>st' org'. init_rounds A alloc i0 n (st, org) = Some (st', org') \<and> list_inv rel st' (vmallocs alloc n) \<and>
    (\<forall>a \<in> set (vmallocs alloc n). org' a = Vmalloc)"
proof (induction n)
  case 0
  then show ?case using assms(2) by (simp add: vmallocs_def List.map_filter_def)
next
  case (Suc n)
  then obtain st1 org1 where 1: "init_rounds A alloc i0 n (st, org) = Some (st1, org1)" "list_inv rel st1 (vmallocs alloc n)"
      "\<forall>a \<in> set (vmallocs alloc n). org1 a = Vmalloc"
    by blast
  show ?case
  proof (cases "alloc n")
    case None
    then show ?thesis using 1 by (simp add: vmallocs_Suc add_node_panic_def)
  next
    case (Some a)
    have "nodes st1 a = None" using vmallocs_fresh [OF assms(3) Some] 1(2) by (auto simp: list_inv_def live_def)
    then obtain st2 where "add_node_panic A (Some a) (i0 + word_of_nat n) (st1, org1) = Some (st2, org1(a := Vmalloc))"
        "list_inv rel st2 (vmallocs alloc n @ [a])"
      using add_node_panic_run [OF assms(1) 1(2)] by blast
    then show ?thesis using 1(1,3) Some by (simp add: vmallocs_Suc)
  qed
qed

text \<open>The exit routine is undefined at the first node, and does nothing without nodes.\<close>

lemma list_exit_panic_run:
  assumes "list_api_ok A rel" and "list_inv rel st as" and "\<forall>a \<in> set as. org a = Vmalloc"
  shows "list_exit_panic A (st, org) = (if as = [] then Some (st, org) else None)"
proof (cases as)
  case Nil
  then show ?thesis
    using api_ends(1) [OF assms(1,2)]
    by (simp add: list_exit_panic_def cleanup_list_panic_def) (subst cleanup_loop_panic.simps, simp)
next
  case (Cons a bs)
  then have "org a = Vmalloc" using assms(3) by simp
  have first: "ls_next A (live st) None (links st) = Some (Some a)"
    using api_ends(1) [OF assms(1,2)] Cons by simp
  have "cleanup_loop_panic A (Some a) tmp (st, org) = None" for tmp
    using \<open>org a = Vmalloc\<close>
    by (subst cleanup_loop_panic.simps) (simp add: kfree_node_def Let_def bind_eq_None_conv split: bind_splits)
  then show ?thesis using first Cons by (simp add: list_exit_panic_def cleanup_list_panic_def bind_eq_None_conv split: bind_splits)
qed

subsection \<open>Properties\<close>

text \<open>C38: whatever \<open>vmalloc\<close> returns, \<open>list_init\<close> never returns, failed allocations included. Every round is
  defined, and after any number of rounds the list holds the nodes of all allocations that
  succeeded: memory is never given back. (An exit routine that ran then would pass them to \<open>kfree\<close>.)\<close>

theorem list_init_runs_forever:
  assumes "list_api_ok A rel" and "list_inv rel st []" and "alloc_fresh alloc"
  shows "list_init_panic A alloc i0 (st, org) = None \<and>
    (\<exists>st' org'. init_rounds A alloc i0 n (st, org) = Some (st', org') \<and> list_inv rel st' (vmallocs alloc n) \<and>
       (vmallocs alloc n \<noteq> [] \<longrightarrow> list_exit_panic A (st', org') = None))"
proof -
  obtain st' org' where "init_rounds A alloc i0 n (st, org) = Some (st', org')" "list_inv rel st' (vmallocs alloc n)"
      "\<forall>a \<in> set (vmallocs alloc n). org' a = Vmalloc"
    using init_rounds_run [OF assms, of i0 n org] by blast
  then show ?thesis using list_exit_panic_run [OF assms(1)] by (auto simp: list_init_panic_def init_loop_diverges)
qed

theorem list_init_runs_forever_witness:
  "list_init_panic ring_api (\<lambda>n. if n < 2 then Some n else None) 7
     (\<lparr>nodes = Map.empty, links = ring_empty\<rparr>, \<lambda>a. Kmalloc) = None"
  using list_init_runs_forever [OF ring_api_ok, of "\<lparr>nodes = Map.empty, links = ring_empty\<rparr>"
      "\<lambda>n. if n < 2 then Some n else None" 7 "\<lambda>a. Kmalloc"] ring_empty_rel
  by (simp add: list_inv_def live_def alloc_fresh_def)

end
