(* ===== verification/Snippets.thy ===== *)
theory Snippets
  imports KernelResources
begin

section \<open>Modules of a few lines: 000\_hello\_world, and hexdump.c, init\_exit\_data.c, panic.c of 001\_driver\_misc\<close>

text \<open>
  What these modules do is what they log. \<open>printk\<close> is kernel code: a line of the log is the format
  with the values of its arguments. \<open>print_hex_dump\<close> is the argument \<open>dump\<close>: the lines it logs
  for its arguments.
\<close>

type_synonym klog = "(string \<times> int list) list"

subsection \<open>hello.c\<close>

text \<open>\<open>now\<close> is what \<open>ktime_get_real_ts64\<close> puts into \<open>tv_sec\<close>.\<close>

definition hello_init :: "loff_t \<Rightarrow> klog \<times> ret" where
  "hello_init now =
     ([(''Module loaded at %lld seconds since epoch'', [sint now]), (''Hello, Sk Anisuddin Ahmed!'', [])], Inr 0)"

definition hello_exit :: klog where
  "hello_exit = [(''Goodbye, Module unloaded'', [])]"

subsection \<open>hexdump.c\<close>

record hex_args =
  hx_prefix :: string
  hx_rowsize :: nat
  hx_groupsize :: nat
  hx_bytes :: "byte list"
  hx_ascii :: bool

definition rx_buf :: "byte list" where
  "rx_buf =
     [0x9F, 0xEF, 0x40, 0x18, 0xAA, 0x55, 0x01, 0x02, 0x10, 0x20, 0x30, 0x40, 0xDE, 0xAD, 0xBE, 0xEF]"

definition spi_dump_init :: "(hex_args \<Rightarrow> klog) \<Rightarrow> (klog \<times> ret) option" where
  "spi_dump_init dump =
     do {
       bytes \<leftarrow> mem_read rx_buf 0 (length rx_buf);
       Some ((''SPI RX buffer dump:'', []) #
             dump \<lparr>hx_prefix = ''spi_rx: '', hx_rowsize = 16, hx_groupsize = 1, hx_bytes = bytes, hx_ascii = True\<rparr>,
             Inr 0)
     }"

definition spi_dump_exit :: klog where
  "spi_dump_exit = [(''SPI dump module exit'', [])]"

subsection \<open>init\_exit\_data.c\<close>

text \<open>
  \<open>init_val\<close> lies in the section \<open>.init.data\<close>, which the loader frees when init has returned zero,
  \<open>exit_val\<close> in \<open>.exit.data\<close>, which stays until the module is unloaded. A section that is not there
  is none, and reading from it is \<open>None\<close>.
\<close>

record sections =
  init_data :: "cint option"
  exit_data :: "cint option"

definition section_load :: sections where
  "section_load = \<lparr>init_data = Some 10, exit_data = Some 20\<rparr>"

definition my_init_data :: "sections \<Rightarrow> (klog \<times> ret) option" where
  "my_init_data s = do { v \<leftarrow> init_data s; Some ([(''init: init_val=%d'', [sint v])], Inr 0) }"

definition my_exit_data :: "sections \<Rightarrow> klog option" where
  "my_exit_data s = do { v \<leftarrow> exit_data s; Some [(''exit: exit_val=%d'', [sint v])] }"

definition load_unload_data :: "klog option" where
  "load_unload_data =
     do {
       (l1, r) \<leftarrow> my_init_data section_load;
       (case r of
          Inl e \<Rightarrow> Some l1
        | Inr n \<Rightarrow> do { l2 \<leftarrow> my_exit_data (section_load\<lparr>init_data := None\<rparr>); Some (l1 @ l2) })
     }"

text \<open>The exit routine does not read the value whose section is gone by then; the init routine would.\<close>

lemma load_unload_data_run:
  "load_unload_data = Some [(''init: init_val=%d'', [10]), (''exit: exit_val=%d'', [20])]"
  "my_init_data (section_load\<lparr>init_data := None\<rparr>) = None"
  by (simp_all add: load_unload_data_def my_init_data_def my_exit_data_def section_load_def)

subsection \<open>panic.c\<close>

text \<open>\<open>panic\<close> does not return: what stands behind it in the init routine is not reached.\<close>

datatype 'a run_result = Finished klog 'a | Panicked klog string

definition and_then :: "'a run_result \<Rightarrow> ('a \<Rightarrow> 'b run_result) \<Rightarrow> 'b run_result" where
  "and_then c f =
     (case c of
        Panicked l msg \<Rightarrow> Panicked l msg
      | Finished l x \<Rightarrow>
          (case f x of Finished l' y \<Rightarrow> Finished (l @ l') y | Panicked l' msg \<Rightarrow> Panicked (l @ l') msg))"

definition panic_init :: "ret run_result" where
  "panic_init =
     and_then (Finished [(''kernel panic now'', [])] ())
       (\<lambda>_. and_then (Panicked [] ''simulated kernel panic'') (\<lambda>x :: unit. Finished [] (Inr 0)))"

definition panic_exit :: klog where
  "panic_exit = [(''panic exit'', [])]"

lemma panic_init_run: "panic_init = Panicked [(''kernel panic now'', [])] ''simulated kernel panic''"
  by (simp add: panic_init_def and_then_def)

end
