(* ===== verification/Spec2Isabelle.thy ===== *)
theory Spec2Isabelle
  imports StorageUser StorageConcurrency StorageLinearizable KeypadDriver QueueConcurrency MultiDevConcurrency
    CharSkeleton DualApps DualRaces LightDevice TempSensor LedSysfs TempLog MiscDevice MultiReaderRaces IrqRaces GpioDevices
    PowerMgmt SharedIrq KthreadDemo LinkedList DeferredWork TimerClock Allocations PlatformBus DeviceTree MinorDevices
    AtomicRaces ModuleStart SkelRaces FileSpecs ModuleDeps SensorModules SysfsTables PanicTest Snippets
begin

text \<open>
  Verification of the Linux device driver examples.

  The repository is a collection of loadable kernel modules, one directory each, most of them
  with a test program. A module registers kernel objects in its init routine, serves system calls
  on a character device (or accesses to sysfs attributes) through its handlers, and gives the
  objects back in its exit routine. The development models the handlers, the init and exit
  routines and the test programs of the modules listed below as executable definitions, and
  proves what they promise; where the code breaks its promise, the theorem says what it does
  instead.

  How the code is modelled (theory LddPrelude).
  \<^item> A module's static variables are a record; a handler is a function from the arguments of
    the call and the record to the new record, the new file position, the bytes delivered to
    the user and the return value. Return values are \<open>errno + size_t\<close>: a negative errno is
    \<open>Inl\<close>.
  \<^item> Undefined behaviour is \<open>None\<close>: an array access outside its bounds (\<open>mem_read\<close>,
    \<open>mem_write\<close>, \<open>arr_get\<close>, \<open>arr_set\<close>), a C string without its NUL (\<open>c_string\<close>), a mutex locked
    twice or unlocked when free, a kernel object given back that is not held, a use of freed
    memory. A theorem that a run is \<open>Some\<close> is therefore a memory safety and deadlock freedom
    theorem.
  \<^item> Integers keep their width (\<open>cint\<close>, \<open>size_t\<close>, \<open>loff_t\<close> are words), and comparisons are
    signed or unsigned as the C conversions make them. The indices of the ring of 002 are
    integers, bounded by its invariant.
  \<^item> Code outside the repository is a parameter: user memory and signals are the record
    \<open>uenv\<close> with its contract \<open>uaccess_ok\<close> (\<open>ready\<close> when all of it is accessible and no signal
    is pending), the VFS contract is \<open>vfs_ok\<close>, the registration calls are \<open>kapi\<close>, the file system
    is \<open>fsenv\<close>, \<open>simple_read_from_buffer\<close> is \<open>srfb\<close>, \<open>sysfs_emit\<close> is \<open>emit\<close>, \<open>kstrtoint\<close> and
    \<open>kstrtouint\<close> are arguments, the way of a program to an attribute is \<open>sysfs_env\<close>, the calls of
    a probe are \<open>sensor_env\<close>, the device tree is \<open>of_node\<close>, \<open>linux/list.h\<close> is \<open>list_api\<close>. Each
    contract has a concrete instance (\<open>user_mem\<close>, \<open>chunk_fs\<close>, \<open>simple_read\<close>, \<open>page_emit\<close>,
    \<open>decimal_kstrtoint\<close>, \<open>demo_sysfs\<close>, the pointer ring \<open>ring_api\<close>), so the witnesses can
    discharge it.
  \<^item> In the theory of a driver, a handler runs to its end, or to the place where it sleeps,
    without another one in between. Nine theories go below that: they run the same code
    statement by statement (copies byte by byte) in any number of processes. For the modules
    with a lock (the queue of 002, the storage device of 003, the devices of 010) they show what
    the lock secures and what lies outside of it; for the modules without one (004, 005, 011,
    012, 014, 021) whether they stay inside their memory (a read of 011 does not), and which messages get lost, torn or delivered too
    often, or which counts are wrong.
  \<^item> Threads, timers, tasklets and interrupts are steps of a relation or events of a sequence;
    what the kernel does between them (when a timer fires, which thread runs, whether a thread
    could be created) is left open, so the theorems hold for all of it.

  Interfaces and what rests on them.
  \<^item> KernelResources: the objects a module registers, and the locale \<open>clean_module\<close>: init either
    fails and leaves nothing behind or holds exactly the module's objects, exit gives them back.
    Its lemma \<open>session_balanced\<close> covers every sequence of loads and unloads with any failures. It
    is interpreted by the storage, two-device, skeleton, misc and interrupt modules. The
    modules that do not keep the contract have their own theorems (keypad, pollable devices).
  \<^item> SeekDevice: the locale \<open>seek_device\<close>, a buffer behind read and write at a file position; its
    lemmas are the write-read round trip and that reading until end of file returns the contents
    for every piece size. It is interpreted by the storage device, by each of the two devices of
    010 and by the skeleton driver.
  \<^item> KeyQueue: the locale \<open>bounded_queue\<close>, a queue that refines a list of bounded length;
    interpreted by the ring of 002, and used by the keypad driver and by the concurrent queue
    only through its laws.
  \<^item> Interleaving: programs of statements and the locale \<open>owicki_gries\<close> (an invariant, an
    assertion at every program counter, no interference), with \<open>process_local\<close>, whose assertions
    are about local variables only, as a special case by \<open>sublocale\<close>. It is interpreted twice each
    by the queue (linearizability; bounds with \<open>queue_empty\<close>) and by the storage device (bounds and
    exclusion; a locked sector and its mirror), and by the devices of 004, 005, 012, 014 and 021.
  \<^item> LockedCalls: handlers that look at their arguments, take the lock of their device, work and
    give it back, for any number of devices. The locale \<open>locked_calls\<close>, itself an instance of
    \<open>owicki_gries\<close>, has their linearizability and exclusion; \<open>ending_calls\<close> extends it by a measure
    and has that every call can be completed. Interpreted by the two-device driver and by the
    storage device.
  \<^item> KthreadDemo: the locale \<open>two_threads\<close>, the life of two kernel threads between load and unload;
    interpreted by 026, 023 and the kernel threads of 001.
  \<^item> ModuleStart: init routines as lists of statements with calls in between, and the locale
    \<open>safe_start\<close>, that the data are in order before the device is published. Interpreted by the
    storage device and by each device of 010; 004 and 014 do not keep it.
  \<^item> FileOps: the tables of file operations, open files with their positions, and the locale
    \<open>char_device\<close> (every handler in a table is defined under an invariant and keeps it), with the lemma
    that every session of system calls is defined. \<open>counted_device\<close> extends it: no call delivers or
    reports more than its count. 003, 009 and 011 are counted devices; 001 (log and misc device),
    002, 004, 005 and 021 only the first, and most of them provably not more.
  \<^item> FileSpecs: the locale \<open>file_refinement\<close>, a table that gives what a table over a simpler state gives;
    its lemma carries that over to every session of system calls. The storage device refines
    eight sectors with a lock and a copy each, the keypad a list of pending keys.
  \<^item> SysfsTables: the same for tables of attributes, with the locale \<open>attr_table\<close> (what is shown fits
    its page, no store takes more than it is given); interpreted by 006, 007, 016, 018, 019, 020, 021.
  \<^item> ModuleDeps: modules that import functions of others, and the locale \<open>module_stack\<close>, where each
    module guards a part of the invariant; interpreted by the modules of 001, 002 and 003. The
    loader is an argument with the contract \<open>loader_ok\<close>.
  \<^item> DeferredWork: the locale \<open>quiet_exit\<close>, a deferred routine whose exit waits for it;
    interpreted by 029, 031 (first module) and 032. 028 does not keep it.
  \<^item> LinkedList: the contract \<open>list_api_ok\<close> of the kernel's list routines, met by a ring of next
    and previous pointers.

  Components.
  \<^item> 003 storage device: StorageMirror (\<open>storage_mirror_kernel.c\<close>: the mirror, the backup
    loop), StorageDevice (\<open>storage_kernel.c\<close>: read, write with the sector locks, the six ioctls,
    init and exit, and sequences of system calls), StorageUser (\<open>storage_user.c\<close> run against
    the driver), StorageConcurrency (reads, writes and the six ioctls by statements: exclusion, a locked
    sector is frozen and its mirror exact in every interleaving, a backup file is an exact prefix of the
    mirror, other mirrors may be torn),
    StorageLinearizable (all calls under \<open>storage_mutex\<close>, reads and queries too, against the
    handlers of StorageDevice).
  \<^item> 002 keypad: KeyQueue (\<open>queue_kernel.[ch]\<close>), KeypadDriver (\<open>keypad_helper_kernel.c\<close>,
    \<open>key_kernel.c\<close>, \<open>key_user.c\<close>), refined to a list of pending keys; QueueConcurrency (the queue
    by statements: linearizable, free of deadlock, and broken by \<open>queue_empty\<close>).
  \<^item> 010 two devices: MultiDev (all handlers, attributes, the init loop with its roll-back;
    open files and sequences of operations), MultiDevConcurrency (file operations and attributes
    by statements, on both devices at a time).
  \<^item> 009 several minors: MinorDevices.
  \<^item> 011 skeleton: CharSkeleton, SkelRaces (by statements). 001 misc device: MiscDevice. 001 temperature log: TempLog.
  \<^item> 014 pollable devices: DualPoll (the handlers of \<open>poll.c\<close> as functions, init and exit), DualRaces
    (read and write by statements, without a lock, with the wait queue, the wake-up and signals: no
    access leaves the buffers, no reader sleeps through an event, but a message can be lost), DualApps
    (\<open>poll_app.c\<close>, \<open>select_app.c\<close>, \<open>epoll_app.c\<close>, the last two proved equivalent device by device,
    whatever the order in which \<open>epoll_wait\<close> reports).
  \<^item> 012 several readers: MultiReader (\<open>driver.c\<close>, \<open>app.c\<close>), MultiReaderRaces (by statements).
  \<^item> 021 interrupts: IrqDemo (\<open>irq_handler_kernel.c\<close>, deferred work as events,
    \<open>irq_handler_user.c\<close>), IrqRaces (counters, resets and reports by statements). 022 keyboard and 027 signals: SharedIrq (shared interrupt lines,
    processes, forks and files; \<open>sigusr.c\<close>).
  \<^item> 004 and 005 atomics: TempSensor, LightDevice with their test programs, AtomicRaces
    (both access by access). 006 attributes:
    LedSysfs. 007 and 019 GPIO: GpioDevices.
  \<^item> 015 platform driver: PlatformBus. 016 and 018 platform sensors: PlatformSensor; both modules of
    016 on a bus, with programs that use the attributes meanwhile: SensorModules. 017 and 018
    with their overlays and programs: DeviceTree (the routines of 017 are those of 016 word for
    word; each program with the paths of its own file, of which only those of 017 lead to the
    device of 016). 020 power management: PowerMgmt.
  \<^item> 023, 026 and \<open>001_driver_misc/kThread.c\<close>: KthreadDemo (kernel threads as interleaved steps,
    with a liveness theorem for the unload). 028 to 032: DeferredWork; the timers of 028 and 029
    on a clock: TimerClock. 024 linked list:
    LinkedList. 025 panic test: PanicTest, over the same list routines. 008: Allocations. 000 and the
    other small modules of 001: Snippets.
  CText holds the formatted output and the number parsing the attributes and programs use.

  Fuel and termination. The backup loop is \<open>partial_function\<close>, because a file system that makes
  no progress keeps it running; \<open>backup_exact\<close> shows that it returns under the file system's
  contract. \<open>drain\<close> and the loops of LinkedList are partial too and shown to return from every
  state of their invariants. The reader loops \<open>read_all\<close> and \<open>read_until_eagain\<close> are programs of
  the client; one call more than the bytes to read (two for \<open>EAGAIN\<close>) is enough fuel, which their
  theorems state. Endless loops of programs and threads are sequences of iterations or steps
  of any length. All other loops are structural or have a measure.

  \<open>init_loop\<close> of PanicTest is partial because it has no end: it is shown to be undefined, and all its
  finite prefixes to be defined.

  Not modelled: what the kernel does with the log lines (only Snippets, whose modules do nothing
  else, keeps them), writes to module parameters through sysfs, and the include and \<open>MODULE_\<close> lines
  of the files. Calls that come in while an init routine still runs are in ModuleStart, for loads
  that succeed (and for the failing load of 010). Files that do not compile as they
  stand are read as follows. 001 (log): the missing parenthesis of line 30 is added. 006: the third attribute
  has the row of backquotes of the file as its name. 009: the two names of each object are one.
  019: a line of the remove routine that has slipped into the table behind it is put back.
  025: the value is stored in the node as in 024, and the second argument of \<open>vmalloc\<close> is dropped.
\<close>

end
